(* ===== verification/Prelude.thy ===== *)
theory Prelude
  imports Main "HOL-Library.Word"
begin

text \<open>
  What the components share: bytes and C strings as lists of characters, reads of a
  NUL-terminated buffer, the arithmetic meaning of the bit operations the C code uses, and
  generic lemmas on lists.  The collections \<open>bytes\<close> (facts that turn byte and bit
  expressions into arithmetic) and \<open>steps\<close> (unfolding rules of loop functions that
  are not simplification rules) carry the component proofs.
\<close>

unbundle bit_operations_syntax

named_theorems bytes "bit and byte expressions of the C code as arithmetic"
named_theorems steps "defining equations of the loops, used one unfolding at a time"

section \<open>Bytes and C strings\<close>

text \<open>
  A C string is the list of its bytes without the terminating NUL.  \<open>rd s i\<close> is the
  unsigned value of the byte at offset \<open>i\<close>; at the offset just after the last byte it
  reads the terminator.  A C \<open>int\<close> whose value cannot overflow in the code is an \<open>int\<close>.
\<close>

definition rd :: "string \<Rightarrow> nat \<Rightarrow> int" where
  "rd s i = (if i < length s then of_char (s ! i) else 0)"

lemma rd_Nil [simp]: "rd [] i = 0"
  by (simp add: rd_def)

lemma rd_Cons_0 [simp]: "rd (c # s) 0 = of_char c"
  by (simp add: rd_def)

lemma rd_Cons_Suc [simp]: "rd (c # s) (Suc i) = rd s i"
  by (simp add: rd_def)

lemma rd_Cons_1 [simp]: "rd (c # s) 1 = rd s 0"
  by (simp add: rd_def)

lemma rd_Cons_2 [simp]: "rd (c # s) 2 = rd s 1"
  by (simp add: rd_def numeral_2_eq_2)

lemma rd_append [simp]: "i < length s \<Longrightarrow> rd (s @ t) i = rd s i"
  by (simp add: rd_def nth_append)

lemma rd_append_right [simp]: "rd (xs @ ys) (length xs + k) = rd ys k"
  by (simp add: rd_def nth_append)

lemma rd_drop: "rd (drop n s) i = rd s (n + i)"
  by (auto simp: rd_def)

lemma of_char_ge_0 [simp]: "(0::int) \<le> of_char c"
  by (simp add: of_char_def split: char.splits)

lemma of_char_less_256 [simp]: "(of_char c :: int) < 256"
proof -
  have "(of_char c :: int) mod 256 = of_char c"
    by (metis char_of_char of_char_of)
  then show ?thesis
    by (metis pos_mod_bound zero_less_numeral)
qed

lemma rd_ge_0 [simp]: "0 \<le> rd s i"
  by (simp add: rd_def)

lemma rd_less_256 [simp]: "rd s i < 256"
  by (simp add: rd_def)

lemma rd_length_nonzero: "rd s i \<noteq> 0 \<Longrightarrow> i < length s"
  by (simp add: rd_def split: if_splits)

lemma of_char_zero_iff [simp]: "((of_char c :: int) = 0) = (c = CHR 0x00)"
  using of_char_eq_iff [where 'a = int, of c "CHR 0x00"] by (simp del: of_char_eq_iff)

text \<open>The byte itself, as the \<open>switch\<close> statements of the C code see it.\<close>

definition chr_at :: "string \<Rightarrow> nat \<Rightarrow> char" where
  "chr_at s i = (if i < length s then s ! i else CHR 0x00)"

lemma of_chr_at: "of_char (chr_at s i) = rd s i"
  by (simp add: chr_at_def rd_def)

lemma chr_at_Nil [simp]: "chr_at [] i = CHR 0x00"
  by (simp add: chr_at_def)

lemma chr_at_Cons_0 [simp]: "chr_at (c # s) 0 = c"
  by (simp add: chr_at_def)

lemma chr_at_Cons_Suc [simp]: "chr_at (c # s) (Suc i) = chr_at s i"
  by (simp add: chr_at_def)

lemma chr_at_append [simp]: "i < length s \<Longrightarrow> chr_at (s @ t) i = chr_at s i"
  by (simp add: chr_at_def nth_append)

lemma chr_at_append_right [simp]: "chr_at (xs @ ys) (length xs + k) = chr_at ys k"
  by (simp add: chr_at_def nth_append)

lemma chr_at_append_length [simp]: "chr_at (xs @ ys) (length xs) = chr_at ys 0"
  using chr_at_append_right [of xs ys 0] by simp

lemma chr_at_drop [simp]: "chr_at (drop n s) i = chr_at s (n + i)"
  by (auto simp: chr_at_def)

lemma chr_at_take [simp]: "i < n \<Longrightarrow> chr_at (take n s) i = chr_at s i"
  by (simp add: chr_at_def)

text \<open>A signed 32-bit sum that may have wrapped.\<close>

definition INT_MAX :: int where "INT_MAX = 2147483647"

definition int32 :: "int \<Rightarrow> int" where
  "int32 x = (x + 2147483648) mod 4294967296 - 2147483648"

lemma int32_id [simp]: "- 2147483648 \<le> x \<Longrightarrow> x \<le> 2147483647 \<Longrightarrow> int32 x = x"
  by (simp add: int32_def)

lemma int32_overflow: "2147483648 \<le> x \<Longrightarrow> x < 4294967296 \<Longrightarrow> int32 x < 0"
proof -
  assume x: "2147483648 \<le> x" "x < 4294967296"
  have "(x + 2147483648) mod 4294967296 = (x + 2147483648 - 4294967296) mod 4294967296"
    by (simp only: minus_mod_self2)
  also have "\<dots> = x + 2147483648 - 4294967296" using x by (intro mod_pos_pos_trivial) auto
  finally show ?thesis using x by (simp add: int32_def)
qed

section \<open>Bit operations as arithmetic\<close>

lemma or_disjoint_add:
  fixes x y :: int
  assumes "x mod 2 ^ n = 0" and "0 \<le> y" and "y < 2 ^ n"
  shows "x OR y = x + y"
proof -
  have x: "x = push_bit n (x div 2 ^ n)"
    using div_mult_mod_eq [of x "2 ^ n"] assms(1) by (simp add: push_bit_eq_mult)
  have y: "y = take_bit n y"
    using assms(2,3) by (simp add: take_bit_eq_mod)
  have "x AND y = 0"
    by (subst x, subst y) (simp add: bit_eq_iff bit_simps)
  then show ?thesis by (simp add: disjunctive_add_eq_or)
qed

lemma and_low_bits [bytes]:
  "(x::int) AND 0x07 = x mod 8"
  "x AND 0x0F = x mod 16"
  "x AND 0x1F = x mod 32"
  "x AND 0x3F = x mod 64"
  "x AND 0xFF = x mod 256"
  using take_bit_eq_mask [of 3 x] take_bit_eq_mask [of 4 x] take_bit_eq_mask [of 5 x]
    take_bit_eq_mask [of 6 x] take_bit_eq_mask [of 8 x]
  by (simp_all add: take_bit_eq_mod mask_eq_exp_minus_1)

lemma and_C0 [bytes]: "(x::int) AND 0xC0 = 64 * (x div 64 mod 4)"
proof -
  have "(192::int) = push_bit 6 (mask 2)" by (simp add: mask_eq_exp_minus_1 push_bit_eq_mult)
  moreover have "x AND push_bit 6 (mask 2) = push_bit 6 (take_bit 2 (drop_bit 6 x))"
    by (auto simp: bit_eq_iff bit_simps)
  ultimately show ?thesis by (simp add: push_bit_eq_mult take_bit_eq_mod drop_bit_eq_div)
qed

lemma trail_byte_or [bytes]: "((x::int) OR 0x80) AND 0xBF = 0x80 + x mod 64"
proof -
  have e: "(0xBF::int) = 0x80 OR mask 6" by (simp add: mask_eq_exp_minus_1)
  have "(x OR 0x80) AND 0xBF = 0x80 OR take_bit 6 x"
    unfolding e take_bit_eq_mask
    by (simp only: bit.conj_disj_distrib bit.conj_disj_distrib2) (auto simp: bit_eq_iff bit_simps)
  also have "\<dots> = 0x80 + take_bit 6 x"
    by (rule or_disjoint_add [of _ 6]) (simp_all add: take_bit_eq_mod)
  finally show ?thesis by (simp add: take_bit_eq_mod)
qed

lemma lead_byte_or [bytes]:
  "0 \<le> x \<Longrightarrow> x < 32 \<Longrightarrow> (x::int) OR 0xC0 = 0xC0 + x"
  "0 \<le> x \<Longrightarrow> x < 16 \<Longrightarrow> x OR 0xE0 = 0xE0 + x"
  using or_disjoint_add [of 192 5 x] or_disjoint_add [of 224 4 x]
  by (simp_all add: or.commute add.commute)

lemma shift_or [bytes]:
  "0 \<le> y \<Longrightarrow> y < 64 \<Longrightarrow> push_bit 6 (x::int) OR y = 64 * x + y"
  "0 \<le> y \<Longrightarrow> y < 4096 \<Longrightarrow> push_bit 12 (x::int) OR y = 4096 * x + y"
  using or_disjoint_add [of "push_bit 6 x" 6 y] or_disjoint_add [of "push_bit 12 x" 12 y]
  by (simp_all add: push_bit_eq_mult)

section \<open>Lists\<close>

lemma take_drop_split: "n \<le> length xs \<Longrightarrow> xs = ys @ zs \<Longrightarrow> length ys = n \<Longrightarrow> take n xs = ys \<and> drop n xs = zs"
  by auto

lemma drop_less: "0 < n \<Longrightarrow> xs \<noteq> [] \<Longrightarrow> length (drop n xs) < length xs"
  by (cases xs) auto

text \<open>
  Moving a pointer forward in a buffer: the position just after the terminating NUL is the
  last one a C program may form, and nothing may be read there, so a pointer that has moved
  past the terminator is \<open>None\<close>.
\<close>

definition advance :: "'a list \<Rightarrow> nat \<Rightarrow> 'a list option" where
  "advance s n = (if n \<le> length s then Some (drop n s) else None)"

lemma advance_append [simp]: "advance (xs @ ys) (length xs) = Some ys"
  by (simp add: advance_def)

section \<open>Codecs\<close>

text \<open>
  The contract between an encoder and a decoder that reads one unit from the front of its
  input and reports how much it consumed.  Everything that is said about strings of encoded
  units follows from it.
\<close>

locale codec =
  fixes enc :: "'c \<Rightarrow> 'b list"
    and dec :: "'b list \<Rightarrow> 'c \<times> nat"
    and valid :: "'c \<Rightarrow> bool"
  assumes dec_enc: "valid c \<Longrightarrow> dec (enc c @ rest) = (c, length (enc c))"
    and enc_nonempty: "valid c \<Longrightarrow> enc c \<noteq> []"
begin

definition encs :: "'c list \<Rightarrow> 'b list" where
  "encs cs = concat (map enc cs)"

lemma encs_Nil [simp]: "encs [] = []"
  by (simp add: encs_def)

lemma encs_Cons [simp]: "encs (c # cs) = enc c @ encs cs"
  by (simp add: encs_def)

lemma encs_append [simp]: "encs (cs @ ds) = encs cs @ encs ds"
  by (simp add: encs_def)

lemma encs_eq_Nil [simp]: "\<forall>c\<in>set cs. valid c \<Longrightarrow> encs cs = [] \<longleftrightarrow> cs = []"
  by (cases cs) (simp_all add: enc_nonempty)

lemma enc_inj: "valid c \<Longrightarrow> valid d \<Longrightarrow> enc c @ s = enc d @ t \<Longrightarrow> c = d \<and> s = t"
  using dec_enc [of c s] dec_enc [of d t] by auto

lemma encs_inj:
  "\<forall>c\<in>set cs. valid c \<Longrightarrow> \<forall>d\<in>set ds. valid d \<Longrightarrow> encs cs = encs ds \<Longrightarrow> cs = ds"
proof (induction cs arbitrary: ds)
  case Nil
  then show ?case by (cases ds) (simp_all add: enc_nonempty)
next
  case (Cons c cs)
  from Cons.prems obtain d ds' where ds: "ds = d # ds'"
    by (cases ds) (simp_all add: enc_nonempty)
  with Cons.prems have v: "valid c" "valid d" and e: "enc c @ encs cs = enc d @ encs ds'" by simp_all
  from enc_inj [OF v e] Cons.IH [of ds'] Cons.prems ds show ?case by simp
qed

lemma length_encs: "\<forall>c\<in>set cs. valid c \<Longrightarrow> length cs \<le> length (encs cs)"
proof (induction cs)
  case (Cons c cs)
  then have "Suc 0 \<le> length (enc c)" using enc_nonempty [of c] by (cases "enc c") auto
  with Cons show ?case by simp
qed simp

end

end
