(* ===== verification/HashTbl.thy ===== *)
theory HashTbl
  imports Prelude "HOL-Library.Multiset"
begin

text \<open>
  Hash tables, from \<open>tcl8.6/generic/tclHash.c\<close> and the structures of \<open>tcl.h\<close>, compiled with
  \<open>TCL_HASH_KEY_STORE_HASH\<close> on a machine with 64-bit \<open>long\<close> and pointers.  A chain of
  entries linked by \<open>nextPtr\<close> is the list of its entries; a pointer to an entry is the
  address \<open>addr\<close> that the allocator returned for it.  The \<open>union\<close> of keys is a datatype; a key of a
  custom type is a pointer and what it points to; a key is a value, so the shortcut that compares the key pointer with the entry's own address
  never applies.  \<open>freeEntryProc\<close> only releases memory and is left out.
\<close>

section \<open>Keys and key types\<close>

datatype 'c hash_key =
    String string
  | OneWord "64 word"
  | Words "32 word list"
  | Custom "64 word" 'c

definition TCL_STRING_KEYS :: int where "TCL_STRING_KEYS = 0"
definition TCL_ONE_WORD_KEYS :: int where "TCL_ONE_WORD_KEYS = 1"
definition TCL_CUSTOM_TYPE_KEYS :: int where "TCL_CUSTOM_TYPE_KEYS = - 2"
definition TCL_CUSTOM_PTR_KEYS :: int where "TCL_CUSTOM_PTR_KEYS = - 1"

lemmas key_type_defs = TCL_STRING_KEYS_def TCL_ONE_WORD_KEYS_def TCL_CUSTOM_TYPE_KEYS_def TCL_CUSTOM_PTR_KEYS_def

text \<open>
  The methods of a key type; \<open>allocEntryProc\<close> yields the key held by the new entry and the
  value it leaves in \<open>clientData\<close>.
\<close>

definition TCL_HASH_KEY_RANDOMIZE_HASH :: int where "TCL_HASH_KEY_RANDOMIZE_HASH = 1"

record 'c key_type =
  typeFlags :: int
  hashKeyProc :: "('c hash_key \<Rightarrow> 32 word) option"
  compareKeysProc :: "('c hash_key \<Rightarrow> 'c hash_key \<Rightarrow> bool) option"
  allocEntryProc :: "('c hash_key \<Rightarrow> 'c hash_key \<times> nat) option"

text \<open>Strings: multiply by nine and add the next byte, on 32-bit unsigned values.\<close>

fun HashString_loop :: "32 word \<Rightarrow> string \<Rightarrow> 32 word" where
  "HashString_loop result [] = result"
| "HashString_loop result (c # s) =
     (if c = CHR 0x00 then result
      else HashString_loop (result + (push_bit 3 result + of_char c)) s)"

fun HashStringKey :: "'c hash_key \<Rightarrow> 32 word" where
  "HashStringKey (String s) =
     (let result = of_char (chr_at s 0) in
      if result \<noteq> 0 then HashString_loop result (drop 1 s) else result)"
| "HashStringKey _ = 0"

fun CompareStringKeys :: "'c hash_key \<Rightarrow> 'c hash_key \<Rightarrow> bool" where
  "CompareStringKeys (String p1) (String p2) \<longleftrightarrow> p1 = p2"
| "CompareStringKeys _ _ \<longleftrightarrow> False"

definition AllocStringEntry :: "'c hash_key \<Rightarrow> 'c hash_key \<times> nat" where
  "AllocStringEntry k = (k, 0)"

text \<open>Arrays of \<open>count\<close> words.\<close>

fun HashArray_loop :: "nat \<Rightarrow> 32 word list \<Rightarrow> 32 word \<Rightarrow> 32 word" where
  "HashArray_loop (Suc cnt) (w # array) result = HashArray_loop cnt array (result + w)"
| "HashArray_loop _ _ result = result"

fun HashArrayKey :: "nat \<Rightarrow> 'c hash_key \<Rightarrow> 32 word" where
  "HashArrayKey cnt (Words array) = HashArray_loop cnt array 0"
| "HashArrayKey cnt _ = 0"

fun CompareArray_loop :: "nat \<Rightarrow> 32 word list \<Rightarrow> 32 word list \<Rightarrow> bool" where
  "CompareArray_loop 0 _ _ \<longleftrightarrow> True"
| "CompareArray_loop (Suc cnt) (v # vs) (w # ws) \<longleftrightarrow> (if v \<noteq> w then False else CompareArray_loop cnt vs ws)"
| "CompareArray_loop (Suc cnt) _ _ \<longleftrightarrow> False"

fun CompareArrayKeys :: "nat \<Rightarrow> 'c hash_key \<Rightarrow> 'c hash_key \<Rightarrow> bool" where
  "CompareArrayKeys cnt (Words p1) (Words p2) \<longleftrightarrow> CompareArray_loop cnt p1 p2"
| "CompareArrayKeys cnt _ _ \<longleftrightarrow> False"

fun AllocArrayEntry :: "nat \<Rightarrow> 'c hash_key \<Rightarrow> 'c hash_key \<times> nat" where
  "AllocArrayEntry cnt (Words array) = (Words (take cnt array), 0)"
| "AllocArrayEntry cnt k = (k, 0)"

definition tclArrayHashKeyType :: "nat \<Rightarrow> 'c key_type" where
  "tclArrayHashKeyType cnt = \<lparr>typeFlags = TCL_HASH_KEY_RANDOMIZE_HASH, hashKeyProc = Some (HashArrayKey cnt),
     compareKeysProc = Some (CompareArrayKeys cnt), allocEntryProc = Some (AllocArrayEntry cnt)\<rparr>"

definition tclOneWordHashKeyType :: "'c key_type" where
  "tclOneWordHashKeyType = \<lparr>typeFlags = 0, hashKeyProc = None, compareKeysProc = None, allocEntryProc = None\<rparr>"

definition tclStringHashKeyType :: "'c key_type" where
  "tclStringHashKeyType = \<lparr>typeFlags = 0, hashKeyProc = Some HashStringKey,
     compareKeysProc = Some CompareStringKeys, allocEntryProc = Some AllocStringEntry\<rparr>"

section \<open>Tables\<close>

record 'c hash_entry =
  addr :: nat
  hash :: "32 word"
  clientData :: nat
  key :: "'c hash_key"

text \<open>
  \<open>deleted\<close> says that \<open>findProc\<close> and \<open>createProc\<close> are \<open>BogusFind\<close> and \<open>BogusCreate\<close>.
\<close>

record 'c hash_table =
  buckets :: "'c hash_entry list list"
  numBuckets :: nat
  numEntries :: int
  rebuildSize :: int
  downShift :: nat
  mask :: int
  keyType :: int
  typePtr :: "'c key_type"
  deleted :: bool

definition Tcl_InitCustomHashTable :: "int \<Rightarrow> 'c key_type \<Rightarrow> 'c hash_table" where
  "Tcl_InitCustomHashTable kt tp =
     \<lparr>buckets = replicate 4 [], numBuckets = 4, numEntries = 0, rebuildSize = 4 * 3, downShift = 28,
      mask = 3, keyType = kt, typePtr = tp, deleted = False\<rparr>"

text \<open>\<open>typePtr\<close> is not assigned here: it keeps the value it had.\<close>

definition Tcl_InitHashTable :: "int \<Rightarrow> 'c key_type \<Rightarrow> 'c hash_table" where
  "Tcl_InitHashTable kt old = Tcl_InitCustomHashTable kt old"

text \<open>The selection of the key type that every operation starts with.\<close>

definition table_type :: "'c hash_table \<Rightarrow> 'c key_type" where
  "table_type t =
     (if keyType t = TCL_STRING_KEYS then tclStringHashKeyType
      else if keyType t = TCL_ONE_WORD_KEYS then tclOneWordHashKeyType
      else if keyType t = TCL_CUSTOM_TYPE_KEYS \<or> keyType t = TCL_CUSTOM_PTR_KEYS then typePtr t
      else tclArrayHashKeyType (nat (keyType t)))"

definition RANDOM_INDEX :: "'c hash_table \<Rightarrow> int \<Rightarrow> nat" where
  "RANDOM_INDEX t i = nat (drop_bit (downShift t) (i * 1103515245) AND mask t)"

text \<open>
  The bits of the key pointer, which stand for the key where the key type has no \<open>hashKeyProc\<close>.  The
  types for strings and arrays have one.
\<close>

definition key_bits :: "'c hash_key \<Rightarrow> 32 word" where
  "key_bits k = (case k of OneWord w \<Rightarrow> ucast w | Custom p _ \<Rightarrow> ucast p | _ \<Rightarrow> 0)"

text \<open>The hash and the index of a key, and the index of an entry from the hash it stores.\<close>

definition key_hash :: "'c key_type \<Rightarrow> 'c hash_key \<Rightarrow> 32 word" where
  "key_hash tp k = (case hashKeyProc tp of Some h \<Rightarrow> h k | None \<Rightarrow> key_bits k)"

definition randomized :: "'c key_type \<Rightarrow> bool" where
  "randomized tp \<longleftrightarrow> hashKeyProc tp = None \<or> typeFlags tp AND TCL_HASH_KEY_RANDOMIZE_HASH \<noteq> 0"

definition key_index :: "'c hash_table \<Rightarrow> 32 word \<Rightarrow> nat" where
  "key_index t h =
     (if randomized (table_type t) then RANDOM_INDEX t (uint h) else nat (uint h AND mask t))"

definition entry_index :: "'c hash_table \<Rightarrow> 32 word \<Rightarrow> nat" where
  "entry_index t h =
     (if randomized (table_type t) then RANDOM_INDEX t (sint h) else nat (uint h AND mask t))"

definition same_key :: "'c key_type \<Rightarrow> 'c hash_key \<Rightarrow> 'c hash_key \<Rightarrow> bool" where
  "same_key tp k k' = (case compareKeysProc tp of Some c \<Rightarrow> c k k' | None \<Rightarrow> k = k')"

section \<open>Operations\<close>

text \<open>The new bucket array is filled from the old chains in order, each entry put first.\<close>

definition put_first :: "'c hash_table \<Rightarrow> 'c hash_entry \<Rightarrow> 'c hash_entry list list \<Rightarrow> 'c hash_entry list list" where
  "put_first t e bs = (let index = entry_index t (hash e) in bs[index := e # bs ! index])"

definition RebuildTable :: "'c hash_table \<Rightarrow> 'c hash_table" where
  "RebuildTable t =
     (let oldBuckets = take (numBuckets t) (buckets t);
          t = t\<lparr>numBuckets := numBuckets t * 4, rebuildSize := rebuildSize t * 4,
                downShift := downShift t - 2, mask := push_bit 2 (mask t) + 3\<rparr>
      in t\<lparr>buckets := fold (put_first t) (concat oldBuckets) (replicate (numBuckets t) [])\<rparr>)"

text \<open>
  \<open>newPtr\<close> is \<open>None\<close> for \<open>NULL\<close>; otherwise it carries the address that the allocator will
  return.  The result is the entry, the value stored through \<open>newPtr\<close> and the table.
\<close>

definition new_entry :: "'c key_type \<Rightarrow> nat \<Rightarrow> 32 word \<Rightarrow> 'c hash_key \<Rightarrow> 'c hash_entry" where
  "new_entry tp a h k =
     (let (k', data) = (case allocEntryProc tp of Some alloc \<Rightarrow> alloc k | None \<Rightarrow> (k, 0))
      in \<lparr>addr = a, hash = h, clientData = data, key = k'\<rparr>)"

definition CreateHashEntry ::
  "'c hash_table \<Rightarrow> 'c hash_key \<Rightarrow> nat option \<Rightarrow> 'c hash_entry option \<times> bool \<times> 'c hash_table" where
  "CreateHashEntry t k newPtr =
     (let tp = table_type t;
          h = key_hash tp k;
          index = key_index t h
      in case List.find (\<lambda>e. hash e = h \<and> same_key tp k (key e)) (buckets t ! index) of
           Some e \<Rightarrow> (Some e, False, t)
         | None \<Rightarrow>
             (case newPtr of
                None \<Rightarrow> (None, False, t)
              | Some a \<Rightarrow>
                  (let e = new_entry tp a h k;
                       t = t\<lparr>buckets := (buckets t)[index := e # buckets t ! index],
                             numEntries := numEntries t + 1\<rparr>
                   in (Some e, True, if numEntries t \<ge> rebuildSize t then RebuildTable t else t))))"

definition FindHashEntry :: "'c hash_table \<Rightarrow> 'c hash_key \<Rightarrow> 'c hash_entry option" where
  "FindHashEntry t k = fst (CreateHashEntry t k None)"

text \<open>The exported operations go through \<open>findProc\<close> and \<open>createProc\<close>; \<open>None\<close> is the panic.\<close>

definition Tcl_FindHashEntry :: "'c hash_table \<Rightarrow> 'c hash_key \<Rightarrow> 'c hash_entry option option" where
  "Tcl_FindHashEntry t k = (if deleted t then None else Some (FindHashEntry t k))"

definition Tcl_CreateHashEntry ::
  "'c hash_table \<Rightarrow> 'c hash_key \<Rightarrow> nat \<Rightarrow> ('c hash_entry \<times> bool \<times> 'c hash_table) option" where
  "Tcl_CreateHashEntry t k a =
     (if deleted t then None
      else case CreateHashEntry t k (Some a) of
             (Some e, new, t') \<Rightarrow> Some (e, new, t')
           | (None, _) \<Rightarrow> None)"

text \<open>
  Unlinking: the chain of the entry's bucket is searched for it by address; \<open>None\<close> is the
  panic for a malformed chain.
\<close>

fun unlink :: "nat \<Rightarrow> 'c hash_entry list \<Rightarrow> 'c hash_entry list option" where
  "unlink a [] = None"
| "unlink a (e # es) = (if addr e = a then Some es else map_option ((#) e) (unlink a es))"

definition Tcl_DeleteHashEntry :: "'c hash_table \<Rightarrow> 'c hash_entry \<Rightarrow> 'c hash_table option" where
  "Tcl_DeleteHashEntry t e =
     (let index = entry_index t (hash e) in
      case unlink (addr e) (buckets t ! index) of
        None \<Rightarrow> None
      | Some es \<Rightarrow> Some (t\<lparr>buckets := (buckets t)[index := es], numEntries := numEntries t - 1\<rparr>))"

text \<open>The entries that are freed, in order, and the table that panics when it is used again.\<close>

definition Tcl_DeleteHashTable :: "'c hash_table \<Rightarrow> nat list \<times> 'c hash_table" where
  "Tcl_DeleteHashTable t = (map addr (concat (take (numBuckets t) (buckets t))), t\<lparr>deleted := True\<rparr>)"

text \<open>A search keeps the address of the next entry; its successor is found in its chain.\<close>

record hash_search =
  nextIndex :: nat
  nextEntryPtr :: "nat option"

definition first_addr :: "'c hash_entry list \<Rightarrow> nat option" where
  "first_addr es = (case es of [] \<Rightarrow> None | e # _ \<Rightarrow> Some (addr e))"

fun entry_from :: "nat \<Rightarrow> 'c hash_entry list list \<Rightarrow> 'c hash_entry list" where
  "entry_from a [] = []"
| "entry_from a (es # bs) =
     (case dropWhile (\<lambda>e. addr e \<noteq> a) es of [] \<Rightarrow> entry_from a bs | es' \<Rightarrow> es')"

function NextHashEntry_loop :: "'c hash_table \<Rightarrow> hash_search \<Rightarrow> hash_search option" where
  "NextHashEntry_loop t s =
     (if nextEntryPtr s \<noteq> None then Some s
      else if nextIndex s \<ge> numBuckets t then None
      else NextHashEntry_loop t
             \<lparr>nextIndex = nextIndex s + 1, nextEntryPtr = first_addr (buckets t ! nextIndex s)\<rparr>)"
  by pat_completeness auto
termination
  by (relation "measure (\<lambda>(t, s). numBuckets t - nextIndex s)") auto

declare NextHashEntry_loop.simps [simp del]

text \<open>
  The address returned (\<open>None\<close> for \<open>NULL\<close>) and the search afterwards.  There is no result if the entry
  that the search has remembered is not in the table any more: its \<open>nextPtr\<close> would be read.
\<close>

definition Tcl_NextHashEntry :: "'c hash_table \<Rightarrow> hash_search \<Rightarrow> (nat option \<times> hash_search) option" where
  "Tcl_NextHashEntry t s =
     (case NextHashEntry_loop t s of
        None \<Rightarrow> Some (None, \<lparr>nextIndex = max (nextIndex s) (numBuckets t), nextEntryPtr = None\<rparr>)
      | Some s' \<Rightarrow>
          (case nextEntryPtr s' of
             None \<Rightarrow> Some (None, s')
           | Some a \<Rightarrow>
               (case entry_from a (buckets t) of
                  [] \<Rightarrow> None
                | e # es \<Rightarrow> Some (Some a, s'\<lparr>nextEntryPtr := first_addr es\<rparr>))))"

definition Tcl_FirstHashEntry :: "'c hash_table \<Rightarrow> (nat option \<times> hash_search) option" where
  "Tcl_FirstHashEntry t = Tcl_NextHashEntry t \<lparr>nextIndex = 0, nextEntryPtr = None\<rparr>"

section \<open>Bucket indices\<close>

lemma mask_and: "(x::int) AND (2 ^ b - 1) = take_bit b x"
  by (simp add: take_bit_eq_mask mask_eq_exp_minus_1)

text \<open>
  The code multiplies the hash as an unsigned value when it creates an entry and as a signed
  value when it deletes or moves one; with the shift and mask that belong together the index
  is the same.
\<close>

lemma random_index_signed:
  assumes "d + b \<le> 32"
  shows "drop_bit d (sint (h :: 32 word) * c) AND (2 ^ b - 1) = drop_bit d (uint h * c) AND (2 ^ b - 1)"
proof -
  have "take_bit (d + b) (uint h) = take_bit (d + b) (sint h)"
    using assms by (simp add: uint_sint min_absorb1)
  then have "take_bit (d + b) (sint h * c) = take_bit (d + b) (uint h * c)"
    by (metis take_bit_mult)
  then have "drop_bit d (take_bit (d + b) (sint h * c)) = drop_bit d (take_bit (d + b) (uint h * c))" by simp
  then show ?thesis unfolding mask_and by (simp add: drop_bit_take_bit)
qed

text \<open>The size parameters after \<open>n\<close> rebuilds.\<close>

definition sized :: "nat \<Rightarrow> 'c hash_table \<Rightarrow> bool" where
  "sized n t \<longleftrightarrow> n \<le> 13 \<and> numBuckets t = 2 ^ (2 * n + 2) \<and> length (buckets t) = numBuckets t
     \<and> rebuildSize t = 12 * 4 ^ n \<and> downShift t = 28 - 2 * n \<and> mask t = 2 ^ (2 * n + 2) - 1"

lemma entry_index_eq: "sized n t \<Longrightarrow> entry_index t h = key_index t h"
  using random_index_signed [of "28 - 2 * n" "2 * n + 2" h 1103515245]
  by (simp add: entry_index_def key_index_def RANDOM_INDEX_def sized_def)

lemma key_index_less: "sized n t \<Longrightarrow> key_index t h < numBuckets t"
proof -
  assume s: "sized n t"
  have "nat (x AND mask t) < numBuckets t" for x
  proof -
    have "0 \<le> take_bit (2 * n + 2) x" "take_bit (2 * n + 2) x < 2 ^ (2 * n + 2)"
      by (rule take_bit_nonnegative, rule take_bit_int_less_exp)
    moreover have "x AND mask t = take_bit (2 * n + 2) x" using s unfolding sized_def by (simp only: mask_and)
    moreover have "int (numBuckets t) = 2 ^ (2 * n + 2)" using s unfolding sized_def by simp
    ultimately show ?thesis by (simp only: nat_less_iff)
  qed
  then show ?thesis by (simp add: key_index_def RANDOM_INDEX_def)
qed

section \<open>The invariant\<close>

text \<open>
  Keys that a key type treats consistently: comparison is an equivalence that the hash
  respects, and the entry made for a key holds an equal key.
\<close>

definition lawful :: "'c key_type \<Rightarrow> ('c hash_key \<Rightarrow> bool) \<Rightarrow> bool" where
  "lawful tp K \<longleftrightarrow>
     (\<forall>k k'. K k \<longrightarrow> K k' \<longrightarrow> same_key tp k k' \<longrightarrow> same_key tp k' k \<and> key_hash tp k = key_hash tp k')
     \<and> (\<forall>k. K k \<longrightarrow> same_key tp k k)
     \<and> (\<forall>k k' k''. K k \<longrightarrow> K k' \<longrightarrow> K k'' \<longrightarrow> same_key tp k k' \<longrightarrow> same_key tp k' k'' \<longrightarrow> same_key tp k k'')
     \<and> (\<forall>k a h. K k \<longrightarrow> K (key (new_entry tp a h k)) \<and> same_key tp k (key (new_entry tp a h k)))"

definition entries :: "'c hash_table \<Rightarrow> 'c hash_entry list" where
  "entries t = concat (buckets t)"

definition placed :: "'c hash_table \<Rightarrow> bool" where
  "placed t \<longleftrightarrow> (\<forall>i<length (buckets t). \<forall>e\<in>set (buckets t ! i). key_index t (hash e) = i)"

definition distinct_keys :: "'c key_type \<Rightarrow> 'c hash_entry list \<Rightarrow> bool" where
  "distinct_keys tp es \<longleftrightarrow>
     (\<forall>e\<in>set es. \<forall>e'\<in>set es. same_key tp (key e) (key e') \<longrightarrow> addr e = addr e')"

definition table_inv :: "('c hash_key \<Rightarrow> bool) \<Rightarrow> 'c hash_table \<Rightarrow> bool" where
  "table_inv K t \<longleftrightarrow>
     \<not> deleted t \<and> (\<exists>n. sized n t) \<and> lawful (table_type t) K \<and> placed t
     \<and> (\<forall>e\<in>set (entries t). K (key e) \<and> hash e = key_hash (table_type t) (key e))
     \<and> distinct (map addr (entries t)) \<and> distinct_keys (table_type t) (entries t)
     \<and> numEntries t = int (length (entries t)) \<and> numEntries t < rebuildSize t"

lemma table_invD:
  assumes "table_inv K t"
  shows "\<not> deleted t" "\<exists>n. sized n t" "lawful (table_type t) K" "placed t"
    "\<And>e. e \<in> set (entries t) \<Longrightarrow> K (key e) \<and> hash e = key_hash (table_type t) (key e)"
    "distinct (map addr (entries t))" "distinct_keys (table_type t) (entries t)"
    "numEntries t = int (length (entries t))" "numEntries t < rebuildSize t"
  using assms by (auto simp: table_inv_def)

text \<open>Only the address identifies an entry.\<close>

lemma same_addr:
  "distinct (map addr es) \<Longrightarrow> e \<in> set es \<Longrightarrow> e' \<in> set es \<Longrightarrow> addr e = addr e' \<Longrightarrow> e = e'"
  by (metis distinct_map inj_on_def)

lemma placed_bucket:
  "placed t \<Longrightarrow> e \<in> set (entries t) \<Longrightarrow>
     key_index t (hash e) < length (buckets t) \<and> e \<in> set (buckets t ! key_index t (hash e))"
proof -
  assume p: "placed t" and "e \<in> set (entries t)"
  then obtain b where "b \<in> set (buckets t)" "e \<in> set b" by (auto simp: entries_def)
  then obtain i where i: "i < length (buckets t)" "e \<in> set (buckets t ! i)" by (auto simp: in_set_conv_nth)
  with p have "key_index t (hash e) = i" by (simp add: placed_def)
  with i show ?thesis by simp
qed

lemma bucket_subset: "i < length (buckets t) \<Longrightarrow> set (buckets t ! i) \<subseteq> set (entries t)"
  unfolding entries_def set_concat using nth_mem by blast

text \<open>A search finds the entry with the key, wherever it is in the table.\<close>

lemma find_SomeD: "List.find P xs = Some x \<Longrightarrow> x \<in> set xs \<and> P x"
  by (auto simp: find_Some_iff)

lemma FindHashEntry_iff:
  assumes inv: "table_inv K t" and k: "K k"
  shows "FindHashEntry t k = Some e \<longleftrightarrow> e \<in> set (entries t) \<and> same_key (table_type t) k (key e)"
proof -
  note i = table_invD [OF inv]
  let ?tp = "table_type t" and ?h = "key_hash (table_type t) k"
  let ?b = "buckets t ! key_index t ?h"
  obtain n where n: "sized n t" using i(2) by blast
  have len: "key_index t ?h < length (buckets t)" using key_index_less [OF n] n by (simp add: sized_def)
  have find: "FindHashEntry t k = List.find (\<lambda>e. hash e = ?h \<and> same_key ?tp k (key e)) ?b"
    by (simp add: FindHashEntry_def CreateHashEntry_def Let_def split: option.splits)
  show ?thesis
  proof
    assume "FindHashEntry t k = Some e"
    then have "List.find (\<lambda>e. hash e = ?h \<and> same_key ?tp k (key e)) ?b = Some e" by (simp only: find)
    from find_SomeD [OF this] bucket_subset [OF len] show "e \<in> set (entries t) \<and> same_key ?tp k (key e)" by auto
  next
    assume e: "e \<in> set (entries t) \<and> same_key ?tp k (key e)"
    then have h: "hash e = ?h" using i(3,5) k unfolding lawful_def by metis
    with placed_bucket [OF i(4), of e] e have inb: "e \<in> set ?b" by auto
    then obtain e' where e': "List.find (\<lambda>e. hash e = ?h \<and> same_key ?tp k (key e)) ?b = Some e'"
      using h e by (cases "List.find (\<lambda>e. hash e = ?h \<and> same_key ?tp k (key e)) ?b")
        (auto simp: find_None_iff)
    from find_SomeD [OF e'] bucket_subset [OF len] have in': "e' \<in> set (entries t)" "same_key ?tp k (key e')" by auto
    have "K (key e)" "K (key e')" using i(5) e in' by auto
    with i(3) e in' k have "same_key ?tp (key e) (key e')" unfolding lawful_def by metis
    with i(7) e in' have "addr e = addr e'" by (auto simp: distinct_keys_def)
    with same_addr [OF i(6)] e in' have "e = e'" by blast
    with e' find show "FindHashEntry t k = Some e" by simp
  qed
qed

section \<open>Every operation keeps the invariant\<close>

lemma mset_concat_update:
  "i < length bs \<Longrightarrow> mset (concat (bs[i := x])) + mset (bs ! i) = mset (concat bs) + mset x"
proof (induction bs arbitrary: i)
  case (Cons b bs)
  then show ?case by (cases i) (auto simp: ac_simps)
qed simp

lemma mset_put_first:
  "i < length bs \<Longrightarrow> mset (concat (bs[i := e # bs ! i])) = add_mset e (mset (concat bs))"
  using mset_concat_update [of i bs "e # bs ! i"] by simp

lemma length_put_first [simp]: "length (put_first t e bs) = length bs"
  by (simp add: put_first_def Let_def)

lemma key_index_buckets [simp]:
  "key_index (t\<lparr>buckets := bs\<rparr>) = key_index t" "key_index (t\<lparr>numEntries := m\<rparr>) = key_index t"
  "entry_index (t\<lparr>buckets := bs\<rparr>) = entry_index t"
  "table_type (t\<lparr>buckets := bs\<rparr>) = table_type t" "table_type (t\<lparr>numEntries := m\<rparr>) = table_type t"
  by (simp_all add: key_index_def entry_index_def RANDOM_INDEX_def table_type_def fun_eq_iff)

lemma sized_update [simp]: "sized n (t\<lparr>numEntries := m\<rparr>) = sized n t"
  by (simp add: sized_def)

text \<open>Rehashing: every entry ends in the bucket of its index, none is lost.\<close>

lemma rehash:
  assumes "sized n t" and "length bs = numBuckets t"
    and "\<forall>i<length bs. \<forall>e\<in>set (bs ! i). key_index t (hash e) = i"
  shows "length (fold (put_first t) es bs) = length bs"
    and "mset (concat (fold (put_first t) es bs)) = mset es + mset (concat bs)"
    and "\<forall>i<length bs. \<forall>e\<in>set (fold (put_first t) es bs ! i). key_index t (hash e) = i"
proof -
  have "length (fold (put_first t) es bs) = length bs
    \<and> mset (concat (fold (put_first t) es bs)) = mset es + mset (concat bs)
    \<and> (\<forall>i<length bs. \<forall>e\<in>set (fold (put_first t) es bs ! i). key_index t (hash e) = i)"
    using assms(2,3)
  proof (induction es arbitrary: bs)
    case (Cons e es)
    let ?i = "entry_index t (hash e)"
    have i: "?i = key_index t (hash e)" "?i < length bs"
      using entry_index_eq [OF assms(1)] key_index_less [OF assms(1)] Cons.prems(1) by simp_all
    have "\<forall>j<length (put_first t e bs). \<forall>e'\<in>set (put_first t e bs ! j). key_index t (hash e') = j"
      using Cons.prems(2) i by (auto simp: put_first_def Let_def nth_list_update split: if_splits)
    from Cons.IH [OF _ this] Cons.prems(1) have IH:
      "length (fold (put_first t) es (put_first t e bs)) = length bs"
      "mset (concat (fold (put_first t) es (put_first t e bs))) = mset es + mset (concat (put_first t e bs))"
      "\<forall>j<length bs. \<forall>e'\<in>set (fold (put_first t) es (put_first t e bs) ! j). key_index t (hash e') = j"
      by simp_all
    moreover have "mset (concat (put_first t e bs)) = add_mset e (mset (concat bs))"
      using mset_put_first [OF i(2)] by (simp add: put_first_def Let_def)
    ultimately show ?case by simp
  qed simp
  then show "length (fold (put_first t) es bs) = length bs"
    and "mset (concat (fold (put_first t) es bs)) = mset es + mset (concat bs)"
    and "\<forall>i<length bs. \<forall>e\<in>set (fold (put_first t) es bs ! i). key_index t (hash e) = i"
    by blast+
qed

lemma RebuildTable_facts:
  assumes "sized n t" and "n \<le> 12"
  shows "sized (n + 1) (RebuildTable t)" and "placed (RebuildTable t)"
    and "mset (entries (RebuildTable t)) = mset (entries t)"
    and "table_type (RebuildTable t) = table_type t" and "deleted (RebuildTable t) = deleted t"
    and "numEntries (RebuildTable t) = numEntries t" and "rebuildSize (RebuildTable t) = rebuildSize t * 4"
    and "keyType (RebuildTable t) = keyType t"
proof -
  define u where "u = t\<lparr>numBuckets := numBuckets t * 4, rebuildSize := rebuildSize t * 4,
                downShift := downShift t - 2, mask := push_bit 2 (mask t) + 3,
                buckets := replicate (numBuckets t * 4) []\<rparr>"
  have u: "sized (n + 1) u"
    using assms by (simp add: u_def sized_def push_bit_eq_mult power_add)
  have r: "RebuildTable t = u\<lparr>buckets := fold (put_first u) (entries t) (replicate (numBuckets u) [])\<rparr>"
  proof -
    have "take (numBuckets t) (buckets t) = buckets t" using assms(1) by (simp add: sized_def)
    moreover have "put_first (t\<lparr>numBuckets := numBuckets t * 4, rebuildSize := rebuildSize t * 4,
                downShift := downShift t - 2, mask := push_bit 2 (mask t) + 3\<rparr>) = put_first u"
      by (simp add: put_first_def fun_eq_iff u_def)
    ultimately show ?thesis by (simp add: RebuildTable_def Let_def entries_def u_def)
  qed
  have len: "length (replicate (numBuckets u) ([] :: 'a hash_entry list)) = numBuckets u" by simp
  have empty: "\<forall>i<length (replicate (numBuckets u) []). \<forall>e\<in>set (replicate (numBuckets u) ([] :: 'a hash_entry list) ! i). key_index u (hash e) = i"
    by simp
  note h = rehash [OF u len empty, of "entries t"]
  show "sized (n + 1) (RebuildTable t)" using u h(1) by (simp add: r sized_def)
  show "placed (RebuildTable t)" using h(1,3) by (simp add: r placed_def)
  show "mset (entries (RebuildTable t)) = mset (entries t)" using h(2) by (simp add: r entries_def)
  show "table_type (RebuildTable t) = table_type t" "deleted (RebuildTable t) = deleted t"
    "numEntries (RebuildTable t) = numEntries t" "rebuildSize (RebuildTable t) = rebuildSize t * 4"
    "keyType (RebuildTable t) = keyType t"
    by (simp_all add: r u_def table_type_def)
qed

text \<open>The invariant is about the collection of entries, so it survives a rebuild.\<close>

lemma table_inv_mset:
  assumes "table_inv K t" and "mset (entries t') = mset (entries t)" and "sized n t'" and "placed t'"
    and "table_type t' = table_type t" and "deleted t' = deleted t" and "numEntries t' = numEntries t"
    and "rebuildSize t \<le> rebuildSize t'"
  shows "table_inv K t'"
proof -
  have set: "set (entries t') = set (entries t)" using assms(2) by (metis set_mset_mset)
  have "distinct (map addr (entries t')) = distinct (map addr (entries t))"
    using assms(2) by (metis mset_eq_imp_distinct_iff mset_map)
  moreover have "length (entries t') = length (entries t)" using assms(2) by (metis size_mset)
  ultimately show ?thesis
    using assms set unfolding table_inv_def distinct_keys_def by auto
qed

text \<open>The largest number of entries for which the table still grows within its size fields.\<close>

definition max_entries :: int where "max_entries = 805306368"

lemma CreateHashEntry_new:
  assumes inv: "table_inv K t" and k: "K k" and fresh: "a \<notin> addr ` set (entries t)"
    and none: "FindHashEntry t k = None" and room: "numEntries t + 1 < max_entries"
  defines "e \<equiv> new_entry (table_type t) a (key_hash (table_type t) k) k"
  shows "\<exists>t'. CreateHashEntry t k (Some a) = (Some e, True, t') \<and> table_inv K t'
    \<and> mset (entries t') = add_mset e (mset (entries t)) \<and> keyType t' = keyType t \<and> table_type t' = table_type t"
proof -
  note i = table_invD [OF inv]
  let ?tp = "table_type t" and ?h = "key_hash (table_type t) k"
  let ?i = "key_index t ?h"
  obtain n where n: "sized n t" using i(2) by blast
  have len: "?i < length (buckets t)" using key_index_less [OF n] n by (simp add: sized_def)
  define t1 where "t1 = t\<lparr>buckets := (buckets t)[?i := e # buckets t ! ?i], numEntries := numEntries t + 1\<rparr>"
  have ea: "addr e = a" "hash e = ?h" by (simp_all add: e_def new_entry_def split_beta)
  have ek: "K (key e)" "same_key ?tp k (key e)" using i(3) k unfolding e_def lawful_def by blast+
  have m1: "mset (entries t1) = add_mset e (mset (entries t))"
    using mset_put_first [OF len] by (simp add: t1_def entries_def)
  then have s1: "set (entries t1) = insert e (set (entries t))" by (metis set_mset_add_mset_insert set_mset_mset)
  have l1: "length (entries t1) = Suc (length (entries t))" using m1 by (metis size_add_mset size_mset)
  have no: "\<not> same_key ?tp (key e) (key e')" "\<not> same_key ?tp (key e') (key e)" if "e' \<in> set (entries t)" for e'
  proof -
    have "\<not> same_key ?tp k (key e')" using FindHashEntry_iff [OF inv k, of e'] none that by simp
    moreover have "K (key e')" using i(5) that by blast
    ultimately show "\<not> same_key ?tp (key e) (key e')" "\<not> same_key ?tp (key e') (key e)"
      using i(3) k ek unfolding lawful_def by metis+
  qed
  have d1: "distinct (map addr (entries t1))"
  proof -
    have "mset (map addr (entries t1)) = mset (map addr (e # entries t))" using m1 by simp
    then have "distinct (map addr (entries t1)) = distinct (map addr (e # entries t))"
      by (rule mset_eq_imp_distinct_iff)
    then show ?thesis using i(6) fresh ea(1) by auto
  qed
  have t1: "sized n t1" "placed t1" "table_type t1 = ?tp" "\<not> deleted t1" "keyType t1 = keyType t"
    "numEntries t1 = int (length (entries t1))" "rebuildSize t1 = rebuildSize t"
    using n i(1,8) l1 i(4) len ea(2)
    by (simp_all add: t1_def sized_def placed_def nth_list_update table_type_def)
  have p1: "\<forall>e'\<in>set (entries t1). K (key e') \<and> hash e' = key_hash ?tp (key e')"
    using i(3,5) k ek ea(2) s1 unfolding lawful_def by (metis insert_iff)
  have dk: "distinct_keys ?tp (entries t1)"
    using i(7) no s1 unfolding distinct_keys_def by auto
  have lawful: "lawful ?tp K" by (rule i(3))
  have create: "CreateHashEntry t k (Some a)
      = (Some e, True, if numEntries t1 \<ge> rebuildSize t1 then RebuildTable t1 else t1)"
    using none unfolding FindHashEntry_def CreateHashEntry_def Let_def e_def t1_def
    by (cases "List.find (\<lambda>e. hash e = ?h \<and> same_key ?tp k (key e)) (buckets t ! ?i)") simp_all
  show ?thesis
  proof (cases "numEntries t1 \<ge> rebuildSize t1")
    case False
    then have "table_inv K t1" using t1 p1 d1 dk lawful unfolding table_inv_def by auto
    with create False m1 t1 show ?thesis by auto
  next
    case True
    have "numEntries t1 = numEntries t + 1" by (simp add: t1_def)
    with True room t1(1) have "(12::int) * 4 ^ n < 12 * 4 ^ 13" by (simp add: sized_def max_entries_def)
    then have "(4::int) ^ n < 4 ^ 13" by simp
    then have "n \<le> 12" using power_strict_increasing_iff [of "4::int" n 13] by simp
    note r = RebuildTable_facts [OF t1(1) this]
    have set: "set (entries (RebuildTable t1)) = set (entries t1)" using r(3) by (metis set_mset_mset)
    have "(1::int) \<le> 4 ^ n" by simp
    have "numEntries t < 12 * 4 ^ n" using i(9) n by (simp add: sized_def)
    have rebuild: "rebuildSize (RebuildTable t1) = 4 * (12 * 4 ^ n)" using r(7) t1(7) n by (simp add: sized_def)
    have "distinct (map addr (entries (RebuildTable t1)))"
      using d1 r(3) by (metis mset_eq_imp_distinct_iff mset_map)
    moreover have "length (entries (RebuildTable t1)) = length (entries t1)" using r(3) by (metis size_mset)
    moreover have "numEntries (RebuildTable t1) < rebuildSize (RebuildTable t1)"
      unfolding r(6) rebuild \<open>numEntries t1 = numEntries t + 1\<close>
      using \<open>(1::int) \<le> 4 ^ n\<close> \<open>numEntries t < 12 * 4 ^ n\<close> by linarith
    ultimately have "table_inv K (RebuildTable t1)"
      using r t1 p1 dk lawful set unfolding table_inv_def distinct_keys_def by auto
    with create True m1 r t1 show ?thesis by auto
  qed
qed

lemma CreateHashEntry_found:
  "FindHashEntry t k = Some e \<Longrightarrow> CreateHashEntry t k (Some a) = (Some e, False, t)"
  unfolding FindHashEntry_def CreateHashEntry_def Let_def by (auto split: option.splits)

lemma FindHashEntry_table: "CreateHashEntry t k None = (FindHashEntry t k, False, t)"
  unfolding FindHashEntry_def CreateHashEntry_def Let_def by (auto split: option.splits)

lemma unlink_remove1:
  "distinct (map addr es) \<Longrightarrow> e \<in> set es \<Longrightarrow> unlink (addr e) es = Some (remove1 e es)"
  by (induction es) (auto simp: rev_image_eqI)

lemma distinct_bucket:
  "distinct (map addr (entries t)) \<Longrightarrow> i < length (buckets t) \<Longrightarrow> distinct (map addr (buckets t ! i))"
  unfolding entries_def map_concat distinct_concat_iff by simp

lemma mset_cancel: "A + B = C + D \<Longrightarrow> B = add_mset x D \<Longrightarrow> C = add_mset x A"
proof -
  assume "A + B = C + D" and "B = add_mset x D"
  then have "add_mset x A + D = C + D" by (metis union_mset_add_mset_left union_mset_add_mset_right)
  then show ?thesis by simp
qed

lemma Tcl_DeleteHashEntry_entry:
  assumes inv: "table_inv K t" and e: "e \<in> set (entries t)"
  shows "\<exists>t'. Tcl_DeleteHashEntry t e = Some t' \<and> table_inv K t'
    \<and> mset (entries t) = add_mset e (mset (entries t')) \<and> keyType t' = keyType t \<and> table_type t' = table_type t"
proof -
  note i = table_invD [OF inv]
  obtain n where n: "sized n t" using i(2) by blast
  let ?i = "key_index t (hash e)"
  have b: "?i < length (buckets t)" "e \<in> set (buckets t ! ?i)" using placed_bucket [OF i(4) e] by auto
  have db: "distinct (map addr (buckets t ! ?i))" using distinct_bucket [OF i(6) b(1)] .
  define t' where "t' = t\<lparr>buckets := (buckets t)[?i := remove1 e (buckets t ! ?i)], numEntries := numEntries t - 1\<rparr>"
  have del: "Tcl_DeleteHashEntry t e = Some t'"
    using unlink_remove1 [OF db b(2)] by (simp add: Tcl_DeleteHashEntry_def entry_index_eq [OF n] t'_def Let_def)
  have m: "mset (entries t) = add_mset e (mset (entries t'))"
  proof -
    have "mset (entries t') + mset (buckets t ! ?i) = mset (entries t) + mset (remove1 e (buckets t ! ?i))"
      using mset_concat_update [OF b(1), of "remove1 e (buckets t ! ?i)"] by (simp add: t'_def entries_def)
    moreover have "mset (buckets t ! ?i) = add_mset e (mset (remove1 e (buckets t ! ?i)))"
      using b(2) by simp
    ultimately show ?thesis by (rule mset_cancel)
  qed
  have s: "set (entries t') \<subseteq> set (entries t)" using m by (metis set_mset_mset set_mset_add_mset_insert subset_insertI)
  have l: "length (entries t) = Suc (length (entries t'))" using m by (metis size_add_mset size_mset)
  have d: "distinct (map addr (entries t'))"
  proof -
    have "mset (map addr (entries t)) = mset (map addr (e # entries t'))" using m by simp
    then have "distinct (map addr (entries t)) = distinct (map addr (e # entries t'))"
      by (rule mset_eq_imp_distinct_iff)
    then show ?thesis using i(6) by auto
  qed
  have p: "placed t'"
    unfolding placed_def
  proof (intro allI impI ballI)
    fix j x
    assume j: "j < length (buckets t')" and x: "x \<in> set (buckets t' ! j)"
    then have "x \<in> set (buckets t ! j)"
      using set_remove1_subset [of e "buckets t ! ?i"] by (cases "j = ?i") (auto simp: t'_def)
    with i(4) j show "key_index t' (hash x) = j" by (simp add: placed_def t'_def)
  qed
  have "sized n t'" using n by (simp add: t'_def sized_def)
  then have sz: "\<exists>n. sized n t'" by blast
  have fields: "deleted t' = deleted t" "table_type t' = table_type t" "numEntries t' = numEntries t - 1"
    "rebuildSize t' = rebuildSize t"
    by (simp_all add: t'_def table_type_def)
  have k: "\<forall>e\<in>set (entries t'). K (key e) \<and> hash e = key_hash (table_type t) (key e)" using i(5) s by blast
  have dk: "distinct_keys (table_type t) (entries t')" using i(7) s unfolding distinct_keys_def by blast
  have "table_inv K t'"
    unfolding table_inv_def fields using i(1,3,8,9) sz p k d dk l by simp
  with del m show ?thesis by (auto simp: t'_def table_type_def)
qed

text \<open>The initial table.\<close>

lemma Tcl_InitCustomHashTable_inv:
  assumes "lawful (table_type (Tcl_InitCustomHashTable kt tp)) K"
  shows "table_inv K (Tcl_InitCustomHashTable kt tp)" and "entries (Tcl_InitCustomHashTable kt tp) = []"
proof -
  have e: "entries (Tcl_InitCustomHashTable kt tp) = []"
    by (simp add: entries_def Tcl_InitCustomHashTable_def)
  have "sized 0 (Tcl_InitCustomHashTable kt tp)" by (simp add: sized_def Tcl_InitCustomHashTable_def)
  moreover have "placed (Tcl_InitCustomHashTable kt tp)" by (simp add: placed_def Tcl_InitCustomHashTable_def)
  ultimately show "table_inv K (Tcl_InitCustomHashTable kt tp)"
    using assms e unfolding table_inv_def distinct_keys_def
    by (auto simp: Tcl_InitCustomHashTable_def)
  show "entries (Tcl_InitCustomHashTable kt tp) = []" by (rule e)
qed

section \<open>The three key types are lawful\<close>

definition string_key :: "'c hash_key \<Rightarrow> bool" where
  "string_key k \<longleftrightarrow> (\<exists>s. k = String s \<and> CHR 0x00 \<notin> set s)"

definition word_key :: "'c hash_key \<Rightarrow> bool" where
  "word_key k \<longleftrightarrow> (\<exists>w. k = OneWord w)"

definition array_key :: "nat \<Rightarrow> 'c hash_key \<Rightarrow> bool" where
  "array_key n k \<longleftrightarrow> (\<exists>ws. k = Words ws \<and> length ws = n)"

text \<open>On keys of its kind each of them compares for equality and stores the key as it is.\<close>

lemma lawful_eq:
  assumes "\<And>k k'. K k \<Longrightarrow> K k' \<Longrightarrow> same_key tp k k' = (k = k')"
    and "\<And>k a h. K k \<Longrightarrow> key (new_entry tp a h k) = k"
  shows "lawful tp K"
  unfolding lawful_def by (auto simp: assms)

lemma same_key_string: "string_key k \<Longrightarrow> string_key k' \<Longrightarrow> same_key tclStringHashKeyType k k' = (k = k')"
  by (cases k; cases k') (auto simp: string_key_def tclStringHashKeyType_def same_key_def)

lemma same_key_word: "same_key tclOneWordHashKeyType k k' = (k = k')"
  by (simp add: tclOneWordHashKeyType_def same_key_def)

lemma lawful_string: "lawful tclStringHashKeyType string_key"
  by (rule lawful_eq [OF same_key_string]) (simp_all add: tclStringHashKeyType_def new_entry_def AllocStringEntry_def)

lemma lawful_word: "lawful tclOneWordHashKeyType word_key"
  by (rule lawful_eq [OF same_key_word]) (simp_all add: tclOneWordHashKeyType_def new_entry_def)

lemma CompareArray_loop_eq: "length v = n \<Longrightarrow> length w = n \<Longrightarrow> CompareArray_loop n v w = (v = w)"
  by (induction n v w rule: CompareArray_loop.induct) auto

lemma same_key_array: "array_key n k \<Longrightarrow> array_key n k' \<Longrightarrow> same_key (tclArrayHashKeyType n) k k' = (k = k')"
proof -
  assume "array_key n k" "array_key n k'"
  then obtain v w where "k = Words v" "k' = Words w" "length v = n" "length w = n"
    unfolding array_key_def by blast
  then show ?thesis by (simp add: tclArrayHashKeyType_def same_key_def CompareArray_loop_eq)
qed

lemma lawful_array: "lawful (tclArrayHashKeyType n) (array_key n)"
proof (rule lawful_eq [OF same_key_array])
  show "key (new_entry (tclArrayHashKeyType n) a h k) = k" if "array_key n k" for a h k
  proof -
    obtain v where "k = Words v" "length v = n" using \<open>array_key n k\<close> unfolding array_key_def by blast
    then show ?thesis by (simp add: tclArrayHashKeyType_def new_entry_def)
  qed
qed

section \<open>Searching through a table\<close>

lemma entry_from_split:
  assumes "distinct (map addr (concat (bs1 @ (pre @ e # rest) # bs2)))"
  shows "entry_from (addr e) (bs1 @ (pre @ e # rest) # bs2) = e # rest"
  using assms
proof (induction bs1)
  case Nil
  then have "addr e \<notin> addr ` set pre" by simp
  then have "\<forall>x\<in>set pre. addr x \<noteq> addr e" by (metis image_eqI)
  then have "dropWhile (\<lambda>x. addr x \<noteq> addr e) (pre @ e # rest) = e # rest"
    by (simp add: dropWhile_append2)
  then show ?case by simp
next
  case (Cons b bs1)
  then have "addr e \<notin> addr ` set b" by simp
  then have "\<forall>x\<in>set b. addr x \<noteq> addr e" by (metis image_eqI)
  then have d: "dropWhile (\<lambda>x. addr x \<noteq> addr e) b = []" by (simp only: dropWhile_eq_Nil_conv simp_thms)
  have "distinct (map addr (concat (bs1 @ (pre @ e # rest) # bs2)))" using Cons.prems by simp
  from Cons.IH [OF this] show ?case by (simp only: append_Cons entry_from.simps d list.case)
qed

lemma entry_from_table:
  assumes "distinct (map addr (entries t))" and "buckets t = bs1 @ (pre @ e # rest) # bs2"
  shows "entry_from (addr e) (buckets t) = e # rest"
  using entry_from_split [of bs1 pre e rest bs2] assms(1) unfolding entries_def assms(2) by blast

text \<open>
  The entries that a search has still to return, and the states a search can be in: the
  pointer, if any, is to an entry of a bucket before \<open>nextIndex\<close>.
\<close>

definition search_rest :: "'c hash_table \<Rightarrow> hash_search \<Rightarrow> 'c hash_entry list" where
  "search_rest t s =
     (case nextEntryPtr s of None \<Rightarrow> [] | Some a \<Rightarrow> entry_from a (buckets t)) @ concat (drop (nextIndex s) (buckets t))"

definition search_ok :: "'c hash_table \<Rightarrow> hash_search \<Rightarrow> bool" where
  "search_ok t s \<longleftrightarrow>
     (case nextEntryPtr s of None \<Rightarrow> True
      | Some a \<Rightarrow> \<exists>bs1 pre e rest bs2. buckets t = bs1 @ (pre @ e # rest) # bs2 \<and> addr e = a
                   \<and> length bs1 < nextIndex s)"

lemma NextHashEntry_loop_rest:
  assumes "distinct (map addr (entries t))" and "length (buckets t) = numBuckets t" and "search_ok t s"
  shows "case search_rest t s of
      [] \<Rightarrow> NextHashEntry_loop t s = None
    | e # es \<Rightarrow> \<exists>s'. NextHashEntry_loop t s = Some s' \<and> nextEntryPtr s' = Some (addr e)
                 \<and> search_ok t s' \<and> search_rest t s' = e # es"
  using assms
proof (induction t s rule: NextHashEntry_loop.induct)
  case (1 t s)
  show ?case
  proof (cases "nextEntryPtr s")
    case (Some a)
    with 1(4) obtain bs1 pre e rest bs2 where b: "buckets t = bs1 @ (pre @ e # rest) # bs2" "addr e = a"
      by (auto simp: search_ok_def)
    have "entry_from a (buckets t) = e # rest"
      using entry_from_table [OF 1(2) b(1)] b(2) by simp
    then have "search_rest t s = e # rest @ concat (drop (nextIndex s) (buckets t))"
      using Some by (simp add: search_rest_def)
    moreover have "NextHashEntry_loop t s = Some s" using Some by (subst NextHashEntry_loop.simps) simp
    ultimately show ?thesis using Some b 1(4) by simp
  next
    case None
    show ?thesis
    proof (cases "nextIndex s \<ge> numBuckets t")
      case True
      with None 1(3) show ?thesis
        by (subst NextHashEntry_loop.simps) (simp add: search_rest_def)
    next
      case False
      let ?i = "nextIndex s"
      let ?s = "\<lparr>nextIndex = ?i + 1, nextEntryPtr = first_addr (buckets t ! ?i)\<rparr>"
      have i: "?i < length (buckets t)" using False 1(3) by simp
      have loop: "NextHashEntry_loop t s = NextHashEntry_loop t ?s"
        using None False by (subst NextHashEntry_loop.simps) simp
      have split: "buckets t = take ?i (buckets t) @ (buckets t ! ?i) # drop (Suc ?i) (buckets t)"
        using i by (rule id_take_nth_drop)
      have rest: "search_rest t s = buckets t ! ?i @ concat (drop (Suc ?i) (buckets t))"
        using None i by (simp add: search_rest_def Cons_nth_drop_Suc [symmetric])
      have ok: "search_ok t ?s \<and> search_rest t ?s = search_rest t s"
      proof (cases "buckets t ! ?i")
        case Nil
        with rest show ?thesis by (simp add: search_ok_def search_rest_def first_addr_def)
      next
        case (Cons e es)
        with split have b: "buckets t = take ?i (buckets t) @ ([] @ e # es) # drop (Suc ?i) (buckets t)" by simp
        have "entry_from (addr e) (buckets t) = e # es" by (rule entry_from_table [OF 1(2) b])
        moreover have "length (take ?i (buckets t)) < ?i + 1" using i by simp
        with b have "\<exists>bs1 pre f rest bs2. buckets t = bs1 @ (pre @ f # rest) # bs2 \<and> addr f = addr e \<and> length bs1 < ?i + 1"
          by blast
        then have "search_ok t ?s" by (simp add: search_ok_def first_addr_def Cons)
        ultimately show ?thesis using rest Cons by (simp add: search_rest_def first_addr_def)
      qed
      from 1(1) [OF _ False 1(2,3)] None ok show ?thesis unfolding loop by simp
    qed
  qed
qed

lemma Tcl_NextHashEntry_rest:
  assumes inv: "table_inv K t" and ok: "search_ok t s"
  shows "search_rest t s = [] \<Longrightarrow> \<exists>s'. Tcl_NextHashEntry t s = Some (None, s')"
    and "search_rest t s = e # es \<Longrightarrow> \<exists>s' bs1 pre rest bs2. Tcl_NextHashEntry t s = Some (Some (addr e), s') \<and> search_ok t s'
      \<and> search_rest t s' = es \<and> buckets t = bs1 @ (pre @ e # rest) # bs2 \<and> length bs1 < nextIndex s'
      \<and> nextEntryPtr s' = first_addr rest"
proof -
  have len: "length (buckets t) = numBuckets t" using table_invD(2) [OF inv] by (auto simp: sized_def)
  note d = table_invD(6) [OF inv]
  note loop = NextHashEntry_loop_rest [OF d len ok]
  show "search_rest t s = [] \<Longrightarrow> \<exists>s'. Tcl_NextHashEntry t s = Some (None, s')"
    using loop by (simp add: Tcl_NextHashEntry_def)
  assume r: "search_rest t s = e # es"
  with loop obtain s1 where s1: "NextHashEntry_loop t s = Some s1" "nextEntryPtr s1 = Some (addr e)"
    "search_ok t s1" "search_rest t s1 = e # es" by auto
  from s1(2,3) obtain bs1 pre e' rest bs2 where b: "buckets t = bs1 @ (pre @ e' # rest) # bs2" "addr e' = addr e"
    "length bs1 < nextIndex s1" by (auto simp: search_ok_def)
  have from': "entry_from (addr e) (buckets t) = e' # rest"
    using entry_from_table [OF d b(1)] b(2) by simp
  with s1(2,4) have e: "e' = e" and es: "es = rest @ concat (drop (nextIndex s1) (buckets t))"
    by (simp_all add: search_rest_def)
  define s' where "s' = s1\<lparr>nextEntryPtr := first_addr rest\<rparr>"
  have n: "Tcl_NextHashEntry t s = Some (Some (addr e), s')"
    using s1(1,2) from' by (simp add: Tcl_NextHashEntry_def s'_def)
  have "search_ok t s' \<and> search_rest t s' = es"
  proof (cases rest)
    case Nil
    with es show ?thesis by (simp add: s'_def search_ok_def search_rest_def first_addr_def)
  next
    case (Cons f rest')
    then have b2: "buckets t = bs1 @ ((pre @ [e']) @ f # rest') # bs2" using b(1) by simp
    have "entry_from (addr f) (buckets t) = f # rest'" by (rule entry_from_table [OF d b2])
    moreover have "\<exists>bs1 pre g rest bs2. buckets t = bs1 @ (pre @ g # rest) # bs2 \<and> addr g = addr f \<and> length bs1 < nextIndex s1"
      using b2 b(3) by blast
    then have "search_ok t s'" by (simp add: search_ok_def s'_def first_addr_def Cons)
    ultimately show ?thesis using es Cons by (simp add: s'_def search_rest_def first_addr_def)
  qed
  with n b e show "\<exists>s' bs1 pre rest bs2. Tcl_NextHashEntry t s = Some (Some (addr e), s') \<and> search_ok t s'
      \<and> search_rest t s' = es \<and> buckets t = bs1 @ (pre @ e # rest) # bs2 \<and> length bs1 < nextIndex s'
      \<and> nextEntryPtr s' = first_addr rest"
    by (intro exI [of _ s'] exI [of _ bs1] exI [of _ pre] exI [of _ rest] exI [of _ bs2]) (simp add: s'_def)
qed

text \<open>
  Deleting the entry that a search has just returned does not disturb the search: what it
  has still to return is the same.
\<close>

lemma delete_during_search:
  assumes inv: "table_inv K t" and b: "buckets t = bs1 @ (pre @ e # rest) # bs2"
    and s: "length bs1 < nextIndex s" "nextEntryPtr s = first_addr rest" "search_rest t s = es"
    and del: "Tcl_DeleteHashEntry t e = Some t'" and inv': "table_inv K t'"
  shows "search_ok t' s \<and> search_rest t' s = es"
proof -
  note i = table_invD [OF inv]
  obtain n where n: "sized n t" using i(2) by blast
  have nth: "buckets t ! length bs1 = pre @ e # rest" using b by simp
  have l: "length bs1 < length (buckets t)" using b by simp
  have "e \<in> set (buckets t ! length bs1)" using nth by simp
  with i(4) l have idx: "key_index t (hash e) = length bs1" by (simp add: placed_def)
  have d: "distinct (map addr (pre @ e # rest))" using distinct_bucket [OF i(6) l] nth by simp
  then have "remove1 e (pre @ e # rest) = pre @ rest" by (auto simp: remove1_append)
  then have "unlink (addr e) (buckets t ! length bs1) = Some (pre @ rest)"
    using unlink_remove1 [OF d, of e] nth by simp
  with del have t': "buckets t' = (buckets t)[length bs1 := pre @ rest]"
    by (auto simp: Tcl_DeleteHashEntry_def entry_index_eq [OF n] idx)
  then have b': "buckets t' = bs1 @ (pre @ rest) # bs2" using b by (simp add: list_update_append)
  have drop: "drop (nextIndex s) (buckets t') = drop (nextIndex s) (buckets t)"
    using s(1) b b' by (cases "nextIndex s - length bs1") simp_all
  show ?thesis
  proof (cases rest)
    case Nil
    with s drop show ?thesis by (simp add: search_ok_def search_rest_def first_addr_def)
  next
    case (Cons f rest')
    have t1: "buckets t = bs1 @ ((pre @ [e]) @ f # rest') # bs2" using b Cons by simp
    have t2: "buckets t' = bs1 @ (pre @ f # rest') # bs2" using b' Cons by simp
    have "entry_from (addr f) (buckets t) = entry_from (addr f) (buckets t')"
      using entry_from_table [OF i(6) t1] entry_from_table [OF table_invD(6) [OF inv'] t2] by simp
    moreover have "\<exists>bs1 pre g rest bs2. buckets t' = bs1 @ (pre @ g # rest) # bs2 \<and> addr g = addr f \<and> length bs1 < nextIndex s"
      using t2 s(1) by blast
    ultimately show ?thesis using s drop Cons by (simp add: search_ok_def search_rest_def first_addr_def)
  qed
qed

text \<open>
  The loops that clients write: visit every entry, and visit every entry and delete it; the
  second returns the table it leaves.  The fuel bounds the number of turns.
\<close>

definition entry_at :: "'c hash_table \<Rightarrow> nat \<Rightarrow> 'c hash_entry option" where
  "entry_at t a = List.find (\<lambda>e. addr e = a) (entries t)"

fun visit :: "nat \<Rightarrow> 'c hash_table \<Rightarrow> hash_search \<Rightarrow> nat list option" where
  "visit 0 t s = Some []"
| "visit (Suc fuel) t s =
     (case Tcl_NextHashEntry t s of
        None \<Rightarrow> None
      | Some (None, _) \<Rightarrow> Some []
      | Some (Some a, s') \<Rightarrow> map_option ((#) a) (visit fuel t s'))"

fun visit_delete :: "nat \<Rightarrow> 'c hash_table \<Rightarrow> hash_search \<Rightarrow> (nat list \<times> 'c hash_table) option" where
  "visit_delete 0 t s = Some ([], t)"
| "visit_delete (Suc fuel) t s =
     (case Tcl_NextHashEntry t s of
        None \<Rightarrow> None
      | Some (None, _) \<Rightarrow> Some ([], t)
      | Some (Some a, s') \<Rightarrow>
          (case entry_at t a of
             None \<Rightarrow> None
           | Some e \<Rightarrow>
               (case Tcl_DeleteHashEntry t e of
                  None \<Rightarrow> None
                | Some t' \<Rightarrow> map_option (\<lambda>(as, u). (a # as, u)) (visit_delete fuel t' s'))))"

lemma entry_at_iff:
  "distinct (map addr (entries t)) \<Longrightarrow> entry_at t a = Some e \<longleftrightarrow> e \<in> set (entries t) \<and> addr e = a"
proof
  assume "entry_at t a = Some e"
  from find_SomeD [OF this [unfolded entry_at_def]] show "e \<in> set (entries t) \<and> addr e = a" .
next
  assume d: "distinct (map addr (entries t))" and e: "e \<in> set (entries t) \<and> addr e = a"
  then obtain e' where e': "entry_at t a = Some e'"
    unfolding entry_at_def by (cases "List.find (\<lambda>e. addr e = a) (entries t)") (auto simp: find_None_iff)
  from find_SomeD [OF this [unfolded entry_at_def]] same_addr [OF d] e have "e' = e" by blast
  with e' show "entry_at t a = Some e" by simp
qed

lemma visit_rest:
  assumes "table_inv K t" and "search_ok t s" and "length (search_rest t s) < fuel"
  shows "visit fuel t s = Some (map addr (search_rest t s))"
  using assms(2,3)
proof (induction fuel arbitrary: s)
  case (Suc fuel)
  show ?case
  proof (cases "search_rest t s")
    case Nil
    with Tcl_NextHashEntry_rest(1) [OF assms(1) Suc.prems(1) Nil] show ?thesis by auto
  next
    case (Cons e es)
    from Tcl_NextHashEntry_rest(2) [OF assms(1) Suc.prems(1) Cons] obtain s' where
      "Tcl_NextHashEntry t s = Some (Some (addr e), s')" "search_ok t s'" "search_rest t s' = es" by blast
    with Suc.IH [of s'] Suc.prems Cons show ?thesis by simp
  qed
qed simp

lemma visit_delete_rest:
  assumes "table_inv K t" and "search_ok t s" and "length (search_rest t s) < fuel"
  shows "\<exists>t'. visit_delete fuel t s = Some (map addr (search_rest t s), t') \<and> table_inv K t'
    \<and> mset (entries t) = mset (search_rest t s) + mset (entries t')"
  using assms
proof (induction fuel arbitrary: t s)
  case (Suc fuel)
  show ?case
  proof (cases "search_rest t s")
    case Nil
    with Tcl_NextHashEntry_rest(1) [OF Suc.prems(1,2) Nil] Suc.prems(1) show ?thesis by auto
  next
    case (Cons e es)
    from Tcl_NextHashEntry_rest(2) [OF Suc.prems(1,2) Cons] obtain s' bs1 pre rest bs2 where
      n: "Tcl_NextHashEntry t s = Some (Some (addr e), s')" "search_rest t s' = es"
      and b: "buckets t = bs1 @ (pre @ e # rest) # bs2" and s': "length bs1 < nextIndex s'" "nextEntryPtr s' = first_addr rest"
      by blast
    have e: "e \<in> set (entries t)" using b by (simp add: entries_def)
    have at: "entry_at t (addr e) = Some e" using entry_at_iff [OF table_invD(6) [OF Suc.prems(1)]] e by blast
    from Tcl_DeleteHashEntry_entry [OF Suc.prems(1) e] obtain t1 where t1: "Tcl_DeleteHashEntry t e = Some t1"
      "table_inv K t1" "mset (entries t) = add_mset e (mset (entries t1))" by blast
    from delete_during_search [OF Suc.prems(1) b s' n(2) t1(1,2)]
    have "search_ok t1 s'" "search_rest t1 s' = es" by auto
    with Suc.IH [OF t1(2), of s'] Suc.prems(3) Cons obtain u where
      "visit_delete fuel t1 s' = Some (map addr es, u)" "table_inv K u" "mset (entries t1) = mset es + mset (entries u)"
      by auto
    with n at t1 Cons show ?thesis by simp
  qed
qed simp

lemma search_start:
  "search_ok t \<lparr>nextIndex = 0, nextEntryPtr = None\<rparr>" "search_rest t \<lparr>nextIndex = 0, nextEntryPtr = None\<rparr> = entries t"
  by (simp_all add: search_ok_def search_rest_def entries_def)

section \<open>The table as a finite map\<close>

text \<open>
  What the clients of a hash table rely on: a map from keys to the addresses of entries,
  where an insertion adds the fresh entry unless the key has one, and a deletion removes
  exactly the entry at an address.  \<open>used\<close> are the addresses of the entries, \<open>limit\<close> the
  number of entries that must stay out of reach.
\<close>

locale key_map =
  fixes lookup :: "'t \<Rightarrow> 'k \<Rightarrow> nat option"
    and insert_key :: "'t \<Rightarrow> 'k \<Rightarrow> nat \<Rightarrow> (nat \<times> bool \<times> 't) option"
    and delete_key :: "'t \<Rightarrow> nat \<Rightarrow> 't option"
    and used :: "'t \<Rightarrow> nat set"
    and inv :: "'t \<Rightarrow> bool"
    and valid :: "'k \<Rightarrow> bool"
    and limit :: nat
  assumes insert_new: "inv t \<Longrightarrow> valid k \<Longrightarrow> lookup t k = None \<Longrightarrow> a \<notin> used t \<Longrightarrow> card (used t) + 1 < limit \<Longrightarrow>
      \<exists>t'. insert_key t k a = Some (a, True, t') \<and> inv t' \<and> used t' = insert a (used t)
        \<and> (\<forall>k'. valid k' \<longrightarrow> lookup t' k' = (if k' = k then Some a else lookup t k'))"
    and insert_old: "inv t \<Longrightarrow> valid k \<Longrightarrow> lookup t k = Some b \<Longrightarrow> insert_key t k a = Some (b, False, t)"
    and delete_found: "inv t \<Longrightarrow> valid k \<Longrightarrow> lookup t k = Some a \<Longrightarrow>
      \<exists>t'. delete_key t a = Some t' \<and> inv t' \<and> used t' = used t - {a}
        \<and> (\<forall>k'. valid k' \<longrightarrow> lookup t' k' = (if k' = k then None else lookup t k'))"
    and finite_used: "inv t \<Longrightarrow> finite (used t)"
    and lookup_used: "inv t \<Longrightarrow> valid k \<Longrightarrow> lookup t k = Some a \<Longrightarrow> a \<in> used t"
begin

text \<open>Inserting keys one after the other.\<close>

fun insert_list :: "'t \<Rightarrow> ('k \<times> nat) list \<Rightarrow> 't option" where
  "insert_list t [] = Some t"
| "insert_list t ((k, a) # kas) =
     (case insert_key t k a of None \<Rightarrow> None | Some (_, _, t') \<Rightarrow> insert_list t' kas)"

lemma insert_list_lookup:
  assumes "inv t" and "\<forall>k\<in>fst ` set kas. valid k" and "distinct (map snd kas)"
    and "snd ` set kas \<inter> used t = {}" and "card (used t) + length kas < limit"
  shows "\<exists>t'. insert_list t kas = Some t' \<and> inv t' \<and> card (used t') \<le> card (used t) + length kas
    \<and> (\<forall>k. valid k \<longrightarrow> lookup t' k = (case lookup t k of Some b \<Rightarrow> Some b | None \<Rightarrow> map_of kas k))"
  using assms
proof (induction kas arbitrary: t)
  case Nil
  then show ?case by (auto split: option.splits)
next
  case (Cons ka kas)
  obtain k a where ka: "ka = (k, a)" by (cases ka)
  have k: "valid k" using Cons.prems(2) ka by simp
  show ?case
  proof (cases "lookup t k")
    case None
    have "a \<notin> used t" "card (used t) + 1 < limit" using Cons.prems(4,5) ka by auto
    from insert_new [OF Cons.prems(1) k None this] obtain t1 where
      t1: "insert_key t k a = Some (a, True, t1)" "inv t1" "used t1 = insert a (used t)"
      "\<forall>k'. valid k' \<longrightarrow> lookup t1 k' = (if k' = k then Some a else lookup t k')" by blast
    have "card (used t1) = card (used t) + 1"
      using t1(3) \<open>a \<notin> used t\<close> finite_used [OF Cons.prems(1)] by simp
    then have "snd ` set kas \<inter> used t1 = {}" "card (used t1) + length kas < limit" "card (used t1) + length kas = card (used t) + length (ka # kas)"
      using t1(3) Cons.prems(3,4,5) ka by auto
    with Cons.IH [OF t1(2)] Cons.prems(2,3) obtain t' where
      t': "insert_list t1 kas = Some t'" "inv t'" "card (used t') \<le> card (used t1) + length kas"
      "\<forall>k. valid k \<longrightarrow> lookup t' k = (case lookup t1 k of Some b \<Rightarrow> Some b | None \<Rightarrow> map_of kas k)" by auto
    have "lookup t' k' = (case lookup t k' of Some b \<Rightarrow> Some b | None \<Rightarrow> map_of (ka # kas) k')" if "valid k'" for k'
      using t'(4) t1(4) that None ka by (simp split: option.splits)
    with t1(1) t' ka \<open>card (used t1) + length kas = card (used t) + length (ka # kas)\<close> show ?thesis by auto
  next
    case (Some b)
    from insert_old [OF Cons.prems(1) k Some] have o: "insert_key t k a = Some (b, False, t)" .
    from Cons.IH [OF Cons.prems(1)] Cons.prems(2-5) obtain t' where
      t': "insert_list t kas = Some t'" "inv t'" "card (used t') \<le> card (used t) + length kas"
      "\<forall>k. valid k \<longrightarrow> lookup t' k = (case lookup t k of Some b \<Rightarrow> Some b | None \<Rightarrow> map_of kas k)" by auto
    have "lookup t' k' = (case lookup t k' of Some b \<Rightarrow> Some b | None \<Rightarrow> map_of (ka # kas) k')" if "valid k'" for k'
      using t'(4) that Some ka by (auto split: option.splits)
    with o t' ka show ?thesis by auto
  qed
qed

text \<open>A new key that is deleted again leaves the map as it was.\<close>

lemma insert_delete:
  assumes "inv t" and "valid k" and "lookup t k = None" and "a \<notin> used t" and "card (used t) + 1 < limit"
  shows "\<exists>t1 t2. insert_key t k a = Some (a, True, t1) \<and> delete_key t1 a = Some t2 \<and> inv t2
    \<and> (\<forall>k'. valid k' \<longrightarrow> lookup t2 k' = lookup t k')"
proof -
  from insert_new [OF assms] obtain t1 where t1: "insert_key t k a = Some (a, True, t1)" "inv t1"
    "\<forall>k'. valid k' \<longrightarrow> lookup t1 k' = (if k' = k then Some a else lookup t k')" by blast
  with assms(2) have "lookup t1 k = Some a" by simp
  from delete_found [OF t1(2) assms(2) this] t1 assms(2,3) show ?thesis by auto
qed

end

text \<open>The operations on addresses, and the tables of one key type.\<close>

definition find_addr :: "'c hash_table \<Rightarrow> 'c hash_key \<Rightarrow> nat option" where
  "find_addr t k = (case Tcl_FindHashEntry t k of Some (Some e) \<Rightarrow> Some (addr e) | _ \<Rightarrow> None)"

definition create_addr :: "'c hash_table \<Rightarrow> 'c hash_key \<Rightarrow> nat \<Rightarrow> (nat \<times> bool \<times> 'c hash_table) option" where
  "create_addr t k a = map_option (\<lambda>(e, new, t'). (addr e, new, t')) (Tcl_CreateHashEntry t k a)"

definition delete_addr :: "'c hash_table \<Rightarrow> nat \<Rightarrow> 'c hash_table option" where
  "delete_addr t a = (case entry_at t a of None \<Rightarrow> None | Some e \<Rightarrow> Tcl_DeleteHashEntry t e)"

definition used_addrs :: "'c hash_table \<Rightarrow> nat set" where
  "used_addrs t = addr ` set (entries t)"

definition table_of :: "'c key_type \<Rightarrow> ('c hash_key \<Rightarrow> bool) \<Rightarrow> 'c hash_table \<Rightarrow> bool" where
  "table_of tp K t \<longleftrightarrow> table_inv K t \<and> table_type t = tp"

lemma find_addr_iff:
  assumes "table_of tp K t" and "K k"
  shows "find_addr t k = Some a \<longleftrightarrow> (\<exists>e\<in>set (entries t). addr e = a \<and> same_key tp k (key e))"
proof -
  have inv: "table_inv K t" "table_type t = tp" using assms(1) by (simp_all add: table_of_def)
  have "find_addr t k = map_option addr (FindHashEntry t k)"
    using table_invD(1) [OF inv(1)] by (simp add: find_addr_def Tcl_FindHashEntry_def split: option.splits)
  with FindHashEntry_iff [OF inv(1) assms(2)] inv(2) show ?thesis by auto
qed

lemma find_addr_map:
  "table_of tp K t \<Longrightarrow> find_addr t k = map_option addr (FindHashEntry t k)"
  using table_invD(1) [of K t] by (simp add: find_addr_def table_of_def Tcl_FindHashEntry_def split: option.splits)

lemma card_used: "table_inv K t \<Longrightarrow> int (card (used_addrs t)) = numEntries t"
  using table_invD(6,8) [of K t] distinct_card [of "map addr (entries t)"] by (simp add: used_addrs_def)

text \<open>A lookup is determined by the entries that hold an equal key.\<close>

lemma find_addr_cong:
  assumes "table_of tp K t" "table_of tp K t'" "K k"
    and "\<And>e. same_key tp k (key e) \<Longrightarrow> e \<in> set (entries t) \<longleftrightarrow> e \<in> set (entries t')"
  shows "find_addr t k = find_addr t' k"
proof -
  have "find_addr t k = Some a \<longleftrightarrow> find_addr t' k = Some a" for a
    using find_addr_iff [OF assms(1,3)] find_addr_iff [OF assms(2,3)] assms(4) by blast
  then show ?thesis by (metis option.exhaust)
qed

lemma key_map_table:
  fixes tp :: "'c key_type"
  assumes eq: "\<And>k k'. K k \<Longrightarrow> K k' \<Longrightarrow> same_key tp k k' = (k = k')"
  shows "key_map find_addr create_addr delete_addr used_addrs (table_of tp K) K (nat max_entries)"
proof
  fix t k a
  assume t: "table_of tp K t" and k: "K k" and none: "find_addr t k = None" and a: "a \<notin> used_addrs t"
    and room: "card (used_addrs t) + 1 < nat max_entries"
  have inv: "table_inv K t" and tp: "table_type t = tp" using t by (simp_all add: table_of_def)
  have "FindHashEntry t k = None" using none find_addr_map [OF t, of k] by simp
  moreover have "numEntries t + 1 < max_entries" using card_used [OF inv] room by (simp add: max_entries_def)
  ultimately obtain t' e where e: "e = new_entry tp a (key_hash tp k) k"
    and c: "CreateHashEntry t k (Some a) = (Some e, True, t')" "table_inv K t'"
    "mset (entries t') = add_mset e (mset (entries t))" "table_type t' = tp"
    using CreateHashEntry_new [OF inv k a [unfolded used_addrs_def]] tp by metis
  have ea: "addr e = a" using e by (simp add: new_entry_def split_beta)
  have "lawful tp K" using table_invD(3) [OF inv] tp by simp
  then have "K (key e)" "same_key tp k (key e)" using k e unfolding lawful_def by blast+
  then have ek: "key e = k" using eq k by simp
  have set: "set (entries t') = insert e (set (entries t))" using c(3) by (metis set_mset_add_mset_insert set_mset_mset)
  have t': "table_of tp K t'" using c by (simp add: table_of_def)
  have find: "find_addr t' k' = (if k' = k then Some a else find_addr t k')" if "K k'" for k'
  proof (cases "k' = k")
    case True
    have "find_addr t' k = Some a" using find_addr_iff [OF t' k] set ea ek eq [OF k k] by auto
    with True show ?thesis by simp
  next
    case False
    have "find_addr t' k' = find_addr t k'"
    proof (rule find_addr_cong [OF t' t that])
      fix d :: "'c hash_entry"
      assume "same_key tp k' (key d)"
      with False eq [OF that k] ek set show "d \<in> set (entries t') \<longleftrightarrow> d \<in> set (entries t)" by auto
    qed
    with False show ?thesis by simp
  qed
  have "create_addr t k a = Some (a, True, t')"
    using c(1) ea table_invD(1) [OF inv] by (simp add: create_addr_def Tcl_CreateHashEntry_def)
  with t' find set ea show "\<exists>t'. create_addr t k a = Some (a, True, t') \<and> table_of tp K t' \<and> used_addrs t' = insert a (used_addrs t)
      \<and> (\<forall>k'. K k' \<longrightarrow> find_addr t' k' = (if k' = k then Some a else find_addr t k'))"
    by (auto simp: used_addrs_def)
next
  fix t k a b
  assume t: "table_of tp K t" and k: "K k" and some: "find_addr t k = Some b"
  then obtain e where e: "FindHashEntry t k = Some e" "addr e = b" using find_addr_map [OF t, of k] by auto
  have "\<not> deleted t" using table_invD(1) [of K t] t by (simp add: table_of_def)
  with CreateHashEntry_found [OF e(1), of a] e(2) show "create_addr t k a = Some (b, False, t)"
    by (simp add: create_addr_def Tcl_CreateHashEntry_def)
next
  fix t k a
  assume t: "table_of tp K t" and k: "K k" and some: "find_addr t k = Some a"
  have inv: "table_inv K t" and tp: "table_type t = tp" using t by (simp_all add: table_of_def)
  from some find_addr_iff [OF t k] obtain e where e: "e \<in> set (entries t)" "addr e = a" "same_key tp k (key e)" by blast
  have ek: "key e = k" using eq [OF k] e table_invD(5) [OF inv] by simp
  have at: "entry_at t a = Some e" using entry_at_iff [OF table_invD(6) [OF inv]] e by blast
  from Tcl_DeleteHashEntry_entry [OF inv e(1)] obtain t' where d: "Tcl_DeleteHashEntry t e = Some t'" "table_inv K t'"
    "mset (entries t) = add_mset e (mset (entries t'))" "table_type t' = tp" using tp by metis
  have t': "table_of tp K t'" using d by (simp add: table_of_def)
  have set: "set (entries t) = insert e (set (entries t'))" using d(3) by (metis set_mset_add_mset_insert set_mset_mset)
  have "mset (map addr (entries t)) = mset (map addr (e # entries t'))" using d(3) by simp
  then have "distinct (map addr (e # entries t'))" using table_invD(6) [OF inv] mset_eq_imp_distinct_iff by blast
  then have notin: "a \<notin> addr ` set (entries t')" using e(2) by simp
  have find: "find_addr t' k' = (if k' = k then None else find_addr t k')" if "K k'" for k'
  proof (cases "k' = k")
    case True
    have "find_addr t' k \<noteq> Some b" for b
    proof
      assume "find_addr t' k = Some b"
      with find_addr_iff [OF t' k] obtain f where f: "f \<in> set (entries t')" "same_key tp k (key f)" by blast
      then have "key f = k" using eq [OF k] table_invD(5) [OF d(2)] by simp
      then have "same_key tp (key f) (key e)" using ek eq [OF k k] by simp
      moreover have "f \<in> set (entries t)" using f(1) set by blast
      ultimately have "addr f = addr e"
        using table_invD(7) [OF inv] e(1) unfolding distinct_keys_def tp by blast
      then have "a \<in> addr ` set (entries t')" using f(1) e(2) by (metis image_eqI)
      with notin show False by blast
    qed
    with True show ?thesis by (cases "find_addr t' k") auto
  next
    case False
    have "find_addr t' k' = find_addr t k'"
    proof (rule find_addr_cong [OF t' t that])
      fix f :: "'c hash_entry"
      assume "same_key tp k' (key f)"
      with False eq [OF that k] ek set show "f \<in> set (entries t') \<longleftrightarrow> f \<in> set (entries t)" by auto
    qed
    with False show ?thesis by simp
  qed
  have "delete_addr t a = Some t'" using at d(1) by (simp add: delete_addr_def)
  moreover have "used_addrs t' = used_addrs t - {a}" using set notin e(2) by (auto simp: used_addrs_def)
  ultimately show "\<exists>t'. delete_addr t a = Some t' \<and> table_of tp K t' \<and> used_addrs t' = used_addrs t - {a}
      \<and> (\<forall>k'. K k' \<longrightarrow> find_addr t' k' = (if k' = k then None else find_addr t k'))"
    using t' find by blast
next
  fix t :: "'c hash_table"
  show "finite (used_addrs t)" by (simp add: used_addrs_def)
next
  fix t k a
  assume t: "table_of tp K t" "K k" "find_addr t k = Some a"
  then show "a \<in> used_addrs t" using find_addr_iff [OF t(1,2)] by (auto simp: used_addrs_def)
qed

interpretation string_table: key_map find_addr create_addr delete_addr used_addrs
  "table_of tclStringHashKeyType string_key" string_key "nat max_entries"
  by (rule key_map_table [OF same_key_string])

interpretation word_table: key_map find_addr create_addr delete_addr used_addrs
  "table_of tclOneWordHashKeyType word_key" word_key "nat max_entries"
  by (rule key_map_table [OF same_key_word])

interpretation array_table: key_map find_addr create_addr delete_addr used_addrs
  "table_of (tclArrayHashKeyType n) (array_key n)" "array_key n" "nat max_entries" for n
  by (rule key_map_table [OF same_key_array])

text \<open>The keys that go with the key type of a table, and creating entries one after the other.\<close>

definition proper_key :: "int \<Rightarrow> 'c hash_key \<Rightarrow> bool" where
  "proper_key kt k \<longleftrightarrow> kt = TCL_STRING_KEYS \<and> string_key k \<or> kt = TCL_ONE_WORD_KEYS \<and> word_key k
     \<or> kt \<ge> 2 \<and> array_key (nat kt) k"

fun create_all :: "'c hash_table \<Rightarrow> ('c hash_key \<times> nat) list \<Rightarrow> 'c hash_table option" where
  "create_all t [] = Some t"
| "create_all t ((k, a) # kas) =
     (case Tcl_CreateHashEntry t k a of None \<Rightarrow> None | Some (_, _, t') \<Rightarrow> create_all t' kas)"

lemma create_all_eq: "create_all t kas = string_table.insert_list t kas"
proof (induction t kas rule: create_all.induct)
  case (2 t k a kas)
  then show ?case by (cases "Tcl_CreateHashEntry t k a") (auto simp: create_addr_def [of t k a])
qed simp

lemma table_type_init:
  "table_type (Tcl_InitCustomHashTable TCL_STRING_KEYS tp) = tclStringHashKeyType"
  "table_type (Tcl_InitCustomHashTable TCL_ONE_WORD_KEYS tp) = tclOneWordHashKeyType"
  "2 \<le> kt \<Longrightarrow> table_type (Tcl_InitCustomHashTable kt tp) = tclArrayHashKeyType (nat kt)"
  by (simp_all add: table_type_def Tcl_InitCustomHashTable_def key_type_defs)

lemma init_table_of:
  "table_of tclStringHashKeyType string_key (Tcl_InitCustomHashTable TCL_STRING_KEYS tp)"
  "table_of tclOneWordHashKeyType word_key (Tcl_InitCustomHashTable TCL_ONE_WORD_KEYS tp)"
  "2 \<le> kt \<Longrightarrow> table_of (tclArrayHashKeyType (nat kt)) (array_key (nat kt)) (Tcl_InitCustomHashTable kt tp)"
  unfolding table_of_def
  using Tcl_InitCustomHashTable_inv(1) [of TCL_STRING_KEYS tp string_key, unfolded table_type_init, OF lawful_string]
    Tcl_InitCustomHashTable_inv(1) [of TCL_ONE_WORD_KEYS tp word_key, unfolded table_type_init, OF lawful_word]
    Tcl_InitCustomHashTable_inv(1) [of kt tp "array_key (nat kt)"] lawful_array [of "nat kt"]
  by (simp_all add: table_type_init)

text \<open>The states a table goes through: creations at fresh addresses and deletions of entries.\<close>

inductive reachable :: "('c hash_key \<Rightarrow> bool) \<Rightarrow> int \<Rightarrow> 'c key_type \<Rightarrow> 'c hash_table \<Rightarrow> bool"
  for K kt tp where
  init: "reachable K kt tp (Tcl_InitCustomHashTable kt tp)"
| create: "reachable K kt tp t \<Longrightarrow> K k \<Longrightarrow> a \<notin> addr ` set (entries t) \<Longrightarrow> numEntries t + 1 < max_entries \<Longrightarrow>
    Tcl_CreateHashEntry t k a = Some (e, new, t') \<Longrightarrow> reachable K kt tp t'"
| delete: "reachable K kt tp t \<Longrightarrow> e \<in> set (entries t) \<Longrightarrow> Tcl_DeleteHashEntry t e = Some t' \<Longrightarrow> reachable K kt tp t'"

lemma reachable_inv:
  "reachable K kt tp t \<Longrightarrow> lawful (table_type (Tcl_InitCustomHashTable kt tp)) K \<Longrightarrow> table_inv K t"
proof (induction rule: reachable.induct)
  case init
  then show ?case by (rule Tcl_InitCustomHashTable_inv)
next
  case (create t k a e new t')
  then have inv: "table_inv K t" by blast
  have c: "CreateHashEntry t k (Some a) = (Some e, new, t')"
    using create.hyps(5) table_invD(1) [OF inv]
    by (auto simp: Tcl_CreateHashEntry_def split: prod.splits option.splits)
  show ?case
  proof (cases "FindHashEntry t k")
    case None
    from CreateHashEntry_new [OF inv create.hyps(2,3) None create.hyps(4)] c show ?thesis by auto
  next
    case (Some e')
    from CreateHashEntry_found [OF Some, of a] c inv show ?thesis by simp
  qed
next
  case (delete t e t')
  from Tcl_DeleteHashEntry_entry [OF delete.IH [OF delete.prems] delete.hyps(2)] delete.hyps(3) show ?case by auto
qed

text \<open>A list of creations with fresh addresses leads from a reachable table to a reachable one.\<close>

lemma create_all_reachable:
  assumes lawful: "lawful (table_type (Tcl_InitCustomHashTable kt tp)) K"
  shows "reachable K kt tp t \<Longrightarrow> \<forall>k\<in>fst ` set kas. K k \<Longrightarrow> distinct (map snd kas) \<Longrightarrow> snd ` set kas \<inter> addr ` set (entries t) = {}
    \<Longrightarrow> numEntries t + int (length kas) < max_entries \<Longrightarrow> create_all t kas = Some t' \<Longrightarrow> reachable K kt tp t'"
proof (induction kas arbitrary: t)
  case (Cons ka kas)
  obtain k a where ka: "ka = (k, a)" by force
  obtain e new t1 where c: "Tcl_CreateHashEntry t k a = Some (e, new, t1)" "create_all t1 kas = Some t'"
    using Cons.prems(6) by (auto simp: ka split: option.splits)
  have inv: "table_inv K t" using reachable_inv [OF Cons.prems(1) lawful] .
  have cr: "CreateHashEntry t k (Some a) = (Some e, new, t1)"
    using c(1) table_invD(1) [OF inv] by (auto simp: Tcl_CreateHashEntry_def split: prod.splits option.splits)
  have room: "numEntries t + 1 < max_entries" "a \<notin> addr ` set (entries t)" "K k" using Cons.prems(2,4,5) by (auto simp: ka)
  have "numEntries t1 \<le> numEntries t + 1 \<and> addr ` set (entries t1) \<subseteq> insert a (addr ` set (entries t))"
  proof (cases "FindHashEntry t k")
    case None
    let ?f = "new_entry (table_type t) a (key_hash (table_type t) k) k"
    have "addr ?f = a" by (simp add: new_entry_def split: prod.split)
    with CreateHashEntry_new [OF inv room(3,2) None room(1)] cr obtain f where
      f: "table_inv K t1" "mset (entries t1) = add_mset f (mset (entries t))" "addr f = a" by auto
    then have "set (entries t1) = insert f (set (entries t))" by (metis set_mset_add_mset_insert set_mset_mset)
    moreover have "length (entries t1) = Suc (length (entries t))" using f(2) by (metis size_add_mset size_mset)
    ultimately show ?thesis using table_invD(8) [OF inv] table_invD(8) [OF f(1)] f(3) by simp
  next
    case (Some f)
    from CreateHashEntry_found [OF Some, of a] cr show ?thesis by auto
  qed
  moreover have "snd ` set kas \<inter> insert a (addr ` set (entries t)) = {}" using Cons.prems(3,4) by (auto simp: ka)
  ultimately have t1: "snd ` set kas \<inter> addr ` set (entries t1) = {}" "numEntries t1 + int (length kas) < max_entries"
    using Cons.prems(5) by (blast, simp add: ka)
  show ?case
    by (rule Cons.IH [OF reachable.create [OF Cons.prems(1) room(3,2,1) c(1)] _ _ t1 c(2)]) (use Cons.prems in auto)
qed simp

text \<open>The client lemma of the interface, on an initialised table.\<close>

lemma create_all_map:
  assumes "table_of tp' K (Tcl_InitCustomHashTable kt tp)" and "\<And>k k'. K k \<Longrightarrow> K k' \<Longrightarrow> same_key tp' k k' = (k = k')"
    and "\<forall>k\<in>fst ` set kas. K k" and "distinct (map snd kas)" and "int (length kas) < max_entries"
  shows "\<exists>t. create_all (Tcl_InitCustomHashTable kt tp) kas = Some t \<and> \<not> deleted t
    \<and> (\<forall>k. K k \<longrightarrow> find_addr t k = map_of kas k)"
proof -
  let ?t = "Tcl_InitCustomHashTable kt tp"
  note m = key_map_table [of K tp', OF assms(2)]
  have used: "used_addrs ?t = {}" by (simp add: used_addrs_def entries_def Tcl_InitCustomHashTable_def)
  have empty: "find_addr ?t k = None" if "K k" for k
    using key_map.lookup_used [OF m assms(1) that] used by (cases "find_addr ?t k") auto
  from key_map.insert_list_lookup [OF m assms(1,3,4)] used assms(5) obtain t where
    t: "string_table.insert_list ?t kas = Some t" "table_of tp' K t"
    "\<forall>k. K k \<longrightarrow> find_addr t k = (case find_addr ?t k of Some b \<Rightarrow> Some b | None \<Rightarrow> map_of kas k)"
    by (auto simp: max_entries_def)
  have "\<not> deleted t" using t(2) table_invD(1) [of K t] by (simp add: table_of_def)
  moreover have "create_all ?t kas = Some t" unfolding create_all_eq by (rule t(1))
  moreover have "\<forall>k. K k \<longrightarrow> find_addr t k = map_of kas k" using t(3) empty by simp
  ultimately show ?thesis by blast
qed

section \<open>The properties\<close>

text \<open>
  C13. A hash table is a finite map: after any list of creations in a new table of string,
  one-word or array keys, a lookup yields the address of the first entry created for the key,
  and nothing for any other key of that kind.  Rebuilding the table, which the creations
  trigger, is invisible.
\<close>

theorem hash_table_is_map:
  assumes "kt = TCL_STRING_KEYS \<or> kt = TCL_ONE_WORD_KEYS \<or> 2 \<le> kt"
    and "\<forall>k\<in>fst ` set kas. proper_key kt k" and "distinct (map snd kas)" and "int (length kas) < 805306368"
  shows "\<exists>t. create_all (Tcl_InitHashTable kt tp) kas = Some t
    \<and> (\<forall>k. proper_key kt k \<longrightarrow> Tcl_FindHashEntry t k \<noteq> None \<and> find_addr t k = map_of kas k)"
proof -
  have n: "int (length kas) < max_entries" using assms(4) by (simp add: max_entries_def)
  have "\<exists>t. create_all (Tcl_InitCustomHashTable kt tp) kas = Some t \<and> \<not> deleted t
    \<and> (\<forall>k. proper_key kt k \<longrightarrow> find_addr t k = map_of kas k)"
    using assms(1)
  proof (elim disjE)
    assume kt: "kt = TCL_STRING_KEYS"
    then have "proper_key kt k = string_key k" for k :: "'a hash_key" by (simp add: proper_key_def key_type_defs)
    with create_all_map [OF init_table_of(1) same_key_string _ assms(3) n] assms(2) kt show ?thesis by simp
  next
    assume kt: "kt = TCL_ONE_WORD_KEYS"
    then have "proper_key kt k = word_key k" for k :: "'a hash_key" by (simp add: proper_key_def key_type_defs)
    with create_all_map [OF init_table_of(2) same_key_word _ assms(3) n] assms(2) kt show ?thesis by simp
  next
    assume kt: "2 \<le> kt"
    then have "proper_key kt k = array_key (nat kt) k" for k :: "'a hash_key" by (auto simp: proper_key_def key_type_defs)
    with create_all_map [OF init_table_of(3) [OF kt] same_key_array _ assms(3) n] assms(2) show ?thesis by simp
  qed
  then show ?thesis by (auto simp: Tcl_InitHashTable_def Tcl_FindHashEntry_def)
qed

theorem hash_table_is_map_witness:
  "\<exists>t. create_all (Tcl_InitHashTable TCL_STRING_KEYS tclStringHashKeyType)
      [(String ''a'', 1), (String ''b'', 2), (String ''a'', 3)] = Some (t :: unit hash_table)
    \<and> find_addr t (String ''a'') = Some 1 \<and> find_addr t (String ''c'') = None"
proof -
  let ?kas = "[(String ''a'', 1), (String ''b'', 2), (String ''a'', 3)] :: (unit hash_key \<times> nat) list"
  have "\<forall>k\<in>fst ` set ?kas. proper_key TCL_STRING_KEYS k" "proper_key TCL_STRING_KEYS (String ''c'' :: unit hash_key)"
    by (simp_all add: proper_key_def string_key_def)
  with hash_table_is_map [of TCL_STRING_KEYS ?kas tclStringHashKeyType] show ?thesis by fastforce
qed

text \<open>
  C14. Safety in every reachable state, for the built-in key types and for any custom type
  whose comparison is an equivalence that its hash respects: lookups find exactly the entry
  with an equal key, deleting an entry of the table never panics, the entry count is right,
  no address occurs twice, and the size fields describe the bucket array.
\<close>

theorem hash_reachable_safe:
  assumes "lawful (table_type (Tcl_InitCustomHashTable kt tp)) K" and "reachable K kt tp t"
  shows "(\<forall>k e. K k \<longrightarrow> Tcl_FindHashEntry t k = Some (Some e) \<longleftrightarrow> e \<in> set (entries t) \<and> same_key (table_type t) k (key e))
    \<and> (\<forall>e\<in>set (entries t). Tcl_DeleteHashEntry t e \<noteq> None)
    \<and> numEntries t = int (length (entries t)) \<and> distinct (map addr (entries t))
    \<and> length (buckets t) = numBuckets t \<and> numEntries t < rebuildSize t \<and> mask t = int (numBuckets t) - 1"
proof -
  have inv: "table_inv K t" using reachable_inv [OF assms(2,1)] .
  note i = table_invD [OF inv]
  have "Tcl_DeleteHashEntry t e \<noteq> None" if "e \<in> set (entries t)" for e
    using Tcl_DeleteHashEntry_entry [OF inv that] by auto
  moreover have "length (buckets t) = numBuckets t \<and> mask t = int (numBuckets t) - 1"
    using i(2) by (auto simp: sized_def)
  ultimately show ?thesis
    using FindHashEntry_iff [OF inv] i by (auto simp: Tcl_FindHashEntry_def)
qed

theorem hash_reachable_safe_witness:
  "let t = Tcl_InitCustomHashTable TCL_ONE_WORD_KEYS (tclOneWordHashKeyType :: unit key_type) in
   \<exists>t'. Tcl_CreateHashEntry t (OneWord 0x1000) 5 = Some (\<lparr>addr = 5, hash = 0x1000, clientData = 0, key = OneWord 0x1000\<rparr>, True, t')
     \<and> numEntries t' = int (length (entries t')) \<and> mask t' = int (numBuckets t') - 1"
proof -
  let ?t = "Tcl_InitCustomHashTable TCL_ONE_WORD_KEYS (tclOneWordHashKeyType :: unit key_type)"
  have lawful: "lawful (table_type ?t) word_key" using lawful_word by (simp add: table_type_init)
  have "FindHashEntry ?t (OneWord 0x1000) = None" by code_simp
  moreover have "word_key (OneWord 0x1000)" by (simp add: word_key_def)
  moreover have "numEntries ?t + 1 < max_entries" by (simp add: max_entries_def Tcl_InitCustomHashTable_def)
  moreover have e: "new_entry (table_type ?t) 5 (key_hash (table_type ?t) (OneWord 0x1000)) (OneWord 0x1000)
      = \<lparr>addr = 5, hash = 0x1000, clientData = 0, key = OneWord 0x1000\<rparr>"
    unfolding table_type_init by (simp add: new_entry_def tclOneWordHashKeyType_def key_hash_def key_bits_def)
  ultimately obtain t' where c: "CreateHashEntry ?t (OneWord 0x1000) (Some 5) = (Some \<lparr>addr = 5, hash = 0x1000, clientData = 0, key = OneWord 0x1000\<rparr>, True, t')"
    using CreateHashEntry_new [OF Tcl_InitCustomHashTable_inv(1) [OF lawful], of "OneWord 0x1000" 5]
      Tcl_InitCustomHashTable_inv(2) [OF lawful] unfolding e by (metis empty_iff image_is_empty list.set(1))
  have "\<not> deleted ?t" by (simp add: Tcl_InitCustomHashTable_def)
  with c have t': "Tcl_CreateHashEntry ?t (OneWord 0x1000) 5 = Some (\<lparr>addr = 5, hash = 0x1000, clientData = 0, key = OneWord 0x1000\<rparr>, True, t')"
    by (simp add: Tcl_CreateHashEntry_def)
  have "reachable word_key TCL_ONE_WORD_KEYS tclOneWordHashKeyType t'"
    by (rule reachable.create [OF reachable.init _ _ _ t'])
      (simp_all add: word_key_def Tcl_InitCustomHashTable_inv(2) [OF lawful] \<open>numEntries ?t + 1 < max_entries\<close>)
  from hash_reachable_safe [OF lawful this] t' show ?thesis by (auto simp: Let_def)
qed

text \<open>
  C15. Searches: starting at \<open>Tcl_FirstHashEntry\<close>, a search of a reachable table returns every
  entry exactly once and then \<open>NULL\<close>; and when the caller deletes each entry as soon as it is
  returned, the search still returns every entry, nothing panics or reads a freed entry, and the
  table ends empty.
\<close>

theorem hash_search_complete:
  assumes "lawful (table_type (Tcl_InitCustomHashTable kt tp)) K" and "reachable K kt tp t"
    and "length (entries t) < fuel"
  shows "visit fuel t \<lparr>nextIndex = 0, nextEntryPtr = None\<rparr> = Some (map addr (entries t)) \<and> distinct (map addr (entries t))
    \<and> (\<exists>t'. visit_delete fuel t \<lparr>nextIndex = 0, nextEntryPtr = None\<rparr> = Some (map addr (entries t), t')
          \<and> entries t' = [] \<and> numEntries t' = 0)"
proof -
  have inv: "table_inv K t" using reachable_inv [OF assms(2,1)] .
  have fuel: "length (search_rest t \<lparr>nextIndex = 0, nextEntryPtr = None\<rparr>) < fuel"
    using assms(3) by (simp add: search_start)
  from visit_delete_rest [OF inv search_start(1) fuel] obtain t' where
    t': "visit_delete fuel t \<lparr>nextIndex = 0, nextEntryPtr = None\<rparr> = Some (map addr (entries t), t')"
    "table_inv K t'" "mset (entries t) = mset (entries t) + mset (entries t')"
    by (auto simp: search_start)
  then have "entries t' = []" by simp
  with t' table_invD(8) [OF t'(2)] visit_rest [OF inv search_start(1) fuel] table_invD(6) [OF inv] show ?thesis by (simp add: search_start)
qed

theorem hash_search_complete_witness:
  "\<exists>t t'. create_all (Tcl_InitCustomHashTable TCL_STRING_KEYS tclStringHashKeyType)
      [(String ''a'', 1), (String ''b'', 2), (String ''e'', 3)] = Some (t :: unit hash_table)
    \<and> visit 4 t \<lparr>nextIndex = 0, nextEntryPtr = None\<rparr> = Some [3, 1, 2]
    \<and> visit_delete 4 t \<lparr>nextIndex = 0, nextEntryPtr = None\<rparr> = Some ([3, 1, 2], t') \<and> entries t' = []"
proof -
  let ?kas = "[(String ''a'', 1), (String ''b'', 2), (String ''e'', 3)] :: (unit hash_key \<times> nat) list"
  let ?t = "Tcl_InitCustomHashTable TCL_STRING_KEYS (tclStringHashKeyType :: unit key_type)"
  have lawful: "lawful (table_type ?t) string_key" using lawful_string by (simp add: table_type_init)
  have "numEntries ?t = 0" by (simp add: Tcl_InitCustomHashTable_def)
  have "map_option (\<lambda>t. map addr (entries t)) (create_all ?t ?kas) = Some [3, 1, 2]" by code_simp
  then obtain t where t: "create_all ?t ?kas = Some t" "map addr (entries t) = [3, 1, 2]" by auto
  have "reachable string_key TCL_STRING_KEYS tclStringHashKeyType t"
    by (rule create_all_reachable [OF lawful reachable.init _ _ _ _ t(1)])
      (simp_all add: string_key_def Tcl_InitCustomHashTable_inv(2) [OF lawful] max_entries_def \<open>numEntries ?t = 0\<close>)
  moreover have "length (entries t) < 4" using arg_cong [OF t(2), of length] by simp
  ultimately show ?thesis using hash_search_complete [OF lawful, of t 4] t by auto
qed

text \<open>
  C16. The two index computations agree: an entry is put into the bucket of its hash taken as
  an unsigned value and is looked for, when it is deleted or the table is rebuilt, with the
  hash taken as a signed value; in every reachable table the index is the same and in range.
\<close>

theorem hash_index_agrees:
  assumes "lawful (table_type (Tcl_InitCustomHashTable kt tp)) K" and "reachable K kt tp t"
  shows "entry_index t h = key_index t h \<and> key_index t h < length (buckets t)"
proof -
  obtain n where "sized n t" using table_invD(2) [OF reachable_inv [OF assms(2,1)]] by blast
  with entry_index_eq [of n t] key_index_less [of n t] show ?thesis by (simp add: sized_def)
qed

theorem hash_index_agrees_witness:
  "entry_index (Tcl_InitCustomHashTable TCL_ONE_WORD_KEYS (tclOneWordHashKeyType :: unit key_type)) 0xFFFFFFF0
   = key_index (Tcl_InitCustomHashTable TCL_ONE_WORD_KEYS (tclOneWordHashKeyType :: unit key_type)) 0xFFFFFFF0"
proof -
  let ?t = "Tcl_InitCustomHashTable TCL_ONE_WORD_KEYS (tclOneWordHashKeyType :: unit key_type)"
  have "lawful (table_type ?t) word_key" using lawful_word by (simp add: table_type_init)
  from hash_index_agrees [OF this reachable.init, where h = "0xFFFFFFF0"] show ?thesis by blast
qed

text \<open>
  Deleting a table frees every entry exactly once, and every use of the deleted table
  is the panic of \<open>BogusFind\<close> or \<open>BogusCreate\<close>.
\<close>

theorem hash_table_deleted:
  assumes "lawful (table_type (Tcl_InitCustomHashTable kt tp)) K" and "reachable K kt tp t"
    and "Tcl_DeleteHashTable t = (freed, t')"
  shows "set freed = addr ` set (entries t) \<and> distinct freed \<and> int (length freed) = numEntries t
    \<and> Tcl_FindHashEntry t' k = None \<and> Tcl_CreateHashEntry t' k a = None"
proof -
  have inv: "table_inv K t" using reachable_inv [OF assms(2,1)] .
  note i = table_invD [OF inv]
  have "take (numBuckets t) (buckets t) = buckets t" using i(2) by (auto simp: sized_def)
  then have "freed = map addr (entries t)" and "deleted t'"
    using assms(3) by (auto simp: Tcl_DeleteHashTable_def entries_def)
  with i(6,8) show ?thesis by (simp add: Tcl_FindHashEntry_def Tcl_CreateHashEntry_def)
qed

theorem hash_table_deleted_witness:
  "\<exists>t'. Tcl_DeleteHashTable (Tcl_InitCustomHashTable TCL_STRING_KEYS (tclStringHashKeyType :: unit key_type)) = ([], t')
    \<and> Tcl_FindHashEntry t' (String ''a'') = None"
proof -
  let ?t = "Tcl_InitCustomHashTable TCL_STRING_KEYS (tclStringHashKeyType :: unit key_type)"
  have lawful: "lawful (table_type ?t) string_key" using lawful_string by (simp add: table_type_init)
  obtain freed t' where d: "Tcl_DeleteHashTable ?t = (freed, t')" by force
  from hash_table_deleted [OF lawful reachable.init d, of "String ''a''"] d Tcl_InitCustomHashTable_inv(2) [OF lawful]
  show ?thesis by auto
qed

end
