(* ===== verification/Notify.thy ===== *)
theory Notify
  imports Prelude "HOL-Library.Monad_Syntax"
begin

text \<open>
  The event notifier, from \<open>tcl8.6/generic/tclNotify.c\<close>: the event queue of each thread with
  its marker, event sources, service modes, block times and the loop that processes one event.
  Events, event sources and thread data are cells of an explicit store linked by addresses, so
  that an event that is freed while something still points to it is visible.  A result
  \<open>None\<close> is a read through a null or dangling pointer, or a loop that does not end.  Between
  two unlocked points a queue is only touched by the thread that holds \<open>queueMutex\<close>, so each
  critical section is one function on the state.  Event procedures, the procedures of event
  sources, asynchronous and idle handlers and the platform's notifier are arguments: arbitrary
  functions on the whole state, which may call every operation of this theory.
\<close>

section \<open>Data\<close>

datatype Tcl_QueuePosition = TCL_QUEUE_TAIL | TCL_QUEUE_HEAD | TCL_QUEUE_MARK

definition TCL_DONT_WAIT :: int where "TCL_DONT_WAIT = 2"
definition TCL_IDLE_EVENTS :: int where "TCL_IDLE_EVENTS = 32"
definition TCL_ALL_EVENTS :: int where "TCL_ALL_EVENTS = NOT TCL_DONT_WAIT"
definition TCL_SERVICE_NONE :: int where "TCL_SERVICE_NONE = 0"
definition TCL_SERVICE_ALL :: int where "TCL_SERVICE_ALL = 1"

lemmas notify_constants =
  TCL_DONT_WAIT_def TCL_IDLE_EVENTS_def TCL_ALL_EVENTS_def TCL_SERVICE_NONE_def TCL_SERVICE_ALL_def

record Tcl_Event =
  event_proc :: "nat option"
  event_nextPtr :: "nat option"

record Tcl_Time =
  sec :: int
  usec :: int

record EventSource =
  setupProc :: "nat option"
  checkProc :: "nat option"
  source_clientData :: nat
  source_nextPtr :: "nat option"

text \<open>The data of a thread; a pointer to it is the identifier of the thread that owns it.\<close>

record ThreadSpecificData =
  firstEventPtr :: "nat option"
  lastEventPtr :: "nat option"
  markerEventPtr :: "nat option"
  serviceMode :: int
  blockTimeSet :: bool
  blockTime :: Tcl_Time
  inTraversal :: bool
  firstEventSourcePtr :: "nat option"
  threadId :: nat
  notifier_clientData :: nat
  initialized :: bool
  notifier_nextPtr :: "nat option"

definition zero_data :: ThreadSpecificData where
  "zero_data = \<lparr>firstEventPtr = None, lastEventPtr = None, markerEventPtr = None, serviceMode = 0,
     blockTimeSet = False, blockTime = \<lparr>sec = 0, usec = 0\<rparr>, inTraversal = False,
     firstEventSourcePtr = None, threadId = 0, notifier_clientData = 0, initialized = False,
     notifier_nextPtr = None\<rparr>"

record 'w process =
  events :: "nat \<Rightarrow> Tcl_Event option"
  sources :: "nat \<Rightarrow> EventSource option"
  tsd :: "nat \<Rightarrow> ThreadSpecificData"
  firstNotifierPtr :: "nat option"
  world :: 'w

text \<open>What the notifier calls.\<close>

record 'w calls =
  EventProc :: "nat \<Rightarrow> nat \<Rightarrow> int \<Rightarrow> 'w process \<Rightarrow> int \<times> 'w process"
  EventSetupProc :: "nat \<Rightarrow> nat \<Rightarrow> int \<Rightarrow> 'w process \<Rightarrow> 'w process"
  EventCheckProc :: "nat \<Rightarrow> nat \<Rightarrow> int \<Rightarrow> 'w process \<Rightarrow> 'w process"
  Tcl_AsyncReady :: "'w process \<Rightarrow> bool"
  Tcl_AsyncInvoke :: "'w process \<Rightarrow> 'w process"
  TclServiceIdle :: "'w process \<Rightarrow> int \<times> 'w process"
  Tcl_InitNotifier :: "'w process \<Rightarrow> nat \<times> 'w process"
  Tcl_FinalizeNotifier :: "nat \<Rightarrow> 'w process \<Rightarrow> 'w process"
  Tcl_WaitForEvent :: "Tcl_Time option \<Rightarrow> 'w process \<Rightarrow> int \<times> 'w process"
  Tcl_SetTimer :: "Tcl_Time option \<Rightarrow> 'w process \<Rightarrow> 'w process"
  Tcl_ServiceModeHook :: "int \<Rightarrow> 'w process \<Rightarrow> 'w process"
  Tcl_AlertNotifier :: "nat \<Rightarrow> 'w process \<Rightarrow> 'w process"

text \<open>Writes to a cell.\<close>

definition upd :: "nat \<Rightarrow> (ThreadSpecificData \<Rightarrow> ThreadSpecificData) \<Rightarrow> 'w process \<Rightarrow> 'w process" where
  "upd t f s = s\<lparr>tsd := (tsd s)(t := f (tsd s t))\<rparr>"

definition set_event :: "nat option \<Rightarrow> (Tcl_Event \<Rightarrow> Tcl_Event) \<Rightarrow> 'w process \<Rightarrow> 'w process option" where
  "set_event p f s =
     (case p of None \<Rightarrow> None
      | Some e \<Rightarrow> (case events s e of None \<Rightarrow> None
                 | Some ev \<Rightarrow> Some (s\<lparr>events := (events s)(e \<mapsto> f ev)\<rparr>)))"

definition set_next :: "nat option \<Rightarrow> nat option \<Rightarrow> 'w process \<Rightarrow> 'w process option" where
  "set_next p q = set_event p (\<lambda>ev. ev\<lparr>event_nextPtr := q\<rparr>)"

definition free_event :: "nat \<Rightarrow> 'w process \<Rightarrow> 'w process option" where
  "free_event e s =
     (case events s e of None \<Rightarrow> None | Some _ \<Rightarrow> Some (s\<lparr>events := (events s)(e := None)\<rparr>))"

definition get_next :: "nat option \<Rightarrow> 'w process \<Rightarrow> nat option option" where
  "get_next p s = (case p of None \<Rightarrow> None | Some e \<Rightarrow> map_option event_nextPtr (events s e))"

section \<open>The event queue\<close>

definition QueueEvent :: "nat \<Rightarrow> nat \<Rightarrow> Tcl_QueuePosition \<Rightarrow> 'w process \<Rightarrow> 'w process option" where
  "QueueEvent t evPtr position s =
     (case position of
        TCL_QUEUE_TAIL \<Rightarrow> do {
          s \<leftarrow> set_next (Some evPtr) None s;
          s \<leftarrow> (if firstEventPtr (tsd s t) = None
               then Some (upd t (\<lambda>d. d\<lparr>firstEventPtr := Some evPtr\<rparr>) s)
               else set_next (lastEventPtr (tsd s t)) (Some evPtr) s);
          Some (upd t (\<lambda>d. d\<lparr>lastEventPtr := Some evPtr\<rparr>) s)
        }
      | TCL_QUEUE_HEAD \<Rightarrow> do {
          s \<leftarrow> set_next (Some evPtr) (firstEventPtr (tsd s t)) s;
          let s = (if firstEventPtr (tsd s t) = None
                   then upd t (\<lambda>d. d\<lparr>lastEventPtr := Some evPtr\<rparr>) s else s);
          Some (upd t (\<lambda>d. d\<lparr>firstEventPtr := Some evPtr\<rparr>) s)
        }
      | TCL_QUEUE_MARK \<Rightarrow> do {
          s \<leftarrow> (if markerEventPtr (tsd s t) = None
               then do {
                 s \<leftarrow> set_next (Some evPtr) (firstEventPtr (tsd s t)) s;
                 Some (upd t (\<lambda>d. d\<lparr>firstEventPtr := Some evPtr\<rparr>) s)
               }
               else do {
                 n \<leftarrow> get_next (markerEventPtr (tsd s t)) s;
                 s \<leftarrow> set_next (Some evPtr) n s;
                 set_next (markerEventPtr (tsd s t)) (Some evPtr) s
               });
          let s = upd t (\<lambda>d. d\<lparr>markerEventPtr := Some evPtr\<rparr>) s;
          n \<leftarrow> get_next (Some evPtr) s;
          Some (if n = None then upd t (\<lambda>d. d\<lparr>lastEventPtr := Some evPtr\<rparr>) s else s)
        })"

definition Tcl_QueueEvent :: "nat \<Rightarrow> nat \<Rightarrow> Tcl_QueuePosition \<Rightarrow> 'w process \<Rightarrow> 'w process option" where
  "Tcl_QueueEvent t evPtr position s = QueueEvent t evPtr position s"

text \<open>The search of the list of notifiers for one of a given thread.\<close>

partial_function (option) find_notifier :: "nat \<Rightarrow> nat option \<Rightarrow> 'w process \<Rightarrow> nat option option" where
  "find_notifier tid p s =
     (case p of None \<Rightarrow> Some None
      | Some t \<Rightarrow> (if threadId (tsd s t) \<noteq> tid then find_notifier tid (notifier_nextPtr (tsd s t)) s
                  else Some (Some t)))"

definition Tcl_ThreadQueueEvent :: "nat \<Rightarrow> nat \<Rightarrow> Tcl_QueuePosition \<Rightarrow> 'w process \<Rightarrow> 'w process option" where
  "Tcl_ThreadQueueEvent tid evPtr position s = do {
     r \<leftarrow> find_notifier tid (firstNotifierPtr s) s;
     (case r of Some t \<Rightarrow> QueueEvent t evPtr position s | None \<Rightarrow> free_event evPtr s)
   }"

text \<open>
  Removal of an event whose predecessor in the queue is \<open>prevPtr\<close>, with the last event and
  the marker moved back if they are the event removed.
\<close>

definition unlink_event :: "nat \<Rightarrow> nat option \<Rightarrow> nat \<Rightarrow> 'w process \<Rightarrow> 'w process option" where
  "unlink_event t prevPtr evPtr s = do {
     n \<leftarrow> get_next (Some evPtr) s;
     s \<leftarrow> (if prevPtr = None then Some (upd t (\<lambda>d. d\<lparr>firstEventPtr := n\<rparr>) s)
          else set_next prevPtr n s);
     let s = (if n = None then upd t (\<lambda>d. d\<lparr>lastEventPtr := prevPtr\<rparr>) s else s);
     Some (if markerEventPtr (tsd s t) = Some evPtr
           then upd t (\<lambda>d. d\<lparr>markerEventPtr := prevPtr\<rparr>) s else s)
   }"

text \<open>
  The procedure of \<open>Tcl_DeleteEvents\<close> runs with \<open>queueMutex\<close> held, so it sees the event but
  does not change a queue.
\<close>

partial_function (option) DeleteEvents_loop ::
  "(nat \<Rightarrow> Tcl_Event \<Rightarrow> 'w \<Rightarrow> int \<times> 'w) \<Rightarrow> nat \<Rightarrow> nat option \<Rightarrow> nat option \<Rightarrow> 'w process \<Rightarrow> 'w process option"
where
  "DeleteEvents_loop prc t prevPtr evPtr s =
     (case evPtr of None \<Rightarrow> Some s
      | Some e \<Rightarrow> do {
          ev \<leftarrow> events s e;
          let (r, w) = prc e ev (world s);
          let s = s\<lparr>world := w\<rparr>;
          if r = 1 then do {
            s \<leftarrow> unlink_event t prevPtr e s;
            n \<leftarrow> get_next (Some e) s;
            s \<leftarrow> free_event e s;
            DeleteEvents_loop prc t prevPtr n s
          }
          else do {
            n \<leftarrow> get_next (Some e) s;
            DeleteEvents_loop prc t (Some e) n s
          }
        })"

definition Tcl_DeleteEvents ::
  "(nat \<Rightarrow> Tcl_Event \<Rightarrow> 'w \<Rightarrow> int \<times> 'w) \<Rightarrow> nat \<Rightarrow> 'w process \<Rightarrow> 'w process option" where
  "Tcl_DeleteEvents prc t s = DeleteEvents_loop prc t None (firstEventPtr (tsd s t)) s"

text \<open>The search from the front for the predecessor of a handled event.\<close>

partial_function (option) find_prev :: "nat \<Rightarrow> nat option \<Rightarrow> 'w process \<Rightarrow> nat option option" where
  "find_prev e p s =
     (case p of None \<Rightarrow> Some None
      | Some a \<Rightarrow> do {
          n \<leftarrow> get_next p s;
          if n \<noteq> Some e then find_prev e n s else Some p
        })"

definition remove_handled :: "nat \<Rightarrow> nat \<Rightarrow> 'w process \<Rightarrow> 'w process option" where
  "remove_handled t evPtr s =
     (if firstEventPtr (tsd s t) = Some evPtr then do {
        s \<leftarrow> unlink_event t None evPtr s;
        free_event evPtr s
      }
      else do {
        prevPtr \<leftarrow> find_prev evPtr (firstEventPtr (tsd s t)) s;
        if prevPtr \<noteq> None then do {
          s \<leftarrow> unlink_event t prevPtr evPtr s;
          free_event evPtr s
        }
        else Some s
      })"

partial_function (option) ServiceEvent_loop ::
  "'w calls \<Rightarrow> nat \<Rightarrow> int \<Rightarrow> nat option \<Rightarrow> 'w process \<Rightarrow> (int \<times> 'w process) option" where
  "ServiceEvent_loop c t flags evPtr s =
     (case evPtr of None \<Rightarrow> Some (0, s)
      | Some e \<Rightarrow> do {
          ev \<leftarrow> events s e;
          (case event_proc ev of
             None \<Rightarrow> ServiceEvent_loop c t flags (event_nextPtr ev) s
           | Some prc \<Rightarrow> do {
               s \<leftarrow> set_event (Some e) (\<lambda>ev. ev\<lparr>event_proc := None\<rparr>) s;
               let (result, s) = EventProc c prc e flags s;
               if result \<noteq> 0 then do {
                 s \<leftarrow> remove_handled t e s;
                 Some (1, s)
               }
               else do {
                 s \<leftarrow> set_event (Some e) (\<lambda>ev. ev\<lparr>event_proc := Some prc\<rparr>) s;
                 n \<leftarrow> get_next (Some e) s;
                 ServiceEvent_loop c t flags n s
               }
             })
        })"

definition all_if_none :: "int \<Rightarrow> int" where
  "all_if_none flags = (if flags AND TCL_ALL_EVENTS = 0 then flags OR TCL_ALL_EVENTS else flags)"

definition Tcl_ServiceEvent :: "'w calls \<Rightarrow> nat \<Rightarrow> int \<Rightarrow> 'w process \<Rightarrow> (int \<times> 'w process) option" where
  "Tcl_ServiceEvent c t flags s =
     (if Tcl_AsyncReady c s then Some (1, Tcl_AsyncInvoke c s)
      else ServiceEvent_loop c t (all_if_none flags) (firstEventPtr (tsd s t)) s)"

section \<open>Notifiers and event sources\<close>

definition TclInitNotifier :: "'w calls \<Rightarrow> nat \<Rightarrow> 'w process \<Rightarrow> 'w process option" where
  "TclInitNotifier c t s = do {
     r \<leftarrow> find_notifier t (firstNotifierPtr s) s;
     Some (if r = None
           then (let s = upd t (\<lambda>d. d\<lparr>threadId := t\<rparr>) s;
                     (h, s) = Tcl_InitNotifier c s;
                     s = upd t (\<lambda>d. d\<lparr>notifier_clientData := h, initialized := True,
                                      notifier_nextPtr := firstNotifierPtr s\<rparr>) s
                 in s\<lparr>firstNotifierPtr := Some t\<rparr>)
           else s)
   }"

partial_function (option) free_events :: "nat option \<Rightarrow> 'w process \<Rightarrow> 'w process option" where
  "free_events evPtr s =
     (case evPtr of None \<Rightarrow> Some s
      | Some hold \<Rightarrow> do {
          n \<leftarrow> get_next evPtr s;
          s \<leftarrow> free_event hold s;
          free_events n s
        })"

text \<open>\<open>prev\<close> is the notifier whose \<open>nextPtr\<close> is looked at, \<open>None\<close> the head of the list.\<close>

partial_function (option) unlink_notifier :: "nat \<Rightarrow> nat option \<Rightarrow> 'w process \<Rightarrow> 'w process option" where
  "unlink_notifier t prev s =
     (let p = (case prev of None \<Rightarrow> firstNotifierPtr s | Some q \<Rightarrow> notifier_nextPtr (tsd s q)) in
      case p of None \<Rightarrow> Some s
      | Some u \<Rightarrow>
          (if u = t then
             Some (case prev of
                     None \<Rightarrow> s\<lparr>firstNotifierPtr := notifier_nextPtr (tsd s t)\<rparr>
                   | Some q \<Rightarrow> upd q (\<lambda>d. d\<lparr>notifier_nextPtr := notifier_nextPtr (tsd s t)\<rparr>) s)
           else unlink_notifier t (Some u) s))"

definition TclFinalizeNotifier :: "'w calls \<Rightarrow> nat \<Rightarrow> 'w process \<Rightarrow> 'w process option" where
  "TclFinalizeNotifier c t s =
     (if \<not> initialized (tsd s t) then Some s
      else do {
        s \<leftarrow> free_events (firstEventPtr (tsd s t)) s;
        let s = upd t (\<lambda>d. d\<lparr>firstEventPtr := None, lastEventPtr := None\<rparr>) s;
        let s = Tcl_FinalizeNotifier c (notifier_clientData (tsd s t)) s;
        s \<leftarrow> unlink_notifier t None s;
        Some (upd t (\<lambda>d. d\<lparr>initialized := False\<rparr>) s)
      })"

text \<open>\<open>a\<close> is the address that the allocator returns for the new source.\<close>

definition Tcl_CreateEventSource ::
  "nat \<Rightarrow> nat option \<Rightarrow> nat option \<Rightarrow> nat \<Rightarrow> nat \<Rightarrow> 'w process \<Rightarrow> 'w process" where
  "Tcl_CreateEventSource t sproc cproc data a s =
     upd t (\<lambda>d. d\<lparr>firstEventSourcePtr := Some a\<rparr>)
       (s\<lparr>sources := (sources s)(a \<mapsto> \<lparr>setupProc = sproc, checkProc = cproc, source_clientData = data,
                                     source_nextPtr = firstEventSourcePtr (tsd s t)\<rparr>)\<rparr>)"

partial_function (option) DeleteEventSource_loop ::
  "nat \<Rightarrow> nat option \<Rightarrow> nat option \<Rightarrow> nat \<Rightarrow> nat option \<Rightarrow> nat option \<Rightarrow> 'w process \<Rightarrow> 'w process option" where
  "DeleteEventSource_loop t sproc cproc data prevPtr sourcePtr s =
     (case sourcePtr of None \<Rightarrow> Some s
      | Some a \<Rightarrow> do {
          src \<leftarrow> sources s a;
          if setupProc src \<noteq> sproc \<or> checkProc src \<noteq> cproc \<or> source_clientData src \<noteq> data
          then DeleteEventSource_loop t sproc cproc data (Some a) (source_nextPtr src) s
          else do {
            s \<leftarrow> (case prevPtr of
                   None \<Rightarrow> Some (upd t (\<lambda>d. d\<lparr>firstEventSourcePtr := source_nextPtr src\<rparr>) s)
                 | Some p \<Rightarrow> do {
                     prv \<leftarrow> sources s p;
                     Some (s\<lparr>sources := (sources s)(p \<mapsto> prv\<lparr>source_nextPtr := source_nextPtr src\<rparr>)\<rparr>)
                   });
            Some (s\<lparr>sources := (sources s)(a := None)\<rparr>)
          }
        })"

definition Tcl_DeleteEventSource ::
  "nat \<Rightarrow> nat option \<Rightarrow> nat option \<Rightarrow> nat \<Rightarrow> 'w process \<Rightarrow> 'w process option" where
  "Tcl_DeleteEventSource t sproc cproc data s =
     DeleteEventSource_loop t sproc cproc data None (firstEventSourcePtr (tsd s t)) s"

definition Tcl_GetServiceMode :: "nat \<Rightarrow> 'w process \<Rightarrow> int" where
  "Tcl_GetServiceMode t s = serviceMode (tsd s t)"

definition Tcl_SetServiceMode :: "'w calls \<Rightarrow> nat \<Rightarrow> int \<Rightarrow> 'w process \<Rightarrow> int \<times> 'w process" where
  "Tcl_SetServiceMode c t mode s =
     (let oldMode = serviceMode (tsd s t);
          s = upd t (\<lambda>d. d\<lparr>serviceMode := mode\<rparr>) s
      in (oldMode, Tcl_ServiceModeHook c mode s))"

definition Tcl_SetMaxBlockTime :: "'w calls \<Rightarrow> nat \<Rightarrow> Tcl_Time \<Rightarrow> 'w process \<Rightarrow> 'w process" where
  "Tcl_SetMaxBlockTime c t time s =
     (let d = tsd s t;
          s = (if \<not> blockTimeSet d \<or> sec time < sec (blockTime d)
                  \<or> (sec time = sec (blockTime d) \<and> usec time < usec (blockTime d))
               then upd t (\<lambda>d. d\<lparr>blockTime := time, blockTimeSet := True\<rparr>) s else s)
      in if \<not> inTraversal (tsd s t) then Tcl_SetTimer c (Some (blockTime (tsd s t))) s else s)"

section \<open>Processing events\<close>

partial_function (option) setup_sources ::
  "'w calls \<Rightarrow> int \<Rightarrow> nat option \<Rightarrow> 'w process \<Rightarrow> 'w process option" where
  "setup_sources c flags sourcePtr s =
     (case sourcePtr of None \<Rightarrow> Some s
      | Some a \<Rightarrow> do {
          src \<leftarrow> sources s a;
          let s = (case setupProc src of None \<Rightarrow> s
                   | Some p \<Rightarrow> EventSetupProc c p (source_clientData src) flags s);
          src \<leftarrow> sources s a;
          setup_sources c flags (source_nextPtr src) s
        })"

partial_function (option) check_sources ::
  "'w calls \<Rightarrow> int \<Rightarrow> nat option \<Rightarrow> 'w process \<Rightarrow> 'w process option" where
  "check_sources c flags sourcePtr s =
     (case sourcePtr of None \<Rightarrow> Some s
      | Some a \<Rightarrow> do {
          src \<leftarrow> sources s a;
          let s = (case checkProc src of None \<Rightarrow> s
                   | Some p \<Rightarrow> EventCheckProc c p (source_clientData src) flags s);
          src \<leftarrow> sources s a;
          check_sources c flags (source_nextPtr src) s
        })"

text \<open>
  One round of \<open>Tcl_DoOneEvent\<close>.  Each part yields whether the loop is left, the result and
  the state; \<open>idleEvents\<close> is the part after the label of that name.
\<close>

definition idleEvents :: "'w calls \<Rightarrow> int \<Rightarrow> int \<Rightarrow> 'w process \<Rightarrow> bool \<times> int \<times> 'w process" where
  "idleEvents c flags result s =
     (let (idle, s) = (if flags AND TCL_IDLE_EVENTS \<noteq> 0 then TclServiceIdle c s else (0, s)) in
      if idle \<noteq> 0 then (True, 1, s)
      else if flags AND TCL_DONT_WAIT \<noteq> 0 then (True, result, s)
      else (result \<noteq> 0, result, s))"

definition wait_part :: "'w calls \<Rightarrow> nat \<Rightarrow> int \<Rightarrow> 'w process \<Rightarrow> (int \<times> 'w process) option" where
  "wait_part c t flags s = do {
     let s = (if flags AND TCL_DONT_WAIT \<noteq> 0
              then upd t (\<lambda>d. d\<lparr>blockTime := \<lparr>sec = 0, usec = 0\<rparr>, blockTimeSet := True\<rparr>) s
              else upd t (\<lambda>d. d\<lparr>blockTimeSet := False\<rparr>) s);
     let s = upd t (\<lambda>d. d\<lparr>inTraversal := True\<rparr>) s;
     s \<leftarrow> setup_sources c flags (firstEventSourcePtr (tsd s t)) s;
     let s = upd t (\<lambda>d. d\<lparr>inTraversal := False\<rparr>) s;
     let timePtr = (if flags AND TCL_DONT_WAIT \<noteq> 0 \<or> blockTimeSet (tsd s t)
                    then Some (blockTime (tsd s t)) else None);
     Some (Tcl_WaitForEvent c timePtr s)
   }"

definition DoOneEvent_round ::
  "'w calls \<Rightarrow> nat \<Rightarrow> int \<Rightarrow> int \<Rightarrow> 'w process \<Rightarrow> (bool \<times> int \<times> 'w process) option" where
  "DoOneEvent_round c t flags result s =
     (if flags AND TCL_ALL_EVENTS = TCL_IDLE_EVENTS
      then Some (idleEvents c (TCL_IDLE_EVENTS OR TCL_DONT_WAIT) result s)
      else do {
        (r, s) \<leftarrow> Tcl_ServiceEvent c t flags s;
        if r \<noteq> 0 then Some (True, 1, s)
        else do {
          (result, s) \<leftarrow> wait_part c t flags s;
          if result < 0 then Some (True, 0, s)
          else do {
            s \<leftarrow> check_sources c flags (firstEventSourcePtr (tsd s t)) s;
            (r, s) \<leftarrow> Tcl_ServiceEvent c t flags s;
            if r \<noteq> 0 then Some (True, 1, s)
            else Some (idleEvents c flags result s)
          }
        }
      })"

partial_function (option) DoOneEvent_loop ::
  "'w calls \<Rightarrow> nat \<Rightarrow> int \<Rightarrow> int \<Rightarrow> 'w process \<Rightarrow> (int \<times> 'w process) option" where
  "DoOneEvent_loop c t flags result s = do {
     (leave, result, s) \<leftarrow> DoOneEvent_round c t flags result s;
     if leave then Some (result, s) else DoOneEvent_loop c t flags result s
   }"

definition Tcl_DoOneEvent :: "'w calls \<Rightarrow> nat \<Rightarrow> int \<Rightarrow> 'w process \<Rightarrow> (int \<times> 'w process) option" where
  "Tcl_DoOneEvent c t flags s =
     (if Tcl_AsyncReady c s then Some (1, Tcl_AsyncInvoke c s)
      else do {
        let oldMode = serviceMode (tsd s t);
        let s = upd t (\<lambda>d. d\<lparr>serviceMode := TCL_SERVICE_NONE\<rparr>) s;
        (result, s) \<leftarrow> DoOneEvent_loop c t (all_if_none flags) 0 s;
        Some (result, upd t (\<lambda>d. d\<lparr>serviceMode := oldMode\<rparr>) s)
      })"

partial_function (option) service_queued ::
  "'w calls \<Rightarrow> nat \<Rightarrow> int \<Rightarrow> 'w process \<Rightarrow> (int \<times> 'w process) option" where
  "service_queued c t result s = do {
     (r, s) \<leftarrow> Tcl_ServiceEvent c t 0 s;
     if r \<noteq> 0 then service_queued c t 1 s else Some (result, s)
   }"

definition Tcl_ServiceAll :: "'w calls \<Rightarrow> nat \<Rightarrow> 'w process \<Rightarrow> (int \<times> 'w process) option" where
  "Tcl_ServiceAll c t s =
     (if serviceMode (tsd s t) = TCL_SERVICE_NONE then Some (0, s)
      else do {
        let s = upd t (\<lambda>d. d\<lparr>serviceMode := TCL_SERVICE_NONE\<rparr>) s;
        let s = (if Tcl_AsyncReady c s then Tcl_AsyncInvoke c s else s);
        let s = upd t (\<lambda>d. d\<lparr>inTraversal := True, blockTimeSet := False\<rparr>) s;
        s \<leftarrow> setup_sources c TCL_ALL_EVENTS (firstEventSourcePtr (tsd s t)) s;
        s \<leftarrow> check_sources c TCL_ALL_EVENTS (firstEventSourcePtr (tsd s t)) s;
        (result, s) \<leftarrow> service_queued c t 0 s;
        let (idle, s) = TclServiceIdle c s;
        let result = (if idle \<noteq> 0 then 1 else result);
        let s = (if \<not> blockTimeSet (tsd s t) then Tcl_SetTimer c None s
                 else Tcl_SetTimer c (Some (blockTime (tsd s t))) s);
        Some (result, upd t (\<lambda>d. d\<lparr>inTraversal := False, serviceMode := TCL_SERVICE_ALL\<rparr>) s)
      })"

definition Tcl_ThreadAlert :: "'w calls \<Rightarrow> nat \<Rightarrow> 'w process \<Rightarrow> 'w process option" where
  "Tcl_ThreadAlert c tid s = do {
     r \<leftarrow> find_notifier tid (firstNotifierPtr s) s;
     Some (case r of None \<Rightarrow> s | Some t \<Rightarrow> Tcl_AlertNotifier c (notifier_clientData (tsd s t)) s)
   }"


section \<open>Chains and the abstract queue\<close>

text \<open>\<open>seg h p xs q\<close>: following \<open>nextPtr\<close> from \<open>p\<close> visits the events \<open>xs\<close> and ends at \<open>q\<close>.\<close>

fun seg :: "(nat \<Rightarrow> Tcl_Event option) \<Rightarrow> nat option \<Rightarrow> nat list \<Rightarrow> nat option \<Rightarrow> bool" where
  "seg h p [] q \<longleftrightarrow> p = q"
| "seg h p (a # xs) q \<longleftrightarrow>
     p = Some a \<and> (case h a of None \<Rightarrow> False | Some ev \<Rightarrow> seg h (event_nextPtr ev) xs q)"

lemma seg_append: "seg h p (xs @ ys) q \<longleftrightarrow> (\<exists>r. seg h p xs r \<and> seg h r ys q)"
  by (induction xs arbitrary: p) (auto split: option.splits)

lemma seg_frame: "(\<And>x. x \<in> set xs \<Longrightarrow> h' x = h x) \<Longrightarrow> seg h' p xs q = seg h p xs q"
proof (induction xs arbitrary: p)
  case (Cons a xs)
  have "h' a = h a" using Cons.prems by simp
  moreover have "seg h' r xs q = seg h r xs q" for r using Cons by simp
  ultimately show ?case by (auto split: option.splits)
qed simp

lemma seg_links:
  assumes "\<And>x. x \<in> set xs \<Longrightarrow> map_option event_nextPtr (h' x) = map_option event_nextPtr (h x)"
  shows "seg h' p xs q = seg h p xs q"
  using assms
proof (induction xs arbitrary: p)
  case (Cons a xs)
  have "map_option event_nextPtr (h' a) = map_option event_nextPtr (h a)" using Cons.prems by simp
  moreover have "seg h' r xs q = seg h r xs q" for r using Cons by simp
  ultimately show ?case by (cases "h a"; cases "h' a") auto
qed simp

lemma seg_upd [simp]: "e \<notin> set xs \<Longrightarrow> seg (h(e := v)) p xs q = seg h p xs q"
  by (rule seg_frame) auto

lemma seg_mem: "seg h p xs q \<Longrightarrow> x \<in> set xs \<Longrightarrow> h x \<noteq> None"
  by (induction xs arbitrary: p) (auto split: option.splits)

definition first_ptr :: "nat list \<Rightarrow> nat option" where
  "first_ptr xs = (case xs of [] \<Rightarrow> None | x # _ \<Rightarrow> Some x)"

definition last_ptr :: "nat list \<Rightarrow> nat option" where
  "last_ptr xs = (if xs = [] then None else Some (last xs))"

lemma first_ptr_simps [simp]: "first_ptr [] = None" "first_ptr (x # xs) = Some x"
  by (simp_all add: first_ptr_def)

lemma last_ptr_simps [simp]: "last_ptr [] = None" "last_ptr (xs @ [x]) = Some x" "last_ptr [x] = Some x"
  by (simp_all add: last_ptr_def)

lemma last_ptr_Cons [simp]: "last_ptr (x # y # xs) = last_ptr (y # xs)"
  by (simp add: last_ptr_def)

lemma last_ptr_None [simp]: "last_ptr xs = None \<longleftrightarrow> xs = []"
  by (simp add: last_ptr_def)

lemma first_ptr_None [simp]: "first_ptr xs = None \<longleftrightarrow> xs = []"
  by (simp add: first_ptr_def split: list.splits)

lemma last_ptr_append [simp]: "ys \<noteq> [] \<Longrightarrow> last_ptr (xs @ ys) = last_ptr ys"
  by (simp add: last_ptr_def)

lemma seg_first: "seg h p xs None \<Longrightarrow> p = first_ptr xs"
  by (cases xs) auto

lemma seg_last_ptr: "seg h p (xs @ ys) q \<Longrightarrow> ys \<noteq> [] \<Longrightarrow> seg h p xs (first_ptr ys)"
  by (cases ys) (auto simp: seg_append)

text \<open>
  The queue of thread \<open>t\<close> is the list \<open>es\<close> of event addresses of which the first \<open>m\<close> are the
  events inserted at the marker.
\<close>

definition queue :: "'w process \<Rightarrow> nat \<Rightarrow> nat list \<Rightarrow> nat \<Rightarrow> bool" where
  "queue s t es m \<longleftrightarrow>
     distinct es \<and> m \<le> length es \<and> seg (events s) (firstEventPtr (tsd s t)) es None
     \<and> lastEventPtr (tsd s t) = last_ptr es \<and> markerEventPtr (tsd s t) = last_ptr (take m es)"

lemma queue_first: "queue s t es m \<Longrightarrow> firstEventPtr (tsd s t) = first_ptr es"
  by (auto simp: queue_def dest: seg_first)

lemma queue_unique: "queue s t es m \<Longrightarrow> queue s t es' m' \<Longrightarrow> es = es'"
proof -
  have "seg h p xs None \<Longrightarrow> seg h p ys None \<Longrightarrow> xs = ys" for h p xs ys
  proof (induction xs arbitrary: p ys)
    case Nil then show ?case by (cases ys) auto
  next
    case (Cons a xs) then show ?case by (cases ys) (auto split: option.splits)
  qed
  then show "queue s t es m \<Longrightarrow> queue s t es' m' \<Longrightarrow> es = es'" unfolding queue_def by blast
qed

lemma queue_marker_unique: "queue s t es m \<Longrightarrow> queue s t es m' \<Longrightarrow> m = m'"
proof -
  assume q: "queue s t es m" "queue s t es m'"
  then have "distinct es" "m \<le> length es" "m' \<le> length es" "last_ptr (take m es) = last_ptr (take m' es)"
    by (auto simp: queue_def)
  moreover have "last_ptr (take k es) = (if k = 0 then None else Some (es ! (k - 1)))" if "k \<le> length es" for k
    using that by (cases k) (auto simp: take_Suc_conv_app_nth)
  ultimately show ?thesis by (auto simp: nth_eq_iff_index_eq split: if_splits)
qed

text \<open>The abstract operations.\<close>

fun insert_at :: "Tcl_QueuePosition \<Rightarrow> 'a \<Rightarrow> 'a list \<times> nat \<Rightarrow> 'a list \<times> nat" where
  "insert_at TCL_QUEUE_TAIL e (es, m) = (es @ [e], m)"
| "insert_at TCL_QUEUE_HEAD e (es, m) = (e # es, if m = 0 then 0 else m + 1)"
| "insert_at TCL_QUEUE_MARK e (es, m) = (take m es @ e # drop m es, m + 1)"

fun keep_only :: "('a \<Rightarrow> bool) \<Rightarrow> 'a list \<times> nat \<Rightarrow> 'a list \<times> nat" where
  "keep_only P (es, m) = (filter P es, length (filter P (take m es)))"

section \<open>The pointer operations implement the abstract ones\<close>

lemma upd_simps [simp]:
  "events (upd t f s) = events s" "sources (upd t f s) = sources s" "world (upd t f s) = world s"
  "firstNotifierPtr (upd t f s) = firstNotifierPtr s"
  "tsd (upd t f s) t' = (if t' = t then f (tsd s t) else tsd s t')"
  by (simp_all add: upd_def)

lemma set_next_simps [simp]:
  "set_next (Some e) q s = (case events s e of None \<Rightarrow> None
     | Some ev \<Rightarrow> Some (s\<lparr>events := (events s)(e \<mapsto> ev\<lparr>event_nextPtr := q\<rparr>)\<rparr>))"
  "get_next (Some e) s = map_option event_nextPtr (events s e)"
  by (simp_all add: set_next_def set_event_def get_next_def)

lemma queue_tail:
  assumes q: "queue s t es m" and e: "events s e = Some ev" "e \<notin> set es"
  shows "\<exists>s'. QueueEvent t e TCL_QUEUE_TAIL s = Some s' \<and> queue s' t (es @ [e]) m"
proof (cases es rule: rev_cases)
  case Nil
  then show ?thesis using q e by (auto simp: QueueEvent_def queue_def)
next
  case (snoc xs l)
  obtain lv where l: "events s l = Some lv" using q snoc by (auto simp: queue_def seg_append split: option.splits)
  have "seg (events s) (firstEventPtr (tsd s t)) xs (Some l)" "e \<noteq> l" "l \<notin> set xs" "e \<notin> set xs" "distinct xs"
    using q snoc e by (auto simp: queue_def seg_append)
  moreover have "firstEventPtr (tsd s t) \<noteq> None" using q snoc by (cases xs) (auto simp: queue_def)
  moreover have "take (m - length xs) [l, e] = take (m - length xs) [l]"
    using q snoc by (cases "m - length xs") (auto simp: queue_def)
  ultimately show ?thesis using q e snoc l
    by (auto simp: QueueEvent_def queue_def seg_append)
qed

lemma queue_head:
  assumes q: "queue s t es m" and e: "events s e = Some ev" "e \<notin> set es"
  shows "\<exists>s'. QueueEvent t e TCL_QUEUE_HEAD s = Some s' \<and> queue s' t (e # es) (if m = 0 then 0 else m + 1)"
  using q queue_first [OF q] e by (cases es; cases m) (auto simp: QueueEvent_def queue_def split: option.splits)

lemma queue_mark:
  assumes q: "queue s t es m" and e: "events s e = Some ev" "e \<notin> set es"
  shows "\<exists>s'. QueueEvent t e TCL_QUEUE_MARK s = Some s' \<and> queue s' t (take m es @ e # drop m es) (m + 1)"
proof (cases "m = 0 \<or> es = []")
  case True
  then show ?thesis using q queue_first [OF q] e True
    by (cases es) (auto simp: QueueEvent_def queue_def split: option.splits)
next
  case False
  define xs ys where "xs = take m es" and "ys = drop m es"
  have es: "es = xs @ ys" "length xs = m" "xs \<noteq> []" using False q by (auto simp: xs_def ys_def queue_def)
  then obtain us k where us: "xs = us @ [k]" by (cases xs rule: rev_cases) auto
  have mk: "markerEventPtr (tsd s t) = Some k" using q es us by (auto simp: queue_def)
  have d: "distinct (us @ [k] @ ys)" "e \<notin> set us" "e \<noteq> k" "e \<notin> set ys" using q e es us by (auto simp: queue_def)
  have sg: "seg (events s) (firstEventPtr (tsd s t)) (us @ [k] @ ys) None" using q es us by (auto simp: queue_def)
  then obtain kv where k: "events s k = Some kv" "seg (events s) (firstEventPtr (tsd s t)) us (Some k)"
    "seg (events s) (event_nextPtr kv) ys None" by (auto simp: seg_append split: option.splits)
  have n: "event_nextPtr kv = first_ptr ys" using k(3) by (rule seg_first)
  have lp: "lastEventPtr (tsd s t) = last_ptr ([k] @ ys)" using q es us by (simp add: queue_def)
  have tk: "take (m + 1) (us @ [k] @ e # ys) = us @ [k, e]" "m \<le> Suc (length us + length ys)"
    using es(2) us by auto
  have "\<exists>s'. QueueEvent t e TCL_QUEUE_MARK s = Some s' \<and> queue s' t (us @ [k] @ e # ys) (m + 1)"
    unfolding queue_def tk(1)
    using lp e(1) d k mk n tk(2) by (cases ys) (simp_all add: QueueEvent_def seg_append, auto split: option.splits)
  then show ?thesis using us by (simp add: xs_def ys_def)
qed


text \<open>
  What an operation on the queue of \<open>t\<close> leaves alone: everything but the three queue pointers of
  \<open>t\<close>, the cells of \<open>X\<close>, and the links of events.
\<close>

definition only_queue :: "nat \<Rightarrow> nat set \<Rightarrow> 'w process \<Rightarrow> 'w process \<Rightarrow> bool" where
  "only_queue t X s s' \<longleftrightarrow>
     sources s' = sources s \<and> firstNotifierPtr s' = firstNotifierPtr s
     \<and> (\<forall>u. u \<noteq> t \<longrightarrow> tsd s' u = tsd s u)
     \<and> tsd s' t = (tsd s t)\<lparr>firstEventPtr := firstEventPtr (tsd s' t), lastEventPtr := lastEventPtr (tsd s' t),
                            markerEventPtr := markerEventPtr (tsd s' t)\<rparr>
     \<and> (\<forall>x. x \<notin> X \<longrightarrow> events s' x = events s x)"

lemma only_queue_trans:
  assumes "only_queue t X s s1" "only_queue t Y s1 s2" "X \<union> Y \<subseteq> Z"
  shows "only_queue t Z s s2"
proof -
  have "a = c\<lparr>firstEventPtr := firstEventPtr a, lastEventPtr := lastEventPtr a, markerEventPtr := markerEventPtr a\<rparr>"
    if "a = b\<lparr>firstEventPtr := firstEventPtr a, lastEventPtr := lastEventPtr a, markerEventPtr := markerEventPtr a\<rparr>"
      "b = c\<lparr>firstEventPtr := firstEventPtr b, lastEventPtr := lastEventPtr b, markerEventPtr := markerEventPtr b\<rparr>"
    for a b c :: ThreadSpecificData
    using that by (cases a; cases b; cases c) simp
  note t = this [of "tsd s2 t" "tsd s1 t" "tsd s t"]
  have "events s2 x = events s x" if "x \<notin> Z" for x
    using assms that unfolding only_queue_def by (metis Un_iff subsetD)
  then show ?thesis using assms t unfolding only_queue_def by auto
qed

lemma last_ptr_mem: "last_ptr xs = Some x \<Longrightarrow> x \<in> set xs"
  by (auto simp: last_ptr_def split: if_splits)

lemma only_queue_queue:
  "only_queue t X s s' \<Longrightarrow> u \<noteq> t \<Longrightarrow> X \<inter> set es = {} \<Longrightarrow> queue s' u es m = queue s u es m"
  unfolding only_queue_def queue_def by (auto intro!: seg_frame intro: seg_frame [THEN iffD1] seg_frame [THEN iffD2])

lemma QueueEvent_only:
  assumes q: "queue s t es m" and r: "QueueEvent t e pos s = Some s'"
  shows "only_queue t (insert e (set es)) s s' \<and> world s' = world s
    \<and> (\<forall>x. map_option event_proc (events s' x) = map_option event_proc (events s x))"
proof -
  have "l \<in> set es" if "lastEventPtr (tsd s t) = Some l" for l
    using that q last_ptr_mem [of es l] by (auto simp: queue_def)
  moreover have "k \<in> set es" if "markerEventPtr (tsd s t) = Some k" for k
    using that q last_ptr_mem [of "take m es" k] by (auto simp: queue_def dest: in_set_takeD)
  ultimately show ?thesis using r
    by (cases pos) (auto simp: QueueEvent_def only_queue_def set_next_def set_event_def get_next_def Let_def
        split: option.splits if_splits bind_splits)
qed

lemma queue_event_refines:
  assumes q: "queue s t es m" and e: "events s e \<noteq> None" "e \<notin> set es"
  shows "\<exists>s'. QueueEvent t e pos s = Some s' \<and> queue s' t (fst (insert_at pos e (es, m))) (snd (insert_at pos e (es, m)))
    \<and> only_queue t (insert e (set es)) s s' \<and> world s' = world s
    \<and> (\<forall>x. map_option event_proc (events s' x) = map_option event_proc (events s x))"
proof -
  obtain ev where ev: "events s e = Some ev" using e by auto
  have "\<exists>s'. QueueEvent t e pos s = Some s' \<and> queue s' t (fst (insert_at pos e (es, m))) (snd (insert_at pos e (es, m)))"
    using queue_tail [OF q ev e(2)] queue_head [OF q ev e(2)] queue_mark [OF q ev e(2)] by (cases pos) auto
  then show ?thesis using QueueEvent_only [OF q] by blast
qed


text \<open>The marker after the removal of the event at position \<open>i\<close>.\<close>

definition mark_without :: "nat \<Rightarrow> nat \<Rightarrow> nat" where
  "mark_without i m = (if i < m then m - 1 else m)"

lemma take_mark_without:
  assumes "distinct (ds @ e # rs)" "m \<le> length (ds @ e # rs)"
  shows "take (mark_without (length ds) m) (ds @ rs) = filter (\<lambda>x. x \<noteq> e) (take m (ds @ e # rs))"
proof -
  have f: "filter (\<lambda>x. x \<noteq> e) xs = xs" if "e \<notin> set xs" for xs using that by (auto simp: filter_id_conv)
  show ?thesis
  proof (cases "length ds < m")
    case True
    then obtain j where j: "m = length ds + Suc j" using less_iff_Suc_add by auto
    have "e \<notin> set ds" "e \<notin> set (take j rs)" using assms(1) by (auto dest: in_set_takeD)
    then show ?thesis using j f [of ds] f [of "take j rs"] by (simp add: mark_without_def)
  next
    case False
    then have "e \<notin> set (take m ds)" using assms(1) by (auto dest: in_set_takeD)
    then show ?thesis using False f [of "take m ds"] by (simp add: mark_without_def)
  qed
qed

lemma mark_without_le: "m \<le> length (ds @ e # rs) \<Longrightarrow> mark_without (length ds) m \<le> length (ds @ rs)"
  by (auto simp: mark_without_def)

lemma last_ptr_without:
  assumes "distinct (ds @ e # rs)" "m \<le> length (ds @ e # rs)"
  shows "last_ptr (filter (\<lambda>x. x \<noteq> e) (take m (ds @ e # rs))) =
    (if last_ptr (take m (ds @ e # rs)) = Some e then last_ptr ds else last_ptr (take m (ds @ e # rs)))"
proof -
  have f: "filter (\<lambda>x. x \<noteq> e) xs = xs" if "e \<notin> set xs" for xs using that by (auto simp: filter_id_conv)
  have "m = length ds + Suc (Suc (m - length ds - 2))" if "\<not> m \<le> length ds" "m \<noteq> length ds + 1"
    using that by arith
  then consider "m \<le> length ds" | "m = length ds + 1" | j where "m = length ds + Suc (Suc j)" by blast
  then show ?thesis
  proof cases
    case 1
    have "e \<notin> set (take m ds)" using assms(1) by (auto dest: in_set_takeD)
    then show ?thesis using 1 f [of "take m ds"] last_ptr_mem [of "take m ds" e] by auto
  next
    case 2 then show ?thesis using f [of ds] assms(1) by simp
  next
    case 3
    then obtain r rs' where r: "rs = r # rs'" using assms(2) by (cases rs) auto
    have "e \<notin> set ds" "e \<notin> set (r # take j rs')" using assms(1) r by (auto dest: in_set_takeD)
    then show ?thesis using 3 r f [of ds] f [of "r # take j rs'"] last_ptr_mem [of "r # take j rs'" e] by auto
  qed
qed

lemma unlink_refines:
  assumes q: "queue s t (ds @ e # rs) m"
  shows "\<exists>s'. unlink_event t (last_ptr ds) e s = Some s' \<and> queue s' t (ds @ rs) (mark_without (length ds) m)
    \<and> events s' e = events s e \<and> get_next (Some e) s' = Some (first_ptr rs)
    \<and> only_queue t (set ds) s s' \<and> world s' = world s
    \<and> (\<forall>x. map_option event_proc (events s' x) = map_option event_proc (events s x))"
proof -
  have d: "distinct (ds @ e # rs)" "m \<le> length (ds @ e # rs)" using q by (auto simp: queue_def)
  have sg: "seg (events s) (firstEventPtr (tsd s t)) ds (Some e)" using q by (auto simp: queue_def seg_append)
  obtain ev where ev: "events s e = Some ev" "seg (events s) (event_nextPtr ev) rs None"
    using q by (auto simp: queue_def seg_append split: option.splits)
  have n: "event_nextPtr ev = first_ptr rs" using ev(2) by (rule seg_first)
  have mk: "markerEventPtr (tsd s t) = last_ptr (take m (ds @ e # rs))"
    "lastEventPtr (tsd s t) = last_ptr (ds @ e # rs)" using q by (auto simp: queue_def)
  have mk': "last_ptr (take (mark_without (length ds) m) (ds @ rs)) =
      (if markerEventPtr (tsd s t) = Some e then last_ptr ds else markerEventPtr (tsd s t))"
    unfolding mk take_mark_without [OF d] last_ptr_without [OF d] ..
  show ?thesis
  proof (cases ds rule: rev_cases)
    case Nil
    then show ?thesis unfolding queue_def mk' using mark_without_le [OF d(2)] d(1) ev n sg mk(2)
      by (cases rs) (auto simp: unlink_event_def only_queue_def Let_def split: option.splits)
  next
    case (snoc us k)
    then obtain kv where k: "events s k = Some kv" "seg (events s) (firstEventPtr (tsd s t)) us (Some k)"
      using sg by (auto simp: seg_append split: option.splits)
    have "k \<notin> set us" "k \<notin> set rs" "k \<noteq> e" using d(1) snoc by auto
    then show ?thesis unfolding queue_def mk' using mark_without_le [OF d(2)] d(1) ev n k mk(2) snoc
      by (cases rs) (auto simp: unlink_event_def only_queue_def Let_def seg_append split: option.splits)
  qed
qed


section \<open>Deleting events\<close>

text \<open>The events that the procedure lets pass, the procedure's state threaded through.\<close>

fun kept ::
  "(nat \<Rightarrow> Tcl_Event \<Rightarrow> 'w \<Rightarrow> int \<times> 'w) \<Rightarrow> (nat \<Rightarrow> Tcl_Event option) \<Rightarrow> nat list \<Rightarrow> 'w \<Rightarrow> nat list \<times> 'w" where
  "kept prc h [] w = ([], w)"
| "kept prc h (e # es) w =
     (let (r, w) = prc e (the (h e)) w;
          (ks, w) = kept prc h es w
      in (if r = 1 then ks else e # ks, w))"

lemma kept_subset: "set (fst (kept prc h es w)) \<subseteq> set es"
  by (induction es arbitrary: w) (auto simp: Let_def split: prod.splits, (metis fst_conv subsetD)+)

lemma kept_cong: "(\<And>x. x \<in> set es \<Longrightarrow> h x = h' x) \<Longrightarrow> kept prc h es w = kept prc h' es w"
  by (induction es arbitrary: w) (auto simp: Let_def split: prod.splits)

text \<open>With a procedure that only looks at the event it is the filter.\<close>

lemma kept_filter:
  "(\<And>e ev w. prc e ev w = (if P e ev then 1 else 0, w)) \<Longrightarrow>
     kept prc h es w = (filter (\<lambda>e. \<not> P e (the (h e))) es, w)"
  by (induction es) auto

lemma queue_world [simp]: "queue (s\<lparr>world := w\<rparr>) t es m = queue s t es m"
  by (simp add: queue_def)

lemma queue_free: "queue s t es m \<Longrightarrow> e \<notin> set es \<Longrightarrow> queue (s\<lparr>events := (events s)(e := v)\<rparr>) t es m"
  by (simp add: queue_def)

lemma unlink_world:
  "unlink_event t p e (s\<lparr>world := w\<rparr>) = map_option (\<lambda>s. s\<lparr>world := w\<rparr>) (unlink_event t p e s)"
  by (auto simp: unlink_event_def upd_def set_next_def set_event_def get_next_def Let_def split: option.splits bind_splits)

lemma queue_next:
  "queue s t (ds @ e # rs) m \<Longrightarrow> \<exists>ev. events s e = Some ev \<and> event_nextPtr ev = first_ptr rs"
  by (auto simp: queue_def seg_append dest: seg_first split: option.splits)

lemma delete_events_loop:
  assumes "queue s t (ds @ rs) m" "\<And>x. x \<in> set rs \<Longrightarrow> events s x = h x"
  shows "\<exists>s'. DeleteEvents_loop prc t (last_ptr ds) (first_ptr rs) s = Some s'
    \<and> queue s' t (ds @ fst (kept prc h rs (world s)))
        (min m (length ds) + length (fst (kept prc h (take (m - length ds) rs) (world s))))
    \<and> world s' = snd (kept prc h rs (world s))
    \<and> (\<forall>x \<in> set rs - set (fst (kept prc h rs (world s))). events s' x = None)
    \<and> only_queue t (set (ds @ rs)) s s'"
  using assms
proof (induction rs arbitrary: ds m s)
  case Nil
  then show ?case by (subst DeleteEvents_loop.simps) (auto simp: only_queue_def queue_def min_def)
next
  case (Cons e rs)
  note q = Cons.prems(1)
  have d: "e \<notin> set rs" "e \<notin> set ds" "distinct ds" "set ds \<inter> set rs = {}" "m \<le> length ds + Suc (length rs)"
    using q by (auto simp: queue_def)
  obtain ev where ev: "events s e = Some ev" "event_nextPtr ev = first_ptr rs" using queue_next [OF q] by blast
  obtain r w where r: "prc e ev (world s) = (r, w)" by fastforce
  have h: "the (h e) = ev" using ev Cons.prems(2) [of e] by simp
  show ?case
  proof (cases "r = 1")
    case True
    define s1 where "s1 = s\<lparr>world := w\<rparr>"
    have q1: "queue s1 t (ds @ e # rs) m" using q by (simp add: s1_def)
    obtain s2 where s2: "unlink_event t (last_ptr ds) e s1 = Some s2"
      "queue s2 t (ds @ rs) (mark_without (length ds) m)" "events s2 e = events s1 e"
      "get_next (Some e) s2 = Some (first_ptr rs)" "only_queue t (set ds) s1 s2" "world s2 = world s1"
      using unlink_refines [OF q1] by blast
    define s3 where "s3 = s2\<lparr>events := (events s2)(e := None)\<rparr>"
    have q3: "queue s3 t (ds @ rs) (mark_without (length ds) m)"
      unfolding s3_def using s2(2) d by (intro queue_free) auto
    have ev3: "events s3 x = h x" if "x \<in> set rs" for x
    proof -
      have "x \<notin> set ds" "x \<noteq> e" using that d by auto
      then show ?thesis using s2(5) Cons.prems(2) [of x] that by (simp add: only_queue_def s3_def s1_def)
    qed
    have w3: "world s3 = w" using s2(6) by (simp add: s3_def s1_def)
    have o3: "only_queue t (set (ds @ e # rs)) s s3" "events s3 e = None"
      using s2(5) by (auto simp: only_queue_def s3_def s1_def)
    obtain s' where s': "DeleteEvents_loop prc t (last_ptr ds) (first_ptr rs) s3 = Some s'"
      "queue s' t (ds @ fst (kept prc h rs w))
         (min (mark_without (length ds) m) (length ds)
          + length (fst (kept prc h (take (mark_without (length ds) m - length ds) rs) w)))"
      "world s' = snd (kept prc h rs w)"
      "\<forall>x \<in> set rs - set (fst (kept prc h rs w)). events s' x = None"
      "only_queue t (set (ds @ rs)) s3 s'"
      using Cons.IH [OF q3 ev3] unfolding w3 by blast
    have "DeleteEvents_loop prc t (last_ptr ds) (first_ptr (e # rs)) s = Some s'"
      using s2 s'(1) ev r True s2(3) by (subst DeleteEvents_loop.simps) (simp add: s1_def s3_def free_event_def)
    moreover have "events s' e = None" using s'(5) o3(2) d by (simp add: only_queue_def)
    moreover have "only_queue t (set (ds @ e # rs)) s s'"
      by (rule only_queue_trans [OF o3(1) s'(5)]) auto
    moreover have "min (mark_without (length ds) m) (length ds)
          + length (fst (kept prc h (take (mark_without (length ds) m - length ds) rs) w))
        = min m (length ds) + length (fst (kept prc h (take (m - length ds) (e # rs)) (world s)))"
      using less_imp_Suc_add [of "length ds" m]
      by (cases "length ds < m") (auto simp: mark_without_def r h True split: prod.splits)
    moreover have "kept prc h (e # rs) (world s) = kept prc h rs w"
      by (simp add: r h True split: prod.splits)
    ultimately show ?thesis using s'(2,3,4) d by (intro exI [of _ s']) auto
  next
    case False
    define s1 where "s1 = s\<lparr>world := w\<rparr>"
    have q1: "queue s1 t ((ds @ [e]) @ rs) m" using q by (simp add: s1_def)
    have ev1: "events s1 x = h x" if "x \<in> set rs" for x using that Cons.prems(2) [of x] by (simp add: s1_def)
    obtain s' where s': "DeleteEvents_loop prc t (last_ptr (ds @ [e])) (first_ptr rs) s1 = Some s'"
      "queue s' t ((ds @ [e]) @ fst (kept prc h rs w))
         (min m (length (ds @ [e])) + length (fst (kept prc h (take (m - length (ds @ [e])) rs) w)))"
      "world s' = snd (kept prc h rs w)"
      "\<forall>x \<in> set rs - set (fst (kept prc h rs w)). events s' x = None"
      "only_queue t (set ((ds @ [e]) @ rs)) s1 s'"
      using Cons.IH [OF q1 ev1] unfolding s1_def by auto
    have "DeleteEvents_loop prc t (last_ptr ds) (first_ptr (e # rs)) s = Some s'"
      using s'(1) ev r False by (subst DeleteEvents_loop.simps) (simp add: s1_def)
    moreover have "only_queue t (set (ds @ e # rs)) s s'"
      using s'(5) unfolding only_queue_def s1_def by auto
    moreover have "min m (length (ds @ [e])) + length (fst (kept prc h (take (m - length (ds @ [e])) rs) w))
        = min m (length ds) + length (fst (kept prc h (take (m - length ds) (e # rs)) (world s)))"
      by (cases "m - length ds") (auto simp: r h False diff_Suc split: prod.splits)
    moreover have "kept prc h (e # rs) (world s) = (e # fst (kept prc h rs w), snd (kept prc h rs w))"
      by (simp add: r h False split: prod.splits)
    ultimately show ?thesis using s'(2,3,4) d by (intro exI [of _ s']) auto
  qed
qed

lemma delete_events_refines:
  assumes "queue s t es m"
  shows "\<exists>s'. Tcl_DeleteEvents prc t s = Some s'
    \<and> queue s' t (fst (kept prc (events s) es (world s))) (length (fst (kept prc (events s) (take m es) (world s))))
    \<and> world s' = snd (kept prc (events s) es (world s))
    \<and> (\<forall>x \<in> set es - set (fst (kept prc (events s) es (world s))). events s' x = None)
    \<and> only_queue t (set es) s s'"
  using delete_events_loop [of s t "[]" es m "events s" prc] assms queue_first [OF assms]
  by (simp add: Tcl_DeleteEvents_def)


section \<open>Handling events\<close>

lemma find_prev_found:
  "seg (events s) p us (Some e) \<Longrightarrow> us \<noteq> [] \<Longrightarrow> e \<notin> set us \<Longrightarrow> find_prev e p s = Some (last_ptr us)"
proof (induction us arbitrary: p)
  case (Cons a us)
  obtain av where a: "p = Some a" "events s a = Some av" "seg (events s) (event_nextPtr av) us (Some e)"
    using Cons.prems(1) by (auto split: option.splits)
  show ?case
  proof (cases us)
    case Nil
    then show ?thesis using a by (subst find_prev.simps) simp
  next
    case (Cons b vs)
    have n: "event_nextPtr av = Some b" using a(3) Cons by simp
    have "find_prev e (event_nextPtr av) s = Some (last_ptr us)"
      using Cons.IH [OF a(3)] Cons.prems(3) Cons by simp
    then show ?thesis using a(1,2) n Cons Cons.prems(3) by (subst find_prev.simps) auto
  qed
qed simp

lemma find_prev_missing:
  "seg (events s) p es None \<Longrightarrow> e \<notin> set es \<Longrightarrow> find_prev e p s = Some None"
proof (induction es arbitrary: p)
  case Nil then show ?case by (subst find_prev.simps) simp
next
  case (Cons a es)
  obtain av where a: "p = Some a" "events s a = Some av" "seg (events s) (event_nextPtr av) es None"
    using Cons.prems(1) by (auto split: option.splits)
  have "event_nextPtr av \<noteq> Some e" using seg_first [OF a(3)] Cons.prems(2) by (cases es) auto
  then show ?case using Cons.IH [OF a(3)] Cons.prems(2) a(1,2) by (subst find_prev.simps) simp
qed

lemma remove_handled_refines:
  assumes q: "queue s t (ds @ e # rs) m"
  shows "\<exists>s'. remove_handled t e s = Some s' \<and> queue s' t (ds @ rs) (mark_without (length ds) m)
    \<and> events s' e = None \<and> only_queue t (set (ds @ [e])) s s' \<and> world s' = world s
    \<and> (\<forall>x. x \<noteq> e \<longrightarrow> map_option event_proc (events s' x) = map_option event_proc (events s x))"
proof -
  obtain s1 where s1: "unlink_event t (last_ptr ds) e s = Some s1"
    "queue s1 t (ds @ rs) (mark_without (length ds) m)" "events s1 e = events s e"
    "only_queue t (set ds) s s1" "world s1 = world s"
    "\<forall>x. map_option event_proc (events s1 x) = map_option event_proc (events s x)"
    using unlink_refines [OF q] by blast
  have d: "e \<notin> set ds" "e \<notin> set rs" using q by (auto simp: queue_def)
  have ev: "events s e \<noteq> None" using q by (auto simp: queue_def seg_append split: option.splits)
  define s2 where "s2 = s1\<lparr>events := (events s1)(e := None)\<rparr>"
  have "free_event e s1 = Some s2" using ev s1(3) by (auto simp: free_event_def s2_def)
  moreover have "find_prev e (firstEventPtr (tsd s t)) s = Some (last_ptr ds)" if "ds \<noteq> []"
    using q that d find_prev_found [of s _ ds e] by (auto simp: queue_def seg_append)
  moreover have "firstEventPtr (tsd s t) = Some e \<longleftrightarrow> ds = []"
    using queue_first [OF q] d by (cases ds) auto
  ultimately have "remove_handled t e s = Some s2"
    using s1(1) by (cases "ds = []") (auto simp: remove_handled_def)
  moreover have "queue s2 t (ds @ rs) (mark_without (length ds) m)"
    unfolding s2_def using s1(2) d by (intro queue_free) auto
  moreover have "only_queue t (set (ds @ [e])) s s2" using s1(4) by (auto simp: only_queue_def s2_def)
  ultimately show ?thesis using s1(5,6) by (auto simp: s2_def)
qed

lemma remove_handled_gone:
  "queue s t es m \<Longrightarrow> e \<notin> set es \<Longrightarrow> remove_handled t e s = Some s"
  using find_prev_missing [of s "firstEventPtr (tsd s t)" es e] queue_first [of s t es m]
  by (cases es) (auto simp: remove_handled_def queue_def)

text \<open>
  An event is passed over when its handler is running or when the handler declines it,
  changing nothing but its own data.
\<close>

definition passed :: "'w calls \<Rightarrow> int \<Rightarrow> nat \<Rightarrow> Tcl_Event \<Rightarrow> bool" where
  "passed c flags e ev \<longleftrightarrow>
     (case event_proc ev of None \<Rightarrow> True
      | Some prc \<Rightarrow> (\<forall>s. \<exists>w. EventProc c prc e flags s = (0, s\<lparr>world := w\<rparr>)))"

definition busy :: "nat \<Rightarrow> 'w process \<Rightarrow> 'w process" where
  "busy e s = s\<lparr>events := (events s)(e := map_option (\<lambda>ev. ev\<lparr>event_proc := None\<rparr>) (events s e))\<rparr>"

text \<open>What the handler of an event that is passed over makes of its own data.\<close>

definition pass_event :: "'w calls \<Rightarrow> int \<Rightarrow> 'w process \<Rightarrow> nat \<Rightarrow> 'w \<Rightarrow> 'w" where
  "pass_event c flags s d w = (case event_proc (the (events s d)) of None \<Rightarrow> w
     | Some prc \<Rightarrow> world (snd (EventProc c prc d flags (busy d (s\<lparr>world := w\<rparr>)))))"

lemma pass_event_world [simp]: "pass_event c fl (s\<lparr>world := w\<rparr>) = pass_event c fl s"
  by (intro ext) (simp add: pass_event_def split: option.split)

lemma service_loop_pass:
  assumes "seg (events s) p ds q" "\<And>d. d \<in> set ds \<Longrightarrow> passed c fl d (the (events s d))"
  shows "ServiceEvent_loop c t fl p s = ServiceEvent_loop c t fl q (s\<lparr>world := fold (pass_event c fl s) ds (world s)\<rparr>)"
  using assms
proof (induction ds arbitrary: p s)
  case Nil
  then show ?case by simp
next
  case (Cons d ds)
  obtain ev where d: "p = Some d" "events s d = Some ev" "seg (events s) (event_nextPtr ev) ds q"
    using Cons.prems(1) by (auto split: option.splits)
  show ?case
  proof (cases "event_proc ev")
    case None
    then have "pass_event c fl s d (world s) = world s" using d(2) by (simp add: pass_event_def)
    then show ?thesis using None Cons.IH [OF d(3)] Cons.prems(2) d by (subst ServiceEvent_loop.simps) simp
  next
    case (Some prc)
    then obtain w where w: "EventProc c prc d fl (busy d s) = (0, (busy d s)\<lparr>world := w\<rparr>)"
      using Cons.prems(2) [of d] d(2) unfolding passed_def by fastforce
    have ev: "ev\<lparr>event_proc := Some prc\<rparr> = ev" using Some by simp
    have id: "(events s)(d \<mapsto> ev\<lparr>event_proc := Some prc\<rparr>) = events s" unfolding ev using d(2) by auto
    have "s\<lparr>world := world s\<rparr> = s" by simp
    then have w': "pass_event c fl s d (world s) = w" using w Some d(2) by (simp add: pass_event_def)
    have "ServiceEvent_loop c t fl p s = ServiceEvent_loop c t fl (event_nextPtr ev) (s\<lparr>world := w\<rparr>)"
      using d w Some id by (subst ServiceEvent_loop.simps) (simp add: set_event_def busy_def)
    moreover have "ServiceEvent_loop c t fl (event_nextPtr ev) (s\<lparr>world := w\<rparr>) =
        ServiceEvent_loop c t fl q (s\<lparr>world := w, world := fold (pass_event c fl (s\<lparr>world := w\<rparr>)) ds (world (s\<lparr>world := w\<rparr>))\<rparr>)"
      using Cons.IH [of "s\<lparr>world := w\<rparr>" "event_nextPtr ev"] d(3) Cons.prems(2) by simp
    ultimately show ?thesis using w' by simp
  qed
qed

lemma service_none:
  assumes "queue s t es m" "\<not> Tcl_AsyncReady c s"
    "\<And>d. d \<in> set es \<Longrightarrow> passed c (all_if_none fl) d (the (events s d))"
  shows "Tcl_ServiceEvent c t fl s = Some (0, s\<lparr>world := fold (pass_event c (all_if_none fl) s) es (world s)\<rparr>)"
proof -
  have sg: "seg (events s) (firstEventPtr (tsd s t)) es None" using assms(1) by (simp add: queue_def)
  show ?thesis using service_loop_pass [OF sg, of c "all_if_none fl" t] assms(2,3)
    by (simp add: Tcl_ServiceEvent_def ServiceEvent_loop.simps [of c t _ None])
qed

lemma service_taken:
  assumes "queue s t (ds @ e # rs) m" "\<not> Tcl_AsyncReady c s"
    "\<And>d. d \<in> set ds \<Longrightarrow> passed c (all_if_none fl) d (the (events s d))"
    "event_proc (the (events s e)) = Some prc" "w = fold (pass_event c (all_if_none fl) s) ds (world s)"
    "EventProc c prc e (all_if_none fl) (busy e (s\<lparr>world := w\<rparr>)) = (r, sh)" "r \<noteq> 0"
  shows "Tcl_ServiceEvent c t fl s = map_option (Pair 1) (remove_handled t e sh)"
proof -
  let ?p = "firstEventPtr (tsd s t)" and ?fl = "all_if_none fl"
  have sg: "seg (events s) ?p ds (Some e)" using assms(1) by (auto simp: queue_def seg_append)
  obtain ev where ev: "events s e = Some ev" using assms(1) by (auto simp: queue_def seg_append split: option.splits)
  have w: "ServiceEvent_loop c t ?fl ?p s = ServiceEvent_loop c t ?fl (Some e) (s\<lparr>world := w\<rparr>)"
    using service_loop_pass [OF sg, of c ?fl t] assms(3,5) by blast
  have "ServiceEvent_loop c t ?fl (Some e) (s\<lparr>world := w\<rparr>) = map_option (Pair 1) (remove_handled t e sh)"
    using ev assms(4,6,7)
    by (subst ServiceEvent_loop.simps)
      (auto simp: set_event_def busy_def Let_def split: prod.splits bind_splits option.splits)
  then show ?thesis using w assms(2) by (auto simp: Tcl_ServiceEvent_def)
qed


section \<open>The list of notifiers\<close>

definition notifier_links :: "'w process \<Rightarrow> nat \<Rightarrow> Tcl_Event option" where
  "notifier_links s = (\<lambda>u. Some \<lparr>event_proc = None, event_nextPtr = notifier_nextPtr (tsd s u)\<rparr>)"

definition registered :: "'w process \<Rightarrow> nat list \<Rightarrow> bool" where
  "registered s ts \<longleftrightarrow> distinct ts \<and> seg (notifier_links s) (firstNotifierPtr s) ts None
     \<and> (\<forall>u \<in> set ts. threadId (tsd s u) = u)"

lemma find_notifier_seg:
  "seg (notifier_links s) p ts None \<Longrightarrow> (\<And>u. u \<in> set ts \<Longrightarrow> threadId (tsd s u) = u) \<Longrightarrow>
     find_notifier tid p s = Some (if tid \<in> set ts then Some tid else None)"
proof (induction ts arbitrary: p)
  case Nil then show ?case by (subst find_notifier.simps) simp
next
  case (Cons a ts)
  have a: "p = Some a" "seg (notifier_links s) (notifier_nextPtr (tsd s a)) ts None" "threadId (tsd s a) = a"
    using Cons.prems by (auto simp: notifier_links_def)
  show ?case using Cons.IH [OF a(2)] Cons.prems(2) a(1,3) by (subst find_notifier.simps) auto
qed

lemma find_notifier_registered:
  "registered s ts \<Longrightarrow> find_notifier tid (firstNotifierPtr s) s = Some (if tid \<in> set ts then Some tid else None)"
  by (intro find_notifier_seg) (auto simp: registered_def)

lemma unlink_notifier_found:
  assumes "registered s (ds @ us @ t # vs)"
  shows "\<exists>s'. unlink_notifier t (last_ptr ds) s = Some s' \<and> registered s' (ds @ us @ vs)
    \<and> events s' = events s \<and> sources s' = sources s \<and> world s' = world s
    \<and> (\<forall>u. \<exists>n. tsd s' u = (tsd s u)\<lparr>notifier_nextPtr := n\<rparr>)"
  using assms
proof (induction us arbitrary: ds)
  case Nil
  have r: "distinct (ds @ t # vs)" "seg (notifier_links s) (firstNotifierPtr s) (ds @ t # vs) None"
    "\<forall>u \<in> set (ds @ t # vs). threadId (tsd s u) = u" using Nil by (auto simp: registered_def)
  have id: "\<exists>n. tsd s u = (tsd s u)\<lparr>notifier_nextPtr := n\<rparr>" for u
    by (rule exI [of _ "notifier_nextPtr (tsd s u)"]) simp
  show ?case
  proof (cases ds rule: rev_cases)
    case Nil
    define s' where "s' = s\<lparr>firstNotifierPtr := notifier_nextPtr (tsd s t)\<rparr>"
    have "notifier_links s' = notifier_links s" by (simp add: notifier_links_def s'_def)
    then have "registered s' vs" using r Nil by (auto simp: registered_def s'_def notifier_links_def)
    moreover have "unlink_notifier t None s = Some s'"
      using r(2) Nil by (subst unlink_notifier.simps) (simp add: s'_def)
    ultimately show ?thesis using Nil id by (auto simp: s'_def)
  next
    case (snoc ws q)
    define s' where "s' = upd q (\<lambda>d. d\<lparr>notifier_nextPtr := notifier_nextPtr (tsd s t)\<rparr>) s"
    have l: "notifier_links s' = (notifier_links s)(q \<mapsto> \<lparr>event_proc = None, event_nextPtr = notifier_nextPtr (tsd s t)\<rparr>)"
      by (auto simp: notifier_links_def s'_def)
    have q: "seg (notifier_links s) (firstNotifierPtr s) ws (Some q)" "notifier_nextPtr (tsd s q) = Some t"
      "seg (notifier_links s) (notifier_nextPtr (tsd s t)) vs None" "q \<notin> set ws" "q \<notin> set vs" "q \<noteq> t"
      using r snoc by (auto simp: seg_append notifier_links_def)
    have "registered s' (ws @ q # vs)"
      using r q snoc unfolding registered_def l by (auto simp: seg_append s'_def)
    moreover have "unlink_notifier t (Some q) s = Some s'"
      using q(2) by (subst unlink_notifier.simps) (simp add: s'_def)
    moreover have "\<exists>n. tsd s' u = (tsd s u)\<lparr>notifier_nextPtr := n\<rparr>" for u
      using id [of u] by (auto simp: s'_def)
    ultimately show ?thesis using snoc by (auto simp: s'_def)
  qed
next
  case (Cons a us)
  have r: "distinct (ds @ a # us @ t # vs)" "seg (notifier_links s) (firstNotifierPtr s) (ds @ a # us @ t # vs) None"
    using Cons.prems by (auto simp: registered_def)
  have "(case last_ptr ds of None \<Rightarrow> firstNotifierPtr s | Some q \<Rightarrow> notifier_nextPtr (tsd s q)) = Some a"
  proof (cases ds rule: rev_cases)
    case Nil then show ?thesis using r by simp
  next
    case (snoc ws q) then show ?thesis using r by (auto simp: seg_append notifier_links_def)
  qed
  then have "unlink_notifier t (last_ptr ds) s = unlink_notifier t (last_ptr (ds @ [a])) s"
    using r(1) by (subst unlink_notifier.simps) auto
  then show ?case using Cons.IH [of "ds @ [a]"] Cons.prems by simp
qed

text \<open>Freeing a whole queue.\<close>

lemma free_events_all:
  "seg (events s) p es None \<Longrightarrow> distinct es \<Longrightarrow>
     free_events p s = Some (s\<lparr>events := (\<lambda>x. if x \<in> set es then None else events s x)\<rparr>)"
proof (induction es arbitrary: p s)
  case Nil then show ?case by (subst free_events.simps) simp
next
  case (Cons e es)
  obtain ev where e: "p = Some e" "events s e = Some ev" "seg (events s) (event_nextPtr ev) es None"
    using Cons.prems(1) by (auto split: option.splits)
  let ?s = "s\<lparr>events := (events s)(e := None)\<rparr>"
  have sg: "seg (events ?s) (event_nextPtr ev) es None" using e(3) Cons.prems(2) by simp
  have d: "distinct es" using Cons.prems(2) by simp
  have "free_events (event_nextPtr ev) ?s
      = Some (?s\<lparr>events := (\<lambda>x. if x \<in> set es then None else events ?s x)\<rparr>)"
    by (rule Cons.IH [OF sg d])
  moreover have "(\<lambda>x. if x \<in> set es then None else events ?s x) = (\<lambda>x. if x \<in> set (e # es) then None else events s x)"
    by auto
  ultimately show ?case using e(1,2) by (subst free_events.simps) (simp add: free_event_def)
qed


section \<open>The event queue as an interface\<close>

text \<open>
  What a client that only queues events relies on: a state holds a list of events of which the
  first \<open>m\<close> were put at the marker, and putting an allocated event inserts it.
\<close>

locale event_queue =
  fixes put :: "Tcl_QueuePosition \<Rightarrow> 'e \<Rightarrow> 's \<Rightarrow> 's option"
    and holds :: "'s \<Rightarrow> 'e list \<Rightarrow> nat \<Rightarrow> bool"
    and allocated :: "'s \<Rightarrow> 'e \<Rightarrow> bool"
  assumes put: "holds s es m \<Longrightarrow> allocated s e \<Longrightarrow> e \<notin> set es \<Longrightarrow>
      \<exists>s'. put pos e s = Some s' \<and> holds s' (fst (insert_at pos e (es, m))) (snd (insert_at pos e (es, m)))
        \<and> (\<forall>x. allocated s' x = allocated s x)"
    and marker: "holds s es m \<Longrightarrow> m \<le> length es"

fun put_all :: "(Tcl_QueuePosition \<Rightarrow> 'e \<Rightarrow> 's \<Rightarrow> 's option) \<Rightarrow> (Tcl_QueuePosition \<times> 'e) list \<Rightarrow> 's \<Rightarrow> 's option" where
  "put_all put [] s = Some s"
| "put_all put ((pos, e) # xs) s = put pos e s \<bind> put_all put xs"

definition put_at :: "Tcl_QueuePosition \<Rightarrow> (Tcl_QueuePosition \<times> 'e) list \<Rightarrow> 'e list" where
  "put_at pos xs = map snd (filter (\<lambda>x. fst x = pos) xs)"

lemma set_insert_at [simp]: "set (fst (insert_at pos e (es, m))) = insert e (set es)"
proof (cases pos)
  case TCL_QUEUE_MARK
  have "set (take m es) \<union> set (drop m es) = set es" by (metis append_take_drop_id set_append)
  then show ?thesis using TCL_QUEUE_MARK by auto
qed auto

lemma insert_at_le: "m \<le> length es \<Longrightarrow> snd (insert_at pos e (es, m)) \<le> length (fst (insert_at pos e (es, m)))"
  by (cases pos) auto

context event_queue
begin

lemma put_all_holds:
  "holds s es m \<Longrightarrow> distinct (map snd xs) \<Longrightarrow> set (map snd xs) \<inter> set es = {} \<Longrightarrow>
   (\<And>x. x \<in> set (map snd xs) \<Longrightarrow> allocated s x) \<Longrightarrow>
   \<exists>s'. put_all put xs s = Some s'
     \<and> holds s' (fst (fold (\<lambda>(pos, e). insert_at pos e) xs (es, m))) (snd (fold (\<lambda>(pos, e). insert_at pos e) xs (es, m)))"
proof (induction xs arbitrary: s es m)
  case (Cons x xs)
  obtain pos e where x: "x = (pos, e)" by fastforce
  obtain s1 where s1: "put pos e s = Some s1"
    "holds s1 (fst (insert_at pos e (es, m))) (snd (insert_at pos e (es, m)))"
    "\<And>x. allocated s1 x = allocated s x"
    using put [OF Cons.prems(1), of e pos] Cons.prems(3,4) x by auto
  have "set (map snd xs) \<inter> set (fst (insert_at pos e (es, m))) = {}" using Cons.prems(2,3) x by auto
  then show ?case using Cons.IH [OF s1(2)] Cons.prems(2,4) s1(1,3) x by auto
qed simp

text \<open>
  Without insertions at the head, the events put at the marker come in order before the events
  put at the tail.
\<close>

lemma put_all_order:
  assumes "holds s es m" "distinct (map snd xs)" "set (map snd xs) \<inter> set es = {}"
    "\<And>x. x \<in> set (map snd xs) \<Longrightarrow> allocated s x" "\<And>x. x \<in> set xs \<Longrightarrow> fst x \<noteq> TCL_QUEUE_HEAD"
  shows "\<exists>s'. put_all put xs s = Some s' \<and>
    holds s' (take m es @ put_at TCL_QUEUE_MARK xs @ drop m es @ put_at TCL_QUEUE_TAIL xs)
      (m + length (put_at TCL_QUEUE_MARK xs))"
proof -
  have "fold (\<lambda>(pos, e). insert_at pos e) xs (es, m) =
     (take m es @ put_at TCL_QUEUE_MARK xs @ drop m es @ put_at TCL_QUEUE_TAIL xs,
      m + length (put_at TCL_QUEUE_MARK xs))"
    if "m \<le> length es" "\<And>x. x \<in> set xs \<Longrightarrow> fst x \<noteq> TCL_QUEUE_HEAD" for es m and xs :: "(Tcl_QueuePosition \<times> 'e) list"
    using that
  proof (induction xs arbitrary: es m)
    case (Cons x xs)
    obtain pos e where x: "x = (pos, e)" by fastforce
    have "pos \<noteq> TCL_QUEUE_HEAD" using Cons.prems(2) [of x] x by simp
    then show ?case using Cons.IH Cons.prems x by (cases pos) (auto simp: put_at_def)
  qed (simp add: put_at_def)
  then show ?thesis using put_all_holds [OF assms(1-4)] marker [OF assms(1)] assms(5) by simp
qed

lemma put_head_first: "holds s es m \<Longrightarrow> allocated s e \<Longrightarrow> e \<notin> set es \<Longrightarrow>
  \<exists>s' m'. put TCL_QUEUE_HEAD e s = Some s' \<and> holds s' (e # es) m'"
  using put [of s es m e TCL_QUEUE_HEAD] by auto

end

interpretation thread_queue: event_queue "\<lambda>pos e s. Tcl_QueueEvent t e pos s" "\<lambda>s. queue s t" "\<lambda>s e. events s e \<noteq> None"
proof
  show "queue s t es m \<Longrightarrow> events s e \<noteq> None \<Longrightarrow> e \<notin> set es \<Longrightarrow>
      \<exists>s'. Tcl_QueueEvent t e pos s = Some s' \<and> queue s' t (fst (insert_at pos e (es, m))) (snd (insert_at pos e (es, m)))
        \<and> (\<forall>x. (events s' x \<noteq> None) = (events s x \<noteq> None))" for s es m e pos
    using queue_event_refines [of s t es m e pos] unfolding Tcl_QueueEvent_def
    by (metis option.map_disc_iff)
  show "queue s t es m \<Longrightarrow> m \<le> length es" for s es m by (simp add: queue_def)
qed


section \<open>Any interleaving of threads\<close>

text \<open>All queues are well formed and no event is on two of them.\<close>

definition wf_queues :: "'w process \<Rightarrow> (nat \<Rightarrow> nat list \<times> nat) \<Rightarrow> bool" where
  "wf_queues s Q \<longleftrightarrow> (\<forall>t. queue s t (fst (Q t)) (snd (Q t)))
     \<and> (\<forall>t u. t \<noteq> u \<longrightarrow> set (fst (Q t)) \<inter> set (fst (Q u)) = {})"

definition queued :: "'w process \<Rightarrow> nat \<Rightarrow> bool" where
  "queued s e \<longleftrightarrow> (\<exists>t es m. queue s t es m \<and> e \<in> set es)"

lemma wf_queued: "wf_queues s Q \<Longrightarrow> queued s e \<longleftrightarrow> (\<exists>t. e \<in> set (fst (Q t)))"
  unfolding wf_queues_def queued_def by (metis queue_unique)

lemma wf_update:
  assumes wf: "wf_queues s Q" and X: "\<And>x. x \<in> X \<Longrightarrow> x \<in> set (fst (Q t)) \<or> \<not> queued s x"
    and q: "queue s' t es m" and o: "only_queue t X s s'"
    and es: "\<And>x. x \<in> set es \<Longrightarrow> x \<in> set (fst (Q t)) \<or> \<not> queued s x"
  shows "wf_queues s' (Q(t := (es, m)))"
proof -
  have d: "set (fst (Q u)) \<inter> Y = {}" if "u \<noteq> t" "\<And>x. x \<in> Y \<Longrightarrow> x \<in> set (fst (Q t)) \<or> \<not> queued s x" for u Y
    using wf that wf_queued [OF wf] unfolding wf_queues_def by blast
  have "queue s' u (fst (Q u)) (snd (Q u))" if "u \<noteq> t" for u
    using only_queue_queue [OF o that, of "fst (Q u)" "snd (Q u)"] d [OF that X] wf
    unfolding wf_queues_def by blast
  moreover have "set (fst (Q u)) \<inter> set es = {}" if "u \<noteq> t" for u using d [OF that es] by blast
  moreover have "set es \<inter> set (fst (Q u)) = {}" if "u \<noteq> t" for u using d [OF that es] by blast
  moreover have "set (fst (Q u)) \<inter> set (fst (Q v)) = {}" if "u \<noteq> v" for u v
    using that wf unfolding wf_queues_def by blast
  ultimately show ?thesis using q unfolding wf_queues_def by simp
qed

lemma wf_same:
  assumes "wf_queues s Q" "\<And>t. firstEventPtr (tsd s' t) = firstEventPtr (tsd s t)"
    "\<And>t. lastEventPtr (tsd s' t) = lastEventPtr (tsd s t)" "\<And>t. markerEventPtr (tsd s' t) = markerEventPtr (tsd s t)"
    "\<And>e. queued s e \<Longrightarrow> map_option event_nextPtr (events s' e) = map_option event_nextPtr (events s e)"
  shows "wf_queues s' Q"
proof -
  have "(\<And>e. e \<in> set xs \<Longrightarrow> queued s e) \<Longrightarrow> seg (events s') p xs q = seg (events s) p xs q" for p xs q
    by (rule seg_links) (simp add: assms(5))
  then show ?thesis using assms(1-4) wf_queued [OF assms(1)] unfolding wf_queues_def queue_def by metis
qed

text \<open>
  The steps of all threads, in any order: one critical section or one write at a time.  \<open>release\<close> is
  the freeing of a queue by \<open>TclFinalizeNotifier\<close>, for a thread without a pending marker event.
\<close>

inductive notifier_reachable :: "'w process \<Rightarrow> bool" where
  start: "(\<And>e. events s e = None) \<Longrightarrow> (\<And>t. tsd s t = zero_data) \<Longrightarrow> notifier_reachable s"
| alloc: "notifier_reachable s \<Longrightarrow> events s e = None \<Longrightarrow> notifier_reachable (s\<lparr>events := (events s)(e \<mapsto> ev)\<rparr>)"
| put: "notifier_reachable s \<Longrightarrow> \<not> queued s e \<Longrightarrow> QueueEvent t e pos s = Some s' \<Longrightarrow> notifier_reachable s'"
| delete: "notifier_reachable s \<Longrightarrow> Tcl_DeleteEvents prc t s = Some s' \<Longrightarrow> notifier_reachable s'"
| handle: "notifier_reachable s \<Longrightarrow> notifier_reachable (busy e s)"
| restore: "notifier_reachable s \<Longrightarrow> set_event (Some e) (\<lambda>ev. ev\<lparr>event_proc := p\<rparr>) s = Some s' \<Longrightarrow> notifier_reachable s'"
| handled: "notifier_reachable s \<Longrightarrow> remove_handled t e s = Some s' \<Longrightarrow> notifier_reachable s'"
| release: "notifier_reachable s \<Longrightarrow> markerEventPtr (tsd s t) = None \<Longrightarrow> free_events (firstEventPtr (tsd s t)) s = Some s' \<Longrightarrow>
    notifier_reachable (upd t (\<lambda>d. d\<lparr>firstEventPtr := None, lastEventPtr := None\<rparr>) s')"
| other: "notifier_reachable s \<Longrightarrow> events s' = events s \<Longrightarrow>
    (\<And>t. firstEventPtr (tsd s' t) = firstEventPtr (tsd s t) \<and> lastEventPtr (tsd s' t) = lastEventPtr (tsd s t)
        \<and> markerEventPtr (tsd s' t) = markerEventPtr (tsd s t)) \<Longrightarrow> notifier_reachable s'"

lemma queue_allocated: "queue s t es m \<Longrightarrow> e \<in> set es \<Longrightarrow> events s e \<noteq> None"
  by (auto simp: queue_def dest: seg_mem)

lemma queued_allocated: "queued s e \<Longrightarrow> events s e \<noteq> None"
  using queue_allocated unfolding queued_def by blast

lemma wf_put:
  assumes wf: "wf_queues s Q" and e: "\<not> queued s e" "QueueEvent t e pos s = Some s'" "events s e \<noteq> None"
  shows "wf_queues s' (Q(t := insert_at pos e (Q t)))"
proof -
  have q: "queue s t (fst (Q t)) (snd (Q t))" using wf by (simp add: wf_queues_def)
  have n: "e \<notin> set (fst (Q t))" using e(1) wf_queued [OF wf] by blast
  have st: "set (fst (insert_at pos e (Q t))) = insert e (set (fst (Q t)))" by (cases "Q t") simp
  have r: "queue s' t (fst (insert_at pos e (Q t))) (snd (insert_at pos e (Q t)))"
    "only_queue t (insert e (set (fst (Q t)))) s s'"
    using queue_event_refines [OF q e(3) n, of pos] e(2) by auto
  have "wf_queues s' (Q(t := (fst (insert_at pos e (Q t)), snd (insert_at pos e (Q t)))))"
    by (rule wf_update [OF wf _ r]) (use st e(1) in auto)
  then show ?thesis by simp
qed

lemma wf_delete:
  assumes wf: "wf_queues s Q" and r: "Tcl_DeleteEvents prc t s = Some s'"
  shows "\<exists>Q'. wf_queues s' Q'"
proof -
  have q: "queue s t (fst (Q t)) (snd (Q t))" using wf by (simp add: wf_queues_def)
  let ?es = "fst (kept prc (events s) (fst (Q t)) (world s))"
  obtain m where s': "queue s' t ?es m" "only_queue t (set (fst (Q t))) s s'"
    using delete_events_refines [OF q, of prc] r by auto
  have "wf_queues s' (Q(t := (?es, m)))"
    by (rule wf_update [OF wf _ s']) (use kept_subset [of prc "events s" "fst (Q t)" "world s"] in auto)
  then show ?thesis by blast
qed

lemma wf_handled:
  assumes wf: "wf_queues s Q" and r: "remove_handled t e s = Some s'"
  shows "\<exists>Q'. wf_queues s' Q'"
proof (cases "e \<in> set (fst (Q t))")
  case True
  then obtain ds rs where es: "fst (Q t) = ds @ e # rs" by (meson split_list)
  have q: "queue s t (ds @ e # rs) (snd (Q t))" using wf es by (metis wf_queues_def)
  obtain m where s': "queue s' t (ds @ rs) m" "only_queue t (set (ds @ [e])) s s'"
    using remove_handled_refines [OF q] r by auto
  have "wf_queues s' (Q(t := (ds @ rs, m)))"
    by (rule wf_update [OF wf _ s']) (use es in auto)
  then show ?thesis by blast
next
  case False
  then have "s' = s" using remove_handled_gone [of s t "fst (Q t)" "snd (Q t)" e] wf r by (auto simp: wf_queues_def)
  then show ?thesis using wf by blast
qed

lemma QueueEvent_allocated: "QueueEvent t e pos s = Some s' \<Longrightarrow> events s e \<noteq> None"
  by (cases pos) (auto simp: QueueEvent_def get_next_def split: option.splits if_splits bind_splits)

lemma reachable_wf: "notifier_reachable s \<Longrightarrow> \<exists>Q. wf_queues s Q"
proof (induction rule: notifier_reachable.induct)
  case (start s)
  then have "wf_queues s (\<lambda>_. ([], 0))" by (simp add: wf_queues_def queue_def zero_data_def)
  then show ?case by blast
next
  case (alloc s e ev)
  then obtain Q where "wf_queues s Q" by blast
  then have "wf_queues (s\<lparr>events := (events s)(e \<mapsto> ev)\<rparr>) Q"
  proof (rule wf_same)
    fix x assume "queued s x"
    then have "x \<noteq> e" using alloc.hyps(2) queued_allocated [of s x] by auto
    then show "map_option event_nextPtr (events (s\<lparr>events := (events s)(e \<mapsto> ev)\<rparr>) x) = map_option event_nextPtr (events s x)"
      by simp
  qed simp_all
  then show ?case by blast
next
  case (put s e t pos s') then show ?case using wf_put QueueEvent_allocated by metis
next
  case (delete s prc t s') then show ?case using wf_delete by blast
next
  case (handle s e)
  then obtain Q where "wf_queues s Q" by blast
  then have "wf_queues (busy e s) Q" by (rule wf_same) (simp_all add: busy_def option.map_comp comp_def)
  then show ?case by blast
next
  case (restore s e p s')
  then obtain Q where "wf_queues s Q" by blast
  moreover obtain ev where ev: "events s e = Some ev" "s' = s\<lparr>events := (events s)(e \<mapsto> ev\<lparr>event_proc := p\<rparr>)\<rparr>"
    using restore.hyps(2) by (auto simp: set_event_def split: option.splits)
  have "tsd s' = tsd s" "map_option event_nextPtr (events s' x) = map_option event_nextPtr (events s x)" for x
    using ev by simp_all
  ultimately have "wf_queues s' Q" by (elim wf_same) simp_all
  then show ?case by blast
next
  case (handled s t e s') then show ?case using wf_handled by blast
next
  case (release s t s')
  then obtain Q where Q: "wf_queues s Q" by blast
  have q: "seg (events s) (firstEventPtr (tsd s t)) (fst (Q t)) None" "distinct (fst (Q t))"
    using Q by (auto simp: wf_queues_def queue_def)
  have s': "s' = s\<lparr>events := (\<lambda>x. if x \<in> set (fst (Q t)) then None else events s x)\<rparr>"
    using free_events_all [OF q] release.hyps by simp
  let ?r = "upd t (\<lambda>d. d\<lparr>firstEventPtr := None, lastEventPtr := None\<rparr>) s'"
  have e: "queue ?r t [] 0" using release.hyps(2) s' by (simp add: queue_def upd_def)
  have o: "only_queue t (set (fst (Q t))) s ?r" using s' by (simp add: only_queue_def upd_def)
  have "wf_queues ?r (Q(t := ([], 0)))" by (rule wf_update [OF Q _ e o]) auto
  then show ?case by blast
next
  case (other s s')
  then obtain Q where "wf_queues s Q" by blast
  then have "wf_queues s' Q" by (rule wf_same) (simp_all add: other.hyps)
  then show ?case by blast
qed

lemma remove_handled_some: "queue s t es m \<Longrightarrow> remove_handled t e s \<noteq> None"
  using remove_handled_gone [of s t es m e] remove_handled_refines [of s t _ e _ m] split_list [of e es]
  by (cases "e \<in> set es") (auto, metis option.distinct(1))


section \<open>Block times and rounds\<close>

definition time_le :: "Tcl_Time \<Rightarrow> Tcl_Time \<Rightarrow> bool" where
  "time_le a b \<longleftrightarrow> sec a < sec b \<or> (sec a = sec b \<and> usec a \<le> usec b)"

lemma time_le_refl [simp]: "time_le a a" by (simp add: time_le_def)

lemma time_le_trans: "time_le a b \<Longrightarrow> time_le b x \<Longrightarrow> time_le a x" by (auto simp: time_le_def)

lemma set_max_block_time:
  assumes "inTraversal (tsd s t)"
  shows "inTraversal (tsd (Tcl_SetMaxBlockTime c t x s) t)" "blockTimeSet (tsd (Tcl_SetMaxBlockTime c t x s) t)"
    "time_le (blockTime (tsd (Tcl_SetMaxBlockTime c t x s) t)) x"
    "blockTimeSet (tsd s t) \<Longrightarrow> time_le (blockTime (tsd (Tcl_SetMaxBlockTime c t x s) t)) (blockTime (tsd s t))"
    "blockTime (tsd (Tcl_SetMaxBlockTime c t x s) t) = x
      \<or> blockTimeSet (tsd s t) \<and> blockTime (tsd (Tcl_SetMaxBlockTime c t x s) t) = blockTime (tsd s t)"
  using assms by (auto simp: Tcl_SetMaxBlockTime_def Let_def time_le_def)

lemma fold_max_block_time:
  assumes "inTraversal (tsd s t)" "blockTimeSet (tsd s t)"
  shows "let b = blockTime (tsd (fold (Tcl_SetMaxBlockTime c t) xs s) t)
    in b \<in> insert (blockTime (tsd s t)) (set xs) \<and> time_le b (blockTime (tsd s t)) \<and> (\<forall>x \<in> set xs. time_le b x)
       \<and> blockTimeSet (tsd (fold (Tcl_SetMaxBlockTime c t) xs s) t)"
  using assms
proof (induction xs arbitrary: s)
  case Nil then show ?case by simp
next
  case (Cons x xs)
  note b = set_max_block_time [OF Cons.prems(1), of c x]
  show ?case using Cons.IH [OF b(1,2)] b(3,5) b(4) [OF Cons.prems(2)] Cons.prems(2)
    unfolding Let_def by (auto intro: time_le_trans)
qed

lemma idle_round_leaves:
  "flags AND TCL_DONT_WAIT \<noteq> 0 \<Longrightarrow> fst (idleEvents c flags result s)"
  by (auto simp: idleEvents_def Let_def split: prod.splits)

lemma poll_round_leaves:
  assumes "flags AND TCL_DONT_WAIT \<noteq> 0 \<or> flags AND TCL_ALL_EVENTS = TCL_IDLE_EVENTS"
    "DoOneEvent_round c t flags result s = Some (leave, r, s')"
  shows leave
proof (cases "flags AND TCL_ALL_EVENTS = TCL_IDLE_EVENTS")
  case True
  have "(TCL_IDLE_EVENTS OR TCL_DONT_WAIT) AND TCL_DONT_WAIT \<noteq> 0" by (simp add: notify_constants)
  then have "fst (idleEvents c (TCL_IDLE_EVENTS OR TCL_DONT_WAIT) result s)" by (rule idle_round_leaves)
  then show ?thesis using True assms(2) by (auto simp: DoOneEvent_round_def)
next
  case False
  then have "flags AND TCL_DONT_WAIT \<noteq> 0" using assms(1) by blast
  then show ?thesis using False assms(2) idle_round_leaves [of flags c]
    by (auto simp: DoOneEvent_round_def split: bind_splits if_splits prod.splits) (metis fst_conv)+
qed

lemma one_round:
  assumes "flags AND TCL_DONT_WAIT \<noteq> 0 \<or> flags AND TCL_ALL_EVENTS = TCL_IDLE_EVENTS"
  shows "DoOneEvent_loop c t flags result s = map_option snd (DoOneEvent_round c t flags result s)"
  using poll_round_leaves [OF assms, of c t result s]
  by (subst DoOneEvent_loop.simps) (auto split: bind_splits option.splits prod.splits)

section \<open>Properties\<close>

text \<open>A process with one queue, for the examples.\<close>

definition example_process :: "nat list \<Rightarrow> nat \<Rightarrow> nat list \<Rightarrow> nat process" where
  "example_process es m free =
     \<lparr>events = (\<lambda>x. if x \<in> set free then Some \<lparr>event_proc = Some 7, event_nextPtr = None\<rparr>
               else map_option (\<lambda>q. \<lparr>event_proc = Some 7, event_nextPtr = q\<rparr>)
                      (map_of (zip es (map Some (tl es) @ [None])) x)),
      sources = (\<lambda>_. None),
      tsd = (\<lambda>_. zero_data)(0 := zero_data\<lparr>firstEventPtr := first_ptr es, lastEventPtr := last_ptr es,
              markerEventPtr := last_ptr (take m es), threadId := 0, initialized := True\<rparr>),
      firstNotifierPtr = Some 0, world = 0\<rparr>"

definition example_calls :: "nat calls" where
  "example_calls = \<lparr>EventProc = (\<lambda>p e fl s. (if even e then 1 else 0, s\<lparr>world := world s + 1\<rparr>)),
     EventSetupProc = (\<lambda>p d fl s. s), EventCheckProc = (\<lambda>p d fl s. s),
     Tcl_AsyncReady = (\<lambda>s. False), Tcl_AsyncInvoke = (\<lambda>s. s), TclServiceIdle = (\<lambda>s. (0, s)),
     Tcl_InitNotifier = (\<lambda>s. (0, s)), Tcl_FinalizeNotifier = (\<lambda>h s. s),
     Tcl_WaitForEvent = (\<lambda>time s. (0, s)), Tcl_SetTimer = (\<lambda>time s. s),
     Tcl_ServiceModeHook = (\<lambda>m s. s), Tcl_AlertNotifier = (\<lambda>h s. s\<lparr>world := h\<rparr>)\<rparr>"

lemma example_queue:
  "queue (example_process [10, 11, 12] 1 [13, 14, 15]) 0 [10, 11, 12] 1"
  "queue (example_process [10, 11] 1 [9]) 0 [10, 11] 1"
  "queue (example_process [10, 11, 12, 13] 1 []) 0 [10, 11, 12, 13] 1"
  by (simp_all add: queue_def example_process_def zero_data_def last_ptr_def)

lemma example_free: "x \<in> set free \<Longrightarrow> \<exists>ev. events (example_process es m free) x = Some ev"
  by (simp add: example_process_def)

text \<open>
  C37. Events put on a queue at the marker and at the tail, in any mixture, end up in the order
  the documentation promises: first the earlier marker events, then the new marker events in
  the order they were queued, then what was behind the marker, then the tail events in order.
  No link is read through a null or dangling pointer on the way.
\<close>

theorem event_order:
  assumes "queue s t es m" "distinct (map snd xs)" "set (map snd xs) \<inter> set es = {}"
    "set (map snd xs) \<subseteq> {e. events s e \<noteq> None}" "TCL_QUEUE_HEAD \<notin> set (map fst xs)"
  shows "\<exists>s'. put_all (\<lambda>pos e s. Tcl_QueueEvent t e pos s) xs s = Some s' \<and>
    queue s' t (take m es @ put_at TCL_QUEUE_MARK xs @ drop m es @ put_at TCL_QUEUE_TAIL xs)
      (m + length (put_at TCL_QUEUE_MARK xs))"
  by (rule thread_queue.put_all_order [OF assms(1-3)]) (use assms(4,5) in force)+

lemma event_order_witness:
  "\<exists>s'. put_all (\<lambda>pos e s. Tcl_QueueEvent 0 e pos s)
      [(TCL_QUEUE_TAIL, 13), (TCL_QUEUE_MARK, 14), (TCL_QUEUE_MARK, 15)] (example_process [10, 11, 12] 1 [13, 14, 15]) = Some s'
    \<and> queue s' 0 [10, 14, 15, 11, 12, 13] 3"
  using event_order [OF example_queue(1), where xs = "[(TCL_QUEUE_TAIL, 13), (TCL_QUEUE_MARK, 14), (TCL_QUEUE_MARK, 15)]"]
  by (simp add: put_at_def example_free numeral_3_eq_3 del: put_all.simps)

text \<open>
  Queueing one event at any of the three positions inserts it there in the abstract queue,
  and touches nothing but the three pointers of that thread's queue, the links of its events
  and the link of the new event; no event's procedure changes.
\<close>

theorem queue_event_inserts:
  assumes "queue s t es m" "events s e \<noteq> None" "e \<notin> set es"
  shows "\<exists>s'. QueueEvent t e pos s = Some s'
    \<and> queue s' t (fst (insert_at pos e (es, m))) (snd (insert_at pos e (es, m)))
    \<and> only_queue t (insert e (set es)) s s' \<and> world s' = world s
    \<and> (\<forall>x. map_option event_proc (events s' x) = map_option event_proc (events s x))"
  by (rule queue_event_refines [OF assms])

lemma queue_event_inserts_witness:
  "\<exists>s'. QueueEvent 0 9 TCL_QUEUE_HEAD (example_process [10, 11] 1 [9]) = Some s' \<and> queue s' 0 [9, 10, 11] 2"
  using queue_event_inserts [OF example_queue(2), where e = 9 and pos = TCL_QUEUE_HEAD]
  by (auto simp: example_free numeral_2_eq_2)

text \<open>
  \<open>Tcl_DeleteEvents\<close> with a procedure that selects events deletes exactly those it selects:
  the queue becomes the filtered list, the marker stays behind the marker events that remain,
  the deleted events are freed, and other threads' queues are untouched.
\<close>

theorem delete_events_filters:
  assumes "queue s t es m" "\<And>e ev w. prc e ev w = (if P e ev then 1 else 0, w)"
  shows "\<exists>s'. Tcl_DeleteEvents prc t s = Some s'
    \<and> queue s' t (filter (\<lambda>e. \<not> P e (the (events s e))) es) (length (filter (\<lambda>e. \<not> P e (the (events s e))) (take m es)))
    \<and> (\<forall>e \<in> set es. P e (the (events s e)) \<longrightarrow> events s' e = None)
    \<and> only_queue t (set es) s s'"
  using delete_events_refines [OF assms(1), of prc] by (auto simp: kept_filter [of prc P, OF assms(2)])

lemma delete_events_filters_witness:
  "\<exists>s'. Tcl_DeleteEvents (\<lambda>e ev w. (if even e then 1 else 0, w)) 0 (example_process [10, 11, 12, 13] 1 []) = Some s'
    \<and> queue s' 0 [11, 13] 0 \<and> events s' 10 = None \<and> events s' 12 = None"
  using delete_events_filters [OF example_queue(3), where P = "\<lambda>e ev. even e" and prc = "\<lambda>e ev w. (if even e then 1 else 0, w)"]
  by auto


text \<open>
  C38. \<open>Tcl_ServiceEvent\<close>, when no asynchronous handler is ready, runs the first event whose handler
  accepts, on the data that the handlers before it have left: the events in front are those whose
  handler is already running, or declines and changes nothing but its own data.  The accepting
  handler may change the whole state, its queue included, as long as that is well formed when it
  returns.  If its event is still on the queue, exactly this event is then unlinked and freed and
  the marker and last pointers are corrected; if the handler has taken it off, nothing is unlinked or
  freed.  The result is 1.
\<close>

theorem service_event_handles:
  assumes "queue s t (ds @ e # rs) m" "\<not> Tcl_AsyncReady c s"
    "\<forall>d\<in>set ds. passed c (all_if_none flags) d (the (events s d))"
    "event_proc (the (events s e)) = Some prc" "w = fold (pass_event c (all_if_none flags) s) ds (world s)"
    "EventProc c prc e (all_if_none flags) (busy e (s\<lparr>world := w\<rparr>)) = (r, sh)" "r \<noteq> 0" "queue sh t zs k"
  shows "\<exists>s'. Tcl_ServiceEvent c t flags s = Some (1, s')
    \<and> (if e \<in> set zs
       then \<exists>xs ys. zs = xs @ e # ys \<and> queue s' t (xs @ ys) (mark_without (length xs) k)
         \<and> events s' e = None \<and> only_queue t (set (xs @ [e])) sh s' \<and> world s' = world sh
       else s' = sh)"
proof (cases "e \<in> set zs")
  case True
  then obtain xs ys where zs: "zs = xs @ e # ys" by (meson split_list)
  then show ?thesis
    using service_taken [OF assms(1,2) _ assms(4-7)] assms(3) remove_handled_refines [of sh t xs e ys k] assms(8) True by auto
next
  case False
  then show ?thesis using service_taken [OF assms(1,2) _ assms(4-7)] assms(3) remove_handled_gone [OF assms(8)] by simp
qed

lemma example_passed: "odd e \<Longrightarrow> passed example_calls fl e ev"
proof (cases "event_proc ev")
  case (Some p)
  assume "odd e"
  then have "EventProc example_calls p e fl s = (0, s\<lparr>world := world s + 1\<rparr>)" for s
    by (simp add: example_calls_def)
  then show "passed example_calls fl e ev" unfolding passed_def Some option.case by blast
qed (simp add: passed_def)

lemma example_busy_queue:
  "queue (busy e s) t es m = queue s t es m"
proof -
  have "seg (events (busy e s)) p xs q = seg (events s) p xs q" for p xs q
    by (rule seg_links) (simp add: busy_def option.map_comp comp_def)
  then show ?thesis by (simp add: queue_def busy_def)
qed

lemma example_calls_simps [simp]:
  "Tcl_AsyncReady example_calls s = False"
  "EventProc example_calls p e fl s = (if even e then 1 else 0, s\<lparr>world := world s + 1\<rparr>)"
  by (simp_all add: example_calls_def)

text \<open>The handlers of 11 and 13 decline, that of 10 accepts; the second handler has emptied the queue.\<close>

lemma service_event_handles_witness:
  "(\<exists>s'. Tcl_ServiceEvent example_calls 0 0 (example_process [11, 13, 10, 12] 3 []) = Some (1, s')
      \<and> queue s' 0 [11, 13, 12] 2 \<and> events s' 10 = None \<and> world s' = 3)
    \<and> Tcl_ServiceEvent (example_calls\<lparr>EventProc := (\<lambda>p e fl s. (1, example_process [] 0 []))\<rparr>) 0 0
        (example_process [10, 12] 0 []) = Some (1, example_process [] 0 [])"
proof
  let ?s = "example_process [11, 13, 10, 12] 3 []" and ?sh = "(busy 10 (example_process [11, 13, 10, 12] 3 []\<lparr>world := 2\<rparr>))\<lparr>world := 3\<rparr>"
  have q: "queue ?s 0 ([11, 13] @ 10 # [12]) 3" by (simp add: queue_def example_process_def zero_data_def last_ptr_def)
  have p: "event_proc (the (events ?s 10)) = Some 7" "event_proc (the (events ?s 11)) = Some 7" "event_proc (the (events ?s 13)) = Some 7"
    "world ?s = 0" by (simp_all add: example_process_def)
  have d: "\<forall>d\<in>set [11, 13]. passed example_calls (all_if_none 0) d (the (events ?s d))"
    by (intro ballI example_passed) auto
  have w: "2 = fold (pass_event example_calls (all_if_none 0) ?s) [11, 13] (world ?s)"
    using p by (simp add: pass_event_def busy_def)
  have h: "EventProc example_calls 7 10 (all_if_none 0) (busy 10 (?s\<lparr>world := 2\<rparr>)) = (1, ?sh)"
    by (simp add: busy_def)
  have k: "queue ?sh 0 [11, 13, 10, 12] 3" using q by (simp add: example_busy_queue)
  have a: "\<not> Tcl_AsyncReady example_calls ?s" by simp
  have one: "(1 :: int) \<noteq> 0" and m: "10 \<in> set [11, 13, 10, 12 :: nat]" by simp_all
  obtain s' xs ys where s': "Tcl_ServiceEvent example_calls 0 0 ?s = Some (1, s')" "[11, 13, 10, 12] = xs @ 10 # ys"
    "queue s' 0 (xs @ ys) (mark_without (length xs) 3)" "events s' 10 = None" "world s' = world ?sh"
  proof -
    note t = service_event_handles [OF q a d p(1) w h one k]
    show ?thesis using t unfolding if_P [OF m] by (elim exE conjE) (rule that; assumption)
  qed
  have xy: "xs = [11, 13]" "ys = [12]" using s'(2) by (auto simp: Cons_eq_append_conv)
  have "mark_without (length xs) 3 = 2" "world ?sh = 3" by (simp_all add: xy mark_without_def)
  then show "\<exists>s'. Tcl_ServiceEvent example_calls 0 0 ?s = Some (1, s')
      \<and> queue s' 0 [11, 13, 12] 2 \<and> events s' 10 = None \<and> world s' = 3"
    using s'(1,3-5) xy by (intro exI [of _ s']) (simp only: append.simps simp_thms)
next
  let ?c = "example_calls\<lparr>EventProc := (\<lambda>p e fl s. (1, example_process [] 0 []))\<rparr>" and ?s = "example_process [10, 12] 0 []"
  have q: "queue ?s 0 ([] @ 10 # [12]) 0" by (simp add: queue_def example_process_def zero_data_def last_ptr_def)
  have a: "\<not> Tcl_AsyncReady ?c ?s" by (simp add: example_calls_def)
  have d: "\<forall>d\<in>set []. passed ?c (all_if_none 0) d (the (events ?s d))" by simp
  have p: "event_proc (the (events ?s 10)) = Some 7" by (simp add: example_process_def)
  have h: "EventProc ?c 7 10 (all_if_none 0) (busy 10 (?s\<lparr>world := fold (pass_event ?c (all_if_none 0) ?s) [] (world ?s)\<rparr>))
      = (1, example_process [] 0 [])" by simp
  have k: "queue (example_process [] 0 []) 0 [] 0" by (simp add: queue_def example_process_def zero_data_def)
  show "Tcl_ServiceEvent ?c 0 0 ?s = Some (1, example_process [] 0 [])"
    using service_event_handles [OF q a d p refl h _ k] by simp
qed

text \<open>Platform hooks that keep to their own data.\<close>

definition own_data :: "('w process \<Rightarrow> 'w process) \<Rightarrow> bool" where
  "own_data f \<longleftrightarrow> (\<forall>s. \<exists>w. f s = s\<lparr>world := w\<rparr>)"

lemma own_data_id: "own_data (\<lambda>s. s)"
proof -
  have "s = s\<lparr>world := world s\<rparr>" for s :: "'w process" by simp
  then show ?thesis unfolding own_data_def by metis
qed

text \<open>Finalising a notifier is made of steps of \<open>notifier_reachable\<close> when no marker event is pending.\<close>

definition same_queue_ptrs :: "'w process \<Rightarrow> 'w process \<Rightarrow> bool" where
  "same_queue_ptrs s s' \<longleftrightarrow> events s' = events s \<and> (\<forall>t. firstEventPtr (tsd s' t) = firstEventPtr (tsd s t)
     \<and> lastEventPtr (tsd s' t) = lastEventPtr (tsd s t) \<and> markerEventPtr (tsd s' t) = markerEventPtr (tsd s t))"

lemma unlink_notifier_frame: "unlink_notifier t prev s = Some s' \<Longrightarrow> same_queue_ptrs s s'"
  by (erule unlink_notifier.raw_induct [where P = "\<lambda>t prev s s'. same_queue_ptrs s s'", rotated])
    (auto simp: same_queue_ptrs_def Let_def split: option.splits if_splits)

lemma finalize_steps:
  assumes "notifier_reachable s" "markerEventPtr (tsd s t) = None" "own_data (Tcl_FinalizeNotifier c (notifier_clientData (tsd s t)))"
    "TclFinalizeNotifier c t s = Some s'"
  shows "notifier_reachable s'"
proof (cases "initialized (tsd s t)")
  case True
  obtain Q where "wf_queues s Q" using reachable_wf [OF assms(1)] by blast
  then have q: "seg (events s) (firstEventPtr (tsd s t)) (fst (Q t)) None" "distinct (fst (Q t))" by (auto simp: wf_queues_def queue_def)
  note f = free_events_all [OF q]
  obtain s1 where s1: "free_events (firstEventPtr (tsd s t)) s = Some s1" "tsd s1 = tsd s" using f by auto
  let ?s2 = "upd t (\<lambda>d. d\<lparr>firstEventPtr := None, lastEventPtr := None\<rparr>) s1"
  obtain w where w: "Tcl_FinalizeNotifier c (notifier_clientData (tsd s t)) ?s2 = ?s2\<lparr>world := w\<rparr>"
    using assms(3) unfolding own_data_def by blast
  obtain s3 where s3: "unlink_notifier t None (?s2\<lparr>world := w\<rparr>) = Some s3" "s' = upd t (\<lambda>d. d\<lparr>initialized := False\<rparr>) s3"
    using assms(4) True s1 w by (auto simp: TclFinalizeNotifier_def Let_def split: bind_splits)
  have "same_queue_ptrs ?s2 s'"
    using unlink_notifier_frame [OF s3(1)] by (auto simp: same_queue_ptrs_def s3(2) upd_def)
  then show ?thesis
    using notifier_reachable.other [OF notifier_reachable.release [OF assms(1,2) s1(1)], of s'] by (simp add: same_queue_ptrs_def)
next
  case False
  then show ?thesis using assms(1,4) by (simp add: TclFinalizeNotifier_def)
qed

text \<open>
  C36. In every state that any interleaving of threads can reach by queueing, deleting, handling,
  restoring and finishing events, and by finalising notifiers that have no marker event pending, all
  queues are well formed (acyclic, with last and marker pointing where they should) and no event is
  on two queues.  In such a state queueing, deleting, finishing and freeing events read no null or
  dangling pointer, nor do the accesses of \<open>Tcl_ServiceEvent\<close> to an event whose handler has declined,
  if the event is still queued (a handler that deletes its own event must not decline it).  A notifier
  finalised with a marker event pending is excluded, as it leaves the marker dangling.
\<close>

theorem queues_always_well_formed:
  assumes "notifier_reachable s"
  shows "\<exists>Q. wf_queues s Q \<and> Tcl_DeleteEvents prc t s \<noteq> None \<and> remove_handled t e s \<noteq> None
    \<and> (events s e = None \<or> queued s e \<or> QueueEvent t e pos s \<noteq> None)
    \<and> free_events (firstEventPtr (tsd s t)) s \<noteq> None
    \<and> (queued s e \<longrightarrow> set_event (Some e) f s \<noteq> None \<and> get_next (Some e) s \<noteq> None)
    \<and> (markerEventPtr (tsd s t) = None \<and> own_data (Tcl_FinalizeNotifier c (notifier_clientData (tsd s t))) \<longrightarrow>
         (\<forall>s'. TclFinalizeNotifier c t s = Some s' \<longrightarrow> notifier_reachable s'))"
proof -
  obtain Q where Q: "wf_queues s Q" using reachable_wf [OF assms] by blast
  then have q: "queue s t (fst (Q t)) (snd (Q t))" by (simp add: wf_queues_def)
  have "QueueEvent t e pos s \<noteq> None" if "events s e \<noteq> None" "\<not> queued s e"
  proof -
    have "e \<notin> set (fst (Q t))" using that(2) wf_queued [OF Q] by blast
    then show ?thesis using queue_event_refines [OF q that(1)] by (metis option.distinct(1))
  qed
  moreover have "Tcl_DeleteEvents prc t s \<noteq> None" using delete_events_refines [OF q, of prc] by auto
  moreover have "set_event (Some e) f s \<noteq> None \<and> get_next (Some e) s \<noteq> None" if "queued s e"
    using queued_allocated [OF that] by (auto simp: set_event_def get_next_def)
  moreover have "free_events (firstEventPtr (tsd s t)) s \<noteq> None"
    using free_events_all [of s "firstEventPtr (tsd s t)" "fst (Q t)"] q by (auto simp: queue_def)
  moreover note finalize_steps [OF assms, of t c]
  ultimately show ?thesis using Q remove_handled_some [OF q, of e] by (intro exI [of _ Q] conjI) auto
qed

text \<open>Event 5 is queued at the marker and 6 at the tail.\<close>

lemma queues_always_well_formed_witness:
  "\<exists>s Q :: nat \<Rightarrow> nat list \<times> nat. queue (s :: nat process) 0 [5, 6] 1 \<and> wf_queues s Q \<and> Tcl_DeleteEvents (\<lambda>e ev w. (1, w)) 0 s \<noteq> None
    \<and> get_next (Some 5) s \<noteq> None"
proof -
  let ?s = "example_process [] 0 []\<lparr>tsd := \<lambda>_. zero_data\<rparr>" and ?ev = "\<lparr>event_proc = Some 1, event_nextPtr = None\<rparr>"
  let ?s1 = "?s\<lparr>events := (events ?s)(5 \<mapsto> ?ev)\<rparr>"
  let ?s2 = "?s1\<lparr>events := (events ?s1)(6 \<mapsto> ?ev)\<rparr>"
  have none: "events ?s e = None" "tsd ?s t = zero_data" for e t by (simp_all add: example_process_def)
  have "notifier_reachable ?s" by (rule notifier_reachable.start) (rule none)+
  then have "notifier_reachable ?s1" by (rule notifier_reachable.alloc) (rule none)
  then have r2: "notifier_reachable ?s2" by (rule notifier_reachable.alloc) (simp add: example_process_def)
  have e: "queue ?s2 t [] 0" for t by (simp add: queue_def none zero_data_def)
  have q: "wf_queues ?s2 (\<lambda>_. ([], 0))" unfolding wf_queues_def using e by simp
  have u: "\<not> queued ?s2 x" for x using wf_queued [OF q] by simp
  obtain s3 where s3: "QueueEvent 0 5 TCL_QUEUE_MARK ?s2 = Some s3" "queue s3 0 [5] 1"
    "\<forall>x. map_option event_proc (events s3 x) = map_option event_proc (events ?s2 x)"
    using queue_event_refines [OF e, of 5 0 TCL_QUEUE_MARK] by auto
  have w3: "wf_queues s3 ((\<lambda>_. ([], 0))(0 := insert_at TCL_QUEUE_MARK 5 ([], 0)))"
    using wf_put [OF q u s3(1)] by simp
  have r3: "notifier_reachable s3" by (rule notifier_reachable.put [OF r2 u s3(1)])
  have u3: "\<not> queued s3 6" using wf_queued [OF w3] by simp
  have a3: "events s3 6 \<noteq> None" using s3(3) [rule_format, of 6] by auto
  obtain s4 where s4: "QueueEvent 0 6 TCL_QUEUE_TAIL s3 = Some s4" "queue s4 0 [5, 6] 1"
    using queue_event_refines [OF s3(2) a3, of TCL_QUEUE_TAIL] by auto
  have r4: "notifier_reachable s4" by (rule notifier_reachable.put [OF r3 u3 s4(1)])
  have "queued s4 5" unfolding queued_def using s4(2) by fastforce
  then show ?thesis
    using queues_always_well_formed [OF r4, of "\<lambda>e ev w. (1, w)" 0 5] s4(2) by blast
qed

text \<open>
  While event sources are being set up, the block time after any sequence of requests is
  one of the values requested (or the one already set) and the smallest of them.
\<close>

theorem block_time_is_minimum:
  assumes "inTraversal (tsd s t)" "blockTimeSet (tsd s t)"
  shows "let b = blockTime (tsd (fold (Tcl_SetMaxBlockTime c t) xs s) t)
    in b \<in> insert (blockTime (tsd s t)) (set xs) \<and> time_le b (blockTime (tsd s t)) \<and> (\<forall>x \<in> set xs. time_le b x)
       \<and> blockTimeSet (tsd (fold (Tcl_SetMaxBlockTime c t) xs s) t)"
  by (rule fold_max_block_time [OF assms])

lemma block_time_is_minimum_witness:
  "blockTime (tsd (fold (Tcl_SetMaxBlockTime example_calls 0)
      [\<lparr>sec = 1, usec = 5\<rparr>, \<lparr>sec = 0, usec = 7\<rparr>, \<lparr>sec = 0, usec = 9\<rparr>]
      (upd 0 (\<lambda>d. d\<lparr>inTraversal := True, blockTimeSet := True, blockTime := \<lparr>sec = 3, usec = 0\<rparr>\<rparr>) (example_process [] 0 []))) 0)
    = \<lparr>sec = 0, usec = 7\<rparr>"
proof -
  let ?s = "upd 0 (\<lambda>d. d\<lparr>inTraversal := True, blockTimeSet := True, blockTime := \<lparr>sec = 3, usec = 0\<rparr>\<rparr>) (example_process [] 0 [])"
  show ?thesis
    using block_time_is_minimum [where s = ?s and t = 0 and c = example_calls
        and xs = "[\<lparr>sec = 1, usec = 5\<rparr>, \<lparr>sec = 0, usec = 7\<rparr>, \<lparr>sec = 0, usec = 9\<rparr>]"]
    by (simp add: time_le_def Let_def del: fold.simps) auto
qed

text \<open>
  A poll (\<open>TCL_DONT_WAIT\<close>) and a call for idle events only run a single round of
  \<open>Tcl_DoOneEvent\<close>: the loop returns whenever that round does, with its result, and the
  service mode the caller had is put back.
\<close>

theorem poll_is_one_round:
  assumes "\<not> Tcl_AsyncReady c s" "all_if_none flags AND TCL_DONT_WAIT \<noteq> 0
      \<or> all_if_none flags AND TCL_ALL_EVENTS = TCL_IDLE_EVENTS"
  shows "Tcl_DoOneEvent c t flags s =
    map_option (\<lambda>(leave, r, s'). (r, upd t (\<lambda>d. d\<lparr>serviceMode := serviceMode (tsd s t)\<rparr>) s'))
      (DoOneEvent_round c t (all_if_none flags) 0 (upd t (\<lambda>d. d\<lparr>serviceMode := TCL_SERVICE_NONE\<rparr>) s))"
  using assms(1) unfolding Tcl_DoOneEvent_def one_round [OF assms(2)] Let_def
  by (auto split: bind_splits option.splits)

lemma poll_is_one_round_witness:
  "\<exists>w. Tcl_DoOneEvent example_calls 0 (TCL_DONT_WAIT OR TCL_IDLE_EVENTS) (example_process [10] 0 []) = Some w \<and> fst w = 0"
  using poll_is_one_round [where c = example_calls and flags = "TCL_DONT_WAIT OR TCL_IDLE_EVENTS" and t = 0
      and s = "example_process [10] 0 []"]
  by (simp add: notify_constants all_if_none_def DoOneEvent_round_def idleEvents_def example_calls_def)


text \<open>
  Handlers that accept every event and change nothing but their own data, which they change by
  \<open>act\<close>; no asynchronous handler is ever ready.
\<close>

definition accepting :: "'w calls \<Rightarrow> (nat \<Rightarrow> nat \<Rightarrow> 'w \<Rightarrow> 'w) \<Rightarrow> bool" where
  "accepting c act \<longleftrightarrow> (\<forall>s. \<not> Tcl_AsyncReady c s)
     \<and> (\<forall>p e fl s. \<exists>r. EventProc c p e fl s = (r, s\<lparr>world := act p e (world s)\<rparr>) \<and> r \<noteq> 0)"

fun do_events :: "'w calls \<Rightarrow> nat \<Rightarrow> int \<Rightarrow> nat \<Rightarrow> 'w process \<Rightarrow> 'w process option" where
  "do_events c t flags 0 s = Some s"
| "do_events c t flags (Suc n) s = do {
     (r, s) \<leftarrow> Tcl_DoOneEvent c t flags s;
     if r = 1 then do_events c t flags n s else None
   }"

lemma queue_mode [simp]: "queue (upd u (\<lambda>d. d\<lparr>serviceMode := k\<rparr>) s) t es m = queue s t es m"
  by (simp add: queue_def)

lemma do_one_accepted:
  assumes c: "accepting c act" and q: "queue s t (e # es) m" and prc: "event_proc (the (events s e)) = Some prc"
    and fl: "all_if_none flags AND TCL_ALL_EVENTS \<noteq> TCL_IDLE_EVENTS"
  shows "\<exists>s'. Tcl_DoOneEvent c t flags s = Some (1, s') \<and> queue s' t es (m - 1) \<and> world s' = act prc e (world s)
    \<and> (\<forall>x. x \<noteq> e \<longrightarrow> map_option event_proc (events s' x) = map_option event_proc (events s x))"
proof -
  let ?fl = "all_if_none flags" and ?s = "upd t (\<lambda>d. d\<lparr>serviceMode := TCL_SERVICE_NONE\<rparr>) s"
  have a: "\<not> Tcl_AsyncReady c x" for x using c by (simp add: accepting_def)
  let ?sh = "(busy e (?s\<lparr>world := world s\<rparr>))\<lparr>world := act prc e (world s)\<rparr>"
  have "world (busy e (?s\<lparr>world := world s\<rparr>)) = world s" by (simp add: busy_def)
  then obtain r where r: "EventProc c prc e (all_if_none ?fl) (busy e (?s\<lparr>world := world s\<rparr>)) = (r, ?sh)" "r \<noteq> 0"
    using c unfolding accepting_def by metis
  have k: "queue ?sh t ([] @ e # es) m" using q by (simp add: example_busy_queue)
  have q': "queue ?s t ([] @ e # es) m" using q by simp
  have p': "event_proc (the (events ?s e)) = Some prc" using prc by simp
  have w: "Tcl_ServiceEvent c t ?fl ?s = map_option (Pair 1) (remove_handled t e ?sh)"
    by (rule service_taken [OF q' a _ p' _ r]) simp_all
  obtain s' where s': "remove_handled t e ?sh = Some s'"
    "queue s' t es (mark_without 0 m)" "world s' = act prc e (world s)"
    "\<forall>x. x \<noteq> e \<longrightarrow> map_option event_proc (events s' x) = map_option event_proc (events (busy e s) x)"
    using remove_handled_refines [OF k] by (auto simp: busy_def)
  have "DoOneEvent_loop c t ?fl 0 ?s = Some (1, s')"
    using w s'(1) fl by (subst DoOneEvent_loop.simps) (simp add: DoOneEvent_round_def)
  then have "Tcl_DoOneEvent c t flags s = Some (1, upd t (\<lambda>d. d\<lparr>serviceMode := serviceMode (tsd s t)\<rparr>) s')"
    using a by (simp add: Tcl_DoOneEvent_def)
  moreover have "mark_without 0 m = m - 1" by (simp add: mark_without_def)
  ultimately show ?thesis using s'(2-4) by (auto simp: busy_def)
qed

abbreviation run_events :: "(nat \<Rightarrow> nat \<Rightarrow> 'w \<Rightarrow> 'w) \<Rightarrow> 'w process \<Rightarrow> nat list \<Rightarrow> 'w \<Rightarrow> 'w" where
  "run_events act s \<equiv> fold (\<lambda>e. act (the (event_proc (the (events s e)))) e)"

lemma do_events_drain:
  assumes c: "accepting c act" and fl: "all_if_none flags AND TCL_ALL_EVENTS \<noteq> TCL_IDLE_EVENTS"
  shows "queue s t es m \<Longrightarrow> (\<And>e. e \<in> set es \<Longrightarrow> event_proc (the (events s e)) \<noteq> None) \<Longrightarrow> n \<le> length es \<Longrightarrow>
    \<exists>s'. do_events c t flags n s = Some s' \<and> queue s' t (drop n es) (m - n) \<and> world s' = run_events act s (take n es) (world s)"
proof (induction n arbitrary: s es m)
  case (Suc n)
  then obtain e xs where es: "es = e # xs" by (cases es) auto
  then obtain prc where prc: "event_proc (the (events s e)) = Some prc" using Suc.prems(2) [of e] by auto
  have q: "queue s t (e # xs) m" using Suc.prems(1) es by simp
  obtain s1 where s1: "Tcl_DoOneEvent c t flags s = Some (1, s1)" "queue s1 t xs (m - 1)" "world s1 = act prc e (world s)"
    "\<forall>x. x \<noteq> e \<longrightarrow> map_option event_proc (events s1 x) = map_option event_proc (events s x)"
    using do_one_accepted [OF c q prc fl] by blast
  have same: "event_proc (the (events s1 x)) = event_proc (the (events s x))" if x: "x \<in> set xs" for x
  proof -
    have "x \<noteq> e" using Suc.prems(1) x es by (auto simp: queue_def)
    then have eq: "map_option event_proc (events s1 x) = map_option event_proc (events s x)" using s1(4) by blast
    have "events s1 x \<noteq> None" "events s x \<noteq> None"
      using queue_allocated [OF s1(2) x] queue_allocated [OF Suc.prems(1), of x] es x by auto
    then show ?thesis using eq by auto
  qed
  then have "event_proc (the (events s1 x)) \<noteq> None" if x: "x \<in> set xs" for x
    using Suc.prems(2) [of x] es x by simp
  then obtain s2 where s2: "do_events c t flags n s1 = Some s2" "queue s2 t (drop n xs) (m - 1 - n)"
    "world s2 = run_events act s1 (take n xs) (world s1)"
    using Suc.IH [OF s1(2)] Suc.prems(3) es by auto
  have "run_events act s1 (take n xs) u = run_events act s (take n xs) u" for u
    by (rule fold_cong) (use same in \<open>auto dest: in_set_takeD\<close>)
  then show ?case using s1(1,3) s2 es prc by simp
qed simp

text \<open>
  C39. Pending events are processed: with handlers that accept and change nothing but their own data,
  no asynchronous handler ready, a procedure for every queued event, and flags that do not ask for
  idle handlers only, each call of \<open>Tcl_DoOneEvent\<close> takes the next event from the front of the queue,
  calls its procedure on the data that the calls before have left, and returns 1, without waiting,
  until the queue is empty.
\<close>

theorem pending_events_processed:
  assumes "accepting c act" "all_if_none flags AND TCL_ALL_EVENTS \<noteq> TCL_IDLE_EVENTS" "queue s t es m"
    "\<And>e. e \<in> set es \<Longrightarrow> event_proc (the (events s e)) \<noteq> None" "n \<le> length es"
  shows "\<exists>s'. do_events c t flags n s = Some s' \<and> queue s' t (drop n es) (m - n)
    \<and> world s' = fold (\<lambda>e. act (the (event_proc (the (events s e)))) e) (take n es) (world s)"
  by (rule do_events_drain [OF assms])

text \<open>Handlers that count by the number of their event.\<close>

lemma pending_events_processed_witness:
  "\<exists>s'. do_events (example_calls\<lparr>EventProc := (\<lambda>p e fl s. (1, s\<lparr>world := 100 * world s + e\<rparr>))\<rparr>) 0 0 2 (example_process [10, 11, 12] 1 []) = Some s'
    \<and> queue s' 0 [12] 0 \<and> world s' = 1011"
proof -
  let ?s = "example_process [10, 11, 12] 1 []" and ?c = "example_calls\<lparr>EventProc := (\<lambda>p e fl s. (1, s\<lparr>world := 100 * world s + e\<rparr>))\<rparr>"
  have "\<exists>r. EventProc ?c p e fl s = (r, s\<lparr>world := 100 * world s + e\<rparr>) \<and> r \<noteq> 0" for p e fl s
    by (intro exI [of _ 1]) simp
  then have c: "accepting ?c (\<lambda>p e w. 100 * w + e)" by (simp add: accepting_def example_calls_def)
  have q: "queue ?s 0 [10, 11, 12] 1" by (simp add: queue_def example_process_def zero_data_def last_ptr_def)
  have p: "\<And>e. e \<in> set [10, 11, 12] \<Longrightarrow> event_proc (the (events ?s e)) \<noteq> None" by (auto simp: example_process_def)
  have f: "all_if_none 0 AND TCL_ALL_EVENTS \<noteq> TCL_IDLE_EVENTS" by (simp add: all_if_none_def notify_constants)
  have w: "world ?s = 0" by (simp add: example_process_def)
  show ?thesis using pending_events_processed [OF c f q p, of 2] w by (simp add: numeral_2_eq_2 del: do_events.simps)
qed

lemma registered_cong:
  "firstNotifierPtr s' = firstNotifierPtr s \<Longrightarrow> (\<And>u. notifier_nextPtr (tsd s' u) = notifier_nextPtr (tsd s u)) \<Longrightarrow>
   (\<And>u. threadId (tsd s' u) = threadId (tsd s u)) \<Longrightarrow> registered s' ts = registered s ts"
  by (simp add: registered_def notifier_links_def)

text \<open>
  Notifiers: initialising registers a thread once, at the front of the list; an event
  queued for a registered thread goes on that thread's queue, and one for any other thread is
  freed, not leaked; an alert reaches the registered thread's handle only.
\<close>

theorem thread_events_delivered:
  assumes "registered s ts" "own_data (\<lambda>s. snd (Tcl_InitNotifier c s))"
  shows "(\<exists>s'. TclInitNotifier c t s = Some s' \<and> registered s' (if t \<in> set ts then ts else t # ts))
    \<and> Tcl_ThreadQueueEvent u e pos s = (if u \<in> set ts then QueueEvent u e pos s else free_event e s)
    \<and> Tcl_ThreadAlert c u s = Some (if u \<in> set ts then Tcl_AlertNotifier c (notifier_clientData (tsd s u)) s else s)"
proof -
  note f = find_notifier_registered [OF assms(1)]
  have "\<exists>s'. TclInitNotifier c t s = Some s' \<and> registered s' (if t \<in> set ts then ts else t # ts)"
  proof (cases "t \<in> set ts")
    case True
    then show ?thesis using assms(1) by (simp add: TclInitNotifier_def f)
  next
    case False
    obtain h w where h: "Tcl_InitNotifier c (upd t (\<lambda>d. d\<lparr>threadId := t\<rparr>) s) = (h, (upd t (\<lambda>d. d\<lparr>threadId := t\<rparr>) s)\<lparr>world := w\<rparr>)"
      using assms(2) unfolding own_data_def by (metis prod.collapse)
    define s' where "s' = (upd t (\<lambda>d. d\<lparr>notifier_clientData := h, initialized := True, notifier_nextPtr := firstNotifierPtr s\<rparr>)
       ((upd t (\<lambda>d. d\<lparr>threadId := t\<rparr>) s)\<lparr>world := w\<rparr>))\<lparr>firstNotifierPtr := Some t\<rparr>"
    have l: "notifier_links s' = (notifier_links s)(t \<mapsto> \<lparr>event_proc = None, event_nextPtr = firstNotifierPtr s\<rparr>)"
      by (auto simp: notifier_links_def s'_def upd_def)
    have i: "firstNotifierPtr s' = Some t" "threadId (tsd s' u) = (if u = t then t else threadId (tsd s u))" for u
      by (simp_all add: s'_def upd_def)
    have "registered s' (t # ts)" using assms(1) False unfolding registered_def l by (auto simp: i)
    moreover have "TclInitNotifier c t s = Some s'" using False h by (simp add: TclInitNotifier_def f s'_def)
    ultimately show ?thesis using False by simp
  qed
  then show ?thesis using f by (auto simp: Tcl_ThreadQueueEvent_def Tcl_ThreadAlert_def)
qed

lemma thread_events_delivered_witness:
  "Tcl_ThreadQueueEvent 3 9 TCL_QUEUE_TAIL (example_process [] 0 [9]) = free_event 9 (example_process [] 0 [9])"
proof -
  have r: "registered (example_process [] 0 [9]) [0]"
    by (simp add: registered_def notifier_links_def example_process_def zero_data_def)
  have o: "own_data (\<lambda>s. snd (Tcl_InitNotifier example_calls s))"
    using own_data_id by (simp add: example_calls_def)
  show ?thesis using thread_events_delivered [OF r o, of 0 3 9 TCL_QUEUE_TAIL] by simp
qed


text \<open>
  C40. Finalising a notifier frees every event of the thread's queue, once, and takes the
  thread off the list of notifiers; but it leaves \<open>markerEventPtr\<close> as it was.  If events had
  been queued at the marker, the marker then points to a freed event: the queue is well formed
  again only if there was no marker event, and otherwise queueing another event at the marker
  reads freed memory.
\<close>

theorem finalize_leaves_marker:
  assumes "registered s (ds @ t # rs)" "initialized (tsd s t)" "queue s t es m" "own_data (Tcl_FinalizeNotifier c h)"
    "notifier_clientData (tsd s t) = h" "e \<notin> set es" "events s e \<noteq> None"
  shows "\<exists>s'. TclFinalizeNotifier c t s = Some s' \<and> registered s' (ds @ rs) \<and> \<not> initialized (tsd s' t)
    \<and> events s' = (\<lambda>x. if x \<in> set es then None else events s x)
    \<and> queue s' t [] 0 = (m = 0)
    \<and> (QueueEvent t e TCL_QUEUE_MARK s' = None) = (0 < m)"
proof -
  define s1 where "s1 = s\<lparr>events := (\<lambda>x. if x \<in> set es then None else events s x)\<rparr>"
  define s2 where "s2 = upd t (\<lambda>d. d\<lparr>firstEventPtr := None, lastEventPtr := None\<rparr>) s1"
  obtain w where w: "Tcl_FinalizeNotifier c h s2 = s2\<lparr>world := w\<rparr>" using assms(4) unfolding own_data_def by blast
  have "free_events (firstEventPtr (tsd s t)) s = Some s1"
    unfolding s1_def using assms(3) by (intro free_events_all) (auto simp: queue_def)
  moreover have "notifier_clientData (tsd s2 t) = h" using assms(5) by (simp add: s2_def s1_def)
  moreover have "registered (s2\<lparr>world := w\<rparr>) (ds @ t # rs)"
    using assms(1) by (subst registered_cong [of _ s]) (simp_all add: s2_def s1_def)
  then obtain s3 where s3: "unlink_notifier t None (s2\<lparr>world := w\<rparr>) = Some s3" "registered s3 (ds @ rs)"
    "events s3 = events s2" "\<And>u. \<exists>n. tsd s3 u = (tsd s2 u)\<lparr>notifier_nextPtr := n\<rparr>"
    using unlink_notifier_found [of "s2\<lparr>world := w\<rparr>" "[]" ds t rs] by auto
  moreover define s' where "s' = upd t (\<lambda>d. d\<lparr>initialized := False\<rparr>) s3"
  ultimately have "TclFinalizeNotifier c t s = Some s'"
    using assms(2) w by (simp add: TclFinalizeNotifier_def s2_def)
  moreover have "registered s' (ds @ rs)"
    using s3(2) by (subst registered_cong [of _ s3]) (simp_all add: s'_def)
  moreover obtain n where n: "tsd s3 t = (tsd s2 t)\<lparr>notifier_nextPtr := n\<rparr>" using s3(4) by blast
  have ev: "events s' = (\<lambda>x. if x \<in> set es then None else events s x)" by (simp add: s'_def s3(3) s2_def s1_def)
  have p: "firstEventPtr (tsd s' t) = None" "lastEventPtr (tsd s' t) = None" "markerEventPtr (tsd s' t) = last_ptr (take m es)"
    using n assms(3) by (simp_all add: s'_def s2_def s1_def queue_def)
  have m: "m \<le> length es" using assms(3) by (simp add: queue_def)
  then have "last_ptr (take m es) = None \<longleftrightarrow> m = 0" by auto
  moreover have "queue s' t [] 0 = (m = 0)" using p calculation by (auto simp: queue_def)
  moreover have "(QueueEvent t e TCL_QUEUE_MARK s' = None) = (0 < m)"
  proof (cases "m = 0")
    case True
    then have "queue s' t [] 0" using p by (simp add: queue_def)
    moreover have "events s' e \<noteq> None" using assms(6,7) ev by simp
    ultimately show ?thesis using queue_event_refines [of s' t "[]" 0 e TCL_QUEUE_MARK] True by auto
  next
    case False
    then obtain k where k: "last_ptr (take m es) = Some k" "k \<in> set es"
      using m last_ptr_mem [of "take m es"] by (cases "last_ptr (take m es)") (auto dest: in_set_takeD)
    then have "events s' k = None" using ev by simp
    then show ?thesis using p k False by (simp add: QueueEvent_def)
  qed
  ultimately show ?thesis using ev by (intro exI [of _ s']) (simp add: s'_def)
qed

lemma finalize_leaves_marker_witness:
  "\<exists>s'. TclFinalizeNotifier example_calls 0 (example_process [10, 11] 1 [9]) = Some s'
    \<and> QueueEvent 0 9 TCL_QUEUE_MARK s' = None"
proof -
  let ?s = "example_process [10, 11] 1 [9]"
  have r: "registered ?s ([] @ 0 # [])" by (simp add: registered_def notifier_links_def example_process_def zero_data_def)
  have i: "initialized (tsd ?s 0)" "notifier_clientData (tsd ?s 0) = 0" "events ?s 9 \<noteq> None" "9 \<notin> set [10::nat, 11]"
    by (simp_all add: example_process_def zero_data_def)
  have o: "own_data (Tcl_FinalizeNotifier example_calls 0)" using own_data_id by (simp add: example_calls_def)
  show ?thesis using finalize_leaves_marker [OF r i(1) example_queue(2) o i(2,4,3)] by auto
qed


section \<open>Event sources\<close>

definition source_links :: "'w process \<Rightarrow> nat \<Rightarrow> Tcl_Event option" where
  "source_links s = (\<lambda>a. map_option (\<lambda>src. \<lparr>event_proc = None, event_nextPtr = source_nextPtr src\<rparr>) (sources s a))"

definition source_list :: "'w process \<Rightarrow> nat \<Rightarrow> nat list \<Rightarrow> bool" where
  "source_list s t xs \<longleftrightarrow> distinct xs \<and> seg (source_links s) (firstEventSourcePtr (tsd s t)) xs None"

definition is_source :: "nat option \<Rightarrow> nat option \<Rightarrow> nat \<Rightarrow> EventSource \<Rightarrow> bool" where
  "is_source sproc cproc data src \<longleftrightarrow> setupProc src = sproc \<and> checkProc src = cproc \<and> source_clientData src = data"

lemma delete_source_loop:
  assumes "source_list s t (ds @ us)"
  shows "\<exists>s'. DeleteEventSource_loop t sproc cproc data (last_ptr ds) (first_ptr us) s = Some s'
    \<and> (case List.find (\<lambda>a. is_source sproc cproc data (the (sources s a))) us of
         None \<Rightarrow> s' = s
       | Some a \<Rightarrow> source_list s' t (ds @ remove1 a us) \<and> sources s' a = None
           \<and> (\<forall>x. x \<noteq> a \<longrightarrow> map_option (\<lambda>src. src\<lparr>source_nextPtr := None\<rparr>) (sources s' x)
                         = map_option (\<lambda>src. src\<lparr>source_nextPtr := None\<rparr>) (sources s x)))"
  using assms
proof (induction us arbitrary: ds)
  case Nil then show ?case by (subst DeleteEventSource_loop.simps) simp
next
  case (Cons a us)
  have sg: "seg (source_links s) (firstEventSourcePtr (tsd s t)) ds (Some a)" "a \<notin> set ds" "a \<notin> set us" "distinct (ds @ us)"
    using Cons.prems by (auto simp: source_list_def seg_append)
  obtain src where src: "sources s a = Some src" "seg (source_links s) (source_nextPtr src) us None"
    using Cons.prems by (auto simp: source_list_def seg_append source_links_def split: option.splits)
  show ?case
  proof (cases "is_source sproc cproc data src")
    case False
    then have "DeleteEventSource_loop t sproc cproc data (last_ptr ds) (first_ptr (a # us)) s
        = DeleteEventSource_loop t sproc cproc data (last_ptr (ds @ [a])) (first_ptr us) s"
      using src seg_first [OF src(2)] by (subst DeleteEventSource_loop.simps) (auto simp: is_source_def)
    moreover have "List.find (\<lambda>a. is_source sproc cproc data (the (sources s a))) (a # us)
        = List.find (\<lambda>a. is_source sproc cproc data (the (sources s a))) us" using False src by simp
    moreover have "b \<noteq> a" if "List.find (\<lambda>a. is_source sproc cproc data (the (sources s a))) us = Some b" for b
      using that sg(3) by (auto simp: find_Some_iff)
    ultimately show ?thesis using Cons.IH [of "ds @ [a]"] Cons.prems
      by (cases "List.find (\<lambda>a. is_source sproc cproc data (the (sources s a))) us") auto
  next
    case True
    have f: "List.find (\<lambda>a. is_source sproc cproc data (the (sources s a))) (a # us) = Some a" using True src by simp
    show ?thesis
    proof (cases ds rule: rev_cases)
      case Nil
      define s' where "s' = (upd t (\<lambda>d. d\<lparr>firstEventSourcePtr := source_nextPtr src\<rparr>) s)\<lparr>sources := (sources s)(a := None)\<rparr>"
      have l: "source_links s' = (source_links s)(a := None)" by (auto simp: source_links_def s'_def)
      have "DeleteEventSource_loop t sproc cproc data (last_ptr ds) (first_ptr (a # us)) s = Some s'"
        using src True Nil by (subst DeleteEventSource_loop.simps) (simp add: is_source_def s'_def)
      moreover have "source_list s' t us" using src(2) sg Nil unfolding source_list_def l by (simp add: s'_def upd_def)
      ultimately show ?thesis unfolding f using Nil by (auto simp: s'_def)
    next
      case (snoc ws q)
      then obtain prv where q: "sources s q = Some prv" "seg (source_links s) (firstEventSourcePtr (tsd s t)) ws (Some q)" "q \<noteq> a" "q \<notin> set ws"
        using sg by (auto simp: seg_append source_links_def split: option.splits)
      define s' where "s' = s\<lparr>sources := ((sources s)(q \<mapsto> prv\<lparr>source_nextPtr := source_nextPtr src\<rparr>))(a := None)\<rparr>"
      have l: "source_links s' = ((source_links s)(q \<mapsto> \<lparr>event_proc = None, event_nextPtr = source_nextPtr src\<rparr>))(a := None)"
        by (auto simp: source_links_def s'_def)
      have "DeleteEventSource_loop t sproc cproc data (last_ptr ds) (first_ptr (a # us)) s = Some s'"
        using src True snoc q by (subst DeleteEventSource_loop.simps) (simp add: is_source_def s'_def)
      moreover have "source_list s' t (ws @ q # us)"
        using src(2) sg snoc q unfolding source_list_def l by (auto simp: s'_def seg_append)
      ultimately show ?thesis unfolding f using snoc q by (auto simp: s'_def)
    qed
  qed
qed

text \<open>
  Event sources form a list: a new source goes to the front; deleting one unlinks and
  frees the first source with the same two procedures and data, leaving the others and their
  order as they were, and does nothing if there is none.
\<close>

theorem event_sources_list:
  assumes "source_list s t xs" "a \<notin> set xs"
  shows "source_list (Tcl_CreateEventSource t sproc cproc data a s) t (a # xs)
    \<and> (\<exists>s'. Tcl_DeleteEventSource t sproc cproc data s = Some s'
        \<and> (case List.find (\<lambda>a. is_source sproc cproc data (the (sources s a))) xs of
             None \<Rightarrow> s' = s
           | Some b \<Rightarrow> source_list s' t (remove1 b xs) \<and> sources s' b = None))"
proof -
  let ?s = "Tcl_CreateEventSource t sproc cproc data a s"
  have l: "source_links ?s = (source_links s)(a \<mapsto> \<lparr>event_proc = None, event_nextPtr = firstEventSourcePtr (tsd s t)\<rparr>)"
    by (auto simp: source_links_def Tcl_CreateEventSource_def)
  have "source_list ?s t (a # xs)"
    using assms unfolding source_list_def l by (simp add: Tcl_CreateEventSource_def)
  moreover have "firstEventSourcePtr (tsd s t) = first_ptr xs"
    using assms(1) by (auto simp: source_list_def dest: seg_first)
  ultimately show ?thesis using delete_source_loop [of s t "[]" xs sproc cproc data] assms(1)
    by (auto simp: Tcl_DeleteEventSource_def split: option.splits)
qed

lemma event_sources_list_witness:
  "source_list (Tcl_CreateEventSource 0 (Some 1) None 2 5 (example_process [] 0 [])) 0 [5]"
  using event_sources_list [where s = "example_process [] 0 []" and t = 0 and xs = "[]" and a = 5]
  by (simp add: source_list_def example_process_def zero_data_def)

text \<open>
  \<open>Tcl_ServiceAll\<close> does nothing while events must not be serviced (so handlers running
  inside \<open>Tcl_DoOneEvent\<close> cannot recurse through it), and whenever it returns from a real pass
  events may be serviced again and no traversal is marked as running.
\<close>

theorem service_all_modes:
  "(if serviceMode (tsd s t) = TCL_SERVICE_NONE then Tcl_ServiceAll c t s = Some (0, s)
    else (case Tcl_ServiceAll c t s of None \<Rightarrow> True
          | Some (r, s') \<Rightarrow> serviceMode (tsd s' t) = TCL_SERVICE_ALL \<and> \<not> inTraversal (tsd s' t)))"
  unfolding Tcl_ServiceAll_def Let_def
  by (auto simp: upd_def split: option.splits bind_splits prod.splits if_splits)

end
