(* ===== verification/Timer.thy ===== *)
theory Timer
  imports Notify "HOL-Library.Sublist" "HOL-Library.Multiset" "HOL-Library.Product_Lexorder"
begin

text \<open>
  Timers and idle handlers, from \<open>tcl8.6/generic/tclTimer.c\<close>: the list of timers ordered by time,
  the list of idle handlers, and the event source that makes \<open>Tcl_DoOneEvent\<close> wait for the first
  timer and queues an event when it is due.  The state is that of \<open>Notify\<close>, whose \<open>world\<close> holds
  the data of this module for each thread, so the routines call those of the notifier.

  The chain of timers is a list; the chain of idle handlers a list of cells with their addresses,
  because \<open>lastIdlePtr\<close> points into it.  The clock, the handlers and the allocator are arguments.
  A handler is an arbitrary function on the whole state and may call every routine of this theory;
  \<open>None\<close> is a handler or a loop that does not return, or a write through a dangling pointer.
\<close>

section \<open>Data\<close>

definition TCL_TIMER_EVENTS :: int where "TCL_TIMER_EVENTS = 16"

record TimerHandler =
  timer_time :: Tcl_Time
  timer_proc :: nat
  timer_clientData :: nat
  timer_token :: int

record IdleHandler =
  idle_proc :: nat
  idle_clientData :: nat
  generation :: int

record TimerData =
  firstTimerHandlerPtr :: "TimerHandler list"
  lastTimerId :: int
  timerPending :: bool
  idleList :: "(nat \<times> IdleHandler) list"
  lastIdlePtr :: "nat option"
  idleGeneration :: int
  afterId :: int

definition zero_timers :: TimerData where
  "zero_timers = \<lparr>firstTimerHandlerPtr = [], lastTimerId = 0, timerPending = False, idleList = [],
     lastIdlePtr = None, idleGeneration = 0, afterId = 0\<rparr>"

record 'w timer_world =
  timers :: "nat \<Rightarrow> TimerData option"
  user :: 'w

type_synonym 'w system = "'w timer_world process"

record 'w timer_calls =
  notifier :: "'w timer_world calls"
  Tcl_GetTime :: "'w \<Rightarrow> Tcl_Time \<times> 'w"
  TimerProc :: "nat \<Rightarrow> nat \<Rightarrow> 'w system \<Rightarrow> 'w system option"
  IdleProc :: "nat \<Rightarrow> nat \<Rightarrow> 'w system \<Rightarrow> 'w system option"
  event_address :: "'w system \<Rightarrow> nat"
  source_address :: "'w system \<Rightarrow> nat"
  idle_address :: "'w system \<Rightarrow> nat"
  TimerSetupProc_ptr :: nat
  TimerCheckProc_ptr :: nat
  TimerHandlerEventProc_ptr :: nat

text \<open>The data of a thread, as \<open>TclThreadDataKeyGet\<close> finds it, and a change of it.\<close>

definition td :: "nat \<Rightarrow> 'w system \<Rightarrow> TimerData" where
  "td t s = (case timers (world s) t of None \<Rightarrow> zero_timers | Some d \<Rightarrow> d)"

definition set_td :: "nat \<Rightarrow> (TimerData \<Rightarrow> TimerData) \<Rightarrow> 'w system \<Rightarrow> 'w system" where
  "set_td t f s = s\<lparr>world := (world s)\<lparr>timers := (timers (world s))(t \<mapsto> f (td t s))\<rparr>\<rparr>"

definition get_time :: "'w timer_calls \<Rightarrow> 'w system \<Rightarrow> Tcl_Time \<times> 'w system" where
  "get_time k s = (case Tcl_GetTime k (user (world s)) of (now, u) \<Rightarrow> (now, s\<lparr>world := (world s)\<lparr>user := u\<rparr>\<rparr>))"

definition TCL_TIME_BEFORE :: "Tcl_Time \<Rightarrow> Tcl_Time \<Rightarrow> bool" where
  "TCL_TIME_BEFORE t1 t2 \<longleftrightarrow> sec t1 < sec t2 \<or> (sec t1 = sec t2 \<and> usec t1 < usec t2)"

section \<open>Timers\<close>

definition InitTimer :: "'w timer_calls \<Rightarrow> nat \<Rightarrow> 'w system \<Rightarrow> 'w system" where
  "InitTimer k t s =
     (if timers (world s) t = None
      then Tcl_CreateEventSource t (Some (TimerSetupProc_ptr k)) (Some (TimerCheckProc_ptr k)) 0
             (source_address k s) (set_td t (\<lambda>_. zero_timers) s)
      else s)"

definition TimerExitProc :: "'w timer_calls \<Rightarrow> nat \<Rightarrow> 'w system \<Rightarrow> 'w system option" where
  "TimerExitProc k t s = do {
     s \<leftarrow> Tcl_DeleteEventSource t (Some (TimerSetupProc_ptr k)) (Some (TimerCheckProc_ptr k)) 0 s;
     Some (if timers (world s) t \<noteq> None then set_td t (\<lambda>d. d\<lparr>firstTimerHandlerPtr := []\<rparr>) s else s)
   }"

text \<open>The time from now until the first timer, zero if it has passed.\<close>

definition time_left :: "Tcl_Time \<Rightarrow> Tcl_Time \<Rightarrow> Tcl_Time" where
  "time_left first now =
     (let blockTime = \<lparr>sec = sec first - sec now, usec = usec first - usec now\<rparr>;
          blockTime = (if usec blockTime < 0
                       then \<lparr>sec = sec blockTime - 1, usec = usec blockTime + 1000000\<rparr> else blockTime)
      in if sec blockTime < 0 then \<lparr>sec = 0, usec = 0\<rparr> else blockTime)"

definition TimerSetupProc :: "'w timer_calls \<Rightarrow> nat \<Rightarrow> int \<Rightarrow> 'w system \<Rightarrow> 'w system" where
  "TimerSetupProc k t flags s =
     (let s = InitTimer k t s; d = td t s in
      if (flags AND TCL_IDLE_EVENTS \<noteq> 0 \<and> idleList d \<noteq> []) \<or> (flags AND TCL_TIMER_EVENTS \<noteq> 0 \<and> timerPending d)
      then Tcl_SetMaxBlockTime (notifier k) t \<lparr>sec = 0, usec = 0\<rparr> s
      else if flags AND TCL_TIMER_EVENTS \<noteq> 0 \<and> firstTimerHandlerPtr d \<noteq> []
      then (case get_time k s of (now, s) \<Rightarrow>
              Tcl_SetMaxBlockTime (notifier k) t (time_left (timer_time (hd (firstTimerHandlerPtr d))) now) s)
      else s)"

fun insert_timer :: "TimerHandler \<Rightarrow> TimerHandler list \<Rightarrow> TimerHandler list" where
  "insert_timer h [] = [h]"
| "insert_timer h (x # xs) =
     (if TCL_TIME_BEFORE (timer_time h) (timer_time x) then h # x # xs else x # insert_timer h xs)"

definition TclCreateAbsoluteTimerHandler ::
  "'w timer_calls \<Rightarrow> nat \<Rightarrow> Tcl_Time \<Rightarrow> nat \<Rightarrow> nat \<Rightarrow> 'w system \<Rightarrow> int \<times> 'w system" where
  "TclCreateAbsoluteTimerHandler k t time prc clientData s =
     (let s = InitTimer k t s;
          token = int32 (lastTimerId (td t s) + 1);
          h = \<lparr>timer_time = time, timer_proc = prc, timer_clientData = clientData, timer_token = token\<rparr>;
          s = set_td t (\<lambda>d. d\<lparr>lastTimerId := token, firstTimerHandlerPtr := insert_timer h (firstTimerHandlerPtr d)\<rparr>) s
      in (token, TimerSetupProc k t TCL_ALL_EVENTS s))"

text \<open>Division in C rounds towards zero, as \<open>sgn m * (\<bar>m\<bar> div 1000)\<close> does.\<close>

definition after_ms :: "int \<Rightarrow> Tcl_Time \<Rightarrow> Tcl_Time" where
  "after_ms milliseconds time =
     (let time = \<lparr>sec = sec time + sgn milliseconds * (\<bar>milliseconds\<bar> div 1000),
                   usec = usec time + sgn milliseconds * (\<bar>milliseconds\<bar> mod 1000) * 1000\<rparr>
      in if usec time \<ge> 1000000 then \<lparr>sec = sec time + 1, usec = usec time - 1000000\<rparr> else time)"

definition Tcl_CreateTimerHandler ::
  "'w timer_calls \<Rightarrow> nat \<Rightarrow> int \<Rightarrow> nat \<Rightarrow> nat \<Rightarrow> 'w system \<Rightarrow> int \<times> 'w system" where
  "Tcl_CreateTimerHandler k t milliseconds prc clientData s =
     (case get_time k s of (now, s) \<Rightarrow>
        TclCreateAbsoluteTimerHandler k t (after_ms milliseconds now) prc clientData s)"

fun delete_timer :: "int \<Rightarrow> TimerHandler list \<Rightarrow> TimerHandler list" where
  "delete_timer token [] = []"
| "delete_timer token (h # hs) = (if timer_token h \<noteq> token then h # delete_timer token hs else hs)"

definition Tcl_DeleteTimerHandler :: "'w timer_calls \<Rightarrow> nat \<Rightarrow> int \<Rightarrow> 'w system \<Rightarrow> 'w system" where
  "Tcl_DeleteTimerHandler k t token s =
     (let s = InitTimer k t s in
      if token = 0 then s
      else set_td t (\<lambda>d. d\<lparr>firstTimerHandlerPtr := delete_timer token (firstTimerHandlerPtr d)\<rparr>) s)"

definition TimerCheckProc :: "'w timer_calls \<Rightarrow> nat \<Rightarrow> int \<Rightarrow> 'w system \<Rightarrow> 'w system option" where
  "TimerCheckProc k t flags s =
     (let s = InitTimer k t s in
      if flags AND TCL_TIMER_EVENTS \<noteq> 0 \<and> firstTimerHandlerPtr (td t s) \<noteq> [] then
        (case get_time k s of (now, s) \<Rightarrow>
           let blockTime = time_left (timer_time (hd (firstTimerHandlerPtr (td t s)))) now in
           if sec blockTime = 0 \<and> usec blockTime = 0 \<and> \<not> timerPending (td t s) then
             (let s = set_td t (\<lambda>d. d\<lparr>timerPending := True\<rparr>) s;
                  e = event_address k s;
                  s = s\<lparr>events := (events s)(e \<mapsto>
                    \<lparr>event_proc = Some (TimerHandlerEventProc_ptr k), event_nextPtr = None\<rparr>)\<rparr>
              in Tcl_QueueEvent t e TCL_QUEUE_TAIL s)
           else Some s)
      else Some s)"

partial_function (option) fire_timers ::
  "'w timer_calls \<Rightarrow> nat \<Rightarrow> Tcl_Time \<Rightarrow> int \<Rightarrow> 'w system \<Rightarrow> 'w system option" where
  "fire_timers k t time currentTimerId s =
     (case firstTimerHandlerPtr (td t s) of
        [] \<Rightarrow> Some s
      | h # hs \<Rightarrow>
          if TCL_TIME_BEFORE time (timer_time h) then Some s
          else if int32 (currentTimerId - timer_token h) < 0 then Some s
          else do {
            s \<leftarrow> TimerProc k (timer_proc h) (timer_clientData h) (set_td t (\<lambda>d. d\<lparr>firstTimerHandlerPtr := hs\<rparr>) s);
            fire_timers k t time currentTimerId s
          })"

definition TimerHandlerEventProc :: "'w timer_calls \<Rightarrow> nat \<Rightarrow> int \<Rightarrow> 'w system \<Rightarrow> (int \<times> 'w system) option" where
  "TimerHandlerEventProc k t flags s =
     (let s = InitTimer k t s in
      if flags AND TCL_TIMER_EVENTS = 0 then Some (0, s)
      else
        (let s = set_td t (\<lambda>d. d\<lparr>timerPending := False\<rparr>) s;
             currentTimerId = lastTimerId (td t s) in
         case get_time k s of (time, s) \<Rightarrow> do {
           s \<leftarrow> fire_timers k t time currentTimerId s;
           Some (1, TimerSetupProc k t TCL_TIMER_EVENTS s)
         }))"

section \<open>Idle handlers\<close>

text \<open>
  Linking a new last cell behind the cell at an address: what followed that cell is cut off, as the
  new cell ends the chain; an address that is not in the chain is dangling.
\<close>

fun link_after :: "nat \<Rightarrow> nat \<times> 'a \<Rightarrow> (nat \<times> 'a) list \<Rightarrow> (nat \<times> 'a) list option" where
  "link_after l x [] = None"
| "link_after l x (y # ys) = (if fst y = l then Some [y, x] else map_option ((#) y) (link_after l x ys))"

definition Tcl_DoWhenIdle :: "'w timer_calls \<Rightarrow> nat \<Rightarrow> nat \<Rightarrow> nat \<Rightarrow> 'w system \<Rightarrow> 'w system option" where
  "Tcl_DoWhenIdle k t prc clientData s =
     (let s = InitTimer k t s;
          a = idle_address k s;
          cell = (a, \<lparr>idle_proc = prc, idle_clientData = clientData, generation = idleGeneration (td t s)\<rparr>) in do {
      idle \<leftarrow> (case lastIdlePtr (td t s) of None \<Rightarrow> Some [cell] | Some l \<Rightarrow> link_after l cell (idleList (td t s)));
      let s = set_td t (\<lambda>d. d\<lparr>idleList := idle, lastIdlePtr := Some a\<rparr>) s;
      Some (Tcl_SetMaxBlockTime (notifier k) t \<lparr>sec = 0, usec = 0\<rparr> s)
    })"

text \<open>The rest of the chain behind \<open>prevPtr\<close>, and the last cell.\<close>

fun cancel_idle ::
  "nat \<Rightarrow> nat \<Rightarrow> nat option \<Rightarrow> (nat \<times> IdleHandler) list \<Rightarrow> nat option \<Rightarrow> (nat \<times> IdleHandler) list \<times> nat option" where
  "cancel_idle prc clientData prevPtr [] lastPtr = ([], lastPtr)"
| "cancel_idle prc clientData prevPtr (x # xs) lastPtr =
     (if idle_proc (snd x) = prc \<and> idle_clientData (snd x) = clientData
      then if xs = [] then ([], prevPtr) else cancel_idle prc clientData prevPtr xs lastPtr
      else (case cancel_idle prc clientData (Some (fst x)) xs lastPtr of (ys, l) \<Rightarrow> (x # ys, l)))"

definition Tcl_CancelIdleCall :: "'w timer_calls \<Rightarrow> nat \<Rightarrow> nat \<Rightarrow> nat \<Rightarrow> 'w system \<Rightarrow> 'w system" where
  "Tcl_CancelIdleCall k t prc clientData s =
     (let s = InitTimer k t s in
      set_td t (\<lambda>d. case cancel_idle prc clientData None (idleList d) (lastIdlePtr d) of
                      (xs, l) \<Rightarrow> d\<lparr>idleList := xs, lastIdlePtr := l\<rparr>) s)"

partial_function (option) service_idle :: "'w timer_calls \<Rightarrow> nat \<Rightarrow> int \<Rightarrow> 'w system \<Rightarrow> 'w system option" where
  "service_idle k t oldGeneration s =
     (case idleList (td t s) of
        [] \<Rightarrow> Some s
      | (a, h) # hs \<Rightarrow>
          if int32 (oldGeneration - generation h) \<ge> 0 then do {
            let s = set_td t (\<lambda>d. d\<lparr>idleList := hs, lastIdlePtr := (if hs = [] then None else lastIdlePtr d)\<rparr>) s;
            s \<leftarrow> IdleProc k (idle_proc h) (idle_clientData h) s;
            service_idle k t oldGeneration s
          }
          else Some s)"

definition ServiceIdle :: "'w timer_calls \<Rightarrow> nat \<Rightarrow> 'w system \<Rightarrow> (int \<times> 'w system) option" where
  "ServiceIdle k t s =
     (let s = InitTimer k t s in
      if idleList (td t s) = [] then Some (0, s)
      else do {
        let oldGeneration = idleGeneration (td t s);
        let s = set_td t (\<lambda>d. d\<lparr>idleGeneration := int32 (oldGeneration + 1)\<rparr>) s;
        s \<leftarrow> service_idle k t oldGeneration s;
        Some (1, if idleList (td t s) \<noteq> [] then Tcl_SetMaxBlockTime (notifier k) t \<lparr>sec = 0, usec = 0\<rparr> s else s)
      })"



section \<open>The state\<close>

text \<open>What the platform may do to the state when a timer is set: only its own part changes.\<close>

definition own_user :: "('w system \<Rightarrow> 'w system) \<Rightarrow> bool" where
  "own_user f \<longleftrightarrow> (\<forall>s. \<exists>u. f s = s\<lparr>world := (world s)\<lparr>user := u\<rparr>\<rparr>)"

definition platform :: "'w timer_calls \<Rightarrow> bool" where
  "platform k \<longleftrightarrow> (\<forall>tm. own_user (Tcl_SetTimer (notifier k) tm))"

lemma td_set_td [simp]: "td u (set_td t f s) = (if u = t then f (td t s) else td u s)"
  by (simp add: td_def set_td_def)

lemma set_td_simps [simp]:
  "events (set_td t f s) = events s" "sources (set_td t f s) = sources s" "tsd (set_td t f s) = tsd s"
  "firstNotifierPtr (set_td t f s) = firstNotifierPtr s" "user (world (set_td t f s)) = user (world s)"
  "timers (world (set_td t f s)) t = Some (f (td t s))"
  by (simp_all add: set_td_def)

lemma td_InitTimer [simp]: "td u (InitTimer k t s) = td u s"
  by (auto simp: InitTimer_def Tcl_CreateEventSource_def upd_def td_def set_td_def)

lemma InitTimer_id [simp]: "timers (world s) t \<noteq> None \<Longrightarrow> InitTimer k t s = s"
  by (auto simp: InitTimer_def)

lemma timers_InitTimer [simp]: "timers (world (InitTimer k t s)) t \<noteq> None"
  by (simp add: InitTimer_def Tcl_CreateEventSource_def upd_def set_td_def)

lemma get_time_td [simp]: "get_time k s = (now, s') \<Longrightarrow> td u s' = td u s"
  by (auto simp: get_time_def td_def split: prod.splits)

lemma SetMaxBlockTime_frame:
  assumes "platform k"
  shows "\<exists>u b f. Tcl_SetMaxBlockTime (notifier k) t time s = upd t (\<lambda>d. d\<lparr>blockTime := b, blockTimeSet := f\<rparr>) s\<lparr>world := (world s)\<lparr>user := u\<rparr>\<rparr>"
proof -
  have id: "s = upd t (\<lambda>d. d\<lparr>blockTime := blockTime (tsd s t), blockTimeSet := blockTimeSet (tsd s t)\<rparr>) s" for s :: "'a system"
    by (simp add: upd_def)
  obtain b f where 1: "(if \<not> blockTimeSet (tsd s t) \<or> sec time < sec (blockTime (tsd s t))
                  \<or> (sec time = sec (blockTime (tsd s t)) \<and> usec time < usec (blockTime (tsd s t)))
               then upd t (\<lambda>d. d\<lparr>blockTime := time, blockTimeSet := True\<rparr>) s else s) = upd t (\<lambda>d. d\<lparr>blockTime := b, blockTimeSet := f\<rparr>) s"
    using id by metis
  have 2: "world (upd t g s) = world s" for g by simp
  have 3: "x = x\<lparr>world := (world x)\<lparr>user := user (world x)\<rparr>\<rparr>" for x :: "'a system" by simp
  show ?thesis
    using assms unfolding Tcl_SetMaxBlockTime_def Let_def 1 platform_def own_user_def
    by (metis 2 3)
qed

lemma td_SetMaxBlockTime [simp]: "platform k \<Longrightarrow> td u (Tcl_SetMaxBlockTime (notifier k) t time s) = td u s"
  using SetMaxBlockTime_frame [of k t time s] by (auto simp: td_def)

lemma td_TimerSetupProc [simp]: "platform k \<Longrightarrow> td u (TimerSetupProc k t flags s) = td u s"
  by (auto simp: TimerSetupProc_def Let_def split: prod.split)


section \<open>The list of timers\<close>

text \<open>
  Abstractly the pending timers are a list in the order of their creation; the chain is this list,
  sorted by time with a stable sort.
\<close>

definition time_key :: "TimerHandler \<Rightarrow> int \<times> int" where
  "time_key h = (sec (timer_time h), usec (timer_time h))"

lemma before_key: "TCL_TIME_BEFORE (timer_time h) (timer_time x) \<longleftrightarrow> time_key h < time_key x"
  by (auto simp: TCL_TIME_BEFORE_def time_key_def less_prod_def)

definition pending_timers :: "TimerData \<Rightarrow> TimerHandler list \<Rightarrow> bool" where
  "pending_timers d ps \<longleftrightarrow> firstTimerHandlerPtr d = sort_key time_key ps
     \<and> sorted_wrt (<) (map timer_token ps) \<and> (\<forall>h\<in>set ps. 0 < timer_token h \<and> timer_token h \<le> lastTimerId d)
     \<and> 0 \<le> lastTimerId d \<and> lastTimerId d \<le> INT_MAX"

lemma insert_timer_mset: "mset (insert_timer h xs) = add_mset h (mset xs)"
  by (induction xs) auto

lemma insert_timer_set: "set (insert_timer h xs) = insert h (set xs)"
  by (induction xs) auto

lemma insert_timer_sorted: "sorted (map time_key xs) \<Longrightarrow> sorted (map time_key (insert_timer h xs))"
  by (induction xs) (auto simp: before_key insert_timer_set)

lemma insert_timer_filter:
  "sorted (map time_key xs) \<Longrightarrow>
     filter (\<lambda>x. time_key x = q) (insert_timer h xs) = filter (\<lambda>x. time_key x = q) (xs @ [h])"
proof (induction xs)
  case (Cons x xs)
  show ?case
  proof (cases "time_key h < time_key x")
    case True
    then have "filter (\<lambda>y. time_key y = q) (x # xs) = []" if "time_key h = q"
      using Cons.prems that by (auto simp: filter_empty_conv)
    then show ?thesis using True by (auto simp: before_key)
  qed (use Cons in \<open>auto simp: before_key\<close>)
qed simp

lemma insert_timer_sort: "insert_timer h (sort_key time_key ps) = sort_key time_key (ps @ [h])"
proof (rule sym, rule properties_for_sort_key)
  show "mset (insert_timer h (sort_key time_key ps)) = mset (ps @ [h])" by (simp add: insert_timer_mset)
  show "filter (\<lambda>x. time_key q = time_key x) (insert_timer h (sort_key time_key ps)) = filter (\<lambda>x. time_key q = time_key x) (ps @ [h])" for q
  proof -
    have e: "(\<lambda>x. time_key q = time_key x) = (\<lambda>x. time_key x = time_key q)" by auto
    show ?thesis unfolding e using insert_timer_filter [of "sort_key time_key ps" "time_key q" h] sort_key_stable [of time_key "time_key q" ps] by simp
  qed
qed (simp add: insert_timer_sorted)

lemma sorted_tokens_distinct: "sorted_wrt (<) (map timer_token ps) \<Longrightarrow> distinct (map timer_token ps)"
  by (induction ps) auto

lemma delete_timer_filter: "distinct (map timer_token hs) \<Longrightarrow> delete_timer token hs = filter (\<lambda>h. timer_token h \<noteq> token) hs"
proof (induction hs)
  case (Cons h hs)
  then show ?case by (auto simp: image_iff intro!: filter_True [symmetric])
qed simp

lemma distinct_tokens_sort: "distinct (map timer_token (sort_key f ps)) = distinct (map timer_token ps)"
  by (simp add: distinct_map distinct_sort)

lemma pending_create:
  assumes "pending_timers d ps" "lastTimerId d < INT_MAX" "timer_token h = lastTimerId d + 1"
  shows "pending_timers (d\<lparr>lastTimerId := lastTimerId d + 1, firstTimerHandlerPtr := insert_timer h (firstTimerHandlerPtr d)\<rparr>) (ps @ [h])"
  using assms by (fastforce simp: pending_timers_def insert_timer_sort sorted_wrt_append)

lemma pending_filter:
  assumes "pending_timers d ps"
  shows "pending_timers (d\<lparr>firstTimerHandlerPtr := filter P (firstTimerHandlerPtr d)\<rparr>) (filter P ps)"
proof -
  have "sorted_wrt (<) (map timer_token (filter P ps))"
    using assms by (auto simp: pending_timers_def sorted_wrt_map intro: sorted_wrt_filter)
  then show ?thesis using assms by (auto simp: pending_timers_def filter_sort)
qed

lemma pending_delete:
  assumes "pending_timers d ps"
  shows "pending_timers (d\<lparr>firstTimerHandlerPtr := delete_timer token (firstTimerHandlerPtr d)\<rparr>)
    (filter (\<lambda>h. timer_token h \<noteq> token) ps)"
proof -
  have "distinct (map timer_token (firstTimerHandlerPtr d))"
    using assms sorted_tokens_distinct [of ps] by (simp add: pending_timers_def distinct_tokens_sort)
  then show ?thesis using pending_filter [OF assms] by (simp add: delete_timer_filter)
qed


text \<open>Among timers for the same time the chain has the older one first.\<close>

definition precedes :: "TimerHandler \<Rightarrow> TimerHandler \<Rightarrow> bool" where
  "precedes x y \<longleftrightarrow> time_key x < time_key y \<or> time_key x = time_key y \<and> timer_token x < timer_token y"

lemma insert_timer_precedes:
  "sorted_wrt precedes xs \<Longrightarrow> \<forall>x\<in>set xs. timer_token x < timer_token h \<Longrightarrow> sorted_wrt precedes (insert_timer h xs)"
proof (induction xs)
  case (Cons x xs)
  have "precedes h y" if "time_key h < time_key x" "y = x \<or> y \<in> set xs" for y
    using Cons.prems that by (auto simp: precedes_def)
  moreover have "precedes x h" if "\<not> time_key h < time_key x"
    using Cons.prems that by (auto simp: precedes_def)
  ultimately show ?case using Cons by (auto simp: before_key insert_timer_set)
qed simp

lemma sort_precedes: "sorted_wrt (<) (map timer_token ps) \<Longrightarrow> sorted_wrt precedes (sort_key time_key ps)"
proof (induction ps rule: rev_induct)
  case (snoc h ps)
  then have "sorted_wrt precedes (sort_key time_key ps)" "\<forall>x\<in>set (sort_key time_key ps). timer_token x < timer_token h"
    by (auto simp: sorted_wrt_append)
  then show ?case unfolding insert_timer_sort [symmetric] by (rule insert_timer_precedes)
qed simp

lemma pending_precedes: "pending_timers d ps \<Longrightarrow> sorted_wrt precedes (firstTimerHandlerPtr d)"
  by (simp add: pending_timers_def sort_precedes)

lemma pending_tail:
  assumes "pending_timers d ps" "firstTimerHandlerPtr d = h # hs"
  shows "pending_timers (d\<lparr>firstTimerHandlerPtr := hs\<rparr>) (filter (\<lambda>x. timer_token x \<noteq> timer_token h) ps)"
  using pending_delete [OF assms(1), of "timer_token h"] assms(2) by simp


section \<open>Loops over a generation of handlers\<close>

text \<open>
  Timers and idle handlers are run by a loop that takes the first handler off the list, calls it
  and looks at the list again, until the list is empty or its first handler is not to be run in
  this pass.  A call may add and remove handlers, but those it adds are not of the old generation.
\<close>

locale generation_loop =
  fixes loop :: "'s \<Rightarrow> 's option"
    and waiting :: "'s \<Rightarrow> 'h list"
    and stop :: "'h \<Rightarrow> bool"
    and old :: "'h \<Rightarrow> bool"
    and call :: "'h \<Rightarrow> 's \<Rightarrow> 's option"
    and inv :: "'s \<Rightarrow> bool"
  assumes turn: "inv s \<Longrightarrow> loop s =
      (case waiting s of [] \<Rightarrow> Some s | h # hs \<Rightarrow> if stop h then Some s else call h s \<bind> loop)"
    and new_stops: "\<not> old h \<Longrightarrow> stop h"
    and called: "inv s \<Longrightarrow> waiting s = h # hs \<Longrightarrow> \<not> stop h \<Longrightarrow>
      \<exists>s'. call h s = Some s' \<and> inv s' \<and> subseq (filter old (waiting s')) (filter old hs)"
begin

lemma loop_ends:
  "inv s \<Longrightarrow> \<exists>s'. loop s = Some s' \<and> inv s' \<and> subseq (filter old (waiting s')) (filter old (waiting s))
     \<and> (\<forall>h hs. waiting s' = h # hs \<longrightarrow> stop h)"
proof (induction "length (filter old (waiting s))" arbitrary: s rule: less_induct)
  case less
  show ?case
  proof (cases "waiting s")
    case Nil
    then show ?thesis using turn [OF less.prems] less.prems by simp
  next
    case (Cons h hs)
    show ?thesis
    proof (cases "stop h")
      case True
      then show ?thesis using turn [OF less.prems] less.prems Cons by simp
    next
      case False
      then have o: "old h" using new_stops by blast
      obtain s1 where s1: "call h s = Some s1" "inv s1" "subseq (filter old (waiting s1)) (filter old hs)"
        using called [OF less.prems Cons False] by blast
      have "length (filter old (waiting s1)) < length (filter old (waiting s))"
        using list_emb_length [OF s1(3)] Cons o by simp
      from less.hyps [OF this s1(2)] obtain s2 where s2: "loop s1 = Some s2" "inv s2"
        "subseq (filter old (waiting s2)) (filter old (waiting s1))" "\<forall>h hs. waiting s2 = h # hs \<longrightarrow> stop h" by blast
      have "subseq (filter old (waiting s2)) (filter old hs)" using s2(3) s1(3) by (rule subseq_order.trans)
      then have "subseq (filter old (waiting s2)) (filter old (waiting s))" using Cons o by (auto intro: list_emb_Cons)
      then show ?thesis using turn [OF less.prems] Cons False s1(1) s2 by auto
    qed
  qed
qed

end

text \<open>
  What a timer procedure may do to the timers of its thread: remove any, and create new ones for
  times that are not before the time of the pass; the procedures of this theory do no more.
\<close>

definition timers_later :: "Tcl_Time \<Rightarrow> TimerData \<Rightarrow> TimerData \<Rightarrow> bool" where
  "timers_later time d d' \<longleftrightarrow> (\<exists>ps. pending_timers d' ps) \<and> lastTimerId d \<le> lastTimerId d'
     \<and> subseq (filter (\<lambda>h. timer_token h \<le> lastTimerId d) (firstTimerHandlerPtr d')) (firstTimerHandlerPtr d)
     \<and> (\<forall>h\<in>set (firstTimerHandlerPtr d'). lastTimerId d < timer_token h \<longrightarrow> \<not> TCL_TIME_BEFORE (timer_time h) time)"

text \<open>
  What is asked of the procedures: while the thread has not run out of identifiers a call returns,
  creates at most \<open>B\<close> timers, none of them before the time of the pass, and removes any.
\<close>

definition timer_procs :: "'w timer_calls \<Rightarrow> nat \<Rightarrow> Tcl_Time \<Rightarrow> nat \<Rightarrow> bool" where
  "timer_procs k t time B \<longleftrightarrow>
     (\<forall>p c s. (\<exists>ps. pending_timers (td t s) ps) \<and> lastTimerId (td t s) + int B \<le> INT_MAX \<longrightarrow>
       (\<exists>s'. TimerProc k p c s = Some s' \<and> timers_later time (td t s) (td t s')
         \<and> lastTimerId (td t s') \<le> lastTimerId (td t s) + int B))"

lemma filter_filter_le: "n \<le> m \<Longrightarrow>
  filter (\<lambda>h. timer_token h \<le> n) xs = filter (\<lambda>h. timer_token h \<le> n) (filter (\<lambda>h. timer_token h \<le> m) xs)"
  for n m :: int
  by (auto simp: filter_eq_iff intro!: filter_cong)

lemma pending_token: "pending_timers d ps \<Longrightarrow> h \<in> set (firstTimerHandlerPtr d) \<Longrightarrow>
  0 < timer_token h \<and> timer_token h \<le> lastTimerId d \<and> 0 \<le> lastTimerId d \<and> lastTimerId d \<le> INT_MAX"
  by (auto simp: pending_timers_def)

lemma timers_later_refl: "pending_timers d ps \<Longrightarrow> timers_later time d d"
  using pending_token by (fastforce simp: timers_later_def)

lemma timers_later_trans:
  assumes "timers_later time d d'" "timers_later time d' d''"
  shows "timers_later time d d''"
proof -
  let ?f = "\<lambda>d. filter (\<lambda>h. timer_token h \<le> lastTimerId d)"
  have le: "lastTimerId d \<le> lastTimerId d'" "lastTimerId d' \<le> lastTimerId d''"
    using assms by (auto simp: timers_later_def)
  have s: "subseq (?f d' (firstTimerHandlerPtr d'')) (firstTimerHandlerPtr d')"
    "subseq (?f d (firstTimerHandlerPtr d')) (firstTimerHandlerPtr d)" using assms by (auto simp: timers_later_def)
  have "?f d (firstTimerHandlerPtr d'') = ?f d (?f d' (firstTimerHandlerPtr d''))" by (rule filter_filter_le [OF le(1)])
  moreover have "subseq (?f d (?f d' (firstTimerHandlerPtr d''))) (?f d (firstTimerHandlerPtr d'))"
    using s(1) by (rule subseq_filter)
  ultimately have "subseq (?f d (firstTimerHandlerPtr d'')) (firstTimerHandlerPtr d)" using s(2) subseq_order.trans by metis
  moreover have "\<not> TCL_TIME_BEFORE (timer_time h) time"
    if "h \<in> set (firstTimerHandlerPtr d'')" "lastTimerId d < timer_token h" for h
  proof (cases "lastTimerId d' < timer_token h")
    case True
    then show ?thesis using assms(2) that by (auto simp: timers_later_def)
  next
    case False
    then have "h \<in> set (?f d' (firstTimerHandlerPtr d''))" using that by simp
    then have "h \<in> set (firstTimerHandlerPtr d')" using list_emb_set [OF s(1)] by blast
    then show ?thesis using assms(1) that by (auto simp: timers_later_def)
  qed
  ultimately show ?thesis using assms le by (auto simp: timers_later_def)
qed


text \<open>The identifiers that are left suffice for every old timer that may still be called.\<close>

definition old_timers :: "TimerData \<Rightarrow> TimerData \<Rightarrow> nat" where
  "old_timers d d' = length (filter (\<lambda>h. timer_token h \<le> lastTimerId d) (firstTimerHandlerPtr d'))"

definition timer_loop_inv :: "'w timer_calls \<Rightarrow> nat \<Rightarrow> Tcl_Time \<Rightarrow> nat \<Rightarrow> TimerData \<Rightarrow> 'w system \<Rightarrow> bool" where
  "timer_loop_inv k t time B d s \<longleftrightarrow> timer_procs k t time B \<and> (\<exists>ps. pending_timers d ps) \<and> timers_later time d (td t s)
     \<and> lastTimerId (td t s) + int (B * old_timers d (td t s)) \<le> INT_MAX"

lemma int32_diff: "0 \<le> a \<Longrightarrow> a \<le> INT_MAX \<Longrightarrow> 0 \<le> b \<Longrightarrow> b \<le> INT_MAX \<Longrightarrow> int32 (a - b) = a - b"
  by (intro int32_id) (simp_all add: INT_MAX_def)

text \<open>One turn of each loop.\<close>

lemma fire_turn:
  assumes p: "pending_timers (td t s) ps" and n: "0 \<le> n" "n \<le> INT_MAX"
  shows "fire_timers k t time n s = (case firstTimerHandlerPtr (td t s) of [] \<Rightarrow> Some s
    | h # hs \<Rightarrow> if TCL_TIME_BEFORE time (timer_time h) \<or> n < timer_token h then Some s
        else TimerProc k (timer_proc h) (timer_clientData h) (set_td t (\<lambda>d. d\<lparr>firstTimerHandlerPtr := tl (firstTimerHandlerPtr d)\<rparr>) s)
          \<bind> fire_timers k t time n)"
proof (cases "firstTimerHandlerPtr (td t s)")
  case Nil
  then show ?thesis by (subst fire_timers.simps) simp
next
  case (Cons h hs)
  then have "0 \<le> timer_token h" "timer_token h \<le> INT_MAX" using pending_token [OF p, of h] by auto
  then have "int32 (n - timer_token h) = n - timer_token h" using n by (intro int32_diff) auto
  moreover have "set_td t (\<lambda>d. d\<lparr>firstTimerHandlerPtr := hs\<rparr>) s = set_td t (\<lambda>d. d\<lparr>firstTimerHandlerPtr := tl (firstTimerHandlerPtr d)\<rparr>) s"
    using Cons by (simp add: set_td_def)
  ultimately show ?thesis using Cons by (subst fire_timers.simps) simp
qed

interpretation timer_loop: generation_loop "fire_timers k t time (lastTimerId d)"
  "\<lambda>s. firstTimerHandlerPtr (td t s)"
  "\<lambda>h. TCL_TIME_BEFORE time (timer_time h) \<or> lastTimerId d < timer_token h"
  "\<lambda>h. timer_token h \<le> lastTimerId d"
  "\<lambda>h s. TimerProc k (timer_proc h) (timer_clientData h) (set_td t (\<lambda>d. d\<lparr>firstTimerHandlerPtr := tl (firstTimerHandlerPtr d)\<rparr>) s)"
  "timer_loop_inv k t time B d" for k :: "'w timer_calls" and t :: nat and time :: Tcl_Time and B :: nat and d :: TimerData
proof (unfold_locales, goal_cases)
  case (1 s)
  obtain ps qs where p: "pending_timers (td t s) ps" "pending_timers d qs"
    using 1 by (auto simp: timer_loop_inv_def timers_later_def)
  then show ?case by (intro fire_turn) (auto simp: pending_timers_def)
next
  case (2 h)
  then show ?case by simp
next
  case (3 s h hs)
  let ?s = "set_td t (\<lambda>d. d\<lparr>firstTimerHandlerPtr := tl (firstTimerHandlerPtr d)\<rparr>) s"
  obtain ps where p: "pending_timers (td t s) ps" using 3(1) by (auto simp: timer_loop_inv_def timers_later_def)
  have q: "\<exists>ps. pending_timers (td t ?s) ps" using pending_tail [OF p 3(2)] 3(2) by auto
  have old: "timer_token h \<le> lastTimerId d" using 3(3) by simp
  have n: "old_timers d (td t s) = Suc (old_timers d (td t ?s))" using 3(2) old by (simp add: old_timers_def)
  have room: "lastTimerId (td t s) + int (B * Suc (old_timers d (td t ?s))) \<le> INT_MAX"
    using 3(1) n by (simp only: timer_loop_inv_def)
  have b: "int (B * Suc m) = int B + int (B * m)" for m by simp
  have "0 \<le> int (B * old_timers d (td t ?s))" by (rule of_nat_0_le_iff)
  then have "lastTimerId (td t s) + int B \<le> INT_MAX" using room unfolding b by linarith
  then have "lastTimerId (td t ?s) + int B \<le> INT_MAX" by simp
  with q obtain s' where s': "TimerProc k (timer_proc h) (timer_clientData h) ?s = Some s'" "timers_later time (td t ?s) (td t s')"
    "lastTimerId (td t s') \<le> lastTimerId (td t ?s) + int B"
    using 3(1) unfolding timer_loop_inv_def timer_procs_def by blast
  have "timers_later time (td t s) (td t ?s)"
    unfolding timers_later_def
  proof (intro conjI ballI impI)
    show "subseq (filter (\<lambda>h. timer_token h \<le> lastTimerId (td t s)) (firstTimerHandlerPtr (td t ?s))) (firstTimerHandlerPtr (td t s))"
      using 3(2) by (simp add: list_emb_Cons)
    show "\<not> TCL_TIME_BEFORE (timer_time x) time"
      if "x \<in> set (firstTimerHandlerPtr (td t ?s))" "lastTimerId (td t s) < timer_token x" for x
      using that pending_token [OF p, of x] 3(2) by simp
  qed (use q in simp_all)
  then have l: "timers_later time d (td t s')"
    using 3(1) s'(2) timers_later_trans unfolding timer_loop_inv_def by blast
  have le: "lastTimerId d \<le> lastTimerId (td t s)" using 3(1) by (auto simp: timer_loop_inv_def timers_later_def)
  have "subseq (filter (\<lambda>h. timer_token h \<le> lastTimerId (td t s)) (firstTimerHandlerPtr (td t s'))) hs"
    using s'(2) 3(2) by (simp add: timers_later_def)
  from subseq_filter [OF this, of "\<lambda>h. timer_token h \<le> lastTimerId d"]
  have "subseq (filter (\<lambda>h. timer_token h \<le> lastTimerId d) (firstTimerHandlerPtr (td t s'))) (filter (\<lambda>h. timer_token h \<le> lastTimerId d) hs)"
    using filter_filter_le [OF le, of "firstTimerHandlerPtr (td t s')"] by (simp only:)
  note sub = this
  have "old_timers d (td t s') \<le> old_timers d (td t ?s)"
    using list_emb_length [OF sub] 3(2) by (simp add: old_timers_def)
  then have "int (B * old_timers d (td t s')) \<le> int (B * old_timers d (td t ?s))" by (simp only: of_nat_le_iff mult_le_mono2)
  then have "lastTimerId (td t s') + int (B * old_timers d (td t s')) \<le> INT_MAX"
    using room s'(3) unfolding b by simp
  then show ?case using s'(1) l sub 3(1) by (auto simp: timer_loop_inv_def)
qed


text \<open>When the loop stops, every old timer that is left is for a later time.\<close>

lemma timer_loop_complete:
  assumes "pending_timers d ps" "timers_later time d (td t s)"
    and stop: "\<forall>h hs. firstTimerHandlerPtr (td t s) = h # hs \<longrightarrow> TCL_TIME_BEFORE time (timer_time h) \<or> lastTimerId d < timer_token h"
    and h: "h \<in> set (firstTimerHandlerPtr (td t s))" "timer_token h \<le> lastTimerId d"
  shows "TCL_TIME_BEFORE time (timer_time h)"
proof -
  obtain x xs where x: "firstTimerHandlerPtr (td t s) = x # xs" using h by (cases "firstTimerHandlerPtr (td t s)") auto
  obtain qs where "pending_timers (td t s) qs" using assms(2) by (auto simp: timers_later_def)
  then have "sorted_wrt precedes (x # xs)" using pending_precedes x by metis
  then have xh: "h = x \<or> precedes x h" using h(1) x by auto
  have "TCL_TIME_BEFORE time (timer_time x) \<or> lastTimerId d < timer_token x" using stop x by blast
  then show ?thesis
  proof
    assume "TCL_TIME_BEFORE time (timer_time x)"
    moreover have "time_key x \<le> time_key h" using xh by (auto simp: precedes_def)
    ultimately show ?thesis by (auto simp: TCL_TIME_BEFORE_def time_key_def less_eq_prod_def)
  next
    assume n: "lastTimerId d < timer_token x"
    then have "\<not> TCL_TIME_BEFORE (timer_time x) time" using assms(2) x by (auto simp: timers_later_def)
    moreover have "time_key x < time_key h" using xh n h(2) by (auto simp: precedes_def)
    ultimately show ?thesis by (auto simp: TCL_TIME_BEFORE_def time_key_def less_prod_def)
  qed
qed

text \<open>Procedures that leave the timers alone: the due timers are called in order, and only these.\<close>

fun call_timers :: "'w timer_calls \<Rightarrow> nat \<Rightarrow> TimerHandler list \<Rightarrow> 'w system \<Rightarrow> 'w system option" where
  "call_timers k t [] s = Some s"
| "call_timers k t (h # hs) s =
     TimerProc k (timer_proc h) (timer_clientData h) (set_td t (\<lambda>d. d\<lparr>firstTimerHandlerPtr := tl (firstTimerHandlerPtr d)\<rparr>) s)
       \<bind> call_timers k t hs"

definition leaves_timers :: "'w timer_calls \<Rightarrow> nat \<Rightarrow> bool" where
  "leaves_timers k t \<longleftrightarrow> (\<forall>p c s. \<exists>s'. TimerProc k p c s = Some s' \<and> td t s' = td t s)"

lemma sorted_due_split:
  "sorted (map time_key hs) \<Longrightarrow>
     hs = filter (\<lambda>h. \<not> TCL_TIME_BEFORE time (timer_time h)) hs @ filter (\<lambda>h. TCL_TIME_BEFORE time (timer_time h)) hs"
proof (induction hs)
  case (Cons h hs)
  show ?case
  proof (cases "TCL_TIME_BEFORE time (timer_time h)")
    case True
    then have "\<forall>x\<in>set hs. TCL_TIME_BEFORE time (timer_time x)"
      using Cons.prems by (fastforce simp: TCL_TIME_BEFORE_def time_key_def less_eq_prod_def)
    then have "filter (\<lambda>h. \<not> TCL_TIME_BEFORE time (timer_time h)) hs = []" "filter (\<lambda>h. TCL_TIME_BEFORE time (timer_time h)) hs = hs"
      by (auto simp: filter_empty_conv filter_id_conv)
    then show ?thesis using True by simp
  qed (use Cons in simp)
qed simp

lemma fire_calls:
  assumes "leaves_timers k t"
  shows "firstTimerHandlerPtr (td t s) = due @ rest \<Longrightarrow> \<forall>h\<in>set due. \<not> TCL_TIME_BEFORE time (timer_time h) \<Longrightarrow>
    \<forall>h\<in>set due. 0 \<le> timer_token h \<and> timer_token h \<le> n \<Longrightarrow> n \<le> INT_MAX \<Longrightarrow>
    \<forall>h\<in>set rest. TCL_TIME_BEFORE time (timer_time h) \<Longrightarrow>
    \<exists>s'. fire_timers k t time n s = Some s' \<and> call_timers k t due s = Some s' \<and> td t s' = (td t s)\<lparr>firstTimerHandlerPtr := rest\<rparr>"
proof (induction due arbitrary: s)
  case Nil
  then show ?case by (subst fire_timers.simps) (cases rest; simp)
next
  case (Cons h due)
  let ?s = "set_td t (\<lambda>d. d\<lparr>firstTimerHandlerPtr := tl (firstTimerHandlerPtr d)\<rparr>) s"
  have e: "set_td t (\<lambda>d. d\<lparr>firstTimerHandlerPtr := due @ rest\<rparr>) s = ?s" using Cons.prems(1) by (simp add: set_td_def)
  obtain s1 where s1: "TimerProc k (timer_proc h) (timer_clientData h) ?s = Some s1" "td t s1 = td t ?s"
    using assms unfolding leaves_timers_def by blast
  have "int32 (n - timer_token h) = n - timer_token h" using Cons.prems(3,4) by (intro int32_diff) auto
  then have "fire_timers k t time n s = fire_timers k t time n s1"
    using Cons.prems s1(1) e by (subst fire_timers.simps) simp
  moreover have "\<exists>s'. fire_timers k t time n s1 = Some s' \<and> call_timers k t due s1 = Some s' \<and>
      td t s' = (td t s1)\<lparr>firstTimerHandlerPtr := rest\<rparr>"
    using Cons.prems s1(2) by (intro Cons.IH) auto
  ultimately show ?case using s1 by auto
qed



section \<open>The list of idle handlers\<close>

abbreviation cell_gen :: "nat \<times> IdleHandler \<Rightarrow> int" where
  "cell_gen x \<equiv> generation (snd x)"

definition idle_wf :: "TimerData \<Rightarrow> bool" where
  "idle_wf d \<longleftrightarrow> lastIdlePtr d = (if idleList d = [] then None else Some (fst (last (idleList d))))
     \<and> distinct (map fst (idleList d)) \<and> sorted (map cell_gen (idleList d))
     \<and> (\<forall>x\<in>set (idleList d). 0 \<le> cell_gen x \<and> cell_gen x \<le> idleGeneration d)
     \<and> 0 \<le> idleGeneration d \<and> idleGeneration d \<le> INT_MAX"

lemma link_after_last:
  "distinct (map fst xs) \<Longrightarrow> xs \<noteq> [] \<Longrightarrow> link_after (fst (last xs)) x xs = Some (xs @ [x])"
proof (induction xs)
  case (Cons y ys)
  show ?case
  proof (cases "ys = []")
    case False
    then have "fst y \<noteq> fst (last ys)" using Cons.prems last_in_set [OF False] by auto
    then show ?thesis using Cons False by simp
  qed simp
qed simp

lemma cancel_idle_filter:
  "xs \<noteq> [] \<Longrightarrow> l = Some (fst (last xs)) \<Longrightarrow>
     cancel_idle p c prev xs l =
       (let ys = filter (\<lambda>x. \<not> (idle_proc (snd x) = p \<and> idle_clientData (snd x) = c)) xs in
        (ys, if ys = [] then prev else Some (fst (last ys))))"
proof (induction xs arbitrary: prev)
  case (Cons x xs)
  show ?case
  proof (cases "xs = []")
    case False
    then show ?thesis using Cons by (auto simp: Let_def split: prod.split)
  qed (use Cons in auto)
qed simp

text \<open>The routines keep the list well formed.\<close>

lemma idle_wf_append:
  assumes "idle_wf d" "a \<notin> fst ` set (idleList d)" "generation h = idleGeneration d"
  shows "idle_wf (d\<lparr>idleList := idleList d @ [(a, h)], lastIdlePtr := Some a\<rparr>)"
  using assms by (auto simp: idle_wf_def sorted_append split: if_splits)

lemma idle_wf_filter:
  assumes "idle_wf d" "ys = filter P (idleList d)"
  shows "idle_wf (d\<lparr>idleList := ys, lastIdlePtr := (if ys = [] then None else Some (fst (last ys)))\<rparr>)"
  using assms by (auto simp: idle_wf_def sorted_filter distinct_map_filter)

lemma DoWhenIdle_append:
  assumes "idle_wf (td t s)" "idle_address k (InitTimer k t s) \<notin> fst ` set (idleList (td t s))" "platform k"
  shows "\<exists>s'. Tcl_DoWhenIdle k t p c s = Some s' \<and> td t s' = (td t s)\<lparr>
    idleList := idleList (td t s) @ [(idle_address k (InitTimer k t s), \<lparr>idle_proc = p, idle_clientData = c, generation = idleGeneration (td t s)\<rparr>)],
    lastIdlePtr := Some (idle_address k (InitTimer k t s))\<rparr>"
proof (cases "idleList (td t s) = []")
  case True
  then have "lastIdlePtr (td t s) = None" using assms(1) by (simp add: idle_wf_def)
  then show ?thesis using assms(3) True by (simp add: Tcl_DoWhenIdle_def Let_def)
next
  case False
  then have l: "lastIdlePtr (td t s) = Some (fst (last (idleList (td t s))))" "distinct (map fst (idleList (td t s)))"
    using assms(1) by (simp_all add: idle_wf_def)
  show ?thesis using assms(3) l(1) link_after_last [OF l(2) False] by (simp add: Tcl_DoWhenIdle_def Let_def)
qed

lemma CancelIdle_filter:
  assumes "idle_wf (td t s)"
    and "ys = filter (\<lambda>x. \<not> (idle_proc (snd x) = p \<and> idle_clientData (snd x) = c)) (idleList (td t s))"
  shows "td t (Tcl_CancelIdleCall k t p c s) =
    (td t s)\<lparr>idleList := ys, lastIdlePtr := (if ys = [] then None else Some (fst (last ys)))\<rparr>"
proof (cases "idleList (td t s) = []")
  case True
  then show ?thesis using assms by (simp add: Tcl_CancelIdleCall_def idle_wf_def Let_def)
next
  case False
  then have "lastIdlePtr (td t s) = Some (fst (last (idleList (td t s))))" using assms(1) by (simp add: idle_wf_def)
  from cancel_idle_filter [OF False this] show ?thesis
    using assms(2) by (simp add: Tcl_CancelIdleCall_def Let_def)
qed

text \<open>What an idle procedure may do: remove handlers, and add handlers of the current generation.\<close>

definition idle_later :: "TimerData \<Rightarrow> TimerData \<Rightarrow> bool" where
  "idle_later d d' \<longleftrightarrow> idle_wf d' \<and> idleGeneration d \<le> idleGeneration d'
     \<and> subseq (filter (\<lambda>x. cell_gen x < idleGeneration d) (idleList d')) (filter (\<lambda>x. cell_gen x < idleGeneration d) (idleList d))"

definition idle_procs :: "'w timer_calls \<Rightarrow> nat \<Rightarrow> bool" where
  "idle_procs k t \<longleftrightarrow> (\<forall>p c s. idle_wf (td t s) \<longrightarrow> (\<exists>s'. IdleProc k p c s = Some s' \<and> idle_later (td t s) (td t s')))"

lemma filter_gen_le: "n \<le> m \<Longrightarrow>
  filter (\<lambda>x. cell_gen x < n) xs = filter (\<lambda>x. cell_gen x < n) (filter (\<lambda>x. cell_gen x < m) xs)"
  for n m :: int
  by (auto simp: filter_eq_iff intro!: filter_cong)

lemma subseq_gen_le:
  fixes n m :: int
  assumes "n \<le> m" "subseq (filter (\<lambda>x. cell_gen x < m) xs) (filter (\<lambda>x. cell_gen x < m) ys)"
  shows "subseq (filter (\<lambda>x. cell_gen x < n) xs) (filter (\<lambda>x. cell_gen x < n) ys)"
  using subseq_filter [OF assms(2), of "\<lambda>x. cell_gen x < n"] filter_gen_le [OF assms(1)] by (simp only:)

lemma idle_later_trans:
  assumes "idle_later d d'" "idle_later d' d''"
  shows "idle_later d d''"
proof -
  have le: "idleGeneration d \<le> idleGeneration d'" "idleGeneration d' \<le> idleGeneration d''" using assms by (auto simp: idle_later_def)
  have "subseq (filter (\<lambda>x. cell_gen x < idleGeneration d) (idleList d'')) (filter (\<lambda>x. cell_gen x < idleGeneration d) (idleList d'))"
    by (rule subseq_gen_le [OF le(1)]) (use assms(2) in \<open>simp add: idle_later_def\<close>)
  moreover have "subseq (filter (\<lambda>x. cell_gen x < idleGeneration d) (idleList d')) (filter (\<lambda>x. cell_gen x < idleGeneration d) (idleList d))"
    using assms(1) by (simp add: idle_later_def)
  ultimately have "subseq (filter (\<lambda>x. cell_gen x < idleGeneration d) (idleList d'')) (filter (\<lambda>x. cell_gen x < idleGeneration d) (idleList d))"
    by (rule subseq_order.trans)
  then show ?thesis using assms le by (simp add: idle_later_def)
qed

definition idle_loop_inv :: "'w timer_calls \<Rightarrow> nat \<Rightarrow> int \<Rightarrow> 'w system \<Rightarrow> bool" where
  "idle_loop_inv k t old s \<longleftrightarrow> idle_procs k t \<and> idle_wf (td t s) \<and> old < idleGeneration (td t s) \<and> 0 \<le> old"

definition take_idle :: "TimerData \<Rightarrow> TimerData" where
  "take_idle d = d\<lparr>idleList := tl (idleList d), lastIdlePtr := (if tl (idleList d) = [] then None else lastIdlePtr d)\<rparr>"

lemma idle_wf_take: "idle_wf d \<Longrightarrow> idleList d = x # xs \<Longrightarrow> idle_wf (take_idle d)"
  by (auto simp: idle_wf_def take_idle_def)

lemma idle_turn:
  assumes w: "idle_wf (td t s)" and old: "0 \<le> old" "old \<le> INT_MAX"
  shows "service_idle k t old s = (case idleList (td t s) of [] \<Rightarrow> Some s
    | x # xs \<Rightarrow> if old < cell_gen x then Some s
        else IdleProc k (idle_proc (snd x)) (idle_clientData (snd x)) (set_td t take_idle s) \<bind> service_idle k t old)"
proof (cases "idleList (td t s)")
  case Nil
  then show ?thesis by (subst service_idle.simps) simp
next
  case (Cons x xs)
  have r: "0 \<le> cell_gen x" "cell_gen x \<le> INT_MAX" using w Cons by (auto simp: idle_wf_def)
  obtain a h where x: "x = (a, h)" by (cases x)
  have "int32 (old - generation h) = old - generation h" using r old x by (intro int32_diff) auto
  moreover have "set_td t (\<lambda>d. d\<lparr>idleList := xs, lastIdlePtr := (if xs = [] then None else lastIdlePtr d)\<rparr>) s = set_td t take_idle s"
    using Cons by (simp add: set_td_def take_idle_def)
  ultimately show ?thesis using Cons x by (subst service_idle.simps) (simp add: not_le)
qed

interpretation idle_loop: generation_loop "service_idle k t old"
  "\<lambda>s. idleList (td t s)" "\<lambda>x. old < cell_gen x" "\<lambda>x. cell_gen x \<le> old"
  "\<lambda>x s. IdleProc k (idle_proc (snd x)) (idle_clientData (snd x)) (set_td t take_idle s)"
  "idle_loop_inv k t old" for k :: "'w timer_calls" and t :: nat and old :: int
proof (unfold_locales, goal_cases)
  case (1 s)
  then show ?case by (intro idle_turn) (auto simp: idle_loop_inv_def idle_wf_def)
next
  case (2 x)
  then show ?case by simp
next
  case (3 s x xs)
  have w: "idle_wf (td t (set_td t take_idle s))" using 3 idle_wf_take by (auto simp: idle_loop_inv_def)
  obtain s' where s': "IdleProc k (idle_proc (snd x)) (idle_clientData (snd x)) (set_td t take_idle s) = Some s'"
    "idle_later (td t (set_td t take_idle s)) (td t s')"
    using 3(1) w unfolding idle_loop_inv_def idle_procs_def by blast
  have g: "idleGeneration (td t (set_td t take_idle s)) = idleGeneration (td t s)" by (simp add: take_idle_def)
  have le: "old + 1 \<le> idleGeneration (td t s)" using 3(1) by (simp add: idle_loop_inv_def)
  have "subseq (filter (\<lambda>x. cell_gen x < old + 1) (idleList (td t s'))) (filter (\<lambda>x. cell_gen x < old + 1) (idleList (td t (set_td t take_idle s))))"
    by (rule subseq_gen_le [OF le]) (use s'(2) g in \<open>simp add: idle_later_def\<close>)
  then have "subseq (filter (\<lambda>x. cell_gen x \<le> old) (idleList (td t s'))) (filter (\<lambda>x. cell_gen x \<le> old) xs)"
    using 3(2) by (simp add: take_idle_def zle_add1_eq_le [symmetric] del: zle_add1_eq_le)
  moreover have "idle_loop_inv k t old s'" using 3(1) s'(2) g by (simp add: idle_loop_inv_def idle_later_def)
  ultimately show ?case using s'(1) by blast
qed



section \<open>What the routines promise\<close>

text \<open>Requests of the program for one thread, and their effect on the pending timers.\<close>

datatype timer_op = create_timer Tcl_Time nat nat | remove_timer int

fun run_op :: "'w timer_calls \<Rightarrow> nat \<Rightarrow> timer_op \<Rightarrow> 'w system \<Rightarrow> 'w system" where
  "run_op k t (create_timer time p c) s = snd (TclCreateAbsoluteTimerHandler k t time p c s)"
| "run_op k t (remove_timer token) s = Tcl_DeleteTimerHandler k t token s"

fun abs_op :: "timer_op \<Rightarrow> TimerHandler list \<times> int \<Rightarrow> TimerHandler list \<times> int" where
  "abs_op (create_timer time p c) (ps, n) =
     (ps @ [\<lparr>timer_time = time, timer_proc = p, timer_clientData = c, timer_token = n + 1\<rparr>], n + 1)"
| "abs_op (remove_timer token) (ps, n) = (filter (\<lambda>h. timer_token h \<noteq> token) ps, n)"

lemma td_CreateAbsolute:
  assumes "platform k" "0 \<le> lastTimerId (td t s)" "lastTimerId (td t s) < INT_MAX"
  shows "td t (snd (TclCreateAbsoluteTimerHandler k t time p c s)) = (td t s)\<lparr>lastTimerId := lastTimerId (td t s) + 1,
    firstTimerHandlerPtr := insert_timer \<lparr>timer_time = time, timer_proc = p, timer_clientData = c, timer_token = lastTimerId (td t s) + 1\<rparr>
      (firstTimerHandlerPtr (td t s))\<rparr>"
    and "fst (TclCreateAbsoluteTimerHandler k t time p c s) = lastTimerId (td t s) + 1"
proof -
  have "int32 (lastTimerId (td t s) + 1) = lastTimerId (td t s) + 1"
    using assms by (intro int32_id) (simp_all add: INT_MAX_def)
  then show "td t (snd (TclCreateAbsoluteTimerHandler k t time p c s)) = (td t s)\<lparr>lastTimerId := lastTimerId (td t s) + 1,
      firstTimerHandlerPtr := insert_timer \<lparr>timer_time = time, timer_proc = p, timer_clientData = c, timer_token = lastTimerId (td t s) + 1\<rparr>
        (firstTimerHandlerPtr (td t s))\<rparr>"
    and "fst (TclCreateAbsoluteTimerHandler k t time p c s) = lastTimerId (td t s) + 1"
    using assms(1) by (simp_all add: TclCreateAbsoluteTimerHandler_def Let_def)
qed

lemma td_Delete:
  assumes "pending_timers (td t s) ps"
  shows "td t (Tcl_DeleteTimerHandler k t token s) =
    (td t s)\<lparr>firstTimerHandlerPtr := delete_timer token (firstTimerHandlerPtr (td t s))\<rparr>"
proof (cases "token = 0")
  case True
  have "delete_timer 0 hs = hs" if "\<forall>h\<in>set hs. timer_token h \<noteq> 0" for hs using that by (induction hs) auto
  then have "delete_timer 0 (firstTimerHandlerPtr (td t s)) = firstTimerHandlerPtr (td t s)"
    using pending_token [OF assms] by (metis order_less_irrefl)
  then show ?thesis using True by (simp add: Tcl_DeleteTimerHandler_def)
qed (simp add: Tcl_DeleteTimerHandler_def Let_def)

lemma run_ops_pending:
  "platform k \<Longrightarrow> pending_timers (td t s) ps \<Longrightarrow> lastTimerId (td t s) + int (length ops) \<le> INT_MAX \<Longrightarrow>
     pending_timers (td t (fold (run_op k t) ops s)) (fst (fold abs_op ops (ps, lastTimerId (td t s))))"
proof (induction ops arbitrary: s ps)
  case (Cons op ops)
  have l: "0 \<le> lastTimerId (td t s)" "lastTimerId (td t s) < INT_MAX" using Cons.prems(2,3) by (auto simp: pending_timers_def)
  show ?case
  proof (cases op)
    case (create_timer time p c)
    let ?h = "\<lparr>timer_time = time, timer_proc = p, timer_clientData = c, timer_token = lastTimerId (td t s) + 1\<rparr>"
    note td = td_CreateAbsolute(1) [OF Cons.prems(1) l, of time p c]
    have "pending_timers (td t (run_op k t op s)) (ps @ [?h])"
      using pending_create [OF Cons.prems(2) l(2), of ?h] td create_timer by simp
    from Cons.IH [OF Cons.prems(1) this] show ?thesis using td create_timer Cons.prems(3) by simp
  next
    case (remove_timer token)
    have "pending_timers (td t (run_op k t op s)) (filter (\<lambda>h. timer_token h \<noteq> token) ps)"
      using pending_delete [OF Cons.prems(2), of token] td_Delete [OF Cons.prems(2), of k token] remove_timer by simp
    from Cons.IH [OF Cons.prems(1) this] show ?thesis
      using td_Delete [OF Cons.prems(2), of k token] remove_timer Cons.prems(3) by simp
  qed
qed simp

text \<open>The requests are among what a timer procedure may do.\<close>

lemma create_later:
  assumes "platform k" "pending_timers (td t s) ps" "lastTimerId (td t s) < INT_MAX" "\<not> TCL_TIME_BEFORE new time"
  shows "timers_later time (td t s) (td t (snd (TclCreateAbsoluteTimerHandler k t new p c s)))"
proof -
  let ?h = "\<lparr>timer_time = new, timer_proc = p, timer_clientData = c, timer_token = lastTimerId (td t s) + 1\<rparr>"
  let ?hs = "firstTimerHandlerPtr (td t s)"
  have l: "0 \<le> lastTimerId (td t s)" using assms(2) by (simp add: pending_timers_def)
  note td = td_CreateAbsolute(1) [OF assms(1) l assms(3), of new p c]
  have "filter (\<lambda>h. timer_token h \<le> lastTimerId (td t s)) (insert_timer ?h hs) = filter (\<lambda>h. timer_token h \<le> lastTimerId (td t s)) hs" for hs
    by (induction hs) auto
  then have "subseq (filter (\<lambda>h. timer_token h \<le> lastTimerId (td t s)) (insert_timer ?h ?hs)) ?hs" by simp
  moreover have "\<exists>ps. pending_timers (td t (snd (TclCreateAbsoluteTimerHandler k t new p c s))) ps"
    using pending_create [OF assms(2,3), of ?h] td by auto
  moreover have "\<not> TCL_TIME_BEFORE (timer_time h) time" if "h \<in> set (insert_timer ?h ?hs)" "lastTimerId (td t s) < timer_token h" for h
    using that pending_token [OF assms(2), of h] assms(4) by (auto simp: insert_timer_set)
  ultimately show ?thesis using td by (simp add: timers_later_def)
qed

lemma delete_later:
  assumes "pending_timers (td t s) ps"
  shows "timers_later time (td t s) (td t (Tcl_DeleteTimerHandler k t token s))"
proof -
  have sub: "subseq (delete_timer token hs) hs" for hs by (induction hs) (auto intro: list_emb_Cons)
  then have "subseq (filter (\<lambda>h. timer_token h \<le> lastTimerId (td t s)) (delete_timer token (firstTimerHandlerPtr (td t s))))
      (firstTimerHandlerPtr (td t s))" using subseq_filter_left subseq_order.trans by blast
  moreover have "\<not> TCL_TIME_BEFORE (timer_time h) time"
    if "h \<in> set (delete_timer token (firstTimerHandlerPtr (td t s)))" "lastTimerId (td t s) < timer_token h" for h
  proof -
    have m: "h \<in> set (firstTimerHandlerPtr (td t s))" using list_emb_set [OF sub that(1)] by blast
    show ?thesis using pending_token [OF assms m] that(2) by linarith
  qed
  ultimately show ?thesis using pending_delete [OF assms] td_Delete [OF assms, of k token]
    by (auto simp: timers_later_def)
qed

lemma DoWhenIdle_later:
  assumes "idle_wf (td t s)" "idle_address k (InitTimer k t s) \<notin> fst ` set (idleList (td t s))" "platform k"
  shows "\<exists>s'. Tcl_DoWhenIdle k t p c s = Some s' \<and> idle_later (td t s) (td t s')"
  using DoWhenIdle_append [OF assms, of p c] idle_wf_append [OF assms(1,2)]
  by (auto simp: idle_later_def)

lemma CancelIdle_later: "idle_wf (td t s) \<Longrightarrow> idle_later (td t s) (td t (Tcl_CancelIdleCall k t p c s))"
proof -
  assume w: "idle_wf (td t s)"
  let ?P = "\<lambda>x. \<not> (idle_proc (snd x) = p \<and> idle_clientData (snd x) = c)" and ?g = "\<lambda>x. cell_gen x < idleGeneration (td t s)"
  have "filter ?g (filter ?P xs) = filter ?P (filter ?g xs)" for xs by (simp only: filter_filter conj_commute)
  then have "subseq (filter ?g (filter ?P xs)) (filter ?g xs)" for xs by (simp only: subseq_filter_left)
  then show ?thesis
    using idle_wf_filter [OF w refl, of ?P] CancelIdle_filter [OF w refl, of k p c] by (simp only: idle_later_def) simp
qed


lemma platform_user: "(\<And>tm s. Tcl_SetTimer (notifier k) tm s = s) \<Longrightarrow> platform k"
proof -
  assume a: "\<And>tm s. Tcl_SetTimer (notifier k) tm s = s"
  have "\<exists>u. s = s\<lparr>world := (world s)\<lparr>user := u\<rparr>\<rparr>" for s :: "'a system" by (intro exI [of _ "user (world s)"]) simp
  then show "platform k" by (simp add: platform_def own_user_def a)
qed

text \<open>A program whose procedures record their argument, with a clock that stands at five seconds.\<close>

definition example_timers :: "nat list timer_calls" where
  "example_timers = \<lparr>
     notifier = \<lparr>EventProc = (\<lambda>p e fl s. (0, s)), EventSetupProc = (\<lambda>p c fl s. s), EventCheckProc = (\<lambda>p c fl s. s),
       Tcl_AsyncReady = (\<lambda>s. False), Tcl_AsyncInvoke = (\<lambda>s. s), TclServiceIdle = (\<lambda>s. (0, s)),
       Tcl_InitNotifier = (\<lambda>s. (0, s)), Tcl_FinalizeNotifier = (\<lambda>h s. s), Tcl_WaitForEvent = (\<lambda>tm s. (0, s)),
       Tcl_SetTimer = (\<lambda>tm s. s), Tcl_ServiceModeHook = (\<lambda>m s. s), Tcl_AlertNotifier = (\<lambda>h s. s)\<rparr>,
     Tcl_GetTime = (\<lambda>u. (\<lparr>sec = 5, usec = 0\<rparr>, u)),
     TimerProc = (\<lambda>p c s. Some (s\<lparr>world := (world s)\<lparr>user := c # user (world s)\<rparr>\<rparr>)),
     IdleProc = (\<lambda>p c s. Some (s\<lparr>world := (world s)\<lparr>user := c # user (world s)\<rparr>\<rparr>)),
     event_address = (\<lambda>s. 7), source_address = (\<lambda>s. 1), idle_address = (\<lambda>s. Suc (sum_list (map fst (idleList (td 0 s))))),
     TimerSetupProc_ptr = 20, TimerCheckProc_ptr = 21, TimerHandlerEventProc_ptr = 22\<rparr>"

definition example_system :: "TimerData \<Rightarrow> nat list system" where
  "example_system d = \<lparr>events = (\<lambda>_. None),
     sources = (\<lambda>_. None)(1 \<mapsto> \<lparr>setupProc = Some 20, checkProc = Some 21, source_clientData = 0, source_nextPtr = None\<rparr>),
     tsd = (\<lambda>_. zero_data\<lparr>firstEventSourcePtr := Some 1, inTraversal := True\<rparr>), firstNotifierPtr = None,
     world = \<lparr>timers = (\<lambda>_. Some d), user = []\<rparr>\<rparr>"

lemma example_platform: "platform example_timers"
  by (rule platform_user) (simp add: example_timers_def)

lemma td_example [simp]: "td t (example_system d) = d"
  by (simp add: td_def example_system_def)

text \<open>
  C32. The timers of a thread are kept in the order of their times, those for the same time in the
  order of their creation: after any sequence of creations and deletions the chain is the stable
  sort by time of the timers that were created and not deleted, each with the token it was given.
\<close>

theorem timers_by_time:
  assumes "platform k" "td t s = zero_timers" "int (length ops) \<le> INT_MAX"
  shows "firstTimerHandlerPtr (td t (fold (run_op k t) ops s)) = sort_key time_key (fst (fold abs_op ops ([], 0)))"
proof -
  have "pending_timers (td t s) []" using assms(2) by (simp add: pending_timers_def zero_timers_def INT_MAX_def)
  from run_ops_pending [OF assms(1) this, of ops] show ?thesis
    using assms(2,3) by (simp add: pending_timers_def zero_timers_def)
qed

theorem timers_by_time_witness:
  "map timer_clientData (firstTimerHandlerPtr (td 0 (fold (run_op example_timers 0)
      [create_timer \<lparr>sec = 9, usec = 0\<rparr> 1 10, create_timer \<lparr>sec = 2, usec = 0\<rparr> 1 11, create_timer \<lparr>sec = 9, usec = 0\<rparr> 1 12,
       create_timer \<lparr>sec = 4, usec = 5\<rparr> 1 13, remove_timer 2] (example_system zero_timers)))) = [13, 10, 12]"
proof -
  let ?ops = "[create_timer \<lparr>sec = 9, usec = 0\<rparr> 1 10, create_timer \<lparr>sec = 2, usec = 0\<rparr> 1 11, create_timer \<lparr>sec = 9, usec = 0\<rparr> 1 12,
       create_timer \<lparr>sec = 4, usec = 5\<rparr> 1 13, remove_timer 2]"
  have "int (length ?ops) \<le> INT_MAX" by (simp add: INT_MAX_def)
  from timers_by_time [OF example_platform td_example this, of 0] show ?thesis
    by (simp add: time_key_def del: fold.simps) (simp add: time_key_def less_eq_prod_def)
qed

lemma due_timers_step:
  assumes "platform k" "leaves_timers k t" "pending_timers (td t s) ps" "flags AND TCL_TIMER_EVENTS \<noteq> 0"
    "get_time k (set_td t (\<lambda>d. d\<lparr>timerPending := False\<rparr>) (InitTimer k t s)) = (now, s1)"
  shows "\<exists>s2. call_timers k t (sort_key time_key (filter (\<lambda>h. \<not> TCL_TIME_BEFORE now (timer_time h)) ps)) s1 = Some s2
    \<and> TimerHandlerEventProc k t flags s = Some (1, TimerSetupProc k t TCL_TIMER_EVENTS s2)
    \<and> td t s2 = (td t s)\<lparr>timerPending := False, firstTimerHandlerPtr := sort_key time_key (filter (\<lambda>h. TCL_TIME_BEFORE now (timer_time h)) ps)\<rparr>"
proof -
  let ?due = "\<lambda>h. \<not> TCL_TIME_BEFORE now (timer_time h)"
  have td1: "td t s1 = (td t s)\<lparr>timerPending := False\<rparr>" using get_time_td [OF assms(5), of t] by simp
  have f: "firstTimerHandlerPtr (td t s) = sort_key time_key ps" using assms(3) by (simp add: pending_timers_def)
  have "sorted (map time_key (sort_key time_key ps))" by simp
  from sorted_due_split [OF this, of now] have split: "firstTimerHandlerPtr (td t s1) =
      sort_key time_key (filter ?due ps) @ sort_key time_key (filter (\<lambda>h. TCL_TIME_BEFORE now (timer_time h)) ps)"
    using f td1 by (simp add: filter_sort)
  have n: "lastTimerId (td t s) \<le> INT_MAX" using assms(3) by (simp add: pending_timers_def)
  have tok: "\<forall>h\<in>set ps. 0 \<le> timer_token h \<and> timer_token h \<le> lastTimerId (td t s)"
    using assms(3) by (auto simp: pending_timers_def)
  have "\<forall>h\<in>set (sort_key time_key (filter ?due ps)). \<not> TCL_TIME_BEFORE now (timer_time h)"
    "\<forall>h\<in>set (sort_key time_key (filter ?due ps)). 0 \<le> timer_token h \<and> timer_token h \<le> lastTimerId (td t s)"
    "\<forall>h\<in>set (sort_key time_key (filter (\<lambda>h. TCL_TIME_BEFORE now (timer_time h)) ps)). TCL_TIME_BEFORE now (timer_time h)"
    using tok by simp_all
  note called = fire_calls [OF assms(2) split this(1,2) n this(3)]
  obtain s2 where s2: "fire_timers k t now (lastTimerId (td t s)) s1 = Some s2"
    "call_timers k t (sort_key time_key (filter ?due ps)) s1 = Some s2"
    "td t s2 = (td t s1)\<lparr>firstTimerHandlerPtr := sort_key time_key (filter (\<lambda>h. TCL_TIME_BEFORE now (timer_time h)) ps)\<rparr>"
    using called by blast
  then have "TimerHandlerEventProc k t flags s = Some (1, TimerSetupProc k t TCL_TIMER_EVENTS s2)"
    using assms(4,5) by (simp add: TimerHandlerEventProc_def Let_def)
  then show ?thesis using s2(2,3) td1 by (intro exI [of _ s2]) simp
qed


definition example_timer :: "int \<Rightarrow> int \<Rightarrow> nat \<Rightarrow> TimerHandler" where
  "example_timer time token data = \<lparr>timer_time = \<lparr>sec = time, usec = 0\<rparr>, timer_proc = 1, timer_clientData = data, timer_token = token\<rparr>"

definition example_pending :: "TimerHandler list \<Rightarrow> TimerData" where
  "example_pending ps = zero_timers\<lparr>lastTimerId := 9, firstTimerHandlerPtr := sort_key time_key ps\<rparr>"

abbreviation three_timers :: "TimerHandler list" where
  "three_timers \<equiv> [example_timer 5 1 10, example_timer 8 2 11, example_timer 3 4 12]"

lemma example_pending_simps [simp]:
  "idleList (example_pending ps) = []" "\<not> timerPending (example_pending ps)" "lastTimerId (example_pending ps) = 9"
  by (simp_all add: example_pending_def zero_timers_def)

lemma three_timers_pending: "pending_timers (example_pending three_timers) three_timers"
  by (simp add: pending_timers_def example_pending_def zero_timers_def example_timer_def INT_MAX_def)

lemma example_time: "get_time example_timers s = (\<lparr>sec = 5, usec = 0\<rparr>, s)"
  by (simp add: get_time_def example_timers_def)

lemma all_timer_events: "TCL_ALL_EVENTS AND TCL_TIMER_EVENTS \<noteq> 0"
  by (simp add: TCL_TIMER_EVENTS_def notify_constants)

text \<open>
  C33. A pass over the timers ends although the procedures may delete timers and create timers again
  for the very moment of the pass: every timer that was pending and due when the pass began has been
  called or deleted, and timers created in the pass do not keep it going.  The procedures return, do
  not create timers for times before that of the pass (\<open>Tcl_CreateTimerHandler\<close> does not, with a
  delay that is not negative and a clock that does not go back), each creates at most \<open>B\<close>, and the
  thread has that many identifiers left for each pending timer, so that \<open>lastTimerId\<close> does not wrap.
\<close>

theorem timer_pass_ends:
  assumes "platform k" "timer_procs k t now B" "pending_timers (td t s) ps" "flags AND TCL_TIMER_EVENTS \<noteq> 0"
    "lastTimerId (td t s) + int (B * length ps) \<le> INT_MAX"
    "get_time k (set_td t (\<lambda>d. d\<lparr>timerPending := False\<rparr>) (InitTimer k t s)) = (now, s1)"
  shows "\<exists>s'. TimerHandlerEventProc k t flags s = Some (1, s')
    \<and> (\<forall>h\<in>set (firstTimerHandlerPtr (td t s')). timer_token h \<le> lastTimerId (td t s) \<longrightarrow>
         h \<in> set ps \<and> TCL_TIME_BEFORE now (timer_time h))"
proof -
  let ?d = "td t s1"
  have td1: "td t s1 = (td t s)\<lparr>timerPending := False\<rparr>" using get_time_td [OF assms(6), of t] by simp
  have p: "pending_timers ?d ps" using assms(3) td1 by (simp add: pending_timers_def)
  have "mset (firstTimerHandlerPtr ?d) = mset ps" using p by (simp add: pending_timers_def)
  then have "old_timers ?d ?d \<le> length ps" unfolding old_timers_def using length_filter_le mset_eq_length by metis
  then have "int (B * old_timers ?d ?d) \<le> int (B * length ps)" by (simp only: of_nat_le_iff mult_le_mono2)
  then have "lastTimerId ?d + int (B * old_timers ?d ?d) \<le> INT_MAX" using assms(5) td1 by simp
  then have "timer_loop_inv k t now B ?d s1" using assms(2) p timers_later_refl by (auto simp: timer_loop_inv_def)
  from timer_loop.loop_ends [OF this] obtain s2 where s2: "fire_timers k t now (lastTimerId ?d) s1 = Some s2"
    "timer_loop_inv k t now B ?d s2"
    "\<forall>h hs. firstTimerHandlerPtr (td t s2) = h # hs \<longrightarrow> TCL_TIME_BEFORE now (timer_time h) \<or> lastTimerId ?d < timer_token h" by blast
  have l: "timers_later now ?d (td t s2)" using s2(2) by (simp add: timer_loop_inv_def)
  have sub: "subseq (filter (\<lambda>h. timer_token h \<le> lastTimerId ?d) (firstTimerHandlerPtr (td t s2))) (firstTimerHandlerPtr ?d)"
    using l by (simp add: timers_later_def)
  have "h \<in> set ps \<and> TCL_TIME_BEFORE now (timer_time h)"
    if h: "h \<in> set (firstTimerHandlerPtr (td t s2))" "timer_token h \<le> lastTimerId (td t s)" for h
  proof
    have h': "timer_token h \<le> lastTimerId ?d" using h(2) td1 by simp
    then have "h \<in> set (filter (\<lambda>h. timer_token h \<le> lastTimerId ?d) (firstTimerHandlerPtr (td t s2)))" using h(1) by simp
    then have "h \<in> set (firstTimerHandlerPtr ?d)" using list_emb_set [OF sub] by blast
    then show "h \<in> set ps" using p by (simp add: pending_timers_def)
    show "TCL_TIME_BEFORE now (timer_time h)" by (rule timer_loop_complete [OF p l s2(3) h(1) h'])
  qed
  moreover have "TimerHandlerEventProc k t flags s = Some (1, TimerSetupProc k t TCL_TIMER_EVENTS s2)"
    using assms(4,6) s2(1) td1 by (simp add: TimerHandlerEventProc_def Let_def)
  ultimately show ?thesis using assms(1) by auto
qed

text \<open>A program whose timers are created again for the same moment when they are called.\<close>

definition rearming :: "nat list timer_calls" where
  "rearming = example_timers\<lparr>TimerProc := \<lambda>p c s. Some (snd (Tcl_CreateTimerHandler example_timers 0 0 p c s))\<rparr>"

theorem timer_pass_ends_witness:
  "\<exists>s'. TimerHandlerEventProc rearming 0 TCL_ALL_EVENTS (example_system (example_pending three_timers)) = Some (1, s')
    \<and> (\<forall>h\<in>set (firstTimerHandlerPtr (td 0 s')). timer_token h \<le> 9 \<longrightarrow> timer_clientData h = 11)"
proof -
  let ?s = "example_system (example_pending three_timers)" and ?now = "\<lparr>sec = 5, usec = 0\<rparr>"
  have k: "platform rearming" by (rule platform_user) (simp add: rearming_def example_timers_def)
  have "\<not> TCL_TIME_BEFORE ?now ?now" by (simp add: TCL_TIME_BEFORE_def)
  note later = create_later [OF example_platform _ _ this]
  have again: "TimerProc rearming p c s = Some (snd (TclCreateAbsoluteTimerHandler example_timers 0 ?now p c s))" for p c s
    by (simp add: rearming_def Tcl_CreateTimerHandler_def example_time after_ms_def)
  have c: "timer_procs rearming 0 ?now 1"
    unfolding timer_procs_def
  proof (intro allI impI, elim conjE exE)
    fix p c and s :: "nat list system" and ps
    assume ps: "pending_timers (td 0 s) ps" and n: "lastTimerId (td 0 s) + int 1 \<le> INT_MAX"
    have "0 \<le> lastTimerId (td 0 s)" using ps by (simp add: pending_timers_def)
    then have "lastTimerId (td 0 (snd (TclCreateAbsoluteTimerHandler example_timers 0 ?now p c s))) = lastTimerId (td 0 s) + 1"
      using td_CreateAbsolute(1) [OF example_platform] n by simp
    then show "\<exists>s'. TimerProc rearming p c s = Some s' \<and> timers_later ?now (td 0 s) (td 0 s')
        \<and> lastTimerId (td 0 s') \<le> lastTimerId (td 0 s) + int 1"
      using again later [OF ps, of p c] n by simp
  qed
  have p: "pending_timers (td 0 ?s) three_timers" using three_timers_pending by simp
  have m: "lastTimerId (td 0 ?s) + int (1 * length three_timers) \<le> INT_MAX" by (simp add: INT_MAX_def)
  have g: "get_time rearming s = (?now, s)" for s by (simp add: get_time_def rearming_def example_timers_def)
  obtain s' where s': "TimerHandlerEventProc rearming 0 TCL_ALL_EVENTS ?s = Some (1, s')"
    "\<forall>h\<in>set (firstTimerHandlerPtr (td 0 s')). timer_token h \<le> lastTimerId (td 0 ?s) \<longrightarrow> h \<in> set three_timers \<and> TCL_TIME_BEFORE ?now (timer_time h)"
    using timer_pass_ends [OF k c p all_timer_events m g] by blast
  have "timer_clientData h = 11" if "h \<in> set three_timers" "TCL_TIME_BEFORE ?now (timer_time h)" for h
    using that by (auto simp: example_timer_def TCL_TIME_BEFORE_def)
  then show ?thesis using s' by (auto simp: example_pending_def zero_timers_def)
qed

text \<open>
  C34. \<open>TclServiceIdle\<close> ends whatever the idle procedures do to the list, add handlers included: when
  it returns 1, every handler that was in the list has been called or cancelled, only handlers
  added meanwhile are left, and \<open>lastIdlePtr\<close> points to the last of them.
\<close>

theorem idle_pass_ends:
  assumes "platform k" "idle_procs k t" "idle_wf (td t s)" "idleList (td t s) \<noteq> []" "idleGeneration (td t s) < INT_MAX"
  shows "\<exists>s'. ServiceIdle k t s = Some (1, s') \<and> idle_wf (td t s')
    \<and> (\<forall>x\<in>set (idleList (td t s')). idleGeneration (td t s) < generation (snd x))"
proof -
  let ?old = "idleGeneration (td t s)"
  let ?s = "set_td t (\<lambda>d. d\<lparr>idleGeneration := int32 (?old + 1)\<rparr>) (InitTimer k t s)"
  have g: "0 \<le> ?old" "int32 (?old + 1) = ?old + 1"
    using assms(3,5) by (auto simp: idle_wf_def INT_MAX_def intro!: int32_id)
  have "idle_loop_inv k t ?old ?s" using assms(2,3,5) g by (auto simp: idle_loop_inv_def idle_wf_def)
  from idle_loop.loop_ends [OF this] obtain s2 where s2: "service_idle k t ?old ?s = Some s2" "idle_loop_inv k t ?old s2"
    "\<forall>x xs. idleList (td t s2) = x # xs \<longrightarrow> ?old < cell_gen x" by blast
  have w: "idle_wf (td t s2)" using s2(2) by (simp add: idle_loop_inv_def)
  have "?old < cell_gen x" if "x \<in> set (idleList (td t s2))" for x
    using that s2(3) w by (cases "idleList (td t s2)") (auto simp: idle_wf_def)
  moreover have "ServiceIdle k t s = Some (1, if idleList (td t s2) \<noteq> [] then Tcl_SetMaxBlockTime (notifier k) t \<lparr>sec = 0, usec = 0\<rparr> s2 else s2)"
    using assms(4) s2(1) by (simp add: ServiceIdle_def Let_def)
  ultimately show ?thesis using assms(1) w by auto
qed


text \<open>A program whose idle handlers ask to be called again.\<close>

definition requeueing :: "nat list timer_calls" where
  "requeueing = example_timers\<lparr>IdleProc := \<lambda>p c s. Tcl_DoWhenIdle example_timers 0 p c s\<rparr>"

definition example_idle :: TimerData where
  "example_idle = zero_timers\<lparr>idleList := [(3, \<lparr>idle_proc = 1, idle_clientData = 10, generation = 0\<rparr>),
     (4, \<lparr>idle_proc = 1, idle_clientData = 11, generation = 0\<rparr>)], lastIdlePtr := Some 4\<rparr>"

theorem idle_pass_ends_witness:
  "\<exists>s'. ServiceIdle requeueing 0 (example_system example_idle) = Some (1, s') \<and> idle_wf (td 0 s')
    \<and> (\<forall>x\<in>set (idleList (td 0 s')). 0 < generation (snd x))"
proof -
  let ?s = "example_system example_idle"
  have k: "platform requeueing" by (rule platform_user) (simp add: requeueing_def example_timers_def)
  have "Suc (sum_list (map fst xs)) \<notin> fst ` set xs" for xs :: "(nat \<times> IdleHandler) list"
    using member_le_sum_list [of _ "map fst xs"] by fastforce
  then have "idle_address example_timers (InitTimer example_timers 0 s) \<notin> fst ` set (idleList (td 0 s))" for s
    using td_InitTimer [of 0 example_timers 0 s] by (simp add: example_timers_def del: td_InitTimer)
  from DoWhenIdle_later [OF _ this example_platform] have c: "idle_procs requeueing 0"
    by (simp add: idle_procs_def requeueing_def)
  have w: "idle_wf (td 0 ?s)" "idleList (td 0 ?s) \<noteq> []" "idleGeneration (td 0 ?s) < INT_MAX"
    by (simp_all add: idle_wf_def example_idle_def zero_timers_def INT_MAX_def)
  from idle_pass_ends [OF k c w] show ?thesis by (simp add: example_idle_def zero_timers_def)
qed

text \<open>Times in microseconds.\<close>

definition micros :: "Tcl_Time \<Rightarrow> int" where
  "micros time = sec time * 1000000 + usec time"

definition normalized :: "Tcl_Time \<Rightarrow> bool" where
  "normalized time \<longleftrightarrow> 0 \<le> usec time \<and> usec time < 1000000"

lemma before_micros: "normalized a \<Longrightarrow> normalized b \<Longrightarrow> TCL_TIME_BEFORE a b \<longleftrightarrow> micros a < micros b"
  by (auto simp: TCL_TIME_BEFORE_def micros_def normalized_def)

lemma time_left_micros:
  assumes "normalized first" "normalized now"
  shows "micros (time_left first now) = max 0 (micros first - micros now)" "normalized (time_left first now)"
  using assms by (auto simp: time_left_def micros_def normalized_def Let_def)

lemma after_ms_micros:
  assumes "normalized now" "0 \<le> ms"
  shows "micros (after_ms ms now) = micros now + ms * 1000" "normalized (after_ms ms now)"
proof -
  have m: "ms = 1000 * (ms div 1000) + ms mod 1000" "0 \<le> ms mod 1000" "ms mod 1000 < 1000" by simp_all
  have s: "sgn ms * (\<bar>ms\<bar> div 1000) = ms div 1000" "sgn ms * (\<bar>ms\<bar> mod 1000) = ms mod 1000"
    using assms(2) by (cases "ms = 0"; simp)+
  have e: "after_ms ms now = (if usec now + ms mod 1000 * 1000 \<ge> 1000000
      then \<lparr>sec = sec now + ms div 1000 + 1, usec = usec now + ms mod 1000 * 1000 - 1000000\<rparr>
      else \<lparr>sec = sec now + ms div 1000, usec = usec now + ms mod 1000 * 1000\<rparr>)"
    unfolding after_ms_def Let_def s by simp
  have q: "ms div 1000 * 1000000 + ms mod 1000 * 1000 = ms * 1000" using m(1) by linarith
  have u: "0 \<le> usec now" "usec now < 1000000" using assms(1) by (simp_all add: normalized_def)
  show "micros (after_ms ms now) = micros now + ms * 1000" unfolding e using q u by (auto simp: micros_def)
  show "normalized (after_ms ms now)" unfolding e normalized_def using m(2,3) u by auto
qed

lemma micros_zero:
  assumes "normalized b" "micros b = 0"
  shows "sec b = 0 \<and> usec b = 0"
proof -
  have u: "0 \<le> usec b" "usec b < 1000000" "sec b * 1000000 + usec b = 0" using assms by (auto simp: normalized_def micros_def)
  have "sec b < 1" "- 1 < sec b" using u by linarith+
  then have z: "sec b = 0" by linarith
  then have "usec b = 0" using u(3) by simp
  with z show ?thesis ..
qed

lemma time_left_zero:
  assumes "normalized first" "normalized now"
  shows "sec (time_left first now) = 0 \<and> usec (time_left first now) = 0 \<longleftrightarrow> \<not> TCL_TIME_BEFORE now first"
proof -
  have "sec (time_left first now) = 0 \<and> usec (time_left first now) = 0 \<longleftrightarrow> micros (time_left first now) = 0"
    using micros_zero [OF time_left_micros(2) [OF assms]] by (auto simp: micros_def)
  then show ?thesis using time_left_micros(1) [OF assms] before_micros [OF assms(2,1)] by auto
qed


text \<open>
  C35. The event source of the timers.  While sources are set up, \<open>TimerSetupProc\<close> lets the notifier
  wait until the first timer is due and no longer, and not at all if one is due or an event is
  already queued; \<open>TimerCheckProc\<close> queues one event, at the tail, when the first timer is due and
  none is queued, and nothing otherwise.
\<close>

theorem timer_source:
  assumes "platform k" "timers (world s) t \<noteq> None" "firstTimerHandlerPtr (td t s) = h # hs" "flags AND TCL_TIMER_EVENTS \<noteq> 0"
    "idleList (td t s) = []" "get_time k s = (now, s1)" "normalized now" "normalized (timer_time h)"
    "inTraversal (tsd s t)" "\<not> blockTimeSet (tsd s t)" "queue s t es m" "events s1 (event_address k s') = None"
    "s' = set_td t (\<lambda>d. d\<lparr>timerPending := True\<rparr>) s1"
  shows "blockTimeSet (tsd (TimerSetupProc k t flags s) t)
    \<and> micros (blockTime (tsd (TimerSetupProc k t flags s) t))
        = (if timerPending (td t s) then 0 else max 0 (micros (timer_time h) - micros now))
    \<and> (if TCL_TIME_BEFORE now (timer_time h) \<or> timerPending (td t s) then TimerCheckProc k t flags s = Some s1
       else \<exists>s2. TimerCheckProc k t flags s = Some s2 \<and> queue s2 t (es @ [event_address k s']) m \<and> timerPending (td t s2))"
proof (intro conjI)
  have s1: "s1 = s\<lparr>world := (world s)\<lparr>user := user (world s1)\<rparr>\<rparr>"
    using assms(6) by (auto simp: get_time_def split: prod.splits)
  have same: "tsd s1 = tsd s" "events s1 = events s" by (subst s1; simp)+
  have td1: "td t s1 = td t s" using get_time_td [OF assms(6)] by simp
  have block: "tsd (Tcl_SetMaxBlockTime (notifier k) t b s0) t = (tsd s0 t)\<lparr>blockTime := b, blockTimeSet := True\<rparr>"
    if "inTraversal (tsd s0 t)" "\<not> blockTimeSet (tsd s0 t)" for b and s0 :: "'a system"
    using that by (simp add: Tcl_SetMaxBlockTime_def Let_def)
  have set: "tsd (TimerSetupProc k t flags s) t = (tsd s t)\<lparr>blockTimeSet := True,
      blockTime := (if timerPending (td t s) then \<lparr>sec = 0, usec = 0\<rparr> else time_left (timer_time h) now)\<rparr>"
    using assms(2-6,9,10) same block by (simp add: TimerSetupProc_def Let_def)
  show "blockTimeSet (tsd (TimerSetupProc k t flags s) t)" unfolding set by simp
  show "micros (blockTime (tsd (TimerSetupProc k t flags s) t))
      = (if timerPending (td t s) then 0 else max 0 (micros (timer_time h) - micros now))"
    unfolding set using time_left_micros(1) [OF assms(8,7)] by (simp add: micros_def)
  note due = time_left_zero [OF assms(8,7)]
  show "if TCL_TIME_BEFORE now (timer_time h) \<or> timerPending (td t s) then TimerCheckProc k t flags s = Some s1
       else \<exists>s2. TimerCheckProc k t flags s = Some s2 \<and> queue s2 t (es @ [event_address k s']) m \<and> timerPending (td t s2)"
  proof (cases "TCL_TIME_BEFORE now (timer_time h) \<or> timerPending (td t s)")
    case True
    then show ?thesis using assms(2-4,6) td1 due by (auto simp: TimerCheckProc_def Let_def)
  next
    case False
    let ?e = "event_address k s'"
    let ?s = "s'\<lparr>events := (events s')(?e \<mapsto> \<lparr>event_proc = Some (TimerHandlerEventProc_ptr k), event_nextPtr = None\<rparr>)\<rparr>"
    have ev: "events s' = events s" "tsd s' = tsd s" using same assms(13) by simp_all
    have "?e \<notin> set es" using assms(11,12) same queue_allocated by metis
    then have q: "queue ?s t es m" using assms(11) ev by (simp add: queue_def)
    obtain s2 where s2: "QueueEvent t ?e TCL_QUEUE_TAIL ?s = Some s2" "queue s2 t (es @ [?e]) m"
      using queue_tail [OF q, of ?e] \<open>?e \<notin> set es\<close> by auto
    have "TimerCheckProc k t flags s = QueueEvent t ?e TCL_QUEUE_TAIL ?s"
      using False assms(2-4,6,13) td1 due by (simp add: TimerCheckProc_def Let_def Tcl_QueueEvent_def)
    moreover have "world s2 = world ?s" using QueueEvent_only [OF q s2(1)] by blast
    then have "td t s2 = td t s'" by (simp add: td_def)
    then have "timerPending (td t s2)" using assms(13) by simp
    ultimately show ?thesis using False s2 by auto
  qed
qed


lemma example_empty_queue: "queue (example_system d) t [] 0"
  by (simp add: queue_def example_system_def zero_data_def)

theorem timer_source_witness:
  "\<exists>s2. TimerCheckProc example_timers 0 TCL_ALL_EVENTS (example_system (example_pending three_timers)) = Some s2
    \<and> queue s2 0 [7] 0 \<and> timerPending (td 0 s2)"
proof -
  let ?s = "example_system (example_pending three_timers)" and ?now = "\<lparr>sec = 5, usec = 0\<rparr>"
  have f: "firstTimerHandlerPtr (td 0 ?s) = example_timer 3 4 12 # [example_timer 5 1 10, example_timer 8 2 11]"
    by (simp add: example_pending_def example_timer_def time_key_def less_eq_prod_def)
  have d: "timers (world ?s) 0 \<noteq> None" "idleList (td 0 ?s) = []" "inTraversal (tsd ?s 0)" "\<not> blockTimeSet (tsd ?s 0)"
    by (simp_all add: td_example) (simp_all add: example_system_def zero_data_def)
  have e: "events ?s x = None" for x by (simp add: example_system_def)
  have n: "normalized ?now" "normalized (timer_time (example_timer 3 4 12))" by (simp_all add: normalized_def example_timer_def)
  have "\<not> TCL_TIME_BEFORE ?now (timer_time (example_timer 3 4 12))" by (simp add: example_timer_def TCL_TIME_BEFORE_def)
  moreover have "\<not> timerPending (td 0 ?s)" by simp
  moreover have "event_address example_timers s = 7" for s by (simp add: example_timers_def)
  ultimately show ?thesis
    using timer_source [OF example_platform d(1) f all_timer_events d(2) example_time n d(3,4) example_empty_queue e refl] by simp
qed


section \<open>Timers in the event loop\<close>

text \<open>
  What the program has done is read off its own data: \<open>log\<close> is a part of it that the clock and the
  platform leave alone, and that a timer procedure changes by \<open>act\<close>.
\<close>

definition user_log :: "'w timer_calls \<Rightarrow> ('w \<Rightarrow> 'l) \<Rightarrow> (nat \<Rightarrow> nat \<Rightarrow> 'l \<Rightarrow> 'l) \<Rightarrow> bool" where
  "user_log k log act \<longleftrightarrow> (\<forall>u. log (snd (Tcl_GetTime k u)) = log u)
     \<and> (\<forall>tm s. log (user (world (Tcl_SetTimer (notifier k) tm s))) = log (user (world s)))
     \<and> (\<forall>tm s. log (user (world (snd (Tcl_WaitForEvent (notifier k) tm s)))) = log (user (world s)))
     \<and> (\<forall>p c s s'. TimerProc k p c s = Some s' \<longrightarrow> log (user (world s')) = act p c (log (user (world s))))"

abbreviation run_log :: "(nat \<Rightarrow> nat \<Rightarrow> 'l \<Rightarrow> 'l) \<Rightarrow> TimerHandler list \<Rightarrow> 'l \<Rightarrow> 'l" where
  "run_log act \<equiv> fold (\<lambda>h. act (timer_proc h) (timer_clientData h))"

lemma log_get_time: "user_log k log act \<Longrightarrow> get_time k s = (now, s') \<Longrightarrow> log (user (world s')) = log (user (world s))"
  by (auto simp: user_log_def get_time_def split: prod.splits) (metis snd_conv)

lemma log_SetMaxBlockTime:
  "user_log k log act \<Longrightarrow> log (user (world (Tcl_SetMaxBlockTime (notifier k) t b s))) = log (user (world s))"
  by (simp add: user_log_def Tcl_SetMaxBlockTime_def Let_def)

lemma log_TimerSetupProc:
  assumes "user_log k log act"
  shows "log (user (world (TimerSetupProc k t flags s))) = log (user (world s))"
proof -
  have "log (user (world (InitTimer k t s))) = log (user (world s))"
    by (simp add: InitTimer_def Tcl_CreateEventSource_def set_td_def)
  then show ?thesis
    using log_SetMaxBlockTime [OF assms] log_get_time [OF assms, of "InitTimer k t s"]
    by (auto simp: TimerSetupProc_def Let_def split: prod.split)
qed

lemma log_call_timers:
  assumes "user_log k log act"
  shows "call_timers k t hs s = Some s' \<Longrightarrow> log (user (world s')) = run_log act hs (log (user (world s)))"
proof (induction hs arbitrary: s)
  case (Cons h hs)
  let ?s = "set_td t (\<lambda>d. d\<lparr>firstTimerHandlerPtr := tl (firstTimerHandlerPtr d)\<rparr>) s"
  obtain s1 where s1: "TimerProc k (timer_proc h) (timer_clientData h) ?s = Some s1" "call_timers k t hs s1 = Some s'"
    using Cons.prems by (auto split: bind_splits)
  have "log (user (world s1)) = act (timer_proc h) (timer_clientData h) (log (user (world ?s)))"
    using assms s1(1) unfolding user_log_def by blast
  then show ?case using Cons.IH [OF s1(2)] by simp
qed simp

text \<open>
  The notifier with the routines of this theory installed for thread \<open>t\<close>: the two procedures of the
  event source, the event procedure and the idle handlers.  A routine that does not return has no
  result that the notifier could use; the theorem below shows that they do.
\<close>

definition timer_notifier :: "'w timer_calls \<Rightarrow> nat \<Rightarrow> 'w timer_world calls" where
  "timer_notifier k t = (notifier k)\<lparr>
     EventSetupProc := (\<lambda>p c flags s. if p = TimerSetupProc_ptr k then TimerSetupProc k t flags s
       else EventSetupProc (notifier k) p c flags s),
     EventCheckProc := (\<lambda>p c flags s. if p = TimerCheckProc_ptr k then the (TimerCheckProc k t flags s)
       else EventCheckProc (notifier k) p c flags s),
     EventProc := (\<lambda>p e flags s. if p = TimerHandlerEventProc_ptr k then the (TimerHandlerEventProc k t flags s)
       else EventProc (notifier k) p e flags s),
     TclServiceIdle := (\<lambda>s. the (ServiceIdle k t s))\<rparr>"

text \<open>Procedures and a platform that only change their own data.\<close>

definition user_procs :: "'w timer_calls \<Rightarrow> bool" where
  "user_procs k \<longleftrightarrow> platform k \<and> (\<forall>p c s. \<exists>u. TimerProc k p c s = Some (s\<lparr>world := (world s)\<lparr>user := u\<rparr>\<rparr>))
     \<and> (\<forall>tm s. \<exists>r u. Tcl_WaitForEvent (notifier k) tm s = (r, s\<lparr>world := (world s)\<lparr>user := u\<rparr>\<rparr>) \<and> 0 \<le> r)
     \<and> (\<forall>s. \<not> Tcl_AsyncReady (notifier k) s)"

definition lasting :: "ThreadSpecificData \<Rightarrow> ThreadSpecificData" where
  "lasting d = d\<lparr>blockTime := \<lparr>sec = 0, usec = 0\<rparr>, blockTimeSet := False, inTraversal := False\<rparr>"

definition quiet :: "nat \<Rightarrow> 'w system \<Rightarrow> 'w system \<Rightarrow> bool" where
  "quiet t s s' \<longleftrightarrow> events s' = events s \<and> sources s' = sources s \<and> timers (world s') = timers (world s)
     \<and> lasting (tsd s' t) = lasting (tsd s t)"

lemma quiet_trans: "quiet t s s1 \<Longrightarrow> quiet t s1 s2 \<Longrightarrow> quiet t s s2"
  by (simp add: quiet_def)

lemma quiet_id: "quiet t s s"
  by (simp add: quiet_def)

lemma quiet_user: "quiet t s (s\<lparr>world := (world s)\<lparr>user := u\<rparr>\<rparr>)"
  by (simp add: quiet_def)

lemma quiet_upd:
  "quiet t s (upd t (\<lambda>d. d\<lparr>blockTime := b, blockTimeSet := f\<rparr>) s)"
  "quiet t s (upd t (\<lambda>d. d\<lparr>blockTimeSet := f\<rparr>) s)" "quiet t s (upd t (\<lambda>d. d\<lparr>inTraversal := tr\<rparr>) s)"
  by (simp_all add: quiet_def lasting_def)

lemma lasting_fields:
  assumes "lasting d' = lasting d"
  shows "firstEventPtr d' = firstEventPtr d" "lastEventPtr d' = lastEventPtr d" "markerEventPtr d' = markerEventPtr d"
    "firstEventSourcePtr d' = firstEventSourcePtr d" "serviceMode d' = serviceMode d"
proof -
  have "firstEventPtr (lasting d') = firstEventPtr (lasting d)" "lastEventPtr (lasting d') = lastEventPtr (lasting d)"
    "markerEventPtr (lasting d') = markerEventPtr (lasting d)" "firstEventSourcePtr (lasting d') = firstEventSourcePtr (lasting d)"
    "serviceMode (lasting d') = serviceMode (lasting d)"
    using assms by simp_all
  then show "firstEventPtr d' = firstEventPtr d" "lastEventPtr d' = lastEventPtr d" "markerEventPtr d' = markerEventPtr d"
    "firstEventSourcePtr d' = firstEventSourcePtr d" "serviceMode d' = serviceMode d" by (simp_all add: lasting_def)
qed

lemma quiet_SetMaxBlockTime:
  assumes "platform k"
  shows "quiet t s (Tcl_SetMaxBlockTime (notifier k) t b s)"
proof -
  obtain u b' f where "Tcl_SetMaxBlockTime (notifier k) t b s
      = upd t (\<lambda>d. d\<lparr>blockTime := b', blockTimeSet := f\<rparr>) s\<lparr>world := (world s)\<lparr>user := u\<rparr>\<rparr>"
    using SetMaxBlockTime_frame [OF assms, of t b s] by blast
  then show ?thesis by (simp add: quiet_def lasting_def)
qed

lemma quiet_get_time: "get_time k s = (now, s') \<Longrightarrow> quiet t s s'"
  by (auto simp: get_time_def quiet_def split: prod.splits)

lemma quiet_TimerSetupProc:
  assumes "platform k" "timers (world s) t \<noteq> None"
  shows "quiet t s (TimerSetupProc k t flags s)"
proof -
  obtain now s1 where g: "get_time k s = (now, s1)" by (cases "get_time k s")
  have "quiet t s (Tcl_SetMaxBlockTime (notifier k) t b s1)" for b
    using quiet_get_time [OF g] quiet_SetMaxBlockTime [OF assms(1)] by (rule quiet_trans)
  then show ?thesis
    using assms g quiet_SetMaxBlockTime [OF assms(1), of t s] quiet_id [of t s]
    by (simp add: TimerSetupProc_def Let_def)
qed

lemma quiet_td: "quiet t s s' \<Longrightarrow> td u s' = td u s"
  by (simp add: quiet_def td_def)

lemma quiet_queue: "quiet t s s' \<Longrightarrow> queue s' t es m = queue s t es m"
  using lasting_fields [of "tsd s' t" "tsd s t"] by (simp add: quiet_def queue_def)

lemma timer_flags:
  assumes "flags AND TCL_TIMER_EVENTS \<noteq> 0"
  shows "flags AND TCL_ALL_EVENTS \<noteq> 0" "flags AND TCL_ALL_EVENTS \<noteq> TCL_IDLE_EVENTS"
proof -
  have "(flags AND TCL_ALL_EVENTS) AND TCL_TIMER_EVENTS = flags AND TCL_TIMER_EVENTS"
    by (simp add: and.assoc TCL_TIMER_EVENTS_def notify_constants)
  then show "flags AND TCL_ALL_EVENTS \<noteq> 0" "flags AND TCL_ALL_EVENTS \<noteq> TCL_IDLE_EVENTS"
    using assms by (auto simp: TCL_TIMER_EVENTS_def notify_constants)
qed


lemma user_leaves: "user_procs k \<Longrightarrow> leaves_timers k t"
  unfolding user_procs_def leaves_timers_def td_def by fastforce

lemma call_timers_frame:
  assumes "user_procs k"
  shows "call_timers k t hs s = Some s' \<Longrightarrow> events s' = events s \<and> sources s' = sources s \<and> tsd s' = tsd s \<and> timers (world s') t \<noteq> None
    \<or> hs = [] \<and> s' = s"
proof (induction hs arbitrary: s)
  case (Cons h hs)
  let ?s = "set_td t (\<lambda>d. d\<lparr>firstTimerHandlerPtr := tl (firstTimerHandlerPtr d)\<rparr>) s"
  obtain u where u: "TimerProc k (timer_proc h) (timer_clientData h) ?s = Some (?s\<lparr>world := (world ?s)\<lparr>user := u\<rparr>\<rparr>)"
    using assms unfolding user_procs_def by blast
  then have "call_timers k t hs (?s\<lparr>world := (world ?s)\<lparr>user := u\<rparr>\<rparr>) = Some s'" using Cons.prems by simp
  from Cons.IH [OF this] show ?case by (auto simp: set_td_def)
qed simp

lemma service_empty: "firstEventPtr (tsd s t) = None \<Longrightarrow> \<not> Tcl_AsyncReady c s \<Longrightarrow> Tcl_ServiceEvent c t flags s = Some (0, s)"
  by (simp add: Tcl_ServiceEvent_def ServiceEvent_loop.simps)

text \<open>The timer event is the only one in the queue.\<close>

lemma service_timer_event:
  assumes k: "user_procs k" and ev: "events s e = Some \<lparr>event_proc = Some (TimerHandlerEventProc_ptr k), event_nextPtr = None\<rparr>"
    and q: "queue s t [e] 0" and p: "pending_timers (td t s) ps" "timers (world s) t \<noteq> None"
    and fl: "flags AND TCL_TIMER_EVENTS \<noteq> 0" and log: "user_log k log act"
  shows "\<exists>s' now. Tcl_ServiceEvent (timer_notifier k t) t flags s = Some (1, s') \<and> queue s' t [] 0
    \<and> log (user (world s')) = run_log act (sort_key time_key (filter (\<lambda>h. \<not> TCL_TIME_BEFORE now (timer_time h)) ps)) (log (user (world s)))
    \<and> (\<exists>u. now = fst (Tcl_GetTime k u)) \<and> serviceMode (tsd s' t) = serviceMode (tsd s t)
    \<and> td t s' = (td t s)\<lparr>timerPending := False, firstTimerHandlerPtr := sort_key time_key (filter (\<lambda>h. TCL_TIME_BEFORE now (timer_time h)) ps)\<rparr>"
proof -
  let ?busy = "s\<lparr>events := (events s)(e \<mapsto> \<lparr>event_proc = None, event_nextPtr = None\<rparr>)\<rparr>"
  let ?begun = "set_td t (\<lambda>d. d\<lparr>timerPending := False\<rparr>) (InitTimer k t ?busy)"
  obtain now s1 where g: "get_time k ?begun = (now, s1)" by (cases "get_time k ?begun")
  have tds: "td t ?busy = td t s" by (simp add: td_def)
  then have p': "pending_timers (td t ?busy) ps" using p by simp
  have pk: "platform k" using k by (simp add: user_procs_def)
  have "timers (world ?busy) t \<noteq> None" using p(2) by simp
  then have i: "InitTimer k t ?busy = ?busy" by (rule InitTimer_id)
  obtain s2 where s2: "call_timers k t (sort_key time_key (filter (\<lambda>h. \<not> TCL_TIME_BEFORE now (timer_time h)) ps)) s1 = Some s2"
    "TimerHandlerEventProc k t flags ?busy = Some (1, TimerSetupProc k t TCL_TIMER_EVENTS s2)"
    "td t s2 = (td t ?busy)\<lparr>timerPending := False, firstTimerHandlerPtr := sort_key time_key (filter (\<lambda>h. TCL_TIME_BEFORE now (timer_time h)) ps)\<rparr>"
    using due_timers_step [OF pk user_leaves [OF k] p' fl g] by blast
  have f1: "events s1 = events ?busy" "sources s1 = sources ?busy" "tsd s1 = tsd ?busy" "timers (world s1) t \<noteq> None"
    using g i by (auto simp: get_time_def split: prod.splits)
  then have f2: "events s2 = events ?busy" "tsd s2 = tsd ?busy" "timers (world s2) t \<noteq> None"
    using call_timers_frame [OF k s2(1)] by auto
  let ?done = "TimerSetupProc k t TCL_TIMER_EVENTS s2"
  have qt: "quiet t s2 ?done" by (rule quiet_TimerSetupProc [OF pk f2(3)])
  have l: "firstEventPtr (tsd ?done t) = Some e" "markerEventPtr (tsd ?done t) = None" "serviceMode (tsd ?done t) = serviceMode (tsd s t)"
    "events ?done e = Some \<lparr>event_proc = None, event_nextPtr = None\<rparr>"
    using qt lasting_fields [of "tsd ?done t" "tsd s2 t"] f2 q by (auto simp: quiet_def queue_def)
  obtain s4 where s4: "remove_handled t e ?done = Some s4" "queue s4 t [] 0" "serviceMode (tsd s4 t) = serviceMode (tsd s t)"
    "world s4 = world ?done"
    using l by (simp add: remove_handled_def unlink_event_def free_event_def queue_def)
  have a: "Tcl_AsyncReady (timer_notifier k t) x = False" for x using k by (simp add: timer_notifier_def user_procs_def)
  have "EventProc (timer_notifier k t) (TimerHandlerEventProc_ptr k) e flags ?busy = (1, ?done)"
    using s2(2) by (simp add: timer_notifier_def)
  moreover have "all_if_none flags = flags" using timer_flags(1) [OF fl] by (simp add: all_if_none_def)
  moreover have "firstEventPtr (tsd s t) = Some e" using q by (simp add: queue_def)
  ultimately have "Tcl_ServiceEvent (timer_notifier k t) t flags s = Some (1, s4)"
    using ev s4(1) a by (simp add: Tcl_ServiceEvent_def ServiceEvent_loop.simps set_event_def)
  moreover have "td t s4 = td t s2" using s4(4) quiet_td [OF qt, of t] by (simp add: td_def)
  moreover have "now = fst (Tcl_GetTime k (user (world ?begun)))"
    using g by (auto simp: get_time_def split: prod.splits)
  then have "\<exists>u. now = fst (Tcl_GetTime k u)" by (rule exI)
  moreover have "log (user (world s1)) = log (user (world s))" using log_get_time [OF log g] i by simp
  then have "log (user (world s4)) = run_log act (sort_key time_key (filter (\<lambda>h. \<not> TCL_TIME_BEFORE now (timer_time h)) ps)) (log (user (world s)))"
    using log_call_timers [OF log s2(1)] log_TimerSetupProc [OF log, of t TCL_TIMER_EVENTS s2] s4(4) by (simp only:)
  ultimately show ?thesis using s4(2,3) s2(3) tds
    by - (rule exI [of _ s4], rule exI [of _ now], simp)
qed


text \<open>The state in which the event loop is entered: no events, and the timers as its only source.\<close>

definition timer_loop_ready :: "'w timer_calls \<Rightarrow> nat \<Rightarrow> nat \<Rightarrow> 'w system \<Rightarrow> bool" where
  "timer_loop_ready k t a s \<longleftrightarrow> queue s t [] 0 \<and> timers (world s) t \<noteq> None \<and> \<not> timerPending (td t s)
     \<and> firstEventSourcePtr (tsd s t) = Some a
     \<and> sources s a = Some \<lparr>setupProc = Some (TimerSetupProc_ptr k), checkProc = Some (TimerCheckProc_ptr k),
         source_clientData = 0, source_nextPtr = None\<rparr>
     \<and> (\<forall>s'. events s' = events s \<longrightarrow> events s (event_address k s') = None)"

lemma ready_quiet: "timer_loop_ready k t a s \<Longrightarrow> quiet t s s' \<Longrightarrow> timer_loop_ready k t a s'"
  using quiet_queue [of t s s' "[]" 0] lasting_fields(4) [of "tsd s' t" "tsd s t"] quiet_td [of t s s' t]
  by (auto simp: timer_loop_ready_def quiet_def)

lemma ready_first: "timer_loop_ready k t a s \<Longrightarrow> firstEventPtr (tsd s t) = None"
  by (simp add: timer_loop_ready_def queue_def)

lemma wait_quiet:
  assumes k: "user_procs k" and r: "timer_loop_ready k t a s" and log: "user_log k log act"
  shows "\<exists>r s'. wait_part (timer_notifier k t) t flags s = Some (r, s') \<and> 0 \<le> r \<and> quiet t s s'
    \<and> log (user (world s')) = log (user (world s))"
proof -
  define s1 where "s1 = (if flags AND TCL_DONT_WAIT \<noteq> 0
      then upd t (\<lambda>d. d\<lparr>blockTime := \<lparr>sec = 0, usec = 0\<rparr>, blockTimeSet := True\<rparr>) s else upd t (\<lambda>d. d\<lparr>blockTimeSet := False\<rparr>) s)"
  define s2 where "s2 = upd t (\<lambda>d. d\<lparr>inTraversal := True\<rparr>) s1"
  have q1: "quiet t s s1" using quiet_upd by (auto simp: s1_def)
  then have q2: "quiet t s s2" using quiet_upd(3) quiet_trans unfolding s2_def by blast
  note r1 = ready_quiet [OF r q1] and r2 = ready_quiet [OF r q2]
  define s3 where "s3 = TimerSetupProc k t flags s2"
  have q3: "quiet t s2 s3" unfolding s3_def
    by (rule quiet_TimerSetupProc) (use k r2 in \<open>auto simp: user_procs_def timer_loop_ready_def\<close>)
  have sources: "setup_sources (timer_notifier k t) flags (Some a) s2 = Some s3"
    using r2 ready_quiet [OF r2 q3] q3
    by (simp add: setup_sources.simps timer_loop_ready_def timer_notifier_def s3_def)
  define s4 where "s4 = upd t (\<lambda>d. d\<lparr>inTraversal := False\<rparr>) s3"
  let ?tm = "if flags AND TCL_DONT_WAIT \<noteq> 0 \<or> blockTimeSet (tsd s4 t) then Some (blockTime (tsd s4 t)) else None"
  have "Tcl_WaitForEvent (timer_notifier k t) = Tcl_WaitForEvent (notifier k)" by (simp add: timer_notifier_def)
  then obtain r' u where w: "Tcl_WaitForEvent (timer_notifier k t) ?tm s4 = (r', s4\<lparr>world := (world s4)\<lparr>user := u\<rparr>\<rparr>)" "0 \<le> r'"
    using k unfolding user_procs_def by metis
  have "firstEventSourcePtr (tsd s2 t) = Some a" using r2 by (simp add: timer_loop_ready_def)
  then have "wait_part (timer_notifier k t) t flags s = Some (r', s4\<lparr>world := (world s4)\<lparr>user := u\<rparr>\<rparr>)"
    unfolding wait_part_def Let_def s1_def [symmetric] s2_def [symmetric]
    by (simp only: sources bind.simps s4_def [symmetric] w(1))
  moreover have "quiet t s (s4\<lparr>world := (world s4)\<lparr>user := u\<rparr>\<rparr>)"
    using quiet_trans [OF quiet_trans [OF q2 q3] quiet_trans [OF quiet_upd(3) quiet_user]] unfolding s4_def by blast
  moreover have "log u = log (user (world s))"
  proof -
    have "log u = log (user (world (snd (Tcl_WaitForEvent (timer_notifier k t) ?tm s4))))" unfolding w(1) by simp
    also have "\<dots> = log (user (world s4))" using log by (simp add: user_log_def timer_notifier_def)
    also have "\<dots> = log (user (world s2))" using log_TimerSetupProc [OF log] by (simp add: s4_def s3_def)
    finally show ?thesis by (simp add: s2_def s1_def)
  qed
  ultimately show ?thesis using w(2) by fastforce
qed


definition clock_past :: "'w timer_calls \<Rightarrow> Tcl_Time \<Rightarrow> bool" where
  "clock_past k time \<longleftrightarrow> normalized time
     \<and> (\<forall>u. normalized (fst (Tcl_GetTime k u)) \<and> \<not> TCL_TIME_BEFORE (fst (Tcl_GetTime k u)) time)"

lemma check_queues:
  assumes r: "timer_loop_ready k t a s" and f: "firstTimerHandlerPtr (td t s) = h # hs" "flags AND TCL_TIMER_EVENTS \<noteq> 0"
    and c: "clock_past k (timer_time h)" and log: "user_log k log act"
  shows "\<exists>s' e. check_sources (timer_notifier k t) flags (Some a) s = Some s' \<and> queue s' t [e] 0
    \<and> events s' e = Some \<lparr>event_proc = Some (TimerHandlerEventProc_ptr k), event_nextPtr = None\<rparr>
    \<and> td t s' = (td t s)\<lparr>timerPending := True\<rparr> \<and> timers (world s') t \<noteq> None \<and> serviceMode (tsd s' t) = serviceMode (tsd s t)
    \<and> log (user (world s')) = log (user (world s))"
proof -
  obtain now s1 where g: "get_time k s = (now, s1)" by (cases "get_time k s")
  have qt: "quiet t s s1" by (rule quiet_get_time [OF g])
  have "now = fst (Tcl_GetTime k (user (world s)))" using g by (auto simp: get_time_def split: prod.splits)
  then have now: "sec (time_left (timer_time h) now) = 0" "usec (time_left (timer_time h) now) = 0"
    using c time_left_zero [of "timer_time h" now] by (auto simp: clock_past_def)
  define s2 where "s2 = set_td t (\<lambda>d. d\<lparr>timerPending := True\<rparr>) s1"
  define e where "e = event_address k s2"
  define s3 where "s3 = s2\<lparr>events := (events s2)(e \<mapsto> \<lparr>event_proc = Some (TimerHandlerEventProc_ptr k), event_nextPtr = None\<rparr>)\<rparr>"
  have q: "queue s1 t [] 0" "sources s1 = sources s" "serviceMode (tsd s1 t) = serviceMode (tsd s t)"
    using quiet_queue [OF qt] r qt lasting_fields(5) [of "tsd s1 t" "tsd s t"] by (auto simp: quiet_def timer_loop_ready_def)
  have td1: "td t s1 = td t s" by (rule quiet_td [OF qt])
  have i: "InitTimer k t s = s" using r by (auto simp: timer_loop_ready_def)
  have "TimerCheckProc k t flags s = QueueEvent t e TCL_QUEUE_TAIL s3"
    using f g now r td1 by (simp add: TimerCheckProc_def Let_def i s2_def e_def s3_def timer_loop_ready_def Tcl_QueueEvent_def)
  also have "\<dots> = Some (upd t (\<lambda>d. d\<lparr>lastEventPtr := Some e\<rparr>) (upd t (\<lambda>d. d\<lparr>firstEventPtr := Some e\<rparr>) s3))"
    using q(1) by (simp add: QueueEvent_def queue_def s3_def s2_def set_next_def set_event_def)
  finally have tc: "TimerCheckProc k t flags s = Some (upd t (\<lambda>d. d\<lparr>lastEventPtr := Some e\<rparr>) (upd t (\<lambda>d. d\<lparr>firstEventPtr := Some e\<rparr>) s3))" .
  let ?r = "upd t (\<lambda>d. d\<lparr>lastEventPtr := Some e\<rparr>) (upd t (\<lambda>d. d\<lparr>firstEventPtr := Some e\<rparr>) s3)"
  have src: "sources ?r = sources s" using q(2) by (simp add: s3_def s2_def)
  have "check_sources (timer_notifier k t) flags (Some a) s = Some ?r"
    using r tc src by (simp add: check_sources.simps timer_loop_ready_def timer_notifier_def)
  moreover have "queue ?r t [e] 0" using q(1) by (simp add: queue_def s3_def s2_def)
  moreover have "td t ?r = (td t s)\<lparr>timerPending := True\<rparr>" using td1 by (simp add: td_def s3_def s2_def set_td_def)
  moreover have "timers (world ?r) t \<noteq> None" by (simp add: s3_def s2_def)
  moreover have "serviceMode (tsd ?r t) = serviceMode (tsd s t)" using q(3) by (simp add: s3_def s2_def)
  moreover have "events ?r e = Some \<lparr>event_proc = Some (TimerHandlerEventProc_ptr k), event_nextPtr = None\<rparr>" by (simp add: s3_def)
  moreover have "log (user (world ?r)) = log (user (world s))" using log_get_time [OF log g] by (simp add: s3_def s2_def)
  ultimately show ?thesis by blast
qed

text \<open>
  C31. Timers fire: when the event loop is entered with a timer due and the timers as its only source,
  \<open>Tcl_DoOneEvent\<close> with timer events enabled, waiting or not, lets the event source queue its event,
  calls the timers that are due by then, each once and in the order of their times and creation, keeps
  the others, removes the event, restores the service mode and returns 1.  The procedures only change
  the program's own data, where the calls are seen: the part of it that neither the clock nor the
  platform changes is what these calls make of it.
\<close>

theorem due_timer_serviced:
  assumes "user_procs k" "timer_loop_ready k t a s" "pending_timers (td t s) ps" "firstTimerHandlerPtr (td t s) = h # hs"
    "clock_past k (timer_time h)" "flags AND TCL_TIMER_EVENTS \<noteq> 0" "user_log k log act"
  shows "\<exists>s' now u. Tcl_DoOneEvent (timer_notifier k t) t flags s = Some (1, s') \<and> queue s' t [] 0
    \<and> now = fst (Tcl_GetTime k u) \<and> \<not> TCL_TIME_BEFORE now (timer_time h)
    \<and> log (user (world s')) = fold (\<lambda>h. act (timer_proc h) (timer_clientData h))
        (sort_key time_key (filter (\<lambda>h. \<not> TCL_TIME_BEFORE now (timer_time h)) ps)) (log (user (world s)))
    \<and> firstTimerHandlerPtr (td t s') = sort_key time_key (filter (\<lambda>h. TCL_TIME_BEFORE now (timer_time h)) ps)
    \<and> \<not> timerPending (td t s') \<and> serviceMode (tsd s' t) = serviceMode (tsd s t)"
proof -
  let ?c = "timer_notifier k t"
  define s0 where "s0 = upd t (\<lambda>d. d\<lparr>serviceMode := TCL_SERVICE_NONE\<rparr>) s"
  have a: "\<not> Tcl_AsyncReady ?c x" for x using assms(1) by (simp add: timer_notifier_def user_procs_def)
  have r0: "timer_loop_ready k t a s0" using assms(2) by (simp add: timer_loop_ready_def s0_def queue_def td_def)
  have e0: "Tcl_ServiceEvent ?c t flags s0 = Some (0, s0)" by (rule service_empty [OF ready_first [OF r0] a])
  obtain r' s3 where w: "wait_part ?c t flags s0 = Some (r', s3)" "0 \<le> r'" "quiet t s0 s3"
    "log (user (world s3)) = log (user (world s0))"
    using wait_quiet [OF assms(1) r0 assms(7)] by blast
  have r3: "timer_loop_ready k t a s3" by (rule ready_quiet [OF r0 w(3)])
  have td3: "td t s3 = td t s" using quiet_td [OF w(3), of t] by (simp add: s0_def td_def)
  obtain s4 e where s4: "check_sources ?c flags (Some a) s3 = Some s4" "queue s4 t [e] 0"
    "events s4 e = Some \<lparr>event_proc = Some (TimerHandlerEventProc_ptr k), event_nextPtr = None\<rparr>"
    "td t s4 = (td t s3)\<lparr>timerPending := True\<rparr>" "timers (world s4) t \<noteq> None"
    "log (user (world s4)) = log (user (world s3))"
    using check_queues [OF r3 _ assms(6,5,7)] assms(4) td3 by metis
  have log: "log (user (world s4)) = log (user (world s))" using s4(6) w(4) by (simp add: s0_def)
  have p4: "pending_timers (td t s4) ps" using assms(3) s4(4) td3 by (simp add: pending_timers_def)
  obtain s5 now u where s5: "Tcl_ServiceEvent ?c t flags s4 = Some (1, s5)" "queue s5 t [] 0"
    "log (user (world s5)) = run_log act (sort_key time_key (filter (\<lambda>h. \<not> TCL_TIME_BEFORE now (timer_time h)) ps)) (log (user (world s4)))"
    "now = fst (Tcl_GetTime k u)"
    "td t s5 = (td t s4)\<lparr>timerPending := False, firstTimerHandlerPtr := sort_key time_key (filter (\<lambda>h. TCL_TIME_BEFORE now (timer_time h)) ps)\<rparr>"
    using service_timer_event [OF assms(1) s4(3,2) p4 s4(5) assms(6,7)] by blast
  have f3: "firstEventSourcePtr (tsd s3 t) = Some a" using r3 by (simp add: timer_loop_ready_def)
  have "DoOneEvent_round ?c t flags 0 s0 = Some (True, 1, s5)"
    using timer_flags(2) [OF assms(6)] e0 w(1,2) s4(1) s5(1) f3 by (simp add: DoOneEvent_round_def)
  then have "DoOneEvent_loop ?c t flags 0 s0 = Some (1, s5)" by (subst DoOneEvent_loop.simps) simp
  moreover have "all_if_none flags = flags" using timer_flags(1) [OF assms(6)] by (simp add: all_if_none_def)
  ultimately have "Tcl_DoOneEvent ?c t flags s = Some (1, upd t (\<lambda>d. d\<lparr>serviceMode := serviceMode (tsd s t)\<rparr>) s5)"
    using a by (simp add: Tcl_DoOneEvent_def Let_def s0_def [symmetric])
  moreover have "td t (upd t f x) = td t x" for f and x :: "'a system" by (simp add: td_def)
  moreover have "\<not> TCL_TIME_BEFORE now (timer_time h)" using assms(5) s5(4) by (simp add: clock_past_def)
  ultimately show ?thesis
    using s5(2-5) log
    by - (rule exI [of _ "upd t (\<lambda>d. d\<lparr>serviceMode := serviceMode (tsd s t)\<rparr>) s5"], rule exI [of _ now], rule exI [of _ u], simp)
qed


theorem due_timer_serviced_witness:
  "\<exists>s'. Tcl_DoOneEvent (timer_notifier example_timers 0) 0 TCL_ALL_EVENTS (example_system (example_pending three_timers)) = Some (1, s')
    \<and> user (world s') = [10, 12] \<and> map timer_clientData (firstTimerHandlerPtr (td 0 s')) = [11]"
proof -
  let ?s = "example_system (example_pending three_timers)" and ?now = "\<lparr>sec = 5, usec = 0\<rparr>"
  have u: "user_procs example_timers"
  proof -
    have "\<exists>u. s = s\<lparr>world := (world s)\<lparr>user := u\<rparr>\<rparr>" for s :: "nat list system" by (intro exI [of _ "user (world s)"]) simp
    then show ?thesis using example_platform unfolding user_procs_def by (auto simp: example_timers_def)
  qed
  have r: "timer_loop_ready example_timers 0 1 ?s"
    by (simp add: timer_loop_ready_def example_empty_queue) (simp add: example_system_def example_timers_def)
  have p: "pending_timers (td 0 ?s) three_timers" using three_timers_pending by simp
  have f: "firstTimerHandlerPtr (td 0 ?s) = example_timer 3 4 12 # [example_timer 5 1 10, example_timer 8 2 11]"
    by (simp add: example_pending_def example_timer_def time_key_def less_eq_prod_def)
  have c: "clock_past example_timers (timer_time (example_timer 3 4 12))"
    by (simp add: clock_past_def normalized_def example_timers_def example_timer_def TCL_TIME_BEFORE_def)
  have l: "user_log example_timers (\<lambda>u. u) (\<lambda>p c u. c # u)"
    by (auto simp: user_log_def example_timers_def)
  obtain s' now v where s': "Tcl_DoOneEvent (timer_notifier example_timers 0) 0 TCL_ALL_EVENTS ?s = Some (1, s')"
    "now = fst (Tcl_GetTime example_timers v)"
    "user (world s') = fold (\<lambda>h u. timer_clientData h # u)
       (sort_key time_key (filter (\<lambda>h. \<not> TCL_TIME_BEFORE now (timer_time h)) three_timers)) (user (world ?s))"
    "firstTimerHandlerPtr (td 0 s') = sort_key time_key (filter (\<lambda>h. TCL_TIME_BEFORE now (timer_time h)) three_timers)"
    using due_timer_serviced [OF u r p f c all_timer_events l] by blast
  have now: "now = ?now" using s'(2) by (simp add: example_timers_def)
  have due: "sort_key time_key (filter (\<lambda>h. \<not> TCL_TIME_BEFORE ?now (timer_time h)) three_timers) = [example_timer 3 4 12, example_timer 5 1 10]"
    by (simp add: example_timer_def TCL_TIME_BEFORE_def time_key_def less_eq_prod_def)
  have "user (world s') = [10, 12]"
    using s'(3) unfolding now due by (simp add: example_timer_def example_system_def)
  moreover have "filter (\<lambda>h. TCL_TIME_BEFORE ?now (timer_time h)) three_timers = [example_timer 8 2 11]"
    by (simp add: example_timer_def TCL_TIME_BEFORE_def)
  then have "firstTimerHandlerPtr (td 0 s') = [example_timer 8 2 11]" unfolding s'(4) now by (simp only:) simp
  then have "map timer_clientData (firstTimerHandlerPtr (td 0 s')) = [11]" by (simp add: example_timer_def)
  ultimately show ?thesis using s'(1) by (intro exI [of _ s'] conjI)
qed

end
