(* ===== verification/Index.thy ===== *)
theory Index
  imports Prelude "HOL-Library.Sublist"
begin

text \<open>
  The lookup of option and subcommand names, from \<open>tcl8.6/generic/tclIndexObj.c\<close>: an object is
  compared with the entries of a table, a unique abbreviation is accepted unless the caller forbids
  it, and the index is kept in the object for the next lookup in the same table.  A table is its
  address and the list of its entries; strings have no NUL byte.
\<close>

section \<open>Objects\<close>

text \<open>The types of objects that the code of this development tells apart.\<close>

datatype obj_type = tclIntType | tclBignumType | indexType nat int int | otherType

record Tcl_Obj =
  string_rep :: string
  typePtr :: obj_type

definition TCL_EXACT :: int where "TCL_EXACT = 1"

section \<open>The lookup\<close>

datatype entry_match = Exact | Abbreviation | Different

fun compare_entry :: "string \<Rightarrow> string \<Rightarrow> entry_match" where
  "compare_entry [] [] = Exact"
| "compare_entry [] (q # qs) = Abbreviation"
| "compare_entry (p # ps) [] = Different"
| "compare_entry (p # ps) (q # qs) = (if p = q then compare_entry ps qs else Different)"

text \<open>An exact match ends the scan; otherwise the last abbreviated entry and their number.\<close>

fun scan_table :: "string \<Rightarrow> string list \<Rightarrow> int \<Rightarrow> int \<Rightarrow> int \<Rightarrow> (int \<times> int) + int" where
  "scan_table key [] idx index numAbbrev = Inl (index, numAbbrev)"
| "scan_table key (e # es) idx index numAbbrev =
     (case compare_entry key e of
        Exact \<Rightarrow> Inr idx
      | Abbreviation \<Rightarrow> scan_table key es (idx + 1) idx (numAbbrev + 1)
      | Different \<Rightarrow> scan_table key es (idx + 1) index numAbbrev)"

fun list_options :: "nat \<Rightarrow> string list \<Rightarrow> string" where
  "list_options count [] = []"
| "list_options count [e] = (if count > 0 then '','' else []) @ '' or '' @ e"
| "list_options count (e # es) =
     (if e \<noteq> [] then '', '' @ e @ list_options (Suc count) es else list_options count es)"

definition index_error :: "string \<Rightarrow> string list \<Rightarrow> string \<Rightarrow> int \<Rightarrow> int \<Rightarrow> string \<times> string list" where
  "index_error key table msg flags numAbbrev =
     (let result = (if numAbbrev > 1 \<and> flags AND TCL_EXACT = 0 then ''ambiguous '' else ''bad '') @ msg @ '' \"'' @ key
      in (case dropWhile (\<lambda>e. e = []) table of
            [] \<Rightarrow> result @ ''\": no valid options''
          | e # es \<Rightarrow> result @ ''\": must be '' @ e @ list_options 0 es,
          [''TCL'', ''LOOKUP'', ''INDEX'', msg, key]))"

text \<open>The result or the error message and code, and the object with the index kept in it.\<close>

definition Tcl_GetIndexFromObjStruct ::
  "Tcl_Obj \<Rightarrow> nat \<Rightarrow> string list \<Rightarrow> int \<Rightarrow> string \<Rightarrow> int \<Rightarrow> ((string \<times> string list) + int) \<times> Tcl_Obj" where
  "Tcl_GetIndexFromObjStruct obj tablePtr table offset msg flags =
     (let offset = (if offset < 8 then 8 else offset);
          key = string_rep obj;
          lookup = (case scan_table key table 0 (- 1) 0 of
              Inr index \<Rightarrow> (Inr index, obj\<lparr>typePtr := indexType tablePtr offset index\<rparr>)
            | Inl (index, numAbbrev) \<Rightarrow>
                if flags AND TCL_EXACT \<noteq> 0 \<or> key = [] \<or> numAbbrev \<noteq> 1
                then (Inl (index_error key table msg flags numAbbrev), obj)
                else (Inr index, obj\<lparr>typePtr := indexType tablePtr offset index\<rparr>))
      in case typePtr obj of
           indexType p off index \<Rightarrow> if p = tablePtr \<and> off = offset then (Inr index, obj) else lookup
         | _ \<Rightarrow> lookup)"

section \<open>What the lookup finds\<close>

lemma compare_entry: "compare_entry key e = (if key = e then Exact else if prefix key e then Abbreviation else Different)"
  by (induction key e rule: compare_entry.induct) auto

text \<open>The entry that a string selects: the equal one, or the only one that it abbreviates.\<close>

definition selected :: "string list \<Rightarrow> bool \<Rightarrow> string \<Rightarrow> nat \<Rightarrow> bool" where
  "selected table exact key i \<longleftrightarrow> i < length table \<and>
     (table ! i = key \<or> \<not> exact \<and> key \<noteq> [] \<and> key \<notin> set table \<and> (\<forall>j<length table. prefix key (table ! j) \<longleftrightarrow> j = i))"

lemma table_scan_exact:
  "key \<in> set table \<Longrightarrow> \<exists>i<length table. scan_table key table idx index n = Inr (idx + int i) \<and> table ! i = key"
proof (induction table arbitrary: idx index n)
  case (Cons e es)
  show ?case
  proof (cases "key = e")
    case True
    then show ?thesis by (intro exI [of _ 0]) (simp add: compare_entry)
  next
    case False
    then have "key \<in> set es" using Cons.prems by simp
    from Cons.IH [OF this, of "idx + 1" "if prefix key e then idx else index" "if prefix key e then n + 1 else n"]
    obtain i where "i < length es" "es ! i = key" "scan_table key es (idx + 1) (if prefix key e then idx else index)
        (if prefix key e then n + 1 else n) = Inr (idx + 1 + int i)" by blast
    then show ?thesis using False by (intro exI [of _ "Suc i"]) (cases "prefix key e"; simp add: compare_entry)
  qed
qed simp

lemma table_scan_abbrev:
  "key \<notin> set table \<Longrightarrow> scan_table key table idx index n =
     (let is = filter (\<lambda>i. prefix key (table ! i)) [0..<length table] in
      Inl (if is = [] then index else idx + int (last is), n + int (length is)))"
proof (induction table arbitrary: idx index n)
  case (Cons e es)
  have u: "[0..<length (e # es)] = 0 # map Suc [0..<length es]" by (simp add: upt_conv_Cons map_Suc_upt del: upt_Suc)
  have f: "filter (\<lambda>i. prefix key ((e # es) ! i)) (map Suc xs) = map Suc (filter (\<lambda>i. prefix key (es ! i)) xs)" for xs
    by (simp add: filter_map o_def)
  have "key \<noteq> e" "key \<notin> set es" using Cons.prems by auto
  with Cons.IH [OF this(2)] show ?case
    unfolding u by (auto simp: compare_entry Let_def f last_map simp del: upt_Suc)
qed simp

lemma one_index:
  "length (filter P [0..<n]) = 1 \<longleftrightarrow> (\<exists>i<n. \<forall>j<n. P j \<longleftrightarrow> j = i)" (is "?l = ?r")
proof
  assume ?l
  then obtain i where i: "filter P [0..<n] = [i]" by (auto simp: length_Suc_conv)
  have "j \<in> set (filter P [0..<n]) \<longleftrightarrow> j = i" for j unfolding i by simp
  then show ?r by auto
next
  assume ?r
  then obtain i where i: "i < n" "\<forall>j<n. P j \<longleftrightarrow> j = i" by blast
  have "filter P [0..<n] = filter ((=) i) [0..<n]" using i by (auto intro: filter_cong)
  also have "length \<dots> = 1" using i(1) by (induction n) (auto simp: filter_empty_conv less_Suc_eq)
  finally show ?l .
qed


lemma selected_unique: "distinct table \<Longrightarrow> selected table exact key i \<Longrightarrow> selected table exact key j \<Longrightarrow> i = j"
  unfolding selected_def by (metis nth_eq_iff_index_eq nth_mem)

definition uncached :: "Tcl_Obj \<Rightarrow> nat \<Rightarrow> bool" where
  "uncached obj tablePtr \<longleftrightarrow> (case typePtr obj of indexType p off i \<Rightarrow> p \<noteq> tablePtr | _ \<Rightarrow> True)"

lemma lookup_uncached:
  assumes "uncached obj tablePtr"
  shows "Tcl_GetIndexFromObjStruct obj tablePtr table offset msg flags =
    (let key = string_rep obj; is = filter (\<lambda>i. prefix key (table ! i)) [0..<length table] in
     case scan_table key table 0 (- 1) 0 of
       Inr i \<Rightarrow> (Inr i, obj\<lparr>typePtr := indexType tablePtr (max offset 8) i\<rparr>)
     | Inl (i, n) \<Rightarrow> if flags AND TCL_EXACT \<noteq> 0 \<or> key = [] \<or> length is \<noteq> 1
         then (Inl (index_error key table msg flags n), obj)
         else (Inr (int (last is)), obj\<lparr>typePtr := indexType tablePtr (max offset 8) (int (last is))\<rparr>))"
proof (cases "string_rep obj \<in> set table")
  case True
  from table_scan_exact [OF True, of 0 "- 1" 0] obtain i where "scan_table (string_rep obj) table 0 (- 1) 0 = Inr (int i)" by auto
  then show ?thesis using assms
    by (simp add: Tcl_GetIndexFromObjStruct_def uncached_def Let_def max_def split: obj_type.splits)
next
  case False
  have "int (length xs) = 1 \<longleftrightarrow> length xs = 1" for xs :: "nat list" by simp
  with table_scan_abbrev [OF False, of 0 "- 1" 0] assms show ?thesis
    by (auto simp: Tcl_GetIndexFromObjStruct_def uncached_def Let_def max_def split: obj_type.splits)
qed

text \<open>The lookup for an object that keeps no index of the table.\<close>

lemma lookup_selects:
  assumes "uncached obj tablePtr" "distinct table"
  shows "case Tcl_GetIndexFromObjStruct obj tablePtr table offset msg flags of
      (Inr v, obj') \<Rightarrow> (\<forall>i. v = int i \<longleftrightarrow> selected table (flags AND TCL_EXACT \<noteq> 0) (string_rep obj) i)
         \<and> 0 \<le> v \<and> obj' = obj\<lparr>typePtr := indexType tablePtr (max offset 8) v\<rparr>
    | (Inl e, obj') \<Rightarrow> (\<forall>i. \<not> selected table (flags AND TCL_EXACT \<noteq> 0) (string_rep obj) i) \<and> obj' = obj"
proof (cases "string_rep obj \<in> set table")
  case True
  from table_scan_exact [OF True, of 0 "- 1" 0] obtain i where
    i: "scan_table (string_rep obj) table 0 (- 1) 0 = Inr (int i)" "i < length table" "table ! i = string_rep obj" by auto
  then have "selected table e (string_rep obj) i" for e by (simp add: selected_def)
  then have "int i = int j \<longleftrightarrow> selected table e (string_rep obj) j" for j e
    using selected_unique [OF assms(2), of e _ i j] by auto
  then show ?thesis using i by (simp add: lookup_uncached [OF assms(1)] Let_def)
next
  case False
  let ?is = "filter (\<lambda>i. prefix (string_rep obj) (table ! i)) [0..<length table]"
  note scan = table_scan_abbrev [OF False, of 0 "- 1" 0]
  have none: "table ! i \<noteq> string_rep obj" if "i < length table" for i using False that by (metis nth_mem)
  have sel: "selected table e (string_rep obj) i \<longleftrightarrow> \<not> e \<and> string_rep obj \<noteq> [] \<and> i < length table \<and>
      (\<forall>j<length table. prefix (string_rep obj) (table ! j) \<longleftrightarrow> j = i)" for e i
    using False none by (auto simp: selected_def)
  show ?thesis
  proof (cases "flags AND TCL_EXACT \<noteq> 0 \<or> string_rep obj = [] \<or> length ?is \<noteq> 1")
    case True
    then have "\<not> selected table (flags AND TCL_EXACT \<noteq> 0) (string_rep obj) i" for i
      unfolding sel using one_index [of "\<lambda>i. prefix (string_rep obj) (table ! i)" "length table"] by blast
    then show ?thesis using True by (auto simp: lookup_uncached [OF assms(1)] scan Let_def)
  next
    case one: False
    then obtain i where i: "?is = [i]" by (auto simp: length_Suc_conv)
    then have "j \<in> set ?is \<longleftrightarrow> j = i" for j by simp
    then have ji: "j < length table \<and> prefix (string_rep obj) (table ! j) \<longleftrightarrow> j = i" for j by simp
    then have "selected table (flags AND TCL_EXACT \<noteq> 0) (string_rep obj) i" unfolding sel using one by blast
    then have "int i = int j \<longleftrightarrow> selected table (flags AND TCL_EXACT \<noteq> 0) (string_rep obj) j" for j
      using selected_unique [OF assms(2), of _ _ i j] by auto
    then show ?thesis using one i by (simp add: lookup_uncached [OF assms(1)] scan Let_def)
  qed
qed

text \<open>
  C30. The lookup of a name in a table without duplicates, for an object that keeps no index of this
  table, returns the index of the equal entry or, if abbreviations are allowed, of the only entry
  that it abbreviates, and keeps it in the object; there is an error exactly when no entry is
  selected.  The empty string abbreviates nothing, but an empty entry is equal to it and is found,
  where the manual promises an error for every empty string.  An object that keeps an index of this
  table gives it back, whatever the flags.
\<close>

theorem index_lookup:
  assumes "distinct table"
  shows "(uncached obj tablePtr \<longrightarrow> (case Tcl_GetIndexFromObjStruct obj tablePtr table offset msg flags of
        (Inr v, obj') \<Rightarrow> (\<forall>i. v = int i \<longleftrightarrow> selected table (flags AND TCL_EXACT \<noteq> 0) (string_rep obj) i)
           \<and> 0 \<le> v \<and> obj' = obj\<lparr>typePtr := indexType tablePtr (max offset 8) v\<rparr>
      | (Inl e, obj') \<Rightarrow> (\<forall>i. \<not> selected table (flags AND TCL_EXACT \<noteq> 0) (string_rep obj) i) \<and> obj' = obj))
    \<and> (uncached obj tablePtr \<and> string_rep obj = [] \<longrightarrow>
        (isl (fst (Tcl_GetIndexFromObjStruct obj tablePtr table offset msg flags)) \<longleftrightarrow> [] \<notin> set table))
    \<and> (\<forall>v. typePtr obj = indexType tablePtr (max offset 8) v \<longrightarrow>
        Tcl_GetIndexFromObjStruct obj tablePtr table offset msg flags = (Inr v, obj))"
proof (intro conjI impI allI)
  assume u: "uncached obj tablePtr"
  note l = lookup_selects [OF u assms, where offset = offset and msg = msg and flags = flags]
  then show "case Tcl_GetIndexFromObjStruct obj tablePtr table offset msg flags of
        (Inr v, obj') \<Rightarrow> (\<forall>i. v = int i \<longleftrightarrow> selected table (flags AND TCL_EXACT \<noteq> 0) (string_rep obj) i)
           \<and> 0 \<le> v \<and> obj' = obj\<lparr>typePtr := indexType tablePtr (max offset 8) v\<rparr>
      | (Inl e, obj') \<Rightarrow> (\<forall>i. \<not> selected table (flags AND TCL_EXACT \<noteq> 0) (string_rep obj) i) \<and> obj' = obj" .
next
  assume u: "uncached obj tablePtr \<and> string_rep obj = []"
  have "(\<exists>i. selected table e [] i) \<longleftrightarrow> [] \<in> set table" for e by (auto simp: selected_def in_set_conv_nth)
  then show "isl (fst (Tcl_GetIndexFromObjStruct obj tablePtr table offset msg flags)) \<longleftrightarrow> [] \<notin> set table"
    using lookup_selects [OF conjunct1 [OF u] assms, where offset = offset and msg = msg and flags = flags] u
    by (auto split: prod.splits sum.splits) (metis nat_0_le)
next
  fix v
  assume "typePtr obj = indexType tablePtr (max offset 8) v"
  then show "Tcl_GetIndexFromObjStruct obj tablePtr table offset msg flags = (Inr v, obj)"
    by (simp add: Tcl_GetIndexFromObjStruct_def Let_def max_def)
qed

theorem index_lookup_witness:
  "fst (Tcl_GetIndexFromObjStruct \<lparr>string_rep = ''id'', typePtr = otherType\<rparr> 1 [''cancel'', ''idle'', ''info''] 8 ''argument'' 0) = Inr 1
    \<and> \<not> isl (fst (Tcl_GetIndexFromObjStruct \<lparr>string_rep = [], typePtr = otherType\<rparr> 1 [''a'', []] 8 ''argument'' 0))
    \<and> fst (Tcl_GetIndexFromObjStruct \<lparr>string_rep = ''id'', typePtr = indexType 1 8 2\<rparr> 1 [''cancel'', ''idle'', ''info''] 8 ''argument'' TCL_EXACT) = Inr 2"
proof (intro conjI)
  let ?table = "[''cancel'', ''idle'', ''info'']"
  have u: "uncached \<lparr>string_rep = str, typePtr = otherType\<rparr> 1" for str by (simp add: uncached_def)
  have d: "distinct ?table" "distinct [''a'', []]" by simp_all
  have "selected ?table False ''id'' 1" by (simp add: selected_def All_less_Suc numeral_3_eq_3)
  then show "fst (Tcl_GetIndexFromObjStruct \<lparr>string_rep = ''id'', typePtr = otherType\<rparr> 1 ?table 8 ''argument'' 0) = Inr 1"
    using conjunct1 [OF index_lookup [OF d(1), where obj = "\<lparr>string_rep = ''id'', typePtr = otherType\<rparr>" and tablePtr = 1 and offset = 8 and msg = "''argument''" and flags = 0]] u
    by (auto split: prod.splits sum.splits) (metis of_nat_1 One_nat_def)
  show "\<not> isl (fst (Tcl_GetIndexFromObjStruct \<lparr>string_rep = [], typePtr = otherType\<rparr> 1 [''a'', []] 8 ''argument'' 0))"
    using index_lookup [OF d(2), where obj = "\<lparr>string_rep = [], typePtr = otherType\<rparr>" and tablePtr = 1 and offset = 8 and msg = "''argument''" and flags = 0] u by simp
  show "fst (Tcl_GetIndexFromObjStruct \<lparr>string_rep = ''id'', typePtr = indexType 1 8 2\<rparr> 1 ?table 8 ''argument'' TCL_EXACT) = Inr 2"
    using index_lookup [OF d(1), where obj = "\<lparr>string_rep = ''id'', typePtr = indexType 1 8 2\<rparr>" and tablePtr = 1 and offset = 8 and msg = "''argument''" and flags = TCL_EXACT] by simp
qed

text \<open>The index that an object keeps is found again, whatever flags the later lookup has.\<close>

theorem index_kept:
  assumes "Tcl_GetIndexFromObjStruct obj tablePtr table offset msg flags = (Inr i, obj')"
  shows "Tcl_GetIndexFromObjStruct obj' tablePtr table offset msg' flags' = (Inr i, obj')"
proof -
  have "typePtr obj' = indexType tablePtr (if offset < 8 then 8 else offset) i"
  proof (cases "uncached obj tablePtr")
    case True
    then show ?thesis using assms
      by (auto simp: lookup_uncached Let_def max_def split: sum.splits prod.splits if_splits)
  next
    case False
    then obtain off j where o: "typePtr obj = indexType tablePtr off j" by (auto simp: uncached_def split: obj_type.splits)
    then show ?thesis using assms unfolding Tcl_GetIndexFromObjStruct_def Let_def
      by (cases "off = (if offset < 8 then 8 else offset)"; auto split: sum.splits prod.splits if_splits)
  qed
  then show ?thesis by (simp add: Tcl_GetIndexFromObjStruct_def Let_def)
qed

text \<open>
  So an abbreviation that was accepted once is accepted in the same table by a lookup that asks for
  an exact match; without the kept index that lookup fails.
\<close>

theorem exact_after_abbreviation:
  "\<exists>obj. string_rep obj = ''id''
     \<and> Tcl_GetIndexFromObjStruct \<lparr>string_rep = ''id'', typePtr = otherType\<rparr> 1 [''cancel'', ''idle'', ''info''] 8 msg 0 = (Inr 1, obj)
     \<and> fst (Tcl_GetIndexFromObjStruct obj 1 [''cancel'', ''idle'', ''info''] 8 msg TCL_EXACT) = Inr 1
     \<and> (\<exists>e. fst (Tcl_GetIndexFromObjStruct \<lparr>string_rep = ''id'', typePtr = otherType\<rparr> 1 [''cancel'', ''idle'', ''info''] 8 msg TCL_EXACT) = Inl e)"
  by (simp add: Tcl_GetIndexFromObjStruct_def TCL_EXACT_def Let_def)

end
