(* ===== verification/After.thy ===== *)
theory After
  imports Timer Index
begin

text \<open>
  The \<open>after\<close> command, from \<open>tcl8.6/generic/tclTimer.c\<close>: scripts that run once after a delay or when
  the application is idle, their identifiers, cancelling and inspecting them, and the blocking
  delay.  An \<open>AfterInfo\<close> is a cell of a store, linked into the chain of its interpreter, and its
  address is the client data of a timer or of an idle handler.  An interpreter belongs to one
  thread; \<open>assocs t i\<close> is the chain in the data that interpreter \<open>i\<close> of thread \<open>t\<close> has under
  \<open>tclAfter\<close>, \<open>None\<close> if there is no such data.  So the data and the interpreter it belongs to
  name each other, and the comparison of the two in \<open>after info\<close> is always true.

  Evaluation of scripts, the reports of errors, asynchronous handlers, limits, the system's sleep,
  the conversion to integers and the concatenation of arguments are arguments.  A result \<open>None\<close> is
  a read or write through a null or dangling pointer, or a call that does not return.
\<close>

section \<open>Data\<close>

record AfterInfo =
  assocPtr :: nat
  commandPtr :: Tcl_Obj
  after_id :: int
  after_token :: int

record 'v after_world =
  afterInfos :: "nat \<Rightarrow> AfterInfo option"
  assocs :: "nat \<Rightarrow> nat \<Rightarrow> nat list option"
  app :: 'v

type_synonym 'v application = "'v after_world system"

record 'v after_calls =
  timing :: "'v after_world timer_calls"
  AfterProc_ptr :: nat
  after_address :: "'v application \<Rightarrow> nat"
  Tcl_GetWideIntFromObj :: "Tcl_Obj \<Rightarrow> int option"
  Tcl_ConcatObj :: "Tcl_Obj list \<Rightarrow> Tcl_Obj"
  Tcl_EvalObjEx :: "nat \<Rightarrow> Tcl_Obj \<Rightarrow> 'v application \<Rightarrow> (int \<times> 'v application) option"
  Tcl_AddErrorInfo :: "nat \<Rightarrow> string \<Rightarrow> 'v application \<Rightarrow> 'v application option"
  Tcl_BackgroundException :: "nat \<Rightarrow> int \<Rightarrow> 'v application \<Rightarrow> 'v application option"
  Tcl_Preserve :: "nat \<Rightarrow> 'v application \<Rightarrow> 'v application option"
  Tcl_Release :: "nat \<Rightarrow> 'v application \<Rightarrow> 'v application option"
  interp_AsyncInvoke :: "nat \<Rightarrow> 'v application \<Rightarrow> int \<times> 'v application"
  Tcl_Canceled :: "nat \<Rightarrow> 'v application \<Rightarrow> int \<times> 'v application"
  limit_timeEvent :: "nat \<Rightarrow> 'v application \<Rightarrow> bool"
  limit_time :: "nat \<Rightarrow> 'v application \<Rightarrow> Tcl_Time"
  reset_granularity :: "nat \<Rightarrow> 'v application \<Rightarrow> 'v application"
  Tcl_LimitCheck :: "nat \<Rightarrow> 'v application \<Rightarrow> int \<times> 'v application"
  Tcl_Sleep :: "int \<Rightarrow> 'v application \<Rightarrow> 'v application"

definition info :: "'v application \<Rightarrow> nat \<Rightarrow> AfterInfo option" where
  "info s = afterInfos (user (world s))"

definition chain :: "nat \<Rightarrow> 'v application \<Rightarrow> nat \<Rightarrow> nat list option" where
  "chain t s = assocs (user (world s)) t"

definition set_info :: "nat \<Rightarrow> AfterInfo option \<Rightarrow> 'v application \<Rightarrow> 'v application" where
  "set_info a x s = s\<lparr>world := (world s)\<lparr>user := (user (world s))\<lparr>afterInfos := (info s)(a := x)\<rparr>\<rparr>\<rparr>"

definition set_chain :: "nat \<Rightarrow> nat \<Rightarrow> nat list option \<Rightarrow> 'v application \<Rightarrow> 'v application" where
  "set_chain t i xs s = s\<lparr>world := (world s)\<lparr>user := (user (world s))\<lparr>
     assocs := (assocs (user (world s)))(t := (chain t s)(i := xs))\<rparr>\<rparr>\<rparr>"

definition free_info :: "nat \<Rightarrow> 'v application \<Rightarrow> 'v application option" where
  "free_info a s = (if info s a = None then None else Some (set_info a None s))"

section \<open>Identifiers\<close>

text \<open>The conversion \<open>%d\<close> of \<open>printf\<close>, and \<open>strtoul\<close> with base 10 and 64 bits.\<close>

fun print_nat :: "nat \<Rightarrow> string" where
  "print_nat n = (if n < 10 then [char_of (48 + n)] else print_nat (n div 10) @ [char_of (48 + n mod 10)])"

definition print_int :: "int \<Rightarrow> string" where
  "print_int i = (if i < 0 then ''-'' @ print_nat (nat (- i)) else print_nat (nat i))"

definition event_name :: "int \<Rightarrow> string" where
  "event_name i = ''after#'' @ print_int i"

definition ULONG_MAX :: nat where "ULONG_MAX = 18446744073709551615"

definition is_digit :: "char \<Rightarrow> bool" where
  "is_digit ch \<longleftrightarrow> 48 \<le> (of_char ch :: nat) \<and> (of_char ch :: nat) \<le> 57"

definition is_space :: "char \<Rightarrow> bool" where
  "is_space ch \<longleftrightarrow> ch = CHR '' '' \<or> 9 \<le> (of_char ch :: nat) \<and> (of_char ch :: nat) \<le> 13"

definition digits_value :: "string \<Rightarrow> nat" where
  "digits_value ds = foldl (\<lambda>v d. 10 * v + (of_char d - 48)) 0 ds"

text \<open>The value and what is left behind it; without digits nothing is consumed.\<close>

definition strtoul :: "string \<Rightarrow> nat \<times> string" where
  "strtoul str =
     (let p = dropWhile is_space str;
          neg = (p \<noteq> [] \<and> hd p = CHR ''-'');
          p = (if p \<noteq> [] \<and> (hd p = CHR ''-'' \<or> hd p = CHR ''+'') then tl p else p);
          ds = takeWhile is_digit p; v = digits_value ds
      in if ds = [] then (0, str)
         else (if v > ULONG_MAX then ULONG_MAX else if neg \<and> v \<noteq> 0 then ULONG_MAX + 1 - v else v,
               dropWhile is_digit p))"

text \<open>The first cell of a chain with a property.\<close>

fun find_after :: "(AfterInfo \<Rightarrow> bool) \<Rightarrow> nat list \<Rightarrow> 'v application \<Rightarrow> nat option option" where
  "find_after P [] s = Some None"
| "find_after P (a # xs) s =
     (case info s a of None \<Rightarrow> None | Some f \<Rightarrow> if P f then Some (Some a) else find_after P xs s)"

definition GetAfterEvent :: "nat list \<Rightarrow> string \<Rightarrow> 'v application \<Rightarrow> nat option option" where
  "GetAfterEvent xs cmdString s =
     (if take 6 cmdString \<noteq> ''after#'' then Some None
      else (case strtoul (drop 6 cmdString) of (v, end_of_id) \<Rightarrow>
        if end_of_id = drop 6 cmdString \<or> chr_at end_of_id 0 \<noteq> CHR 0x00 then Some None
        else find_after (\<lambda>f. after_id f = int32 (int v)) xs s))"

section \<open>Removing and running\<close>

text \<open>The search for the predecessor runs off the end of a chain that does not have the cell.\<close>

fun unlink_after :: "nat \<Rightarrow> nat list \<Rightarrow> nat list option" where
  "unlink_after a [] = None"
| "unlink_after a (x # xs) = (if x = a then Some xs else map_option ((#) x) (unlink_after a xs))"

definition unlink_info :: "nat \<Rightarrow> nat \<Rightarrow> 'v application \<Rightarrow> 'v application option" where
  "unlink_info t a s = do {
     f \<leftarrow> info s a;
     xs \<leftarrow> chain t s (assocPtr f);
     xs \<leftarrow> unlink_after a xs;
     Some (set_chain t (assocPtr f) (Some xs) s)
   }"

definition FreeAfterPtr :: "nat \<Rightarrow> nat \<Rightarrow> 'v application \<Rightarrow> 'v application option" where
  "FreeAfterPtr t a s = do {
     s \<leftarrow> unlink_info t a s;
     free_info a s
   }"

definition AfterProc :: "'v after_calls \<Rightarrow> nat \<Rightarrow> nat \<Rightarrow> 'v application \<Rightarrow> 'v application option" where
  "AfterProc c t a s = do {
     f \<leftarrow> info s a;
     let i = assocPtr f;
     s \<leftarrow> unlink_info t a s;
     s \<leftarrow> Tcl_Preserve c i s;
     f \<leftarrow> info s a;
     (result, s) \<leftarrow> Tcl_EvalObjEx c i (commandPtr f) s;
     s \<leftarrow> (if result \<noteq> 0 then do {
            s \<leftarrow> Tcl_AddErrorInfo c i ([CHR 0x0A] @ ''    (\"after\" script)'') s;
            Tcl_BackgroundException c i result s
          } else Some s);
     s \<leftarrow> Tcl_Release c i s;
     free_info a s
   }"

text \<open>The timer or the idle handler of an event is taken back.\<close>

definition withdraw :: "'v after_calls \<Rightarrow> nat \<Rightarrow> nat \<Rightarrow> 'v application \<Rightarrow> 'v application option" where
  "withdraw c t a s = do {
     f \<leftarrow> info s a;
     Some (if after_token f \<noteq> 0 then Tcl_DeleteTimerHandler (timing c) t (after_token f) s
           else Tcl_CancelIdleCall (timing c) t (AfterProc_ptr c) a s)
   }"

fun cleanup_after :: "'v after_calls \<Rightarrow> nat \<Rightarrow> nat \<Rightarrow> nat list \<Rightarrow> 'v application \<Rightarrow> 'v application option" where
  "cleanup_after c t i [] s = Some s"
| "cleanup_after c t i (a # xs) s = do {
     s \<leftarrow> withdraw c t a (set_chain t i (Some xs) s);
     s \<leftarrow> free_info a s;
     cleanup_after c t i xs s
   }"

definition AfterCleanupProc :: "'v after_calls \<Rightarrow> nat \<Rightarrow> nat \<Rightarrow> 'v application \<Rightarrow> 'v application option" where
  "AfterCleanupProc c t i s = do {
     xs \<leftarrow> chain t s i;
     s \<leftarrow> cleanup_after c t i xs s;
     Some (set_chain t i None s)
   }"

section \<open>The blocking delay\<close>

definition TCL_TIME_MAXIMUM_SLICE :: int where "TCL_TIME_MAXIMUM_SLICE = 500"
definition SLEEP_OFFLOAD_GETTIMEOFDAY :: int where "SLEEP_OFFLOAD_GETTIMEOFDAY = 20"
definition LONG_MAX :: int where "LONG_MAX = 9223372036854775807"

text \<open>
  \<open>long\<close> and \<open>Tcl_WideInt\<close> have 64 bits; sums, differences and products that exceed them wrap around.
  The seconds of a point in time are not bounded: with the longest delay they pass 64 bits only
  about 292 thousand million years from now.
\<close>

definition int64 :: "int \<Rightarrow> int" where
  "int64 x = (x + 9223372036854775808) mod 18446744073709551616 - 9223372036854775808"

definition TCL_TIME_DIFF_MS :: "Tcl_Time \<Rightarrow> Tcl_Time \<Rightarrow> int" where
  "TCL_TIME_DIFF_MS t1 t2 =
     (let u = usec t1 - usec t2 in int64 (int64 (1000 * int64 (sec t1 - sec t2)) + sgn u * (\<bar>u\<bar> div 1000)))"

definition TCL_TIME_DIFF_MS_CEILING :: "Tcl_Time \<Rightarrow> Tcl_Time \<Rightarrow> int" where
  "TCL_TIME_DIFF_MS_CEILING t1 t2 =
     (let u = usec t1 - usec t2 + 999 in int64 (int64 (1000 * int64 (sec t1 - sec t2)) + sgn u * (\<bar>u\<bar> div 1000)))"

text \<open>
  The clamp to \<open>LONG_MAX\<close> is compiled only where \<open>long\<close> is narrower than \<open>Tcl_WideInt\<close>; the second
  clamp is below either bound.
\<close>

definition slice :: "int \<Rightarrow> int" where
  "slice diff = (let diff = (if diff > LONG_MAX then LONG_MAX else diff) in
     if diff > TCL_TIME_MAXIMUM_SLICE then TCL_TIME_MAXIMUM_SLICE else diff)"

text \<open>The checks for handlers, cancellation and limits; the flag is false if the delay is to fail.\<close>

definition check_async :: "'v after_calls \<Rightarrow> nat \<Rightarrow> 'v application \<Rightarrow> bool \<times> 'v application" where
  "check_async c i s =
     (if Tcl_AsyncReady (notifier (timing c)) s
      then (case interp_AsyncInvoke c i s of (r, s) \<Rightarrow> (r = 0, s)) else (True, s))"

definition check_canceled :: "'v after_calls \<Rightarrow> nat \<Rightarrow> 'v application \<Rightarrow> bool \<times> 'v application" where
  "check_canceled c i s = (case Tcl_Canceled c i s of (r, s) \<Rightarrow> (r \<noteq> 1, s))"

definition check_interrupts :: "'v after_calls \<Rightarrow> nat \<Rightarrow> 'v application \<Rightarrow> bool \<times> 'v application" where
  "check_interrupts c i s = (case check_async c i s of (ok, s) \<Rightarrow> if \<not> ok then (False, s) else check_canceled c i s)"

definition check_limit :: "'v after_calls \<Rightarrow> nat \<Rightarrow> 'v application \<Rightarrow> bool \<times> 'v application" where
  "check_limit c i s = (case Tcl_LimitCheck c i s of (r, s) \<Rightarrow> (r = 0, s))"

datatype delay_outcome = Delayed | Interrupted | Again

text \<open>One turn of the loop, up to the reading of the clock at its end.\<close>

definition delay_turn :: "'v after_calls \<Rightarrow> nat \<Rightarrow> Tcl_Time \<Rightarrow> Tcl_Time \<Rightarrow> 'v application \<Rightarrow> delay_outcome \<times> 'v application" where
  "delay_turn c i endTime now s =
     (case check_interrupts c i s of (ok, s) \<Rightarrow> if \<not> ok then (Interrupted, s) else
      case (if limit_timeEvent c i s \<and> TCL_TIME_BEFORE (limit_time c i s) now
            then check_limit c i (reset_granularity c i s) else (True, s)) of (ok, s) \<Rightarrow>
      if \<not> ok then (Interrupted, s)
      else if \<not> limit_timeEvent c i s \<or> TCL_TIME_BEFORE endTime (limit_time c i s) then
        (let diff = slice (TCL_TIME_DIFF_MS_CEILING endTime now);
             diff = (if diff = 0 \<and> TCL_TIME_BEFORE now endTime then 1 else diff)
         in if diff > 0
            then (if diff < SLEEP_OFFLOAD_GETTIMEOFDAY then Delayed else Again, Tcl_Sleep c diff s)
            else (Delayed, s))
      else
        (let diff = slice (TCL_TIME_DIFF_MS (limit_time c i s) now);
             s = (if diff > 0 then Tcl_Sleep c diff s else s)
         in case check_interrupts c i s of (ok, s) \<Rightarrow> if \<not> ok then (Interrupted, s) else
            case check_limit c i s of (ok, s) \<Rightarrow> (if \<not> ok then Interrupted else Again, s)))"

partial_function (option) delay_loop ::
  "'v after_calls \<Rightarrow> nat \<Rightarrow> Tcl_Time \<Rightarrow> Tcl_Time \<Rightarrow> 'v application \<Rightarrow> (int \<times> 'v application) option" where
  "delay_loop c i endTime now s =
     (case delay_turn c i endTime now s of
        (Delayed, s) \<Rightarrow> Some (0, s)
      | (Interrupted, s) \<Rightarrow> Some (1, s)
      | (Again, s) \<Rightarrow> (case get_time (timing c) s of (now, s) \<Rightarrow>
          if TCL_TIME_BEFORE now endTime then delay_loop c i endTime now s else Some (0, s)))"

definition AfterDelay :: "'v after_calls \<Rightarrow> nat \<Rightarrow> int \<Rightarrow> 'v application \<Rightarrow> (int \<times> 'v application) option" where
  "AfterDelay c i ms s = (case get_time (timing c) s of (now, s) \<Rightarrow> delay_loop c i (after_ms ms now) now s)"

section \<open>The command\<close>

datatype subcommand = AFTER_TIME int | AFTER_CANCEL | AFTER_IDLE | AFTER_INFO

datatype after_error = WrongNumArgs nat string | Failure string "string list" | DelayFailed

datatype after_reply = NoReply | EventId string | Events "string list" | Event Tcl_Obj string

definition afterSubCmds :: "string list" where
  "afterSubCmds = [''cancel'', ''idle'', ''info'']"

text \<open>
  The table is static; its address is a constant.  Where \<open>long\<close> has 64 bits, as here, there is no
  type of its own for wide integers, and the test for it is not compiled.
\<close>

definition get_subcommand :: "'v after_calls \<Rightarrow> Tcl_Obj \<Rightarrow> subcommand option" where
  "get_subcommand c obj =
     (case (if typePtr obj \<in> {tclIntType, tclBignumType} then Inl ([], [])
            else fst (Tcl_GetIndexFromObjStruct obj 0 afterSubCmds 8 [] 0)) of
        Inl _ \<Rightarrow> map_option AFTER_TIME (Tcl_GetWideIntFromObj c obj)
      | Inr index \<Rightarrow> Some (if index = 0 then AFTER_CANCEL else if index = 1 then AFTER_IDLE else AFTER_INFO))"

definition after_script :: "'v after_calls \<Rightarrow> Tcl_Obj list \<Rightarrow> Tcl_Obj" where
  "after_script c args = (if length args = 1 then hd args else Tcl_ConcatObj c args)"

text \<open>A new cell with the next identifier, not yet linked.\<close>

definition new_after :: "'v after_calls \<Rightarrow> nat \<Rightarrow> nat \<Rightarrow> Tcl_Obj \<Rightarrow> 'v application \<Rightarrow> nat \<times> 'v application" where
  "new_after c t i cmd s =
     (let a = after_address c s;
          s = set_info a (Some \<lparr>assocPtr = i, commandPtr = cmd, after_id = afterId (td t s), after_token = 0\<rparr>) s
      in (a, set_td t (\<lambda>d. d\<lparr>afterId := int32 (afterId d + 1)\<rparr>) s))"

text \<open>The time at which a script is to run: the carry is applied when the sum exceeds a second.\<close>

definition after_wakeup :: "int \<Rightarrow> Tcl_Time \<Rightarrow> Tcl_Time" where
  "after_wakeup ms now =
     (let wakeup = \<lparr>sec = sec now + ms div 1000, usec = usec now + ms mod 1000 * 1000\<rparr>
      in if usec wakeup > 1000000 then \<lparr>sec = sec wakeup + 1, usec = usec wakeup - 1000000\<rparr> else wakeup)"

definition link_info :: "nat \<Rightarrow> nat \<Rightarrow> nat \<Rightarrow> 'v application \<Rightarrow> 'v application option" where
  "link_info t i a s = do {
     xs \<leftarrow> chain t s i;
     Some (set_chain t i (Some (a # xs)) s)
   }"

definition event_reply :: "nat \<Rightarrow> 'v application \<Rightarrow> (after_reply \<times> 'v application) option" where
  "event_reply a s = do {
     f \<leftarrow> info s a;
     Some (EventId (event_name (after_id f)), s)
   }"

definition after_timer :: "'v after_calls \<Rightarrow> nat \<Rightarrow> nat \<Rightarrow> int \<Rightarrow> Tcl_Obj \<Rightarrow> 'v application \<Rightarrow> (after_reply \<times> 'v application) option" where
  "after_timer c t i ms cmd s =
     (let (a, s) = new_after c t i cmd s;
          (now, s) = get_time (timing c) s;
          (token, s) = TclCreateAbsoluteTimerHandler (timing c) t (after_wakeup ms now) (AfterProc_ptr c) a s
      in do {
        f \<leftarrow> info s a;
        let s = set_info a (Some (f\<lparr>after_token := token\<rparr>)) s;
        s \<leftarrow> link_info t i a s;
        event_reply a s
      })"

definition after_idle :: "'v after_calls \<Rightarrow> nat \<Rightarrow> nat \<Rightarrow> Tcl_Obj \<Rightarrow> 'v application \<Rightarrow> (after_reply \<times> 'v application) option" where
  "after_idle c t i cmd s =
     (let (a, s) = new_after c t i cmd s in do {
        s \<leftarrow> link_info t i a s;
        s \<leftarrow> Tcl_DoWhenIdle (timing c) t (AfterProc_ptr c) a s;
        event_reply a s
      })"

text \<open>An event is looked for by its script first, then by its identifier.\<close>

definition after_cancel :: "'v after_calls \<Rightarrow> nat \<Rightarrow> nat \<Rightarrow> Tcl_Obj \<Rightarrow> 'v application \<Rightarrow> 'v application option" where
  "after_cancel c t i cmd s = do {
     xs \<leftarrow> chain t s i;
     r \<leftarrow> find_after (\<lambda>f. string_rep (commandPtr f) = string_rep cmd) xs s;
     r \<leftarrow> (if r = None then GetAfterEvent xs (string_rep cmd) s else Some r);
     (case r of None \<Rightarrow> Some s | Some a \<Rightarrow> do {
        s \<leftarrow> withdraw c t a s;
        FreeAfterPtr t a s
      })
   }"

fun list_events :: "nat list \<Rightarrow> 'v application \<Rightarrow> string list option" where
  "list_events [] s = Some []"
| "list_events (a # xs) s = do {
     f \<leftarrow> info s a;
     names \<leftarrow> list_events xs s;
     Some (event_name (after_id f) # names)
   }"

definition after_info :: "nat \<Rightarrow> nat \<Rightarrow> Tcl_Obj \<Rightarrow> 'v application \<Rightarrow> (after_error + after_reply) option" where
  "after_info t i arg s = do {
     xs \<leftarrow> chain t s i;
     r \<leftarrow> GetAfterEvent xs (string_rep arg) s;
     (case r of
        None \<Rightarrow> Some (Inl (Failure (''event \"'' @ string_rep arg @ ''\" doesn'' @ [CHR 0x27] @ ''t exist'')
                  [''TCL'', ''LOOKUP'', ''EVENT'', string_rep arg]))
      | Some a \<Rightarrow> do {
          f \<leftarrow> info s a;
          Some (Inr (Event (commandPtr f) (if after_token f = 0 then ''idle'' else ''timer'')))
        })
   }"

definition ok :: "(after_reply \<times> 'v application) option \<Rightarrow> ((after_error + after_reply) \<times> 'v application) option" where
  "ok = map_option (\<lambda>(r, s). (Inr r, s))"

text \<open>The forms of the command, when the data of the interpreter exists.\<close>

definition after_form ::
  "'v after_calls \<Rightarrow> nat \<Rightarrow> nat \<Rightarrow> Tcl_Obj list \<Rightarrow> 'v application \<Rightarrow> ((after_error + after_reply) \<times> 'v application) option" where
  "after_form c t i objv s =
     (case get_subcommand c (objv ! 1) of
        None \<Rightarrow> Some (Inl (Failure (''bad argument \"'' @ string_rep (objv ! 1) @ ''\": must be cancel, idle, info, or an integer'')
                  [''TCL'', ''LOOKUP'', ''INDEX'', ''argument'', string_rep (objv ! 1)]), s)
      | Some (AFTER_TIME ms) \<Rightarrow>
          (let ms = (if ms < 0 then 0 else ms) in
           if length objv = 2
           then map_option (\<lambda>(r, s). (if r = 0 then Inr NoReply else Inl DelayFailed, s)) (AfterDelay c i ms s)
           else ok (after_timer c t i ms (after_script c (drop 2 objv)) s))
      | Some AFTER_CANCEL \<Rightarrow>
          if length objv < 3 then Some (Inl (WrongNumArgs 2 ''id|command''), s)
          else ok (map_option (Pair NoReply) (after_cancel c t i (after_script c (drop 2 objv)) s))
      | Some AFTER_IDLE \<Rightarrow>
          if length objv < 3 then Some (Inl (WrongNumArgs 2 ''script ?script ...?''), s)
          else ok (after_idle c t i (after_script c (drop 2 objv)) s)
      | Some AFTER_INFO \<Rightarrow>
          if length objv = 2 then do {
            xs \<leftarrow> chain t s i;
            names \<leftarrow> list_events xs s;
            Some (Inr (Events names), s)
          }
          else if length objv \<noteq> 3 then Some (Inl (WrongNumArgs 2 ''?id?''), s)
          else map_option (\<lambda>r. (r, s)) (after_info t i (objv ! 2) s))"

definition Tcl_AfterObjCmd ::
  "'v after_calls \<Rightarrow> nat \<Rightarrow> nat \<Rightarrow> Tcl_Obj list \<Rightarrow> 'v application \<Rightarrow> ((after_error + after_reply) \<times> 'v application) option" where
  "Tcl_AfterObjCmd c t i objv s =
     (let s = InitTimer (timing c) t s in
      if length objv < 2 then Some (Inl (WrongNumArgs 1 ''option ?arg ...?''), s)
      else
        (let s = (if chain t s i = None then set_chain t i (Some []) s else s)
         in after_form c t i objv s))"

end
