(* ===== verification/AfterSafe.thy ===== *)
theory AfterSafe
  imports After
begin

text \<open>
  What the \<open>after\<close> command promises: the chains, the timers and the idle handlers agree in every
  state, no freed cell is used, and an event is found, inspected and cancelled by its identifier.
\<close>

section \<open>Agreement of chains, timers and idle handlers\<close>

definition listed :: "(nat \<Rightarrow> nat list option) \<Rightarrow> nat set" where
  "listed ch = {a. \<exists>i xs. ch i = Some xs \<and> a \<in> set xs}"

definition token_of :: "(nat \<Rightarrow> AfterInfo option) \<Rightarrow> nat \<Rightarrow> int" where
  "token_of mem a = (case mem a of None \<Rightarrow> 0 | Some f \<Rightarrow> after_token f)"

definition id_of :: "(nat \<Rightarrow> AfterInfo option) \<Rightarrow> nat \<Rightarrow> int" where
  "id_of mem a = (case mem a of None \<Rightarrow> - 1 | Some f \<Rightarrow> after_id f)"

text \<open>Each chain has the events of its interpreter, the newest first.\<close>

definition chains_ok :: "(nat \<Rightarrow> nat list option) \<Rightarrow> (nat \<Rightarrow> AfterInfo option) \<Rightarrow> int \<Rightarrow> bool" where
  "chains_ok ch mem n \<longleftrightarrow> inj_on (id_of mem) (listed ch) \<and>
     (\<forall>i xs. ch i = Some xs \<longrightarrow> sorted_wrt (\<lambda>a b. id_of mem b < id_of mem a) xs \<and>
        (\<forall>a\<in>set xs. \<exists>f. mem a = Some f \<and> assocPtr f = i \<and> 0 \<le> after_id f \<and> after_id f < n))"

definition timers_linked :: "nat \<Rightarrow> nat set \<Rightarrow> (nat \<Rightarrow> AfterInfo option) \<Rightarrow> TimerHandler list \<Rightarrow> bool" where
  "timers_linked p L mem hs \<longleftrightarrow>
     (\<forall>h\<in>set hs. timer_proc h = p \<longrightarrow> timer_clientData h \<in> L \<and> token_of mem (timer_clientData h) = timer_token h) \<and>
     (\<forall>a\<in>L. token_of mem a \<noteq> 0 \<longrightarrow> (\<exists>h\<in>set hs. timer_proc h = p \<and> timer_clientData h = a))"

definition idles_linked :: "nat \<Rightarrow> nat set \<Rightarrow> (nat \<Rightarrow> AfterInfo option) \<Rightarrow> (nat \<times> IdleHandler) list \<Rightarrow> bool" where
  "idles_linked p L mem xs \<longleftrightarrow>
     (\<forall>x\<in>set xs. idle_proc (snd x) = p \<longrightarrow> idle_clientData (snd x) \<in> L \<and> token_of mem (idle_clientData (snd x)) = 0) \<and>
     (\<forall>a\<in>L. token_of mem a = 0 \<longrightarrow> (\<exists>x\<in>set xs. idle_proc (snd x) = p \<and> idle_clientData (snd x) = a)) \<and>
     distinct (map (\<lambda>x. idle_clientData (snd x)) (filter (\<lambda>x. idle_proc (snd x) = p) xs))"

text \<open>\<open>X\<close> are the listed events whose handler has just been taken off to be called.\<close>

definition after_wf :: "nat \<Rightarrow> nat set \<Rightarrow> (nat \<Rightarrow> nat list option) \<Rightarrow> (nat \<Rightarrow> AfterInfo option) \<Rightarrow> TimerData \<Rightarrow> bool" where
  "after_wf p X ch mem d \<longleftrightarrow> finite (dom mem) \<and> chains_ok ch mem (afterId d) \<and> X \<subseteq> listed ch
     \<and> timers_linked p (listed ch - X) mem (firstTimerHandlerPtr d) \<and> idles_linked p (listed ch - X) mem (idleList d)
     \<and> (\<exists>ps. pending_timers d ps) \<and> idle_wf d \<and> 0 \<le> afterId d \<and> afterId d \<le> INT_MAX"

lemma listed_info: "chains_ok ch mem n \<Longrightarrow> a \<in> listed ch \<Longrightarrow>
  \<exists>f xs. mem a = Some f \<and> ch (assocPtr f) = Some xs \<and> a \<in> set xs \<and> 0 \<le> after_id f \<and> after_id f < n"
  unfolding listed_def chains_ok_def by fastforce

lemma chain_info: "chains_ok ch mem n \<Longrightarrow> ch i = Some xs \<Longrightarrow> a \<in> set xs \<Longrightarrow>
  \<exists>f. mem a = Some f \<and> assocPtr f = i \<and> 0 \<le> after_id f \<and> after_id f < n"
  unfolding chains_ok_def by blast

lemma chain_distinct: "chains_ok ch mem n \<Longrightarrow> ch i = Some xs \<Longrightarrow> distinct xs"
proof -
  assume "chains_ok ch mem n" "ch i = Some xs"
  then have "sorted_wrt (\<lambda>a b. id_of mem b < id_of mem a) xs" by (simp add: chains_ok_def)
  then show "distinct xs" by (induction xs) auto
qed

lemma chain_listed: "ch i = Some xs \<Longrightarrow> a \<in> set xs \<Longrightarrow> a \<in> listed ch"
  by (auto simp: listed_def)

definition listed_by_others :: "(nat \<Rightarrow> nat list option) \<Rightarrow> nat \<Rightarrow> nat set" where
  "listed_by_others ch i = {a. \<exists>j xs. j \<noteq> i \<and> ch j = Some xs \<and> a \<in> set xs}"

lemma listed_upd: "listed (ch(i := v)) = (case v of None \<Rightarrow> {} | Some xs \<Rightarrow> set xs) \<union> listed_by_others ch i"
  by (cases v) (auto simp: listed_def listed_by_others_def)

lemma listed_split: "listed ch = (case ch i of None \<Rightarrow> {} | Some xs \<Rightarrow> set xs) \<union> listed_by_others ch i"
  using listed_upd [of ch i "ch i"] by simp

lemma listed_push: "ch i = Some xs \<Longrightarrow> listed (ch(i \<mapsto> a # xs)) = insert a (listed ch)"
  by (simp add: listed_upd listed_split [of ch i])

lemma listed_empty [simp]: "ch i = None \<Longrightarrow> listed (ch(i \<mapsto> [])) = listed ch" "ch i = Some [] \<Longrightarrow> listed (ch(i := None)) = listed ch"
  by (simp_all add: listed_upd listed_split [of ch i])

lemma listed_remove:
  assumes "chains_ok ch mem n" "ch i = Some xs" "a \<in> set xs"
  shows "listed (ch(i \<mapsto> remove1 a xs)) = listed ch - {a}"
proof -
  have "a \<notin> set ys" if "ch j = Some ys" "j \<noteq> i" for j ys
    using chain_info [OF assms] chain_info [OF assms(1) that(1), of a] that(2) by auto
  then have "a \<notin> listed_by_others ch i" by (auto simp: listed_by_others_def)
  then show ?thesis using assms(2) chain_distinct [OF assms(1,2)]
    by (auto simp: listed_upd listed_split [of ch i])
qed

lemma chains_cong:
  assumes "chains_ok ch mem n" "\<And>a. a \<in> listed ch \<Longrightarrow> mem' a = mem a" "n \<le> m"
  shows "chains_ok ch mem' m"
proof -
  have i: "id_of mem' a = id_of mem a" if "a \<in> listed ch" for a using assms(2) that by (simp add: id_of_def)
  have "sorted_wrt (\<lambda>a b. id_of mem' b < id_of mem' a) xs \<and>
      (\<forall>a\<in>set xs. \<exists>f. mem' a = Some f \<and> assocPtr f = j \<and> 0 \<le> after_id f \<and> after_id f < m)"
    if "ch j = Some xs" for j xs
  proof
    have "\<forall>a\<in>set xs. id_of mem' a = id_of mem a" using i chain_listed [of ch, OF that] by blast
    moreover have "sorted_wrt (\<lambda>a b. id_of mem b < id_of mem a) xs" using assms(1) that by (simp add: chains_ok_def)
    ultimately show "sorted_wrt (\<lambda>a b. id_of mem' b < id_of mem' a) xs" by (induction xs) auto
    show "\<forall>a\<in>set xs. \<exists>f. mem' a = Some f \<and> assocPtr f = j \<and> 0 \<le> after_id f \<and> after_id f < m"
      using chain_info [OF assms(1) that] assms(2) [OF chain_listed [of ch, OF that]] assms(3) by fastforce
  qed
  moreover have "inj_on (id_of mem') (listed ch)" using assms(1) i by (simp add: chains_ok_def inj_on_def)
  ultimately show ?thesis unfolding chains_ok_def by blast
qed

lemma chains_push:
  assumes "chains_ok ch mem n" "ch i = Some xs" "mem a = None" "assocPtr f = i" "after_id f = n" "0 \<le> n"
  shows "chains_ok (ch(i \<mapsto> a # xs)) (mem(a \<mapsto> f)) (n + 1)"
proof -
  have a: "a \<notin> listed ch" using listed_info [OF assms(1), of a] assms(3) by auto
  have old: "chains_ok ch (mem(a \<mapsto> f)) n" by (rule chains_cong [OF assms(1)]) (use a in auto)
  have less: "id_of (mem(a \<mapsto> f)) b < n" if "b \<in> listed ch" for b
    using listed_info [OF old that] by (auto simp: id_of_def)
  have new: "id_of (mem(a \<mapsto> f)) a = n" using assms(5) by (simp add: id_of_def)
  have "inj_on (id_of (mem(a \<mapsto> f))) (insert a (listed ch))"
    using old less new a by (fastforce simp: chains_ok_def)
  moreover have "sorted_wrt (\<lambda>a b. id_of (mem(a' \<mapsto> f)) b < id_of (mem(a' \<mapsto> f)) a) (a # xs)" if "a' = a" for a'
    using old assms(2) less new chain_listed [of ch, OF assms(2)] that by (auto simp: chains_ok_def)
  moreover have "\<exists>g. (mem(a \<mapsto> f)) b = Some g \<and> assocPtr g = j \<and> 0 \<le> after_id g \<and> after_id g < n + 1"
    if c: "(ch(i \<mapsto> a # xs)) j = Some ys" "b \<in> set ys" for j ys b
  proof (cases "b = a")
    case True
    have "j = i" using c True a chain_listed [of ch j ys a] by (auto split: if_splits)
    then show ?thesis using True assms(4-6) by simp
  next
    case False
    then obtain zs where "ch j = Some zs" "b \<in> set zs" using c assms(2) by (auto split: if_splits)
    from chain_info [OF old this] show ?thesis by auto
  qed
  ultimately show ?thesis
    using old unfolding chains_ok_def listed_push [of ch, OF assms(2)] by (auto split: if_splits)
qed

lemma chains_remove:
  assumes "chains_ok ch mem n" "ch i = Some xs" "a \<in> set xs"
  shows "chains_ok (ch(i \<mapsto> remove1 a xs)) mem n"
proof -
  have "sorted_wrt R (remove1 a ys)" if "sorted_wrt R ys" for R and ys :: "nat list"
    using that by (induction ys) (auto dest: notin_set_remove1 [rotated])
  then have "sorted_wrt (\<lambda>a b. id_of mem b < id_of mem a) ys \<and>
      (\<forall>b\<in>set ys. \<exists>f. mem b = Some f \<and> assocPtr f = j \<and> 0 \<le> after_id f \<and> after_id f < n)"
    if "(ch(i \<mapsto> remove1 a xs)) j = Some ys" for j ys
    using assms(1,2) that set_remove1_subset [of a xs] unfolding chains_ok_def by (cases "j = i"; fastforce)
  moreover have "inj_on (id_of mem) (listed ch - {a})" using assms(1) by (auto simp: chains_ok_def inj_on_def)
  ultimately show ?thesis unfolding chains_ok_def listed_remove [OF assms] by blast
qed

lemma chains_empty:
  assumes "chains_ok ch mem n"
  shows "ch i = None \<Longrightarrow> chains_ok (ch(i \<mapsto> [])) mem n" "ch i = Some [] \<Longrightarrow> chains_ok (ch(i := None)) mem n"
  using assms by (auto simp: chains_ok_def split: if_splits)

section \<open>Handlers come and go with their events\<close>

lemma token_upd: "a \<noteq> b \<Longrightarrow> token_of (mem(b := x)) a = token_of mem a"
  by (simp add: token_of_def)

lemma timers_cong: "timers_linked p L mem hs \<Longrightarrow> (\<And>a. a \<in> L \<Longrightarrow> token_of mem' a = token_of mem a) \<Longrightarrow> timers_linked p L mem' hs"
  unfolding timers_linked_def by auto

lemma idles_cong: "idles_linked p L mem xs \<Longrightarrow> (\<And>a. a \<in> L \<Longrightarrow> token_of mem' a = token_of mem a) \<Longrightarrow> idles_linked p L mem' xs"
  unfolding idles_linked_def by auto

lemma timers_new:
  assumes "timers_linked p L mem hs" "set hs' = insert h (set hs)" "timer_proc h = p" "timer_clientData h = a" "token_of mem a = timer_token h"
  shows "timers_linked p (insert a L) mem hs'"
  using assms unfolding timers_linked_def by auto

lemma timers_same: "timers_linked p L mem hs \<Longrightarrow> token_of mem a = 0 \<Longrightarrow> timers_linked p (insert a L) mem hs"
  unfolding timers_linked_def by auto

lemma idles_same: "idles_linked p L mem xs \<Longrightarrow> token_of mem a \<noteq> 0 \<Longrightarrow> idles_linked p (insert a L) mem xs"
  unfolding idles_linked_def by auto

lemma idles_new:
  assumes "idles_linked p L mem xs" "a \<notin> L" "idle_proc h = p" "idle_clientData h = a" "token_of mem a = 0"
  shows "idles_linked p (insert a L) mem (xs @ [(b, h)])"
proof -
  have "a \<noteq> idle_clientData (snd x)" if "x \<in> set xs" "idle_proc (snd x) = p" for x
    using assms(1,2) that by (auto simp: idles_linked_def)
  then show ?thesis using assms unfolding idles_linked_def by fastforce
qed

text \<open>Without the handler of an event.\<close>

lemma timers_drop:
  assumes "timers_linked p L mem hs" "distinct (map timer_token hs)" "a \<in> L" "token_of mem a = n" "n \<noteq> 0"
  shows "timers_linked p (L - {a}) mem (filter (\<lambda>h. timer_token h \<noteq> n) hs)"
proof -
  obtain h where h: "h \<in> set hs" "timer_proc h = p" "timer_clientData h = a" "timer_token h = n"
    using assms unfolding timers_linked_def by metis
  have u: "g = h" if "g \<in> set hs" "timer_token g = n" for g
    using assms(2) h(1,4) that by (auto simp: distinct_map inj_on_def)
  have "timer_clientData g \<in> L - {a} \<and> token_of mem (timer_clientData g) = timer_token g"
    if "g \<in> set hs" "timer_token g \<noteq> n" "timer_proc g = p" for g
    using assms(1,4) that by (auto simp: timers_linked_def)
  moreover have "\<exists>g\<in>set hs. timer_token g \<noteq> n \<and> timer_proc g = p \<and> timer_clientData g = b"
    if b: "b \<in> L - {a}" "token_of mem b \<noteq> 0" for b
  proof -
    obtain g where g: "g \<in> set hs" "timer_proc g = p" "timer_clientData g = b" using assms(1) b by (auto simp: timers_linked_def)
    then have "timer_token g \<noteq> n" using u h(3) b(1) by auto
    then show ?thesis using g by blast
  qed
  ultimately show ?thesis unfolding timers_linked_def by auto
qed

lemma timers_outside: "timers_linked p L mem hs \<Longrightarrow> token_of mem a = 0 \<Longrightarrow> \<forall>h\<in>set hs. timer_token h \<noteq> 0 \<Longrightarrow> timers_linked p (L - {a}) mem hs"
  unfolding timers_linked_def by fastforce

lemma idles_outside: "idles_linked p L mem xs \<Longrightarrow> token_of mem a \<noteq> 0 \<Longrightarrow> idles_linked p (L - {a}) mem xs"
  unfolding idles_linked_def by fastforce

lemma idles_drop:
  assumes "idles_linked p L mem xs"
  shows "idles_linked p (L - {a}) mem (filter (\<lambda>x. \<not> (idle_proc (snd x) = p \<and> idle_clientData (snd x) = a)) xs)"
proof -
  let ?P = "\<lambda>x. idle_proc (snd x) = p" and ?c = "\<lambda>x. idle_clientData (snd x)"
  have f: "filter ?P (filter (\<lambda>x. \<not> (?P x \<and> ?c x = a)) xs) = filter (\<lambda>x. ?c x \<noteq> a) (filter ?P xs)"
    unfolding filter_filter by (rule filter_cong) auto
  have "distinct (map ?c (filter ?P xs))" using assms by (simp add: idles_linked_def)
  then have "distinct (map ?c (filter ?P (filter (\<lambda>x. \<not> (?P x \<and> ?c x = a)) xs)))"
    unfolding f by (rule distinct_map_filter)
  moreover have "\<exists>x\<in>set xs. \<not> (?P x \<and> ?c x = a) \<and> ?P x \<and> ?c x = b" if b: "b \<in> L - {a}" "token_of mem b = 0" for b
    using assms b unfolding idles_linked_def by (metis DiffE singletonI)
  moreover have "?c x \<in> L - {a} \<and> token_of mem (?c x) = 0" if "x \<in> set xs" "\<not> (?P x \<and> ?c x = a)" "?P x" for x
    using assms that unfolding idles_linked_def by blast
  ultimately show ?thesis unfolding idles_linked_def set_filter by blast
qed

lemma timers_other: "timers_linked p L mem (h # hs) \<Longrightarrow> timer_proc h \<noteq> p \<Longrightarrow> timers_linked p L mem hs"
  unfolding timers_linked_def by fastforce

lemma idles_other: "idles_linked p L mem (x # xs) \<Longrightarrow> idle_proc (snd x) \<noteq> p \<Longrightarrow> idles_linked p L mem xs"
  unfolding idles_linked_def by fastforce

lemma idles_first:
  assumes "idles_linked p L mem (x # xs)" "idle_proc (snd x) = p"
  shows "idles_linked p (L - {idle_clientData (snd x)}) mem xs"
proof -
  have "\<forall>y\<in>set xs. \<not> (idle_proc (snd y) = p \<and> idle_clientData (snd y) = idle_clientData (snd x))"
    using assms unfolding idles_linked_def by (fastforce simp: image_iff)
  then have "filter (\<lambda>y. \<not> (idle_proc (snd y) = p \<and> idle_clientData (snd y) = idle_clientData (snd x))) (x # xs) = xs"
    using assms(2) by (auto simp: filter_id_conv)
  then show ?thesis using idles_drop [OF assms(1), of "idle_clientData (snd x)"] by simp
qed


section \<open>The state\<close>

definition after_clock :: "'v after_calls \<Rightarrow> 'v application \<Rightarrow> Tcl_Time" where
  "after_clock c s = fst (Tcl_GetTime (timing c) (user (world s)))"

definition not_earlier :: "Tcl_Time \<Rightarrow> Tcl_Time \<Rightarrow> bool" where
  "not_earlier a b \<longleftrightarrow> \<not> TCL_TIME_BEFORE a b"

lemma not_earlier_refl [simp]: "not_earlier a a"
  by (simp add: not_earlier_def TCL_TIME_BEFORE_def)

lemma not_earlier_trans: "not_earlier b a \<Longrightarrow> not_earlier d b \<Longrightarrow> not_earlier d a"
  by (auto simp: not_earlier_def TCL_TIME_BEFORE_def)

text \<open>
  What is asked of the platform: it reads and changes only the application's own data, its clock gives
  normalised times that do not decrease, and the allocator returns unused addresses.
\<close>

definition after_platform :: "'v after_calls \<Rightarrow> nat \<Rightarrow> bool" where
  "after_platform c t \<longleftrightarrow>
     (\<exists>g. (\<forall>u. Tcl_GetTime (timing c) u = (fst (g (app u)), u\<lparr>app := snd (g (app u))\<rparr>)) \<and>
        (\<forall>v. normalized (fst (g v)) \<and> not_earlier (fst (g (snd (g v)))) (fst (g v)))) \<and>
     (\<forall>tm s. (\<exists>v. Tcl_SetTimer (notifier (timing c)) tm s = s\<lparr>world := (world s)\<lparr>user := (user (world s))\<lparr>app := v\<rparr>\<rparr>\<rparr>) \<and>
        not_earlier (after_clock c (Tcl_SetTimer (notifier (timing c)) tm s)) (after_clock c s)) \<and>
     (\<forall>s. finite (dom (info s)) \<longrightarrow> info s (after_address c s) = None) \<and>
     (\<forall>s. idle_address (timing c) s \<notin> fst ` set (idleList (td t s)))"

lemma after_platform_platform: "after_platform c t \<Longrightarrow> platform (timing c)"
  unfolding after_platform_def platform_def own_user_def by blast

text \<open>Steps that leave the events alone.\<close>

definition same_events :: "'v after_calls \<Rightarrow> 'v application \<Rightarrow> 'v application \<Rightarrow> bool" where
  "same_events c s s' \<longleftrightarrow> afterInfos (user (world s')) = afterInfos (user (world s))
     \<and> assocs (user (world s')) = assocs (user (world s)) \<and> not_earlier (after_clock c s') (after_clock c s)"

lemma same_events_trans: "same_events c s s1 \<Longrightarrow> same_events c s1 s2 \<Longrightarrow> same_events c s s2"
  unfolding same_events_def using not_earlier_trans by metis

lemma same_user: "user (world s') = user (world s) \<Longrightarrow> same_events c s s'"
  by (simp add: same_events_def after_clock_def)

lemma same_events_info: "same_events c s s' \<Longrightarrow> info s' = info s \<and> chain t s' = chain t s \<and> not_earlier (after_clock c s') (after_clock c s)"
  by (simp add: same_events_def info_def chain_def)

lemma same_get_time:
  assumes "after_platform c t" "get_time (timing c) s = (now, s')"
  shows "same_events c s s'" "now = after_clock c s" "normalized now"
proof -
  obtain g where g: "\<And>u. Tcl_GetTime (timing c) u = (fst (g (app u)), u\<lparr>app := snd (g (app u))\<rparr>)"
    "\<And>v. normalized (fst (g v)) \<and> not_earlier (fst (g (snd (g v)))) (fst (g v))"
    using assms(1) unfolding after_platform_def by blast
  have s': "now = fst (g (app (user (world s))))" "s' = s\<lparr>world := (world s)\<lparr>user := (user (world s))\<lparr>app := snd (g (app (user (world s))))\<rparr>\<rparr>\<rparr>"
    using assms(2) by (auto simp: get_time_def g(1))
  show "same_events c s s'" "now = after_clock c s" "normalized now"
    using g(2) by (simp_all add: s' same_events_def after_clock_def g(1))
qed

lemma clock_app: "after_platform c t \<Longrightarrow> app (user (world s)) = app (user (world s')) \<Longrightarrow> after_clock c s = after_clock c s'"
  unfolding after_platform_def after_clock_def by (metis fst_conv)

lemma same_SetTimer: "after_platform c t \<Longrightarrow> same_events c s (Tcl_SetTimer (notifier (timing c)) tm s)"
proof -
  assume a: "after_platform c t"
  then obtain v where v: "Tcl_SetTimer (notifier (timing c)) tm s = s\<lparr>world := (world s)\<lparr>user := (user (world s))\<lparr>app := v\<rparr>\<rparr>\<rparr>"
    unfolding after_platform_def by blast
  have "not_earlier (after_clock c (Tcl_SetTimer (notifier (timing c)) tm s)) (after_clock c s)"
    using a unfolding after_platform_def by blast
  then show ?thesis by (simp add: same_events_def v)
qed

lemma user_upd [simp]: "user (world (upd t f s)) = user (world s)"
  by (simp add: upd_def)

lemma same_SetMaxBlockTime:
  assumes "after_platform c t"
  shows "same_events c s (Tcl_SetMaxBlockTime (notifier (timing c)) u b s)"
proof -
  have "same_events c s (if P then upd u f s else s)" for P f by (rule same_user) simp
  moreover have "same_events c x (if P then Tcl_SetTimer (notifier (timing c)) tm x else x)" for P tm x
    using same_SetTimer [OF assms] same_user [of x x c] by simp
  ultimately show ?thesis unfolding Tcl_SetMaxBlockTime_def Let_def by (rule same_events_trans)
qed

lemma user_InitTimer [simp]: "user (world (InitTimer k t s)) = user (world s)"
  by (simp add: InitTimer_def Tcl_CreateEventSource_def)

lemma same_TimerSetupProc:
  assumes "after_platform c t"
  shows "same_events c s (TimerSetupProc (timing c) u flags s)"
proof -
  let ?s = "InitTimer (timing c) u s"
  have i: "same_events c s ?s" by (rule same_user) simp
  obtain now s1 where g: "get_time (timing c) ?s = (now, s1)" by (cases "get_time (timing c) ?s")
  have "same_events c s (Tcl_SetMaxBlockTime (notifier (timing c)) u b s1)" for b
    using same_events_trans [OF i same_events_trans [OF same_get_time(1) [OF assms g] same_SetMaxBlockTime [OF assms]]] .
  moreover have "same_events c s (Tcl_SetMaxBlockTime (notifier (timing c)) u b ?s)" for b
    using same_events_trans [OF i same_SetMaxBlockTime [OF assms]] .
  ultimately show ?thesis using i g by (simp add: TimerSetupProc_def Let_def)
qed

lemma same_Create:
  assumes "after_platform c t"
  shows "same_events c s (snd (TclCreateAbsoluteTimerHandler (timing c) u time p d s))"
proof -
  have "same_events c s (set_td u f (InitTimer (timing c) u s))" for f by (rule same_user) simp
  then show ?thesis using same_events_trans same_TimerSetupProc [OF assms]
    unfolding TclCreateAbsoluteTimerHandler_def Let_def snd_conv by blast
qed

lemma user_Delete [simp]: "user (world (Tcl_DeleteTimerHandler k t token s)) = user (world s)"
  by (simp add: Tcl_DeleteTimerHandler_def Let_def)

lemma user_CancelIdle [simp]: "user (world (Tcl_CancelIdleCall k t p d s)) = user (world s)"
  by (simp add: Tcl_CancelIdleCall_def Let_def)

lemma same_DoWhenIdle:
  assumes "after_platform c t" "Tcl_DoWhenIdle (timing c) u p d s = Some s'"
  shows "same_events c s s'"
proof -
  obtain xs l where s': "s' = Tcl_SetMaxBlockTime (notifier (timing c)) u \<lparr>sec = 0, usec = 0\<rparr>
      (set_td u (\<lambda>d. d\<lparr>idleList := xs, lastIdlePtr := l\<rparr>) (InitTimer (timing c) u s))"
    using assms(2) unfolding Tcl_DoWhenIdle_def Let_def
    by (auto split: option.splits bind_splits)
  have "same_events c s (set_td u f (InitTimer (timing c) u s))" for f by (rule same_user) simp
  then show ?thesis unfolding s' using same_events_trans same_SetMaxBlockTime [OF assms(1)] by blast
qed


section \<open>What every operation keeps\<close>

definition after_ok :: "'v after_calls \<Rightarrow> nat \<Rightarrow> nat set \<Rightarrow> 'v application \<Rightarrow> bool" where
  "after_ok c t X s \<longleftrightarrow> after_wf (AfterProc_ptr c) X (chain t s) (info s) (td t s)"

text \<open>
  Cells that are in no chain belong to scripts that are running: an operation neither changes, frees
  nor links them.  Timers that it creates are not before the time of the clock, and idle handlers
  that it adds are of the current generation.
\<close>

definition after_step :: "'v after_calls \<Rightarrow> nat \<Rightarrow> 'v application \<Rightarrow> 'v application \<Rightarrow> bool" where
  "after_step c t s s' \<longleftrightarrow>
     (\<forall>a f. info s a = Some f \<longrightarrow> a \<notin> listed (chain t s) \<longrightarrow> info s' a = Some f \<and> a \<notin> listed (chain t s'))
     \<and> timers_later (after_clock c s) (td t s) (td t s') \<and> idle_later (td t s) (td t s')
     \<and> not_earlier (after_clock c s') (after_clock c s)"

lemma timers_later_before:
  assumes "timers_later time d d'" "not_earlier time time'"
  shows "timers_later time' d d'"
proof -
  have "\<not> TCL_TIME_BEFORE a time \<Longrightarrow> \<not> TCL_TIME_BEFORE a time'" for a
    using not_earlier_trans [of time time' a] assms(2) by (simp add: not_earlier_def)
  then show ?thesis using assms(1) by (auto simp: timers_later_def)
qed

lemma idle_later_refl: "idle_wf d \<Longrightarrow> idle_later d d"
  by (simp add: idle_later_def)

lemma after_step_trans:
  assumes "after_step c t s s1" "after_step c t s1 s2"
  shows "after_step c t s s2"
proof -
  have "timers_later (after_clock c s) (td t s1) (td t s2)"
    using assms timers_later_before by (auto simp: after_step_def)
  then show ?thesis
    using assms timers_later_trans idle_later_trans not_earlier_trans unfolding after_step_def by blast
qed

lemma after_ok_later: "after_ok c t X s \<Longrightarrow> timers_later time (td t s) (td t s) \<and> idle_later (td t s) (td t s)"
  using timers_later_refl idle_later_refl by (auto simp: after_ok_def after_wf_def)

lemma after_step_same:
  assumes "after_ok c t X s" "same_events c s s'" "td t s' = td t s"
  shows "after_ok c t X s'" "after_step c t s s'"
  using assms after_ok_later [OF assms(1), of "after_clock c s"] same_events_info [OF assms(2), of t]
  by (simp_all add: after_ok_def after_step_def)

lemma after_step_refl: "after_ok c t X s \<Longrightarrow> after_step c t s s"
  using after_step_same(2) [OF _ same_user] by blast

text \<open>Access to the state.\<close>

lemma set_info_simps [simp]:
  "info (set_info a x s) = (info s)(a := x)" "chain u (set_info a x s) = chain u s" "td u (set_info a x s) = td u s"
  by (simp_all add: info_def set_info_def chain_def td_def)

lemma set_chain_simps [simp]:
  "info (set_chain t i v s) = info s" "td u (set_chain t i v s) = td u s"
  "chain t (set_chain t i v s) = (chain t s)(i := v)"
  by (simp_all add: info_def chain_def set_chain_def td_def)

lemma info_set_td [simp]: "info (set_td t f s) = info s" unfolding info_def by simp
lemma chain_set_td [simp]: "chain u (set_td t f s) = chain u s" unfolding chain_def by simp
lemma info_InitTimer [simp]: "info (InitTimer k t s) = info s" unfolding info_def user_InitTimer by (rule refl)
lemma chain_InitTimer [simp]: "chain u (InitTimer k t s) = chain u s" unfolding chain_def user_InitTimer by (rule refl)

lemma clock_simps:
  assumes "after_platform c t"
  shows "after_clock c (set_info a x s) = after_clock c s" "after_clock c (set_chain u i v s) = after_clock c s"
    "after_clock c (set_td u f s) = after_clock c s"
  by (rule clock_app [OF assms], simp add: set_info_def set_chain_def set_td_def)+

text \<open>Putting a new event into a chain, with its timer or its idle handler.\<close>

lemma new_after_props:
  assumes "after_platform c t" "after_ok c t {} s" "afterId (td t s) < INT_MAX" "new_after c t i cmd s = (a, s1)"
  shows "info s a = None" "chain t s1 = chain t s" "td t s1 = (td t s)\<lparr>afterId := afterId (td t s) + 1\<rparr>"
    "info s1 = (info s)(a \<mapsto> \<lparr>assocPtr = i, commandPtr = cmd, after_id = afterId (td t s), after_token = 0\<rparr>)"
    "after_clock c s1 = after_clock c s"
proof -
  have "0 \<le> afterId (td t s)" using assms(2) by (simp add: after_ok_def after_wf_def)
  then have n: "int32 (afterId (td t s) + 1) = afterId (td t s) + 1" using assms(3) by (intro int32_id) (simp_all add: INT_MAX_def)
  have "finite (dom (info s))" using assms(2) by (simp add: after_ok_def after_wf_def)
  then have "info s (after_address c s) = None" using assms(1) unfolding after_platform_def by blast
  then show "info s a = None" using assms(4) by (simp add: new_after_def Let_def)
  show "chain t s1 = chain t s" "td t s1 = (td t s)\<lparr>afterId := afterId (td t s) + 1\<rparr>"
    "info s1 = (info s)(a \<mapsto> \<lparr>assocPtr = i, commandPtr = cmd, after_id = afterId (td t s), after_token = 0\<rparr>)"
    "after_clock c s1 = after_clock c s"
    using assms(4) by (auto simp: new_after_def Let_def n clock_simps [OF assms(1)])
qed

lemma wakeup_not_before: "normalized now \<Longrightarrow> 0 \<le> ms \<Longrightarrow> not_earlier (after_wakeup ms now) now"
proof -
  assume "normalized now" "0 \<le> ms"
  then have "0 \<le> usec now" "usec now < 1000000" "0 \<le> ms div 1000" "0 \<le> ms mod 1000" "ms mod 1000 < 1000"
    by (auto simp: normalized_def)
  then show ?thesis unfolding not_earlier_def TCL_TIME_BEFORE_def after_wakeup_def Let_def by auto
qed

lemma wf_new_timer:
  assumes "after_wf p {} ch mem d" "ch i = Some xs" "mem a = None" "lastTimerId d < INT_MAX" "afterId d < INT_MAX"
    and h: "h = \<lparr>timer_time = time, timer_proc = p, timer_clientData = a, timer_token = lastTimerId d + 1\<rparr>"
    and d': "d' = d\<lparr>afterId := afterId d + 1, lastTimerId := lastTimerId d + 1, firstTimerHandlerPtr := insert_timer h (firstTimerHandlerPtr d)\<rparr>"
  shows "after_wf p {} (ch(i \<mapsto> a # xs))
    (mem(a \<mapsto> \<lparr>assocPtr = i, commandPtr = cmd, after_id = afterId d, after_token = lastTimerId d + 1\<rparr>)) d'"
proof -
  let ?mem = "mem(a \<mapsto> \<lparr>assocPtr = i, commandPtr = cmd, after_id = afterId d, after_token = lastTimerId d + 1\<rparr>)"
  have w: "chains_ok ch mem (afterId d)" "timers_linked p (listed ch) mem (firstTimerHandlerPtr d)"
    "idles_linked p (listed ch) mem (idleList d)" "idle_wf d" "0 \<le> afterId d" "finite (dom mem)"
    using assms(1) by (simp_all add: after_wf_def)
  obtain ps where ps: "pending_timers d ps" using assms(1) by (auto simp: after_wf_def)
  then have n: "0 \<le> lastTimerId d" by (simp add: pending_timers_def)
  have a: "a \<notin> listed ch" using listed_info [OF w(1), of a] assms(3) by auto
  have tok: "token_of ?mem a = lastTimerId d + 1" by (simp add: token_of_def)
  have same: "token_of ?mem b = token_of mem b" if "b \<in> listed ch" for b using a that by (intro token_upd) auto
  have "timers_linked p (insert a (listed ch)) ?mem (firstTimerHandlerPtr d')"
    by (rule timers_new [OF timers_cong [OF w(2) same], where h = h]) (simp_all add: d' h insert_timer_set tok)
  moreover have "idles_linked p (insert a (listed ch)) ?mem (idleList d')"
    using idles_same [OF idles_cong [OF w(3) same], of a] tok n by (simp add: d')
  moreover have "chains_ok (ch(i \<mapsto> a # xs)) ?mem (afterId d + 1)"
    using chains_push [OF w(1) assms(2,3) _ _ w(5)] by simp
  moreover have "pending_timers d' (ps @ [h])"
    using pending_create [OF ps assms(4), of h] by (simp add: h d' pending_timers_def)
  moreover have "idle_wf d'" using w(4) by (simp add: idle_wf_def d')
  ultimately show ?thesis using w(5,6) assms(5) listed_push [of ch, OF assms(2)] by (auto simp: after_wf_def d')
qed

lemma wf_new_idle:
  assumes "after_wf p {} ch mem d" "ch i = Some xs" "mem a = None" "afterId d < INT_MAX" "b \<notin> fst ` set (idleList d)"
    and h: "h = \<lparr>idle_proc = p, idle_clientData = a, generation = idleGeneration d\<rparr>"
    and d': "d' = d\<lparr>afterId := afterId d + 1, idleList := idleList d @ [(b, h)], lastIdlePtr := Some b\<rparr>"
  shows "after_wf p {} (ch(i \<mapsto> a # xs))
    (mem(a \<mapsto> \<lparr>assocPtr = i, commandPtr = cmd, after_id = afterId d, after_token = 0\<rparr>)) d'"
proof -
  let ?mem = "mem(a \<mapsto> \<lparr>assocPtr = i, commandPtr = cmd, after_id = afterId d, after_token = 0\<rparr>)"
  have w: "chains_ok ch mem (afterId d)" "timers_linked p (listed ch) mem (firstTimerHandlerPtr d)"
    "idles_linked p (listed ch) mem (idleList d)" "idle_wf d" "0 \<le> afterId d" "finite (dom mem)"
    using assms(1) by (simp_all add: after_wf_def)
  obtain ps where ps: "pending_timers d ps" using assms(1) by (auto simp: after_wf_def)
  have a: "a \<notin> listed ch" using listed_info [OF w(1), of a] assms(3) by auto
  have tok: "token_of ?mem a = 0" by (simp add: token_of_def)
  have same: "token_of ?mem b = token_of mem b" if "b \<in> listed ch" for b using a that by (intro token_upd) auto
  have "timers_linked p (insert a (listed ch)) ?mem (firstTimerHandlerPtr d')"
    using timers_same [OF timers_cong [OF w(2) same] tok] by (simp add: d')
  moreover have "idles_linked p (insert a (listed ch)) ?mem (idleList d')"
    using idles_new [OF idles_cong [OF w(3) same] a, of h b] tok by (simp add: d' h)
  moreover have "chains_ok (ch(i \<mapsto> a # xs)) ?mem (afterId d + 1)"
    using chains_push [OF w(1) assms(2,3) _ _ w(5)] by simp
  moreover have "pending_timers d' ps" using ps by (simp add: d' pending_timers_def)
  moreover have "idle_wf d'" using idle_wf_append [OF w(4) assms(5), of h] by (simp add: h d' idle_wf_def)
  ultimately show ?thesis using w(5,6) assms(4) listed_push [of ch, OF assms(2)] by (auto simp: after_wf_def d')
qed


lemma link_info_step:
  "chain t s i = Some xs \<Longrightarrow> link_info t i a s = Some (set_chain t i (Some (a # xs)) s)"
  by (simp add: link_info_def)

lemma after_timer_step:
  assumes env: "after_platform c t" and ok: "after_ok c t {} s" and room: "afterId (td t s) < INT_MAX" "lastTimerId (td t s) < INT_MAX"
    and ch: "chain t s i = Some xs" and ms: "0 \<le> ms"
  shows "\<exists>a time s'. after_timer c t i ms cmd s = Some (EventId (event_name (afterId (td t s))), s')
    \<and> after_ok c t {} s' \<and> after_step c t s s' \<and> info s a = None \<and> chain t s' = (chain t s)(i \<mapsto> a # xs)
    \<and> info s' = (info s)(a \<mapsto> \<lparr>assocPtr = i, commandPtr = cmd, after_id = afterId (td t s), after_token = lastTimerId (td t s) + 1\<rparr>)
    \<and> td t s' = (td t s)\<lparr>afterId := afterId (td t s) + 1, lastTimerId := lastTimerId (td t s) + 1,
        firstTimerHandlerPtr := insert_timer \<lparr>timer_time = after_wakeup ms time, timer_proc = AfterProc_ptr c,
          timer_clientData = a, timer_token = lastTimerId (td t s) + 1\<rparr> (firstTimerHandlerPtr (td t s))\<rparr>
    \<and> not_earlier time (after_clock c s) \<and> normalized time"
proof -
  let ?k = "timing c" and ?n = "lastTimerId (td t s) + 1"
  have pk: "platform ?k" using after_platform_platform [OF env] .
  obtain ps where ps: "pending_timers (td t s) ps" using ok by (auto simp: after_ok_def after_wf_def)
  then have n: "0 \<le> lastTimerId (td t s)" by (simp add: pending_timers_def)
  obtain a s1 where s1: "new_after c t i cmd s = (a, s1)" by (cases "new_after c t i cmd s")
  note new = new_after_props [OF env ok room(1) s1]
  obtain now s2 where s2: "get_time ?k s1 = (now, s2)" by (cases "get_time ?k s1")
  note time = same_get_time [OF env s2]
  obtain token s3 where s3: "TclCreateAbsoluteTimerHandler ?k t (after_wakeup ms now) (AfterProc_ptr c) a s2 = (token, s3)"
    by (cases "TclCreateAbsoluteTimerHandler ?k t (after_wakeup ms now) (AfterProc_ptr c) a s2")
  let ?h = "\<lparr>timer_time = after_wakeup ms now, timer_proc = AfterProc_ptr c, timer_clientData = a, timer_token = ?n\<rparr>"
  have td2: "td t s2 = (td t s)\<lparr>afterId := afterId (td t s) + 1\<rparr>" using get_time_td [OF s2, of t] new(3) by simp
  have td3: "td t s3 = (td t s)\<lparr>afterId := afterId (td t s) + 1, lastTimerId := ?n, firstTimerHandlerPtr := insert_timer ?h (firstTimerHandlerPtr (td t s))\<rparr>"
    and token: "token = ?n"
    using td_CreateAbsolute [OF pk, where t = t and s = s2 and time = "after_wakeup ms now" and p = "AfterProc_ptr c" and c = a] n room(2) s3 td2 by simp_all
  have same: "same_events c s1 s3"
    using same_events_trans [OF time(1) same_Create [OF env, of s2 t "after_wakeup ms now" "AfterProc_ptr c" a]] s3 by simp
  note same3 = same_events_info [OF same, of t]
  let ?f = "\<lparr>assocPtr = i, commandPtr = cmd, after_id = afterId (td t s), after_token = ?n\<rparr>"
  let ?s4 = "set_info a (Some ?f) s3"
  define s' where "s' = set_chain t i (Some (a # xs)) ?s4"
  have i3: "info s3 a = Some \<lparr>assocPtr = i, commandPtr = cmd, after_id = afterId (td t s), after_token = 0\<rparr>"
    using same3 new(4) by simp
  have c4: "chain t ?s4 i = Some xs" using same3 new(2) ch by simp
  have res: "after_timer c t i ms cmd s = Some (EventId (event_name (afterId (td t s))), s')"
    using s1 s2 s3 i3 token link_info_step [OF c4, of a]
    by (simp add: after_timer_def event_reply_def s'_def)
  have facts: "chain t s' = (chain t s)(i \<mapsto> a # xs)" "info s' = (info s)(a \<mapsto> ?f)" "td t s' = td t s3"
    using same3 new(2,4) by (simp_all add: s'_def)
  have clk: "not_earlier (after_clock c s') (after_clock c s)"
    using same3 new(5) by (simp add: s'_def clock_simps [OF env])
  have nb: "not_earlier now (after_clock c s)" using time(2) new(5) by simp
  have wf: "after_ok c t {} s'"
    using wf_new_timer [OF ok [unfolded after_ok_def] ch new(1) room(2,1) refl refl, of cmd "after_wakeup ms now"] facts td3
    by (simp add: after_ok_def)
  have later: "timers_later (after_clock c s) (td t s) (td t s')"
  proof -
    have "not_earlier (after_wakeup ms now) (after_clock c s)"
      using not_earlier_trans [OF nb wakeup_not_before [OF time(3) ms]] .
    moreover have "pending_timers (td t s2) ps" "lastTimerId (td t s2) < INT_MAX" using ps room(2) td2 by (simp_all add: pending_timers_def)
    ultimately have "timers_later (after_clock c s) (td t s2) (td t s3)"
      using create_later [OF pk, where t = t and s = s2 and new = "after_wakeup ms now" and p = "AfterProc_ptr c" and c = a] s3
      by (simp add: not_earlier_def)
    then show ?thesis unfolding facts(3) by (simp add: timers_later_def td2)
  qed
  have "idle_later (td t s) (td t s')" using ok facts(3) td3 by (simp add: idle_later_def after_ok_def after_wf_def idle_wf_def)
  moreover have "info s' b = Some f \<and> b \<notin> listed (chain t s')" if "info s b = Some f" "b \<notin> listed (chain t s)" for b f
    using that new(1) facts(1,2) listed_push [of "chain t s", OF ch] by auto
  ultimately have "after_step c t s s'" using later clk by (simp add: after_step_def)
  moreover have "td t s' = (td t s)\<lparr>afterId := afterId (td t s) + 1, lastTimerId := ?n, firstTimerHandlerPtr := insert_timer ?h (firstTimerHandlerPtr (td t s))\<rparr>"
    using facts(3) td3 by simp
  ultimately show ?thesis using res wf new(1) facts(1,2) nb time(3) by blast
qed

lemma after_idle_step:
  assumes env: "after_platform c t" and ok: "after_ok c t {} s" and room: "afterId (td t s) < INT_MAX"
    and ch: "chain t s i = Some xs"
  shows "\<exists>a b s'. after_idle c t i cmd s = Some (EventId (event_name (afterId (td t s))), s')
    \<and> after_ok c t {} s' \<and> after_step c t s s' \<and> info s a = None \<and> chain t s' = (chain t s)(i \<mapsto> a # xs)
    \<and> info s' = (info s)(a \<mapsto> \<lparr>assocPtr = i, commandPtr = cmd, after_id = afterId (td t s), after_token = 0\<rparr>)
    \<and> td t s' = (td t s)\<lparr>afterId := afterId (td t s) + 1,
        idleList := idleList (td t s) @ [(b, \<lparr>idle_proc = AfterProc_ptr c, idle_clientData = a, generation = idleGeneration (td t s)\<rparr>)],
        lastIdlePtr := Some b\<rparr>"
proof -
  let ?k = "timing c"
  have pk: "platform ?k" using after_platform_platform [OF env] .
  obtain a s1 where s1: "new_after c t i cmd s = (a, s1)" by (cases "new_after c t i cmd s")
  note new = new_after_props [OF env ok room s1]
  let ?s2 = "set_chain t i (Some (a # xs)) s1"
  let ?b = "idle_address ?k (InitTimer ?k t ?s2)"
  let ?h = "\<lparr>idle_proc = AfterProc_ptr c, idle_clientData = a, generation = idleGeneration (td t s)\<rparr>"
  have td2: "td t ?s2 = (td t s)\<lparr>afterId := afterId (td t s) + 1\<rparr>" using new(3) by simp
  have c1: "chain t s1 i = Some xs" using new(2) ch by simp
  have w: "idle_wf (td t ?s2)" using ok td2 by (simp add: after_ok_def after_wf_def idle_wf_def)
  have "?b \<notin> fst ` set (idleList (td t (InitTimer ?k t ?s2)))" using env unfolding after_platform_def by blast
  then have fresh: "?b \<notin> fst ` set (idleList (td t ?s2))" by simp
  obtain s' where s': "Tcl_DoWhenIdle ?k t (AfterProc_ptr c) a ?s2 = Some s'" "td t s' = (td t ?s2)\<lparr>
      idleList := idleList (td t ?s2) @ [(?b, \<lparr>idle_proc = AfterProc_ptr c, idle_clientData = a, generation = idleGeneration (td t ?s2)\<rparr>)],
      lastIdlePtr := Some ?b\<rparr>"
    using DoWhenIdle_append [OF w fresh pk] by blast
  have td': "td t s' = (td t s)\<lparr>afterId := afterId (td t s) + 1, idleList := idleList (td t s) @ [(?b, ?h)], lastIdlePtr := Some ?b\<rparr>"
    using s'(2) td2 by simp
  note same = same_events_info [OF same_DoWhenIdle [OF env s'(1)], of t]
  let ?f = "\<lparr>assocPtr = i, commandPtr = cmd, after_id = afterId (td t s), after_token = 0\<rparr>"
  have facts: "chain t s' = (chain t s)(i \<mapsto> a # xs)" "info s' = (info s)(a \<mapsto> ?f)" using same new(2,4) by simp_all
  have res: "after_idle c t i cmd s = Some (EventId (event_name (afterId (td t s))), s')"
    using s1 s'(1) link_info_step [OF c1, of a] facts(2) by (simp add: after_idle_def event_reply_def)
  have clk: "not_earlier (after_clock c s') (after_clock c s)" using same new(5) by (simp add: clock_simps [OF env])
  have wf: "after_ok c t {} s'"
    using wf_new_idle [OF ok [unfolded after_ok_def] ch new(1) room _ refl refl, of ?b cmd] fresh td2 facts td'
    by (simp add: after_ok_def)
  have "pending_timers (td t s') ps" if "pending_timers (td t s) ps" for ps
    using that td' by (simp add: pending_timers_def)
  then have "timers_later (after_clock c s) (td t s) (td t s')"
    using after_ok_later [OF ok, of "after_clock c s"] td' by (auto simp: timers_later_def)
  moreover have "idle_later (td t s) (td t s')"
    using wf td' by (simp add: idle_later_def after_ok_def after_wf_def)
  moreover have "info s' b = Some f \<and> b \<notin> listed (chain t s')" if "info s b = Some f" "b \<notin> listed (chain t s)" for b f
    using that new(1) facts listed_push [of "chain t s", OF ch] by auto
  ultimately have "after_step c t s s'" using clk by (simp add: after_step_def)
  then show ?thesis using res wf new(1) facts td' by blast
qed


text \<open>Taking an event out of its chain, off its timer or idle handler, and out of memory.\<close>

lemma unlink_after_remove1: "a \<in> set xs \<Longrightarrow> unlink_after a xs = Some (remove1 a xs)"
  by (induction xs) auto

lemma unlink_step:
  assumes "after_ok c t {a} s" "info s a = Some f"
  shows "\<exists>xs. chain t s (assocPtr f) = Some xs \<and> a \<in> set xs
    \<and> unlink_info t a s = Some (set_chain t (assocPtr f) (Some (remove1 a xs)) s)
    \<and> after_ok c t {} (set_chain t (assocPtr f) (Some (remove1 a xs)) s)
    \<and> listed ((chain t s)(assocPtr f \<mapsto> remove1 a xs)) = listed (chain t s) - {a}"
proof -
  have ch: "chains_ok (chain t s) (info s) (afterId (td t s))" "a \<in> listed (chain t s)"
    using assms(1) by (auto simp: after_ok_def after_wf_def)
  then obtain xs where xs: "chain t s (assocPtr f) = Some xs" "a \<in> set xs"
    using listed_info [OF ch] assms(2) by auto
  note less = listed_remove [OF ch(1) xs]
  have "after_ok c t {} (set_chain t (assocPtr f) (Some (remove1 a xs)) s)"
    using assms(1) chains_remove [OF ch(1) xs] less by (simp add: after_ok_def after_wf_def)
  then show ?thesis using xs less assms(2) unlink_after_remove1 [OF xs(2)] by (simp add: unlink_info_def)
qed

lemma free_ok: "after_ok c t X s \<Longrightarrow> a \<notin> listed (chain t s) \<Longrightarrow> after_ok c t X (set_info a None s)"
proof -
  assume a: "after_ok c t X s" "a \<notin> listed (chain t s)"
  let ?mem = "(info s)(a := None)"
  have tok: "token_of ?mem b = token_of (info s) b" if "b \<in> listed (chain t s) - X" for b using a(2) that by (intro token_upd) auto
  have w: "chains_ok (chain t s) (info s) (afterId (td t s))"
    "timers_linked (AfterProc_ptr c) (listed (chain t s) - X) (info s) (firstTimerHandlerPtr (td t s))"
    "idles_linked (AfterProc_ptr c) (listed (chain t s) - X) (info s) (idleList (td t s))"
    using a(1) by (simp_all add: after_ok_def after_wf_def)
  have "chains_ok (chain t s) ?mem (afterId (td t s))" by (rule chains_cong [OF w(1)]) (use a(2) in auto)
  then show ?thesis
    using a(1) timers_cong [OF w(2) tok] idles_cong [OF w(3) tok] by (simp add: after_ok_def after_wf_def)
qed

lemma withdraw_step:
  assumes "after_ok c t {} s" "a \<in> listed (chain t s)" "info s a = Some f"
    and ys: "ys = filter (\<lambda>x. \<not> (idle_proc (snd x) = AfterProc_ptr c \<and> idle_clientData (snd x) = a)) (idleList (td t s))"
  shows "\<exists>s'. withdraw c t a s = Some s' \<and> after_ok c t {a} s' \<and> user (world s') = user (world s)
    \<and> timers_later time (td t s) (td t s') \<and> idle_later (td t s) (td t s')
    \<and> td t s' = (if after_token f \<noteq> 0
        then (td t s)\<lparr>firstTimerHandlerPtr := delete_timer (after_token f) (firstTimerHandlerPtr (td t s))\<rparr>
        else (td t s)\<lparr>idleList := ys, lastIdlePtr := (if ys = [] then None else Some (fst (last ys)))\<rparr>)"
proof -
  have w: "chains_ok (chain t s) (info s) (afterId (td t s))" "finite (dom (info s))"
    "timers_linked (AfterProc_ptr c) (listed (chain t s)) (info s) (firstTimerHandlerPtr (td t s))"
    "idles_linked (AfterProc_ptr c) (listed (chain t s)) (info s) (idleList (td t s))" "idle_wf (td t s)"
    using assms(1) by (simp_all add: after_ok_def after_wf_def)
  obtain ps where ps: "pending_timers (td t s) ps" using assms(1) by (auto simp: after_ok_def after_wf_def)
  have tok: "token_of (info s) a = after_token f" using assms(3) by (simp add: token_of_def)
  have frame: "info s' = info s" "chain t s' = chain t s" if "user (world s') = user (world s)" for s'
    using that by (simp_all add: info_def chain_def)
  have dist: "distinct (map timer_token (firstTimerHandlerPtr (td t s)))"
    using ps sorted_tokens_distinct [of ps] by (simp add: pending_timers_def distinct_tokens_sort)
  have a: "a \<in> listed (chain t s)" using assms(2) .
  show ?thesis
  proof (cases "after_token f = 0")
    case True
    let ?s = "Tcl_CancelIdleCall (timing c) t (AfterProc_ptr c) a s"
    note td = CancelIdle_filter [OF w(5) ys, of "timing c"]
    have "\<forall>h\<in>set (firstTimerHandlerPtr (td t s)). timer_token h \<noteq> 0"
    proof
      fix h assume "h \<in> set (firstTimerHandlerPtr (td t s))"
      from pending_token [OF ps this] show "timer_token h \<noteq> 0" by simp
    qed
    from timers_outside [OF w(3) _ this, of a] have tl: "timers_linked (AfterProc_ptr c) (listed (chain t s) - {a}) (info s) (firstTimerHandlerPtr (td t ?s))"
      using tok True td by simp
    have il: "idles_linked (AfterProc_ptr c) (listed (chain t s) - {a}) (info s) (idleList (td t ?s))"
      using idles_drop [OF w(4), of a] td ys by simp
    have p: "pending_timers (td t ?s) ps" using ps td by (simp add: pending_timers_def)
    have iw: "idle_wf (td t ?s)" using idle_wf_filter [OF w(5) ys] td by simp
    have "after_ok c t {a} ?s"
      using assms(1) a tl il p iw td frame [of ?s] by (auto simp: after_ok_def after_wf_def)
    moreover have "timers_later time (td t s) (td t ?s)" using timers_later_refl [OF ps, of time] p td by (auto simp: timers_later_def)
    moreover have "idle_later (td t s) (td t ?s)" by (rule CancelIdle_later [OF w(5)])
    ultimately show ?thesis using True assms(3) td by (intro exI [of _ ?s]) (simp add: withdraw_def)
  next
    case False
    let ?s = "Tcl_DeleteTimerHandler (timing c) t (after_token f) s"
    note td = td_Delete [OF ps, of "timing c" "after_token f"]
    have "timers_linked (AfterProc_ptr c) (listed (chain t s) - {a}) (info s) (firstTimerHandlerPtr (td t ?s))"
      using timers_drop [OF w(3) dist a tok False] td delete_timer_filter [OF dist] by simp
    moreover have "idles_linked (AfterProc_ptr c) (listed (chain t s) - {a}) (info s) (idleList (td t ?s))"
      using idles_outside [OF w(4), of a] tok False td by simp
    moreover have "\<exists>ps. pending_timers (td t ?s) ps" using pending_delete [OF ps] td by auto
    moreover have iw: "idle_wf (td t ?s)" using w(5) td by (simp add: idle_wf_def)
    ultimately have "after_ok c t {a} ?s"
      using assms(1) a td frame [of ?s] by (simp add: after_ok_def after_wf_def)
    moreover have "idle_later (td t s) (td t ?s)" using iw td by (simp add: idle_later_def)
    ultimately show ?thesis using False assms(3) td delete_later [OF ps, where time = time and k = "timing c" and token = "after_token f"] by (intro exI [of _ ?s]) (simp add: withdraw_def)
  qed
qed

lemma cancel_step:
  assumes env: "after_platform c t" and ok: "after_ok c t {} s" and ch: "chain t s i = Some xs" "a \<in> set xs" and f: "info s a = Some f"
    and ys: "ys = filter (\<lambda>x. \<not> (idle_proc (snd x) = AfterProc_ptr c \<and> idle_clientData (snd x) = a)) (idleList (td t s))"
  shows "\<exists>s'. withdraw c t a s \<bind> FreeAfterPtr t a = Some s' \<and> after_ok c t {} s' \<and> after_step c t s s'
    \<and> chain t s' = (chain t s)(i \<mapsto> remove1 a xs) \<and> info s' = (info s)(a := None)
    \<and> td t s' = (if after_token f \<noteq> 0
        then (td t s)\<lparr>firstTimerHandlerPtr := delete_timer (after_token f) (firstTimerHandlerPtr (td t s))\<rparr>
        else (td t s)\<lparr>idleList := ys, lastIdlePtr := (if ys = [] then None else Some (fst (last ys)))\<rparr>)"
proof -
  have co: "chains_ok (chain t s) (info s) (afterId (td t s))" using ok by (simp add: after_ok_def after_wf_def)
  have i: "assocPtr f = i" using chain_info [OF co ch] f by auto
  have a: "a \<in> listed (chain t s)" by (rule chain_listed [of "chain t s", OF ch])
  obtain s1 where s1: "withdraw c t a s = Some s1" "after_ok c t {a} s1" "user (world s1) = user (world s)"
    "timers_later (after_clock c s) (td t s) (td t s1)" "idle_later (td t s) (td t s1)"
    "td t s1 = (if after_token f \<noteq> 0
        then (td t s)\<lparr>firstTimerHandlerPtr := delete_timer (after_token f) (firstTimerHandlerPtr (td t s))\<rparr>
        else (td t s)\<lparr>idleList := ys, lastIdlePtr := (if ys = [] then None else Some (fst (last ys)))\<rparr>)"
    using withdraw_step [OF ok a f ys] by metis
  have same: "info s1 = info s" "chain t s1 = chain t s" "after_clock c s1 = after_clock c s"
    using s1(3) by (simp_all add: info_def chain_def after_clock_def)
  let ?s2 = "set_chain t i (Some (remove1 a xs)) s1"
  have s2: "unlink_info t a s1 = Some ?s2" "after_ok c t {} ?s2" "listed ((chain t s)(i \<mapsto> remove1 a xs)) = listed (chain t s) - {a}"
    using unlink_step [OF s1(2), of f] f same ch i by auto
  let ?s3 = "set_info a None ?s2"
  have "after_ok c t {} ?s3" by (rule free_ok [OF s2(2)]) (simp add: same s2(3))
  moreover have "withdraw c t a s \<bind> FreeAfterPtr t a = Some ?s3"
    using s1(1) s2(1) f same by (simp add: FreeAfterPtr_def free_info_def)
  moreover have "after_step c t s ?s3"
    using s1(4,5) s2(3) same a by (auto simp: after_step_def clock_simps [OF env])
  ultimately show ?thesis using same s1(6) by (intro exI [of _ ?s3]) simp
qed


section \<open>Identifiers\<close>

declare print_nat.simps [simp del]

lemma digit_char: "d < 10 \<Longrightarrow> is_digit (char_of (48 + d))" "d < 10 \<Longrightarrow> (of_char (char_of (48 + d) :: char) :: nat) = 48 + d" for d :: nat
  by (simp_all add: is_digit_def)

lemma print_nat_digits: "print_nat n \<noteq> [] \<and> (\<forall>ch\<in>set (print_nat n). is_digit ch) \<and> digits_value (print_nat n) = n"
proof (induction n rule: print_nat.induct)
  case (1 n)
  have "n div 10 * 10 + n mod 10 = n" by simp
  then show ?case using 1 digit_char [of n] digit_char [of "n mod 10"]
    by (subst (1 2 3) print_nat.simps) (auto simp: digits_value_def)
qed

lemma digit_not_space: "is_digit ch \<Longrightarrow> \<not> is_space ch \<and> ch \<noteq> CHR ''-'' \<and> ch \<noteq> CHR ''+''"
  by (auto simp: is_digit_def is_space_def)

lemma strtoul_print:
  assumes "n \<le> ULONG_MAX"
  shows "strtoul (print_nat n) = (n, [])"
proof -
  note p = print_nat_digits [of n]
  obtain d ds where d: "print_nat n = d # ds" using p by (cases "print_nat n") auto
  then have first: "\<not> is_space d" "d \<noteq> CHR ''-''" "d \<noteq> CHR ''+''" using p digit_not_space [of d] by simp_all
  have t: "takeWhile is_digit (print_nat n) = print_nat n" "dropWhile is_digit (print_nat n) = []" using p by simp_all
  have w: "dropWhile is_space (print_nat n) = print_nat n" "hd (print_nat n) = d" using d first by simp_all
  show ?thesis using p assms first by (simp add: strtoul_def Let_def w t)
qed

lemma find_after_find:
  assumes "\<forall>a\<in>set xs. \<exists>f. info s a = Some f"
  shows "find_after P xs s = Some (find (\<lambda>a. P (the (info s a))) xs)"
  using assms by (induction xs) auto

text \<open>The printed identifier of an event finds the event with this identifier.\<close>

lemma GetAfterEvent_print:
  assumes "0 \<le> n" "n \<le> INT_MAX"
  shows "GetAfterEvent xs (event_name n) s = find_after (\<lambda>f. after_id f = n) xs s"
proof -
  have "nat n \<le> ULONG_MAX" using assms by (simp add: INT_MAX_def ULONG_MAX_def)
  note s = strtoul_print [OF this]
  have "int32 (int (nat n)) = n" using assms by (simp add: INT_MAX_def)
  moreover have "print_nat (nat n) \<noteq> []" using print_nat_digits by blast
  ultimately show ?thesis using s assms(1)
    by (simp add: GetAfterEvent_def event_name_def print_int_def)
qed

lemma find_unique:
  assumes "a \<in> set xs" "P a" "\<forall>b\<in>set xs. P b \<longrightarrow> b = a"
  shows "find P xs = Some a"
proof (cases "find P xs")
  case None
  then show ?thesis using assms(1,2) by (simp add: find_None_iff)
next
  case (Some b)
  then have "b \<in> set xs" "P b" by (auto simp: find_Some_iff)
  then show ?thesis using Some assms(3) by blast
qed

lemma find_by_id:
  assumes "after_ok c t X s" "chain t s i = Some xs" "a \<in> set xs" "info s a = Some f"
  shows "GetAfterEvent xs (event_name (after_id f)) s = Some (Some a)"
proof -
  have co: "chains_ok (chain t s) (info s) (afterId (td t s))" "afterId (td t s) \<le> INT_MAX"
    using assms(1) by (simp_all add: after_ok_def after_wf_def)
  have cells: "\<exists>f. info s b = Some f" if "b \<in> set xs" for b using chain_info [OF co(1) assms(2) that] by blast
  have "b = a" if b: "b \<in> set xs" "after_id (the (info s b)) = after_id f" for b
  proof -
    obtain g where "info s b = Some g" using cells [OF b(1)] by blast
    then have "id_of (info s) b = id_of (info s) a" using b(2) assms(4) by (simp add: id_of_def)
    moreover have "inj_on (id_of (info s)) (listed (chain t s))" using co(1) by (simp add: chains_ok_def)
    ultimately show ?thesis
      using chain_listed [of "chain t s", OF assms(2) b(1)] chain_listed [of "chain t s", OF assms(2,3)] by (simp add: inj_on_def)
  qed
  then have f: "find (\<lambda>b. after_id (the (info s b)) = after_id f) xs = Some a"
    using assms(4) by (intro find_unique [OF assms(3)] ballI impI) simp_all
  have "0 \<le> after_id f" "after_id f \<le> INT_MAX" using chain_info [OF co(1) assms(2,3)] assms(4) co(2) by auto
  then show ?thesis using f find_after_find [of xs s] cells by (simp add: GetAfterEvent_print)
qed

section \<open>Running an event\<close>

text \<open>The thread has identifiers left for so many more events and timers.\<close>

definition id_room :: "nat \<Rightarrow> nat \<Rightarrow> 'v application \<Rightarrow> bool" where
  "id_room t n s \<longleftrightarrow> afterId (td t s) + int n \<le> INT_MAX \<and> lastTimerId (td t s) + int n \<le> INT_MAX"

lemma id_room_le: "id_room t n s \<Longrightarrow> m \<le> n \<Longrightarrow> id_room t m s"
  by (auto simp: id_room_def)

lemma id_room_td: "afterId (td t s') = afterId (td t s) \<Longrightarrow> lastTimerId (td t s') = lastTimerId (td t s) \<Longrightarrow> id_room t n s' = id_room t n s"
  by (simp add: id_room_def)

text \<open>
  What is asked of the scripts and the other handlers of the application: while the identifiers do
  not run out a call returns, takes at most \<open>B\<close> of them, and what it does to the events is what the
  operations of this theory do.
\<close>

definition well_behaved :: "'v after_calls \<Rightarrow> nat \<Rightarrow> nat \<Rightarrow> 'v application \<Rightarrow> 'v application option \<Rightarrow> bool" where
  "well_behaved c t B s r \<longleftrightarrow>
     (\<exists>s'. r = Some s' \<and> after_ok c t {} s' \<and> after_step c t s s' \<and> (\<forall>n. id_room t (n + B) s \<longrightarrow> id_room t n s'))"

definition after_scripts :: "'v after_calls \<Rightarrow> nat \<Rightarrow> nat \<Rightarrow> bool" where
  "after_scripts c t B \<longleftrightarrow> (\<forall>s. after_ok c t {} s \<and> id_room t B s \<longrightarrow>
     (\<forall>i cmd. well_behaved c t B s (map_option snd (Tcl_EvalObjEx c i cmd s))) \<and>
     (\<forall>i m. well_behaved c t B s (Tcl_AddErrorInfo c i m s)) \<and>
     (\<forall>i r. well_behaved c t B s (Tcl_BackgroundException c i r s)) \<and>
     (\<forall>i. well_behaved c t B s (Tcl_Preserve c i s)) \<and> (\<forall>i. well_behaved c t B s (Tcl_Release c i s)) \<and>
     (\<forall>p d. well_behaved c t B s (TimerProc (timing c) p d s)) \<and> (\<forall>p d. well_behaved c t B s (IdleProc (timing c) p d s)))"

lemma well_behaved_same: "after_ok c t {} s \<Longrightarrow> well_behaved c t B s (Some s)"
  using after_step_refl by (auto simp: well_behaved_def id_room_def)

lemma well_behaved_trans: "well_behaved c t B s (Some s') \<Longrightarrow> well_behaved c t B' s' r \<Longrightarrow> well_behaved c t (B + B') s r"
  using after_step_trans [of c t s s'] by (auto simp: well_behaved_def add.assoc [symmetric] add.commute [of B B'])

lemma well_behaved_le: "well_behaved c t B s r \<Longrightarrow> B \<le> B' \<Longrightarrow> well_behaved c t B' s r"
  using id_room_le [of t _ s] by (auto simp: well_behaved_def)

lemma AfterProc_step:
  assumes env: "after_platform c t" and scripts: "after_scripts c t B" and ok: "after_ok c t {a} s"
    and room: "id_room t (5 * B) s"
  shows "well_behaved c t (5 * B) s (AfterProc c t a s)"
proof -
  have "a \<in> listed (chain t s)" using ok by (auto simp: after_ok_def after_wf_def)
  then obtain f where f: "info s a = Some f"
    using ok listed_info [of "chain t s" "info s" "afterId (td t s)" a] by (auto simp: after_ok_def after_wf_def)
  let ?i = "assocPtr f"
  obtain xs where xs: "chain t s ?i = Some xs" "a \<in> set xs" "unlink_info t a s = Some (set_chain t ?i (Some (remove1 a xs)) s)"
    "after_ok c t {} (set_chain t ?i (Some (remove1 a xs)) s)" "listed ((chain t s)(?i \<mapsto> remove1 a xs)) = listed (chain t s) - {a}"
    using unlink_step [OF ok f] by blast
  define s0 where "s0 = set_chain t ?i (Some (remove1 a xs)) s"
  have keep: "info s'' a = Some f \<and> a \<notin> listed (chain t s'')" if "after_step c t s' s''" "info s' a = Some f \<and> a \<notin> listed (chain t s')" for s' s''
    using that by (simp add: after_step_def)
  have i0: "info s0 a = Some f \<and> a \<notin> listed (chain t s0)" "after_ok c t {} s0" using f xs(4,5) by (simp_all add: s0_def)
  have st0: "after_step c t s s0"
    using after_ok_later [OF ok, of "after_clock c s"] xs(5) by (auto simp: after_step_def s0_def clock_simps [OF env])
  have room0: "id_room t n s0 = id_room t n s" for n by (rule id_room_td) (simp_all add: s0_def)
  have b: "5 * B = B + (B + (B + (B + B)))" by simp
  have call: "well_behaved c t B s' r \<Longrightarrow> \<exists>s''. r = Some s'' \<and> after_ok c t {} s'' \<and> after_step c t s' s'' \<and> (\<forall>n. id_room t (n + B) s' \<longrightarrow> id_room t n s'')" for s' r
    by (simp add: well_behaved_def)
  have asked: "well_behaved c t B s' (map_option snd (Tcl_EvalObjEx c i cmd s'))" "well_behaved c t B s' (Tcl_AddErrorInfo c i m s')"
    "well_behaved c t B s' (Tcl_BackgroundException c i r s')" "well_behaved c t B s' (Tcl_Preserve c i s')" "well_behaved c t B s' (Tcl_Release c i s')"
    if "after_ok c t {} s'" "id_room t B s'" for s' i cmd m r
    using scripts that unfolding after_scripts_def by blast+
  have r0: "id_room t (B + B + B + B + B) s0" using room room0 by (simp add: b add.assoc)
  obtain s1 where s1: "Tcl_Preserve c ?i s0 = Some s1" "after_ok c t {} s1" "after_step c t s0 s1"
    "\<forall>n. id_room t (n + B) s0 \<longrightarrow> id_room t n s1"
    using call [OF asked(4) [OF i0(2) id_room_le [OF r0]]] by auto
  note i1 = keep [OF s1(3) i0(1)]
  have r1: "id_room t (B + B + B + B) s1" using s1(4) r0 by blast
  have "well_behaved c t B s1 (map_option snd (Tcl_EvalObjEx c ?i (commandPtr f) s1))"
    by (rule asked(1) [OF s1(2) id_room_le [OF r1]]) simp
  then obtain r s2 where s2: "Tcl_EvalObjEx c ?i (commandPtr f) s1 = Some (r, s2)" "after_ok c t {} s2" "after_step c t s1 s2"
    "\<forall>n. id_room t (n + B) s1 \<longrightarrow> id_room t n s2"
    by (auto simp: well_behaved_def)
  note i2 = keep [OF s2(3) i1]
  have r2: "id_room t (B + B + B) s2" using s2(4) r1 by blast
  let ?report = "if r \<noteq> 0 then Tcl_AddErrorInfo c ?i ([CHR 0x0A] @ ''    (\"after\" script)'') s2 \<bind> Tcl_BackgroundException c ?i r else Some s2"
  have "well_behaved c t (B + B) s2 ?report"
  proof (cases "r = 0")
    case True
    then show ?thesis using well_behaved_same [OF s2(2)] by simp
  next
    case False
    note w = asked(2) [OF s2(2) id_room_le [OF r2], of ?i "[CHR 0x0A] @ ''    (\"after\" script)''"]
    obtain x where x: "Tcl_AddErrorInfo c ?i ([CHR 0x0A] @ ''    (\"after\" script)'') s2 = Some x" "after_ok c t {} x"
      "\<forall>n. id_room t (n + B) s2 \<longrightarrow> id_room t n x" using call [OF w] by auto
    have rx: "id_room t (B + B) x" using x(3) r2 by blast
    have "well_behaved c t B s2 (Some x)" using w x(1) by simp
    from well_behaved_trans [OF this asked(3) [OF x(2) id_room_le [OF rx]]] show ?thesis using False x(1) by simp
  qed
  then obtain s3 where s3: "?report = Some s3" "after_ok c t {} s3" "after_step c t s2 s3" "\<forall>n. id_room t (n + (B + B)) s2 \<longrightarrow> id_room t n s3"
    unfolding well_behaved_def by blast
  note i3 = keep [OF s3(3) i2]
  have r3: "id_room t B s3" using s3(4) r2 by (simp add: add.assoc)
  obtain s4 where s4: "Tcl_Release c ?i s3 = Some s4" "after_ok c t {} s4" "after_step c t s3 s4"
    "\<forall>n. id_room t (n + B) s3 \<longrightarrow> id_room t n s4"
    using call [OF asked(5) [OF s3(2) r3]] by blast
  note i4 = keep [OF s4(3) i3]
  have run: "AfterProc c t a s = Some (set_info a None s4)"
    using f xs(3) s1(1) i1 s2(1) s3(1) s4(1) i4 by (simp add: AfterProc_def Let_def free_info_def s0_def [symmetric])
  have ok5: "after_ok c t {} (set_info a None s4)" using free_ok [OF s4(2)] i4 by blast
  have "after_step c t s s4"
    using after_step_trans [OF st0 after_step_trans [OF s1(3) after_step_trans [OF s2(3) after_step_trans [OF s3(3) s4(3)]]]] .
  moreover have "b \<noteq> a" if "b \<notin> listed (chain t s)" for b using that \<open>a \<in> listed (chain t s)\<close> by auto
  ultimately have "after_step c t s (set_info a None s4)" by (simp add: after_step_def clock_simps [OF env])
  moreover have "id_room t n (set_info a None s4)" if n: "id_room t (n + 5 * B) s" for n
  proof -
    have "id_room t (n + B + (B + B) + B + B) s0" using n room0 by (simp add: b add.assoc)
    then have "id_room t n s4" using s1(4) s2(4) s3(4) s4(4) by blast
    then show ?thesis by (simp add: id_room_def)
  qed
  ultimately show ?thesis using run ok5 by (simp add: well_behaved_def)
qed

end
