(* ===== verification/AfterCommand.thy ===== *)
theory AfterCommand
  imports AfterSafe
begin

text \<open>
  The promises of the \<open>after\<close> command as a whole: every form of it and every pass over timers and
  idle handlers keeps chains and handlers in agreement, an event can be inspected and cancelled by
  the identifier that was returned, and the blocking delay lasts as long as was asked.
\<close>

section \<open>Passes over timers and idle handlers\<close>

text \<open>The timers of a thread with \<open>AfterProc\<close> installed as a procedure.\<close>

definition after_timers :: "'v after_calls \<Rightarrow> nat \<Rightarrow> 'v after_world timer_calls" where
  "after_timers c t = (timing c)\<lparr>
     TimerProc := (\<lambda>p d s. if p = AfterProc_ptr c then AfterProc c t d s else TimerProc (timing c) p d s),
     IdleProc := (\<lambda>p d s. if p = AfterProc_ptr c then AfterProc c t d s else IdleProc (timing c) p d s)\<rparr>"

lemma after_timers_simps [simp]:
  "InitTimer (after_timers c t) = InitTimer (timing c)" "get_time (after_timers c t) = get_time (timing c)"
  "notifier (after_timers c t) = notifier (timing c)"
  by (auto simp: fun_eq_iff InitTimer_def get_time_def after_timers_def)

lemma after_TimerSetupProc [simp]: "TimerSetupProc (after_timers c t) = TimerSetupProc (timing c)"
  by (intro ext) (unfold TimerSetupProc_def after_timers_simps, rule refl)

text \<open>The state when the first handler has been taken off.\<close>

abbreviation take_timer :: "TimerData \<Rightarrow> TimerData" where
  "take_timer d \<equiv> d\<lparr>firstTimerHandlerPtr := tl (firstTimerHandlerPtr d)\<rparr>"

lemma take_timer_ok:
  assumes "after_ok c t {} s" "firstTimerHandlerPtr (td t s) = h # hs"
  shows "after_ok c t (if timer_proc h = AfterProc_ptr c then {timer_clientData h} else {}) (set_td t take_timer s)"
    "timers_later time (td t s) (td t (set_td t take_timer s)) \<and> idle_later (td t s) (td t (set_td t take_timer s))"
proof -
  have w: "timers_linked (AfterProc_ptr c) (listed (chain t s)) (info s) (h # hs)"
    "idles_linked (AfterProc_ptr c) (listed (chain t s)) (info s) (idleList (td t s))" "idle_wf (td t s)"
    using assms by (simp_all add: after_ok_def after_wf_def)
  obtain ps where ps: "pending_timers (td t s) ps" using assms(1) by (auto simp: after_ok_def after_wf_def)
  have dist: "distinct (map timer_token (h # hs))"
    using ps sorted_tokens_distinct [of ps] assms(2) by (metis pending_timers_def distinct_tokens_sort)
  have nz: "0 < timer_token h" using pending_token [OF ps, of h] assms(2) by simp
  have p: "\<exists>ps. pending_timers (td t (set_td t take_timer s)) ps" using pending_tail [OF ps assms(2)] assms(2) by auto
  have iw: "idle_wf (td t (set_td t take_timer s))" using w(3) by (simp add: idle_wf_def)
  have tl: "filter (\<lambda>g. timer_token g \<noteq> timer_token h) (h # hs) = hs" using dist by (auto simp: filter_id_conv image_iff)
  have "timers_linked (AfterProc_ptr c) (listed (chain t s) - {timer_clientData h}) (info s) hs \<and> timer_clientData h \<in> listed (chain t s)
      \<and> idles_linked (AfterProc_ptr c) (listed (chain t s) - {timer_clientData h}) (info s) (idleList (td t s))"
    if "timer_proc h = AfterProc_ptr c"
  proof -
    have m: "timer_clientData h \<in> listed (chain t s)" "token_of (info s) (timer_clientData h) = timer_token h"
      using w(1) that by (auto simp: timers_linked_def)
    show ?thesis using timers_drop [OF w(1) dist m] idles_outside [OF w(2), of "timer_clientData h"] nz m unfolding tl by simp
  qed
  then show "after_ok c t (if timer_proc h = AfterProc_ptr c then {timer_clientData h} else {}) (set_td t take_timer s)"
    using assms p iw timers_other [OF w(1)] by (simp add: after_ok_def after_wf_def)
  have "\<not> TCL_TIME_BEFORE (timer_time x) time" if "x \<in> set hs" "lastTimerId (td t s) < timer_token x" for x
    using that pending_token [OF ps, of x] assms(2) by simp
  then have "timers_later time (td t s) (td t (set_td t take_timer s))"
    using p assms(2) by (simp add: timers_later_def list_emb_Cons)
  moreover have "idle_later (td t s) (td t (set_td t take_timer s))" using iw by (simp add: idle_later_def)
  ultimately show "timers_later time (td t s) (td t (set_td t take_timer s)) \<and> idle_later (td t s) (td t (set_td t take_timer s))" ..
qed

lemma take_idle_ok:
  assumes "after_ok c t {} s" "idleList (td t s) = x # xs"
  shows "after_ok c t (if idle_proc (snd x) = AfterProc_ptr c then {idle_clientData (snd x)} else {}) (set_td t take_idle s)"
    "timers_later time (td t s) (td t (set_td t take_idle s)) \<and> idle_later (td t s) (td t (set_td t take_idle s))"
proof -
  have w: "timers_linked (AfterProc_ptr c) (listed (chain t s)) (info s) (firstTimerHandlerPtr (td t s))"
    "idles_linked (AfterProc_ptr c) (listed (chain t s)) (info s) (x # xs)" "idle_wf (td t s)"
    using assms by (simp_all add: after_ok_def after_wf_def)
  obtain ps where ps: "pending_timers (td t s) ps" using assms(1) by (auto simp: after_ok_def after_wf_def)
  have p: "pending_timers (td t (set_td t take_idle s)) ps" using ps by (simp add: pending_timers_def take_idle_def)
  have iw: "idle_wf (td t (set_td t take_idle s))" using idle_wf_take [OF w(3) assms(2)] by simp
  have same: "firstTimerHandlerPtr (take_idle d) = firstTimerHandlerPtr d" "idleList (take_idle d) = tl (idleList d)"
    "afterId (take_idle d) = afterId d" "lastTimerId (take_idle d) = lastTimerId d" "idleGeneration (take_idle d) = idleGeneration d" for d
    by (simp_all add: take_idle_def)
  have tok: "timer_token h \<noteq> 0" if "h \<in> set (firstTimerHandlerPtr (td t s))" for h using pending_token [OF ps that] by simp
  have "idles_linked (AfterProc_ptr c) (listed (chain t s) - {idle_clientData (snd x)}) (info s) xs \<and> idle_clientData (snd x) \<in> listed (chain t s)
      \<and> timers_linked (AfterProc_ptr c) (listed (chain t s) - {idle_clientData (snd x)}) (info s) (firstTimerHandlerPtr (td t s))"
    if "idle_proc (snd x) = AfterProc_ptr c"
  proof -
    have "idle_clientData (snd x) \<in> listed (chain t s)" "token_of (info s) (idle_clientData (snd x)) = 0"
      using w(2) that by (auto simp: idles_linked_def)
    then show ?thesis using idles_first [OF w(2) that] timers_outside [OF w(1), of "idle_clientData (snd x)"] tok by blast
  qed
  then show "after_ok c t (if idle_proc (snd x) = AfterProc_ptr c then {idle_clientData (snd x)} else {}) (set_td t take_idle s)"
    using assms p iw idles_other [OF w(2)] by (auto simp: after_ok_def after_wf_def same)
  have "timers_later time (td t s) (td t (set_td t take_idle s))"
    using timers_later_refl [OF ps, of time] p by (auto simp: timers_later_def same)
  moreover have "idle_later (td t s) (td t (set_td t take_idle s))" using iw assms(2) by (auto simp: idle_later_def same list_emb_Cons)
  ultimately show "timers_later time (td t s) (td t (set_td t take_idle s)) \<and> idle_later (td t s) (td t (set_td t take_idle s))" ..
qed

text \<open>Calling the handler that was taken off.\<close>

lemma handler_step:
  assumes env: "after_platform c t" "after_scripts c t B" and s0: "after_step c t s0 s" and ok: "after_ok c t {} s"
    and taken: "after_ok c t (if prc = AfterProc_ptr c then {d} else {}) (set_td t f s)"
      "timers_later (after_clock c s) (td t s) (td t (set_td t f s)) \<and> idle_later (td t s) (td t (set_td t f s))"
    and room: "id_room t (n + 5 * B) s"
      "afterId (f (td t s)) = afterId (td t s)" "lastTimerId (f (td t s)) = lastTimerId (td t s)"
    and r: "r = (if prc = AfterProc_ptr c then AfterProc c t d (set_td t f s) else TimerProc (timing c) prc d (set_td t f s))
      \<or> r = (if prc = AfterProc_ptr c then AfterProc c t d (set_td t f s) else IdleProc (timing c) prc d (set_td t f s))"
  shows "\<exists>s'. r = Some s' \<and> after_ok c t {} s' \<and> after_step c t s0 s' \<and> after_step c t (set_td t f s) s' \<and> id_room t n s'"
proof -
  have room': "id_room t (n + 5 * B) (set_td t f s)" using room by (simp add: id_room_def)
  have "well_behaved c t (5 * B) (set_td t f s) r"
  proof (cases "prc = AfterProc_ptr c")
    case True
    then show ?thesis using r taken(1) AfterProc_step [OF env _ id_room_le [OF room']] by auto
  next
    case False
    have "id_room t B (set_td t f s)" by (rule id_room_le [OF room']) simp
    then have "well_behaved c t B (set_td t f s) r"
      using r taken(1) env(2) False unfolding after_scripts_def by auto
    then show ?thesis by (rule well_behaved_le) simp
  qed
  then obtain s' where s': "r = Some s'" "after_ok c t {} s'" "after_step c t (set_td t f s) s'"
    "\<forall>n. id_room t (n + 5 * B) (set_td t f s) \<longrightarrow> id_room t n s'" unfolding well_behaved_def by blast
  have "after_step c t s (set_td t f s)" using taken(2) by (simp add: after_step_def clock_simps [OF env(1)])
  then show ?thesis using s' room' after_step_trans [OF after_step_trans [OF s0] s'(3)] by blast
qed

text \<open>A pass may call \<open>m\<close> handlers yet, each of which may take five times what a call may.\<close>

definition after_loop_inv :: "'v after_calls \<Rightarrow> nat \<Rightarrow> nat \<Rightarrow> 'v application \<Rightarrow> nat \<Rightarrow> 'v application \<Rightarrow> bool" where
  "after_loop_inv c t B s0 m s \<longleftrightarrow> after_platform c t \<and> after_scripts c t B \<and> after_ok c t {} s0 \<and> after_ok c t {} s
     \<and> after_step c t s0 s \<and> id_room t (5 * B * m) s"

lemma after_ok_pending: "after_ok c t X s \<Longrightarrow> \<exists>ps. pending_timers (td t s) ps"
  by (simp add: after_ok_def after_wf_def)

lemma after_ok_idle: "after_ok c t X s \<Longrightarrow> idle_wf (td t s)"
  by (simp add: after_ok_def after_wf_def)

interpretation after_timer_loop: generation_loop "fire_timers (after_timers c t) t time (lastTimerId (td t s0))"
  "\<lambda>s. firstTimerHandlerPtr (td t s)"
  "\<lambda>h. TCL_TIME_BEFORE time (timer_time h) \<or> lastTimerId (td t s0) < timer_token h"
  "\<lambda>h. timer_token h \<le> lastTimerId (td t s0)"
  "\<lambda>h s. TimerProc (after_timers c t) (timer_proc h) (timer_clientData h) (set_td t take_timer s)"
  "\<lambda>s. after_loop_inv c t B s0 (length (filter (\<lambda>h. timer_token h \<le> lastTimerId (td t s0)) (firstTimerHandlerPtr (td t s)))) s"
    for c :: "'v after_calls" and t :: nat and time :: Tcl_Time and B :: nat and s0 :: "'v application"
proof (unfold_locales, goal_cases)
  case (1 s)
  obtain ps qs where "pending_timers (td t s) ps" "pending_timers (td t s0) qs"
    using 1 after_ok_pending unfolding after_loop_inv_def by blast
  then show ?case by (intro fire_turn) (auto simp: pending_timers_def)
next
  case (2 h)
  then show ?case by simp
next
  case (3 s h hs)
  let ?s = "set_td t take_timer s"
  let ?old = "filter (\<lambda>h. timer_token h \<le> lastTimerId (td t s0))"
  have i: "after_platform c t" "after_scripts c t B" "after_ok c t {} s" "after_step c t s0 s"
    using 3(1) by (simp_all add: after_loop_inv_def)
  have "id_room t (5 * B * Suc (length (?old hs))) s" using 3 by (simp add: after_loop_inv_def)
  then have room: "id_room t (5 * B * length (?old hs) + 5 * B) s" by (simp add: algebra_simps)
  note taken = take_timer_ok [OF i(3) 3(2)]
  obtain s' where s': "TimerProc (after_timers c t) (timer_proc h) (timer_clientData h) ?s = Some s'"
    "after_ok c t {} s'" "after_step c t s0 s'" "after_step c t ?s s'" "id_room t (5 * B * length (?old hs)) s'"
    using handler_step [OF i(1,2,4,3) taken room, where r = "TimerProc (after_timers c t) (timer_proc h) (timer_clientData h) ?s"]
    by (auto simp: after_timers_def)
  have le: "lastTimerId (td t s0) \<le> lastTimerId (td t s)" using i(4) by (simp add: after_step_def timers_later_def)
  have "subseq (filter (\<lambda>h. timer_token h \<le> lastTimerId (td t s)) (firstTimerHandlerPtr (td t s'))) hs"
    using s'(4) 3(2) by (simp add: after_step_def timers_later_def)
  from subseq_filter [OF this, of "\<lambda>h. timer_token h \<le> lastTimerId (td t s0)"]
  have "subseq (filter (\<lambda>h. timer_token h \<le> lastTimerId (td t s0)) (firstTimerHandlerPtr (td t s'))) (filter (\<lambda>h. timer_token h \<le> lastTimerId (td t s0)) hs)"
    using filter_filter_le [OF le, of "firstTimerHandlerPtr (td t s')"] by (simp only:)
  note sub = this
  have "5 * B * length (?old (firstTimerHandlerPtr (td t s'))) \<le> 5 * B * length (?old hs)"
    by (rule mult_le_mono2 [OF list_emb_length [OF sub]])
  then have "id_room t (5 * B * length (?old (firstTimerHandlerPtr (td t s')))) s'" by (rule id_room_le [OF s'(5)])
  then show ?case using s'(1-3) sub 3(1) by (simp add: after_loop_inv_def)
qed

interpretation after_idle_loop: generation_loop "service_idle (after_timers c t) t (idleGeneration (td t s0) - 1)"
  "\<lambda>s. idleList (td t s)" "\<lambda>x. idleGeneration (td t s0) - 1 < cell_gen x" "\<lambda>x. cell_gen x \<le> idleGeneration (td t s0) - 1"
  "\<lambda>x s. IdleProc (after_timers c t) (idle_proc (snd x)) (idle_clientData (snd x)) (set_td t take_idle s)"
  "\<lambda>s. after_loop_inv c t B s0 (length (filter (\<lambda>x. cell_gen x \<le> idleGeneration (td t s0) - 1) (idleList (td t s)))) s
     \<and> 0 < idleGeneration (td t s0)" for c :: "'v after_calls" and t :: nat and B :: nat and s0 :: "'v application"
proof (unfold_locales, goal_cases)
  case (1 s)
  then have "idle_wf (td t s)" "idle_wf (td t s0)" using after_ok_idle unfolding after_loop_inv_def by blast+
  then show ?case using 1 by (intro idle_turn) (auto simp: idle_wf_def)
next
  case (2 x)
  then show ?case by simp
next
  case (3 s x xs)
  let ?s = "set_td t take_idle s"
  let ?old = "filter (\<lambda>x. cell_gen x \<le> idleGeneration (td t s0) - 1)"
  have i: "after_platform c t" "after_scripts c t B" "after_ok c t {} s" "after_step c t s0 s"
    using 3(1) by (simp_all add: after_loop_inv_def)
  have "?old (x # xs) = x # ?old xs" using 3(3) by simp
  then have "id_room t (5 * B * Suc (length (?old xs))) s" using 3(1,2) by (simp add: after_loop_inv_def)
  then have room: "id_room t (5 * B * length (?old xs) + 5 * B) s" by (simp add: algebra_simps)
  have same: "afterId (take_idle (td t s)) = afterId (td t s)" "lastTimerId (take_idle (td t s)) = lastTimerId (td t s)"
    by (simp_all add: take_idle_def)
  note taken = take_idle_ok [OF i(3) 3(2)]
  obtain s' where s': "IdleProc (after_timers c t) (idle_proc (snd x)) (idle_clientData (snd x)) ?s = Some s'"
    "after_ok c t {} s'" "after_step c t s0 s'" "after_step c t ?s s'" "id_room t (5 * B * length (?old xs)) s'"
    using handler_step [OF i(1,2,4,3) taken room same, where r = "IdleProc (after_timers c t) (idle_proc (snd x)) (idle_clientData (snd x)) ?s"]
    by (auto simp: after_timers_def)
  have g: "idleGeneration (td t ?s) = idleGeneration (td t s)" by (simp add: take_idle_def)
  have le: "idleGeneration (td t s0) \<le> idleGeneration (td t ?s)" using i(4) g by (simp add: after_step_def idle_later_def)
  have "subseq (filter (\<lambda>x. cell_gen x < idleGeneration (td t s0)) (idleList (td t s'))) (filter (\<lambda>x. cell_gen x < idleGeneration (td t s0)) (idleList (td t ?s)))"
    by (rule subseq_gen_le [OF le]) (use s'(4) in \<open>simp add: after_step_def idle_later_def\<close>)
  moreover have "cell_gen x \<le> n - 1 \<longleftrightarrow> cell_gen x < n" for x n by auto
  moreover have "idleList (td t ?s) = xs" using 3(2) by (simp add: take_idle_def)
  ultimately have sub: "subseq (?old (idleList (td t s'))) (?old xs)" by (simp only:)
  have "5 * B * length (?old (idleList (td t s'))) \<le> 5 * B * length (?old xs)"
    by (rule mult_le_mono2 [OF list_emb_length [OF sub]])
  then have "id_room t (5 * B * length (?old (idleList (td t s')))) s'" by (rule id_room_le [OF s'(5)])
  then show ?case using s'(1-3) sub 3(1) by (simp add: after_loop_inv_def)
qed


lemma after_pending_reset: "after_ok c t X (set_td t (\<lambda>d. d\<lparr>timerPending := b\<rparr>) s) = after_ok c t X s"
  "after_ok c t X (InitTimer (timing c) t s) = after_ok c t X s"
  by (simp_all add: after_ok_def after_wf_def pending_timers_def idle_wf_def)

lemma timer_pass:
  assumes env: "after_platform c t" "after_scripts c t B" and ok: "after_ok c t {} s" and fl: "flags AND TCL_TIMER_EVENTS \<noteq> 0"
    and room: "id_room t (5 * B * length (firstTimerHandlerPtr (td t s))) s"
  shows "\<exists>s'. TimerHandlerEventProc (after_timers c t) t flags s = Some (1, s') \<and> after_ok c t {} s'
    \<and> (\<forall>h\<in>set (firstTimerHandlerPtr (td t s')). timer_token h \<le> lastTimerId (td t s) \<longrightarrow> TCL_TIME_BEFORE (after_clock c s) (timer_time h))"
proof -
  let ?s = "set_td t (\<lambda>d. d\<lparr>timerPending := False\<rparr>) (InitTimer (timing c) t s)"
  obtain now s1 where g: "get_time (timing c) ?s = (now, s1)" by (cases "get_time (timing c) ?s")
  have td1: "td t s1 = (td t s)\<lparr>timerPending := False\<rparr>" using get_time_td [OF g, of t] by simp
  have clk: "after_clock c ?s = after_clock c s" by (simp add: after_clock_def)
  have ok0: "after_ok c t {} ?s" using ok by (simp add: after_pending_reset)
  have ok1: "after_ok c t {} s1" by (rule after_step_same(1) [OF ok0 same_get_time(1) [OF env(1) g]]) (simp add: td1)
  have now: "now = after_clock c s" "not_earlier (after_clock c s1) now"
    using same_get_time(2) [OF env(1) g] same_events_info [OF same_get_time(1) [OF env(1) g], of t] clk by simp_all
  let ?m = "\<lambda>s. length (filter (\<lambda>h. timer_token h \<le> lastTimerId (td t s1)) (firstTimerHandlerPtr (td t s)))"
  have "id_room t (5 * B * length (firstTimerHandlerPtr (td t s))) s1" using room td1 by (simp add: id_room_def)
  then have "id_room t (5 * B * ?m s1) s1" by (rule id_room_le) (simp add: td1)
  then have "after_loop_inv c t B s1 (?m s1) s1" using env ok1 after_step_refl [OF ok1] by (simp add: after_loop_inv_def)
  from after_timer_loop.loop_ends [OF this, of now] obtain s2 where
    s2: "fire_timers (after_timers c t) t now (lastTimerId (td t s1)) s1 = Some s2" "after_loop_inv c t B s1 (?m s2) s2"
    "\<forall>h hs. firstTimerHandlerPtr (td t s2) = h # hs \<longrightarrow> TCL_TIME_BEFORE now (timer_time h) \<or> lastTimerId (td t s1) < timer_token h" by blast
  have later: "timers_later now (td t s1) (td t s2)"
    using s2(2) now(2) timers_later_before unfolding after_loop_inv_def after_step_def by blast
  obtain ps where ps: "pending_timers (td t s1) ps" using after_ok_pending [OF ok1] by blast
  let ?s' = "TimerSetupProc (timing c) t TCL_TIMER_EVENTS s2"
  have tds: "td t ?s' = td t s2" using after_platform_platform [OF env(1)] by simp
  have "after_ok c t {} ?s'"
    by (rule after_step_same(1) [OF _ same_TimerSetupProc [OF env(1)] tds]) (use s2(2) in \<open>simp add: after_loop_inv_def\<close>)
  moreover have "TimerHandlerEventProc (after_timers c t) t flags s = Some (1, ?s')"
    using fl g s2(1) td1 by (simp add: TimerHandlerEventProc_def Let_def)
  moreover have "TCL_TIME_BEFORE (after_clock c s) (timer_time h)"
    if "h \<in> set (firstTimerHandlerPtr (td t ?s'))" "timer_token h \<le> lastTimerId (td t s)" for h
    using timer_loop_complete [OF ps later s2(3), of h] that tds td1 now(1) by simp
  ultimately show ?thesis by blast
qed

lemma idle_pass:
  assumes env: "after_platform c t" "after_scripts c t B" and ok: "after_ok c t {} s" and room: "idleGeneration (td t s) < INT_MAX"
    "id_room t (5 * B * length (idleList (td t s))) s"
  shows "\<exists>r s'. ServiceIdle (after_timers c t) t s = Some (r, s') \<and> after_ok c t {} s'
    \<and> (\<forall>x\<in>set (idleList (td t s')). idleGeneration (td t s) < generation (snd x))"
proof (cases "idleList (td t s) = []")
  case True
  then have "ServiceIdle (after_timers c t) t s = Some (0, InitTimer (timing c) t s)" by (simp add: ServiceIdle_def)
  then show ?thesis using ok True by (simp add: after_pending_reset)
next
  case False
  let ?old = "idleGeneration (td t s)"
  let ?s = "set_td t (\<lambda>d. d\<lparr>idleGeneration := int32 (?old + 1)\<rparr>) (InitTimer (timing c) t s)"
  have w: "idle_wf (td t s)" using after_ok_idle [OF ok] .
  then have g: "0 \<le> ?old" "int32 (?old + 1) = ?old + 1" using room(1) by (auto simp: idle_wf_def INT_MAX_def intro!: int32_id)
  have "idle_wf (td t ?s)" using w room(1) g by (auto simp: idle_wf_def)
  then have ok1: "after_ok c t {} ?s" using ok by (simp add: after_ok_def after_wf_def pending_timers_def)
  let ?m = "\<lambda>s. length (filter (\<lambda>x. cell_gen x \<le> idleGeneration (td t ?s) - 1) (idleList (td t s)))"
  have "id_room t (5 * B * length (idleList (td t s))) ?s" using room(2) by (simp add: id_room_def)
  then have "id_room t (5 * B * ?m ?s) ?s" by (rule id_room_le) simp
  then have "after_loop_inv c t B ?s (?m ?s) ?s \<and> 0 < idleGeneration (td t ?s)"
    using env ok1 after_step_refl [OF ok1] g by (simp add: after_loop_inv_def)
  from after_idle_loop.loop_ends [OF this] obtain s2 where
    s2: "service_idle (after_timers c t) t ?old ?s = Some s2" "after_loop_inv c t B ?s (?m s2) s2"
    "\<forall>x xs. idleList (td t s2) = x # xs \<longrightarrow> ?old < cell_gen x" using g by auto
  have ok2: "after_ok c t {} s2" using s2(2) by (simp add: after_loop_inv_def)
  have new: "?old < cell_gen x" if "x \<in> set (idleList (td t s2))" for x
    using that s2(3) after_ok_idle [OF ok2] by (cases "idleList (td t s2)") (auto simp: idle_wf_def)
  let ?s' = "if idleList (td t s2) \<noteq> [] then Tcl_SetMaxBlockTime (notifier (timing c)) t \<lparr>sec = 0, usec = 0\<rparr> s2 else s2"
  have tds: "td t ?s' = td t s2" using after_platform_platform [OF env(1)] by simp
  have same: "same_events c s2 ?s'" using same_SetMaxBlockTime [OF env(1)] same_user [of s2 s2 c] by simp
  have "ServiceIdle (after_timers c t) t s = Some (1, ?s')" using False s2(1) by (simp add: ServiceIdle_def Let_def)
  moreover have "after_ok c t {} ?s'" by (rule after_step_same(1) [OF ok2 same tds])
  ultimately show ?thesis using new tds by auto
qed

section \<open>The command\<close>

definition pending_chain :: "nat \<Rightarrow> 'v application \<Rightarrow> nat \<Rightarrow> nat list" where
  "pending_chain t s i = (case chain t s i of None \<Rightarrow> [] | Some xs \<Rightarrow> xs)"

text \<open>The state when the data of the interpreter has been made.\<close>

definition prepared :: "'v after_calls \<Rightarrow> nat \<Rightarrow> nat \<Rightarrow> 'v application \<Rightarrow> 'v application" where
  "prepared c t i s = (let s = InitTimer (timing c) t s in if chain t s i = None then set_chain t i (Some []) s else s)"

lemma prepared:
  assumes "after_platform c t" "after_ok c t {} s"
  shows "after_ok c t {} (prepared c t i s)" "after_step c t s (prepared c t i s)"
    "chain t (prepared c t i s) = (chain t s)(i \<mapsto> pending_chain t s i)" "info (prepared c t i s) = info s" "td t (prepared c t i s) = td t s"
proof -
  show p: "chain t (prepared c t i s) = (chain t s)(i \<mapsto> pending_chain t s i)" "info (prepared c t i s) = info s" "td t (prepared c t i s) = td t s"
    by (auto simp: prepared_def Let_def pending_chain_def fun_eq_iff)
  have l: "listed ((chain t s)(i \<mapsto> pending_chain t s i)) = listed (chain t s)"
    by (cases "chain t s i") (simp_all add: pending_chain_def fun_upd_idem)
  have "chains_ok ((chain t s)(i \<mapsto> pending_chain t s i)) (info s) (afterId (td t s))"
    using assms(2) chains_empty(1) [of "chain t s" "info s" "afterId (td t s)" i]
    by (cases "chain t s i") (simp_all add: after_ok_def after_wf_def pending_chain_def fun_upd_idem)
  then show "after_ok c t {} (prepared c t i s)" using assms(2) l p by (simp add: after_ok_def after_wf_def)
  have "after_clock c (prepared c t i s) = after_clock c s"
    by (simp add: prepared_def Let_def clock_simps [OF assms(1)]) (simp add: after_clock_def)
  then show "after_step c t s (prepared c t i s)"
    using after_ok_later [OF assms(2), of "after_clock c s"] l p by (simp add: after_step_def)
qed

lemma command_prepared: "2 \<le> length objv \<Longrightarrow> Tcl_AfterObjCmd c t i objv s = after_form c t i objv (prepared c t i s)"
  by (simp add: Tcl_AfterObjCmd_def prepared_def Let_def)

text \<open>Cells that a chain lists can be read.\<close>

lemma chain_cells: "after_ok c t X s \<Longrightarrow> chain t s i = Some xs \<Longrightarrow> \<forall>a\<in>set xs. \<exists>f. info s a = Some f"
  using chain_info [of "chain t s" "info s" "afterId (td t s)" i xs] unfolding after_ok_def after_wf_def by blast

lemma list_events_map: "\<forall>a\<in>set xs. \<exists>f. info s a = Some f \<Longrightarrow> list_events xs s = Some (map (\<lambda>a. event_name (id_of (info s) a)) xs)"
  by (induction xs) (auto simp: id_of_def)

lemma GetAfterEvent_cells:
  assumes "\<forall>a\<in>set xs. \<exists>f. info s a = Some f"
  shows "GetAfterEvent xs str s = Some None \<or> (\<exists>a\<in>set xs. GetAfterEvent xs str s = Some (Some a))"
proof -
  have "find P xs = None \<or> (\<exists>a\<in>set xs. find P xs = Some a)" for P by (induction xs) auto
  then show ?thesis unfolding GetAfterEvent_def find_after_find [OF assms] by (auto split: prod.splits)
qed

lemma after_cancel_ok:
  assumes env: "after_platform c t" and ok: "after_ok c t {} s" and ch: "chain t s i = Some xs"
  shows "well_behaved c t 0 s (after_cancel c t i cmd s)"
proof -
  note cells = chain_cells [OF ok ch]
  let ?find = "find (\<lambda>a. string_rep (commandPtr (the (info s a))) = string_rep cmd) xs"
  have "?find = None \<or> (\<exists>a\<in>set xs. ?find = Some a)" by (induction xs) auto
  then obtain r where r: "(if ?find = None then GetAfterEvent xs (string_rep cmd) s else Some ?find) = Some r"
    "r = None \<or> (\<exists>a\<in>set xs. r = Some a)" using GetAfterEvent_cells [OF cells, of "string_rep cmd"] by auto
  have e: "after_cancel c t i cmd s = (case r of None \<Rightarrow> Some s | Some a \<Rightarrow> withdraw c t a s \<bind> FreeAfterPtr t a)"
    using ch r(1) by (simp add: after_cancel_def find_after_find [OF cells])
  show ?thesis
  proof (cases r)
    case None
    then show ?thesis using e well_behaved_same [OF ok] by simp
  next
    case (Some a)
    then have a: "a \<in> set xs" using r(2) by auto
    obtain f where f: "info s a = Some f" using cells a by blast
    show ?thesis using cancel_step [OF env ok ch a f refl] e Some by (auto simp: well_behaved_def id_room_def)
  qed
qed

lemma command_ok:
  assumes env: "after_platform c t" and ok: "after_ok c t {} s" and room: "afterId (td t s) < INT_MAX" "lastTimerId (td t s) < INT_MAX"
    and form: "\<not> (length objv = 2 \<and> (\<exists>ms. get_subcommand c (objv ! 1) = Some (AFTER_TIME ms)))"
  shows "well_behaved c t 1 s (map_option snd (Tcl_AfterObjCmd c t i objv s))"
proof (cases "length objv < 2")
  case True
  have "same_events c s (InitTimer (timing c) t s)" by (rule same_user) simp
  from after_step_same [OF ok this] show ?thesis using True by (simp add: Tcl_AfterObjCmd_def well_behaved_def id_room_def)
next
  case False
  then have len: "2 \<le> length objv" by simp
  let ?s = "prepared c t i s"
  note p = prepared [OF env ok, of i]
  have ch: "chain t ?s i = Some (pending_chain t s i)" using p(3) by simp
  note cells = chain_cells [OF p(1) ch]
  have same: "well_behaved c t 1 ?s (Some ?s)" by (rule well_behaved_same [OF p(1)])
  have wok: "well_behaved c t 1 ?s (map_option snd r) \<Longrightarrow> well_behaved c t 1 ?s (map_option snd (After.ok r))" for r
    by (auto simp: well_behaved_def After.ok_def)
  have timer: "well_behaved c t 1 ?s (map_option snd (after_timer c t i ms cmd ?s))" if "0 \<le> ms" for ms cmd
    using after_timer_step [OF env p(1) _ _ ch that, of cmd] room p(5) by (auto simp: well_behaved_def id_room_def)
  have idle: "well_behaved c t 1 ?s (map_option snd (after_idle c t i cmd ?s))" for cmd
    using after_idle_step [OF env p(1) _ ch, of cmd] room p(5) by (auto simp: well_behaved_def id_room_def)
  have cancel: "well_behaved c t 1 ?s (map_option snd (map_option (Pair NoReply) (after_cancel c t i cmd ?s)))" for cmd
    using well_behaved_le [OF after_cancel_ok [OF env p(1) ch, of cmd], of 1] by (auto simp: well_behaved_def)
  have info: "\<exists>r. after_info t i arg ?s = Some r" for arg
    using GetAfterEvent_cells [OF cells, of "string_rep arg"] cells ch by (auto simp: after_info_def)
  have "well_behaved c t 1 ?s (map_option snd (Tcl_AfterObjCmd c t i objv s))"
    unfolding command_prepared [OF len] after_form_def Let_def
    using form wok [OF timer] wok [OF idle] wok [OF cancel] info [of "objv ! 2"] same list_events_map [OF cells] ch
    by (auto split: option.split subcommand.split)
  then show ?thesis using after_step_trans [OF p(2)] p(5) by (auto simp: well_behaved_def id_room_def)
qed


text \<open>Deletion of an interpreter takes its events back and frees them, the first of the chain first.\<close>

lemma listed_initialised: "after_ok c t {} s \<Longrightarrow> a \<in> listed (chain t s) \<Longrightarrow> timers (world s) t \<noteq> None"
proof
  assume a: "after_ok c t {} s" "a \<in> listed (chain t s)" "timers (world s) t = None"
  then have "td t s = zero_timers" by (simp add: td_def)
  then show False using a(1,2)
    by (cases "token_of (info s) a = 0") (auto simp: after_ok_def after_wf_def timers_linked_def idles_linked_def zero_timers_def)
qed

lemma set_chain_commute:
  "set_td t f (set_chain t i v s) = set_chain t i v (set_td t f s)"
  "set_chain t i w (set_chain t i v s) = set_chain t i w s"
  "timers (world (set_chain t i v s)) = timers (world s)"
  by (simp_all add: set_td_def set_chain_def td_def chain_def)

lemma withdraw_chain:
  assumes "after_ok c t {} s" "chain t s i = Some (a # xs)" "info s a = Some f" "assocPtr f = i"
  shows "withdraw c t a (set_chain t i (Some xs) s) \<bind> free_info a = withdraw c t a s \<bind> FreeAfterPtr t a"
proof -
  have init: "timers (world s) t \<noteq> None"
    using listed_initialised [OF assms(1)] chain_listed [of "chain t s", OF assms(2), of a] by simp
  let ?s = "if after_token f \<noteq> 0 then Tcl_DeleteTimerHandler (timing c) t (after_token f) s else Tcl_CancelIdleCall (timing c) t (AfterProc_ptr c) a s"
  have "withdraw c t a (set_chain t i (Some xs) s) = Some (set_chain t i (Some xs) ?s)"
    using assms(3) init by (simp add: withdraw_def Tcl_DeleteTimerHandler_def Tcl_CancelIdleCall_def set_chain_commute Let_def)
  moreover have "info ?s = info s" "chain t ?s = chain t s" by (simp_all add: info_def chain_def)
  ultimately show ?thesis using assms by (simp add: withdraw_def FreeAfterPtr_def unlink_info_def)
qed

lemma cleanup_step:
  assumes env: "after_platform c t"
  shows "after_ok c t {} s \<Longrightarrow> chain t s i = Some xs \<Longrightarrow> \<exists>s'. cleanup_after c t i xs s = Some s' \<and> after_ok c t {} s' \<and> after_step c t s s'
    \<and> chain t s' = (chain t s)(i \<mapsto> []) \<and> (\<forall>a. info s' a = (if a \<in> set xs then None else info s a))"
proof (induction xs arbitrary: s)
  case Nil
  then show ?case using after_step_refl by (auto simp: fun_upd_idem)
next
  case (Cons a xs)
  obtain f where f: "info s a = Some f" using chain_cells [OF Cons.prems] by auto
  have co: "chains_ok (chain t s) (info s) (afterId (td t s))" using Cons.prems(1) by (simp add: after_ok_def after_wf_def)
  have i: "assocPtr f = i" using chain_info [OF co Cons.prems(2), of a] f by auto
  have a: "a \<notin> set xs" using chain_distinct [OF co Cons.prems(2)] by simp
  let ?ys = "filter (\<lambda>x. \<not> (idle_proc (snd x) = AfterProc_ptr c \<and> idle_clientData (snd x) = a)) (idleList (td t s))"
  obtain s1 where s1: "withdraw c t a s \<bind> FreeAfterPtr t a = Some s1" "after_ok c t {} s1" "after_step c t s s1"
    "chain t s1 = (chain t s)(i \<mapsto> remove1 a (a # xs))" "info s1 = (info s)(a := None)"
    using cancel_step [OF env Cons.prems _ f refl] by auto
  have "withdraw c t a (set_chain t i (Some xs) s) \<bind> free_info a = withdraw c t a s \<bind> FreeAfterPtr t a"
    by (rule withdraw_chain [OF Cons.prems f i])
  then have step: "cleanup_after c t i (a # xs) s = cleanup_after c t i xs s1" using s1(1) by (auto split: bind_splits)
  have "chain t s1 i = Some xs" using s1(4) by simp
  from Cons.IH [OF s1(2) this] obtain s2 where s2: "cleanup_after c t i xs s1 = Some s2" "after_ok c t {} s2" "after_step c t s1 s2"
    "chain t s2 = (chain t s1)(i \<mapsto> [])" "\<forall>a. info s2 a = (if a \<in> set xs then None else info s1 a)" by blast
  show ?case using step s2 s1(4,5) after_step_trans [OF s1(3) s2(3)] a by (intro exI [of _ s2]) auto
qed


lemma delete_cleanup:
  assumes env: "after_platform c t" and ok: "after_ok c t {} s" and ch: "chain t s i = Some xs"
  shows "\<exists>s'. AfterCleanupProc c t i s = Some s' \<and> after_ok c t {} s' \<and> after_step c t s s'
    \<and> chain t s' = (chain t s)(i := None) \<and> (\<forall>a. info s' a = (if a \<in> set xs then None else info s a))"
proof -
  obtain s1 where s1: "cleanup_after c t i xs s = Some s1" "after_ok c t {} s1" "after_step c t s s1"
    "chain t s1 = (chain t s)(i \<mapsto> [])" "\<forall>a. info s1 a = (if a \<in> set xs then None else info s a)"
    using cleanup_step [OF env ok ch] by blast
  let ?s = "set_chain t i None s1"
  have e: "chain t s1 i = Some []" using s1(4) by simp
  have l: "listed ((chain t s1)(i := None)) = listed (chain t s1)" using e by simp
  have "after_ok c t {} ?s"
    using s1(2) chains_empty(2) [of "chain t s1" _ _ i] e l by (simp add: after_ok_def after_wf_def)
  moreover have "after_step c t s ?s"
    using s1(3) l by (simp add: after_step_def clock_simps [OF env])
  ultimately show ?thesis using s1 ch by (intro exI [of _ ?s]) (simp add: AfterCleanupProc_def)
qed

section \<open>An application\<close>

text \<open>
  An application whose data is its clock in milliseconds; addresses are the first free ones, and
  integers are read as \<open>strtoul\<close> does.
\<close>

partial_function (option) find_free :: "nat \<Rightarrow> 'v application \<Rightarrow> nat option" where
  "find_free a s = (if info s a = None then Some a else find_free (Suc a) s)"

lemma find_free: "info s b = None \<Longrightarrow> a \<le> b \<Longrightarrow> \<exists>x. find_free a s = Some x \<and> info s x = None"
proof (induction "b - a" arbitrary: a)
  case 0
  then show ?case by (subst find_free.simps) simp
next
  case (Suc n)
  then show ?case by (subst find_free.simps) (cases "info s a = None"; simp)
qed

definition clock_time :: "nat \<Rightarrow> Tcl_Time" where
  "clock_time ms = \<lparr>sec = int (ms div 1000), usec = int (ms mod 1000) * 1000\<rparr>"

definition example_after :: "nat after_calls" where
  "example_after = \<lparr>
     timing = \<lparr>
       notifier = \<lparr>EventProc = (\<lambda>p e fl s. (0, s)), EventSetupProc = (\<lambda>p c fl s. s), EventCheckProc = (\<lambda>p c fl s. s),
         Tcl_AsyncReady = (\<lambda>s. False), Tcl_AsyncInvoke = (\<lambda>s. s), TclServiceIdle = (\<lambda>s. (0, s)),
         Tcl_InitNotifier = (\<lambda>s. (0, s)), Tcl_FinalizeNotifier = (\<lambda>h s. s), Tcl_WaitForEvent = (\<lambda>tm s. (0, s)),
         Tcl_SetTimer = (\<lambda>tm s. s), Tcl_ServiceModeHook = (\<lambda>m s. s), Tcl_AlertNotifier = (\<lambda>h s. s)\<rparr>,
       Tcl_GetTime = (\<lambda>u. (clock_time (app u), u)), TimerProc = (\<lambda>p d. Some), IdleProc = (\<lambda>p d. Some),
       event_address = (\<lambda>s. 7), source_address = (\<lambda>s. 1), idle_address = (\<lambda>s. Suc (sum_list (map fst (idleList (td 0 s))))),
       TimerSetupProc_ptr = 20, TimerCheckProc_ptr = 21, TimerHandlerEventProc_ptr = 22\<rparr>,
     AfterProc_ptr = 9, after_address = (\<lambda>s. the (find_free 0 s)),
     Tcl_GetWideIntFromObj = (\<lambda>obj. case strtoul (string_rep obj) of (v, r) \<Rightarrow> if r = [] \<and> string_rep obj \<noteq> [] then Some (int v) else None),
     Tcl_ConcatObj = (\<lambda>args. \<lparr>string_rep = concat (map string_rep args), typePtr = otherType\<rparr>),
     Tcl_EvalObjEx = (\<lambda>i cmd s. Some (0, s)), Tcl_AddErrorInfo = (\<lambda>i m. Some), Tcl_BackgroundException = (\<lambda>i r. Some),
     Tcl_Preserve = (\<lambda>i. Some), Tcl_Release = (\<lambda>i. Some), interp_AsyncInvoke = (\<lambda>i s. (0, s)), Tcl_Canceled = (\<lambda>i s. (0, s)),
     limit_timeEvent = (\<lambda>i s. False), limit_time = (\<lambda>i s. \<lparr>sec = 0, usec = 0\<rparr>), reset_granularity = (\<lambda>i s. s),
     Tcl_LimitCheck = (\<lambda>i s. (0, s)),
     Tcl_Sleep = (\<lambda>ms s. s\<lparr>world := (world s)\<lparr>user := (user (world s))\<lparr>app := app (user (world s)) + nat ms\<rparr>\<rparr>\<rparr>)\<rparr>"

text \<open>Its scripts are the command \<open>after 0\<close> with the script itself, so that they run again at once.\<close>

definition word :: "string \<Rightarrow> Tcl_Obj" where
  "word str = \<lparr>string_rep = str, typePtr = otherType\<rparr>"

definition repeating :: "nat after_calls" where
  "repeating = example_after\<lparr>Tcl_EvalObjEx := \<lambda>i cmd s.
     map_option (\<lambda>(r, s). (case r of Inl _ \<Rightarrow> 1 | Inr _ \<Rightarrow> 0, s)) (Tcl_AfterObjCmd example_after 0 i [word ''after'', word ''0'', cmd] s)\<rparr>"

text \<open>Interpreter 1 has one pending event, which is due.\<close>

definition one_event :: "nat application" where
  "one_event = \<lparr>events = (\<lambda>_. None), sources = (\<lambda>_. None), tsd = (\<lambda>_. zero_data), firstNotifierPtr = None,
     world = \<lparr>timers = (\<lambda>_. Some (zero_timers\<lparr>lastTimerId := 1, afterId := 1, firstTimerHandlerPtr :=
         [\<lparr>timer_time = \<lparr>sec = 5, usec = 0\<rparr>, timer_proc = 9, timer_clientData = 3, timer_token = 1\<rparr>]\<rparr>)),
       user = \<lparr>afterInfos = (\<lambda>_. None)(3 \<mapsto> \<lparr>assocPtr = 1, commandPtr = word ''a'', after_id = 0, after_token = 1\<rparr>),
         assocs = (\<lambda>t i. if i = 1 then Some [3] else None), app = 6000\<rparr>\<rparr>\<rparr>"

lemma example_platform_after: "after_platform example_after 0"
  unfolding after_platform_def
proof (intro conjI allI impI)
  let ?g = "\<lambda>v. (clock_time v, v)"
  have "normalized (clock_time v)" for v by (simp add: clock_time_def normalized_def)
  then show "\<exists>g. (\<forall>u. Tcl_GetTime (timing example_after) u = (fst (g (app u)), u\<lparr>app := snd (g (app u))\<rparr>)) \<and>
      (\<forall>v. normalized (fst (g v)) \<and> not_earlier (fst (g (snd (g v)))) (fst (g v)))"
    by (intro exI [of _ ?g]) (simp add: example_after_def)
  fix s :: "nat application" and tm
  have "s = s\<lparr>world := (world s)\<lparr>user := (user (world s))\<lparr>app := app (user (world s))\<rparr>\<rparr>\<rparr>" by simp
  then show "\<exists>v. Tcl_SetTimer (notifier (timing example_after)) tm s = s\<lparr>world := (world s)\<lparr>user := (user (world s))\<lparr>app := v\<rparr>\<rparr>\<rparr>"
    by (intro exI [of _ "app (user (world s))"]) (simp add: example_after_def)
  show "not_earlier (after_clock example_after (Tcl_SetTimer (notifier (timing example_after)) tm s)) (after_clock example_after s)"
    by (simp add: example_after_def)
  have "Suc (sum_list (map fst xs)) \<notin> fst ` set xs" for xs :: "(nat \<times> IdleHandler) list"
    using member_le_sum_list [of _ "map fst xs"] by fastforce
  then show "idle_address (timing example_after) s \<notin> fst ` set (idleList (td 0 s))" by (simp add: example_after_def)
next
  fix s :: "nat application"
  assume "finite (dom (info s))"
  then obtain b where "info s b = None" using ex_new_if_finite [OF infinite_UNIV_nat] by (metis domIff)
  then show "info s (after_address example_after s) = None" using find_free [of s b 0] by (auto simp: example_after_def)
qed

lemma td_one_event: "td t one_event = zero_timers\<lparr>lastTimerId := 1, afterId := 1, firstTimerHandlerPtr :=
    [\<lparr>timer_time = \<lparr>sec = 5, usec = 0\<rparr>, timer_proc = 9, timer_clientData = 3, timer_token = 1\<rparr>]\<rparr>"
  by (simp add: td_def one_event_def)

lemma chain_one_event: "chain t one_event = (\<lambda>_. None)(1 \<mapsto> [3])"
  "info one_event = (\<lambda>_. None)(3 \<mapsto> \<lparr>assocPtr = 1, commandPtr = word ''a'', after_id = 0, after_token = 1\<rparr>)"
  by (auto simp: chain_def info_def one_event_def)

lemma one_event_ok: "after_ok example_after 0 {} one_event"
proof -
  have l: "listed ((\<lambda>_. None)(j \<mapsto> [3])) = {3}" for j by (auto simp: listed_def split: if_splits)
  have "pending_timers (td 0 one_event) (firstTimerHandlerPtr (td 0 one_event))"
    by (simp add: td_one_event pending_timers_def zero_timers_def INT_MAX_def)
  moreover have "idle_wf (td 0 one_event)" by (simp add: td_one_event idle_wf_def zero_timers_def INT_MAX_def)
  moreover have "AfterProc_ptr example_after = 9" by (simp add: example_after_def)
  ultimately show ?thesis
    by (auto simp: after_ok_def after_wf_def chain_one_event l chains_ok_def timers_linked_def idles_linked_def
        token_of_def id_of_def td_one_event zero_timers_def INT_MAX_def split: if_splits)
qed

lemma digit_chars: "char_of (48 :: nat) = CHR ''0''" "char_of (49 :: nat) = CHR ''1''"
  by code_simp+

lemma example_words:
  "get_subcommand example_after (word ''cancel'') = Some AFTER_CANCEL" "get_subcommand example_after (word ''info'') = Some AFTER_INFO"
  "get_subcommand example_after (word ''idle'') = Some AFTER_IDLE" "get_subcommand example_after (word ''0'') = Some (AFTER_TIME 0)"
  by (simp_all add: get_subcommand_def word_def Tcl_GetIndexFromObjStruct_def afterSubCmds_def Let_def example_after_def
      strtoul_def is_space_def is_digit_def digits_value_def ULONG_MAX_def)

lemma one_event_room: "afterId (td 0 one_event) < INT_MAX" "lastTimerId (td 0 one_event) < INT_MAX" "idleGeneration (td 0 one_event) < INT_MAX"
  by (simp_all add: td_one_event zero_timers_def INT_MAX_def)

section \<open>Properties\<close>

text \<open>
  C25. The chains of events, the timers and the idle handlers agree: in every state in which they do
  and in which \<open>afterId\<close> and \<open>lastTimerId\<close> are not about to wrap, every form of the command but the
  blocking \<open>after ms\<close>, with any number of arguments, returns without using a freed cell and keeps the
  agreement and the cells of scripts that are running.  So does the deletion of an interpreter that
  has used the command, after which none of its events is left.
\<close>

theorem after_operations_agree:
  assumes "after_platform c t" "after_ok c t {} s" "afterId (td t s) < INT_MAX" "lastTimerId (td t s) < INT_MAX"
    "\<not> (length objv = 2 \<and> (\<exists>ms. get_subcommand c (objv ! 1) = Some (AFTER_TIME ms)))" "chain t s i = Some xs"
  shows "(\<exists>r s'. Tcl_AfterObjCmd c t j objv s = Some (r, s') \<and> after_ok c t {} s' \<and> after_step c t s s')
    \<and> (\<exists>s'. AfterCleanupProc c t i s = Some s' \<and> after_ok c t {} s' \<and> after_step c t s s'
         \<and> chain t s' = (chain t s)(i := None) \<and> (\<forall>a\<in>set xs. info s' a = None))"
proof
  show "\<exists>r s'. Tcl_AfterObjCmd c t j objv s = Some (r, s') \<and> after_ok c t {} s' \<and> after_step c t s s'"
    using command_ok [OF assms(1-5), of j] by (auto simp: well_behaved_def)
  show "\<exists>s'. AfterCleanupProc c t i s = Some s' \<and> after_ok c t {} s' \<and> after_step c t s s'
       \<and> chain t s' = (chain t s)(i := None) \<and> (\<forall>a\<in>set xs. info s' a = None)"
    using delete_cleanup [OF assms(1,2,6)] by auto
qed

theorem after_operations_agree_witness:
  "(\<exists>r s'. Tcl_AfterObjCmd example_after 0 1 [word ''after'', word ''idle'', word ''b''] one_event = Some (r, s') \<and> after_ok example_after 0 {} s')
    \<and> (\<exists>s'. AfterCleanupProc example_after 0 1 one_event = Some s' \<and> chain 0 s' 1 = None \<and> info s' 3 = None)"
proof -
  have "\<not> (length [word ''after'', word ''idle'', word ''b''] = 2 \<and>
      (\<exists>ms. get_subcommand example_after ([word ''after'', word ''idle'', word ''b''] ! 1) = Some (AFTER_TIME ms)))" by simp
  moreover have "chain 0 one_event 1 = Some [3]" by (simp add: chain_one_event)
  ultimately show ?thesis
    using after_operations_agree [OF example_platform_after one_event_ok one_event_room(1,2), where j = 1] by fastforce
qed

text \<open>
  C26. Scripts run from the event loop: a pass over the timers or the idle handlers in which
  \<open>AfterProc\<close> evaluates scripts, which may use the command themselves, returns without using a freed
  cell and keeps the agreement; no timer that was due is left behind, and no idle script.  Scripts
  and handlers return and do to the events what the operations of this theory do; a call takes at
  most \<open>B\<close> identifiers, and \<open>AfterProc\<close> makes at most five, so that \<open>afterId\<close> and \<open>lastTimerId\<close> do not
  wrap with room for \<open>5 * B\<close> for each handler of the list.  The clock does not go back.
\<close>

theorem after_scripts_run:
  assumes "after_platform c t" "after_scripts c t B" "after_ok c t {} s" "flags AND TCL_TIMER_EVENTS \<noteq> 0" "idleGeneration (td t s) < INT_MAX"
    "id_room t (5 * B * length (firstTimerHandlerPtr (td t s))) s" "id_room t (5 * B * length (idleList (td t s))) s"
  shows "(\<exists>s'. TimerHandlerEventProc (after_timers c t) t flags s = Some (1, s') \<and> after_ok c t {} s'
      \<and> (\<forall>h\<in>set (firstTimerHandlerPtr (td t s')). timer_token h \<le> lastTimerId (td t s) \<longrightarrow> TCL_TIME_BEFORE (after_clock c s) (timer_time h)))
    \<and> (\<exists>r s'. ServiceIdle (after_timers c t) t s = Some (r, s') \<and> after_ok c t {} s'
      \<and> (\<forall>x\<in>set (idleList (td t s')). idleGeneration (td t s) < generation (snd x)))"
  using timer_pass [OF assms(1-4,6)] idle_pass [OF assms(1-3,5,7)] by (rule conjI)

lemma repeating_same: "timing repeating = timing example_after" "AfterProc_ptr repeating = AfterProc_ptr example_after"
  "after_address repeating = after_address example_after"
  by (simp_all add: repeating_def)

lemma repeating_ok [simp]: "after_ok repeating = after_ok example_after" "after_clock repeating = after_clock example_after"
  "after_platform repeating = after_platform example_after" "after_step repeating = after_step example_after"
proof -
  show c: "after_clock repeating = after_clock example_after" by (simp add: fun_eq_iff after_clock_def repeating_same)
  show "after_ok repeating = after_ok example_after" by (simp add: fun_eq_iff after_ok_def repeating_same)
  show "after_platform repeating = after_platform example_after" by (simp add: fun_eq_iff after_platform_def c repeating_same)
  show "after_step repeating = after_step example_after" by (simp add: fun_eq_iff after_step_def c)
qed

lemma repeating_scripts: "after_scripts repeating 0 1"
proof -
  have eval: "well_behaved repeating 0 1 s (map_option snd (Tcl_EvalObjEx repeating i cmd s))"
    if ok: "after_ok example_after 0 {} s" and room: "id_room 0 1 s" for i cmd s
  proof -
    let ?objv = "[word ''after'', word ''0'', cmd]"
    have r: "afterId (td 0 s) < INT_MAX" "lastTimerId (td 0 s) < INT_MAX" using room by (simp_all add: id_room_def)
    have "\<not> (length ?objv = 2 \<and> (\<exists>ms. get_subcommand example_after (?objv ! 1) = Some (AFTER_TIME ms)))" by simp
    note well = command_ok [OF example_platform_after ok r this, of i]
    have "Tcl_EvalObjEx repeating i cmd s = map_option (\<lambda>(r, s). (case r of Inl _ \<Rightarrow> 1 | Inr _ \<Rightarrow> 0, s)) (Tcl_AfterObjCmd example_after 0 i ?objv s)"
      by (simp add: repeating_def)
    then show ?thesis using well by (auto simp: well_behaved_def)
  qed
  have "well_behaved repeating 0 1 s (Some s)" if "after_ok example_after 0 {} s" for s
    using that by (intro well_behaved_same) simp
  moreover have "Tcl_AddErrorInfo repeating = (\<lambda>i m. Some)" "Tcl_BackgroundException repeating = (\<lambda>i r. Some)"
    "Tcl_Preserve repeating = (\<lambda>i. Some)" "Tcl_Release repeating = (\<lambda>i. Some)"
    "TimerProc (timing repeating) = (\<lambda>p d. Some)" "IdleProc (timing repeating) = (\<lambda>p d. Some)"
    by (simp_all add: repeating_def example_after_def)
  ultimately show ?thesis using eval by (simp add: after_scripts_def)
qed

theorem after_scripts_run_witness:
  "\<exists>s'. TimerHandlerEventProc (after_timers repeating 0) 0 TCL_ALL_EVENTS one_event = Some (1, s') \<and> after_ok example_after 0 {} s'
    \<and> (\<forall>h\<in>set (firstTimerHandlerPtr (td 0 s')). timer_token h \<le> 1 \<longrightarrow> TCL_TIME_BEFORE \<lparr>sec = 6, usec = 0\<rparr> (timer_time h))"
proof -
  have p: "after_platform repeating 0" "after_ok repeating 0 {} one_event" using example_platform_after one_event_ok by simp_all
  have "after_clock example_after one_event = \<lparr>sec = 6, usec = 0\<rparr>"
    by (simp add: after_clock_def example_after_def one_event_def clock_time_def)
  moreover have "lastTimerId (td 0 one_event) = 1" by (simp add: td_one_event zero_timers_def)
  moreover have "id_room 0 (5 * 1 * length (firstTimerHandlerPtr (td 0 one_event))) one_event"
    "id_room 0 (5 * 1 * length (idleList (td 0 one_event))) one_event"
    by (simp_all add: id_room_def td_one_event zero_timers_def INT_MAX_def)
  ultimately show ?thesis
    using after_scripts_run [OF p(1) repeating_scripts p(2) all_timer_events one_event_room(3)] by simp
qed

lemma delete_inserted: "\<forall>x\<in>set hs. timer_token x \<noteq> timer_token h \<Longrightarrow> delete_timer (timer_token h) (insert_timer h hs) = hs"
proof (induction hs)
  case (Cons x hs)
  have "delete_timer n hs = hs" if "\<forall>x\<in>set hs. timer_token x \<noteq> n" for n hs using that by (induction hs) auto
  with Cons show ?case by auto
qed simp

text \<open>A request with a script, and the state behind it.\<close>

lemma request_step:
  assumes env: "after_platform c t" and ok: "after_ok c t {} s" and room: "afterId (td t s) < INT_MAX" "lastTimerId (td t s) < INT_MAX"
    and objv: "3 \<le> length objv" and sub: "get_subcommand c (objv ! 1) = Some sub" "sub = AFTER_IDLE \<or> sub = AFTER_TIME ms"
  shows "\<exists>s1 a f. Tcl_AfterObjCmd c t i objv s = Some (Inr (EventId (event_name (after_id f))), s1) \<and> after_ok c t {} s1
    \<and> chain t s1 = (chain t s)(i \<mapsto> a # pending_chain t s i) \<and> info s a = None \<and> info s1 = (info s)(a \<mapsto> f)
    \<and> commandPtr f = after_script c (drop 2 objv) \<and> assocPtr f = i \<and> after_id f = afterId (td t s) \<and> (after_token f = 0 \<longleftrightarrow> sub = AFTER_IDLE)
    \<and> (if after_token f = 0
       then firstTimerHandlerPtr (td t s1) = firstTimerHandlerPtr (td t s) \<and> (\<exists>b g. idleList (td t s1) = idleList (td t s) @ [(b, g)]
         \<and> idle_proc g = AfterProc_ptr c \<and> idle_clientData g = a)
       else idleList (td t s1) = idleList (td t s) \<and> delete_timer (after_token f) (firstTimerHandlerPtr (td t s1)) = firstTimerHandlerPtr (td t s))"
proof -
  let ?s = "prepared c t i s"
  note p = prepared [OF env ok, of i]
  have ch: "chain t ?s i = Some (pending_chain t s i)" using p(3) by simp
  have len: "2 \<le> length objv" "length objv \<noteq> 2" "\<not> length objv < 3" using objv by auto
  note cmd = command_prepared [OF len(1), of c t i s]
  have room': "afterId (td t ?s) < INT_MAX" "lastTimerId (td t ?s) < INT_MAX" using room p(5) by simp_all
  obtain ps where ps: "pending_timers (td t s) ps" using after_ok_pending [OF ok] by blast
  show ?thesis
  proof (cases "sub = AFTER_IDLE")
    case True
    obtain a b s1 where s1: "after_idle c t i (after_script c (drop 2 objv)) ?s = Some (EventId (event_name (afterId (td t ?s))), s1)"
      "after_ok c t {} s1" "info ?s a = None" "chain t s1 = (chain t ?s)(i \<mapsto> a # pending_chain t s i)"
      "info s1 = (info ?s)(a \<mapsto> \<lparr>assocPtr = i, commandPtr = after_script c (drop 2 objv), after_id = afterId (td t ?s), after_token = 0\<rparr>)"
      "td t s1 = (td t ?s)\<lparr>afterId := afterId (td t ?s) + 1, idleList := idleList (td t ?s) @
         [(b, \<lparr>idle_proc = AfterProc_ptr c, idle_clientData = a, generation = idleGeneration (td t ?s)\<rparr>)], lastIdlePtr := Some b\<rparr>"
      using after_idle_step [OF env p(1) room'(1) ch] by blast
    have "Tcl_AfterObjCmd c t i objv s = Some (Inr (EventId (event_name (afterId (td t s)))), s1)"
      using cmd len sub(1) True s1(1) p(5) by (simp add: after_form_def After.ok_def)
    then show ?thesis using s1 p(3-5) True
      by (intro exI [of _ s1] exI [of _ a] exI [of _ "\<lparr>assocPtr = i, commandPtr = after_script c (drop 2 objv), after_id = afterId (td t s), after_token = 0\<rparr>"]) simp
  next
    case False
    have ms: "0 \<le> (if ms < 0 then 0 else ms)" by simp
    obtain a time s1 where s1: "after_timer c t i (if ms < 0 then 0 else ms) (after_script c (drop 2 objv)) ?s = Some (EventId (event_name (afterId (td t ?s))), s1)"
      "after_ok c t {} s1" "info ?s a = None" "chain t s1 = (chain t ?s)(i \<mapsto> a # pending_chain t s i)"
      "info s1 = (info ?s)(a \<mapsto> \<lparr>assocPtr = i, commandPtr = after_script c (drop 2 objv), after_id = afterId (td t ?s), after_token = lastTimerId (td t ?s) + 1\<rparr>)"
      "td t s1 = (td t ?s)\<lparr>afterId := afterId (td t ?s) + 1, lastTimerId := lastTimerId (td t ?s) + 1,
        firstTimerHandlerPtr := insert_timer \<lparr>timer_time = after_wakeup (if ms < 0 then 0 else ms) time, timer_proc = AfterProc_ptr c,
          timer_clientData = a, timer_token = lastTimerId (td t ?s) + 1\<rparr> (firstTimerHandlerPtr (td t ?s))\<rparr>"
      using after_timer_step [OF env p(1) room' ch ms] by blast
    have n: "0 \<le> lastTimerId (td t s)" using ps by (simp add: pending_timers_def)
    have "timer_token x \<noteq> lastTimerId (td t s) + 1" if "x \<in> set (firstTimerHandlerPtr (td t s))" for x
      using pending_token [OF ps that] by simp
    then have d: "delete_timer (lastTimerId (td t s) + 1) (firstTimerHandlerPtr (td t s1)) = firstTimerHandlerPtr (td t s)"
      using delete_inserted [of "firstTimerHandlerPtr (td t s)" "\<lparr>timer_time = after_wakeup (if ms < 0 then 0 else ms) time, timer_proc = AfterProc_ptr c,
          timer_clientData = a, timer_token = lastTimerId (td t s) + 1\<rparr>"] s1(6) p(5) by simp
    have "Tcl_AfterObjCmd c t i objv s = Some (Inr (EventId (event_name (afterId (td t s)))), s1)"
      using cmd len sub False s1(1) p(5) by (simp add: after_form_def After.ok_def Let_def)
    then show ?thesis using s1 p(3-5) False n d
      by (intro exI [of _ s1] exI [of _ a] exI [of _ "\<lparr>assocPtr = i, commandPtr = after_script c (drop 2 objv), after_id = afterId (td t s), after_token = lastTimerId (td t s) + 1\<rparr>"]) simp
  qed
qed


text \<open>Inspecting and cancelling by identifier.\<close>

lemma named_event:
  assumes "after_platform c t" "after_ok c t {} s" "a \<in> set (pending_chain t s i)" "info s a = Some f" "string_rep ident = event_name (after_id f)"
  shows "GetAfterEvent (pending_chain t s i) (string_rep ident) (prepared c t i s) = Some (Some a)"
    "chain t (prepared c t i s) i = Some (pending_chain t s i)" "info (prepared c t i s) a = Some f"
proof -
  note p = prepared [OF assms(1,2), of i]
  show ch: "chain t (prepared c t i s) i = Some (pending_chain t s i)" and f: "info (prepared c t i s) a = Some f"
    using p(3,4) assms(4) by simp_all
  show "GetAfterEvent (pending_chain t s i) (string_rep ident) (prepared c t i s) = Some (Some a)"
    unfolding assms(5) by (rule find_by_id [OF p(1) ch assms(3) f])
qed

lemma inspect_by_name:
  assumes "after_platform c t" "after_ok c t {} s" "a \<in> set (pending_chain t s i)" "info s a = Some f" "string_rep ident = event_name (after_id f)"
    and "get_subcommand c info_word = Some AFTER_INFO"
  shows "map_option fst (Tcl_AfterObjCmd c t i [w, info_word, ident] s)
    = Some (Inr (Event (commandPtr f) (if after_token f = 0 then ''idle'' else ''timer'')))"
  using command_prepared [of "[w, info_word, ident]" c t i s] assms(6) named_event [OF assms(1-5)]
  by (simp add: after_form_def after_info_def)

lemma cancel_by_name:
  assumes "after_platform c t" "after_ok c t {} s" "a \<in> set (pending_chain t s i)" "info s a = Some f" "string_rep ident = event_name (after_id f)"
    and none: "\<forall>b\<in>set (pending_chain t s i). \<forall>g. info s b = Some g \<longrightarrow> string_rep (commandPtr g) \<noteq> string_rep ident"
    and cmd: "get_subcommand c cancel_word = Some AFTER_CANCEL"
    and ys: "ys = filter (\<lambda>x. \<not> (idle_proc (snd x) = AfterProc_ptr c \<and> idle_clientData (snd x) = a)) (idleList (td t s))"
  shows "\<exists>s'. Tcl_AfterObjCmd c t i [w, cancel_word, ident] s = Some (Inr NoReply, s')
    \<and> chain t s' = (chain t s)(i \<mapsto> remove1 a (pending_chain t s i)) \<and> info s' = (info s)(a := None)
    \<and> firstTimerHandlerPtr (td t s') = (if after_token f \<noteq> 0 then delete_timer (after_token f) (firstTimerHandlerPtr (td t s))
         else firstTimerHandlerPtr (td t s))
    \<and> idleList (td t s') = (if after_token f \<noteq> 0 then idleList (td t s) else ys)"
proof -
  let ?s = "prepared c t i s" and ?xs = "pending_chain t s i"
  note p = prepared [OF assms(1,2), of i]
  note n = named_event [OF assms(1-5)]
  note cells = chain_cells [OF p(1) n(2)]
  have "string_rep (commandPtr (the (info ?s b))) \<noteq> string_rep ident" if "b \<in> set ?xs" for b
    using none cells p(4) that by fastforce
  then have "find (\<lambda>b. string_rep (commandPtr (the (info ?s b))) = string_rep ident) ?xs = None"
    by (simp only: find_None_iff) blast
  then have find: "find_after (\<lambda>f. string_rep (commandPtr f) = string_rep ident) ?xs ?s = Some None"
    by (simp only: find_after_find [OF cells])
  have ys': "ys = filter (\<lambda>x. \<not> (idle_proc (snd x) = AfterProc_ptr c \<and> idle_clientData (snd x) = a)) (idleList (td t ?s))"
    using ys p(5) by simp
  obtain s' where s': "withdraw c t a ?s \<bind> FreeAfterPtr t a = Some s'" "chain t s' = (chain t ?s)(i \<mapsto> remove1 a ?xs)"
    "info s' = (info ?s)(a := None)" "td t s' = (if after_token f \<noteq> 0
        then (td t ?s)\<lparr>firstTimerHandlerPtr := delete_timer (after_token f) (firstTimerHandlerPtr (td t ?s))\<rparr>
        else (td t ?s)\<lparr>idleList := ys, lastIdlePtr := (if ys = [] then None else Some (fst (last ys)))\<rparr>)"
    using cancel_step [OF assms(1) p(1) n(2) assms(3) n(3) ys'] by blast
  have "after_cancel c t i ident ?s = Some s'" using n(1,2) find s'(1) by (simp add: after_cancel_def)
  then have "Tcl_AfterObjCmd c t i [w, cancel_word, ident] s = Some (Inr NoReply, s')"
    using command_prepared [of "[w, cancel_word, ident]" c t i s] cmd by (simp add: after_form_def after_script_def After.ok_def)
  then show ?thesis using s'(2-4) p(3-5) by (intro exI [of _ s']) simp
qed

text \<open>A new idle handler is the only one with the address of its event.\<close>

lemma fresh_idles:
  assumes "after_ok c t {} s" "info s a = None"
  shows "filter (\<lambda>x. \<not> (idle_proc (snd x) = AfterProc_ptr c \<and> idle_clientData (snd x) = a)) (idleList (td t s)) = idleList (td t s)"
proof -
  have "idles_linked (AfterProc_ptr c) (listed (chain t s)) (info s) (idleList (td t s))"
    and co: "chains_ok (chain t s) (info s) (afterId (td t s))" using assms(1) by (simp_all add: after_ok_def after_wf_def)
  then have "\<not> (idle_proc (snd x) = AfterProc_ptr c \<and> idle_clientData (snd x) = a)" if "x \<in> set (idleList (td t s))" for x
    using that listed_info [OF co, of a] assms(2) by (auto simp: idles_linked_def)
  then show ?thesis by (simp only: filter_id_conv) blast
qed

text \<open>
  C27. The identifier that a request returns: \<open>after info\<close> with it returns the script and the kind of
  the event, and \<open>after cancel\<close> with it takes exactly this event back; chains, cells, timers and
  idle handlers are as before the request, unless a pending script is spelled like the identifier,
  as scripts are compared first.
\<close>

theorem after_cancel_undoes:
  assumes "after_platform c t" "after_ok c t {} s" "afterId (td t s) < INT_MAX" "lastTimerId (td t s) < INT_MAX"
    "3 \<le> length objv" "get_subcommand c (objv ! 1) = Some sub" "sub = AFTER_IDLE \<or> sub = AFTER_TIME ms"
    "get_subcommand c info_word = Some AFTER_INFO" "get_subcommand c cancel_word = Some AFTER_CANCEL"
    "string_rep ident = event_name (afterId (td t s))" "string_rep (after_script c (drop 2 objv)) \<noteq> string_rep ident"
    "\<forall>a\<in>set (pending_chain t s i). \<forall>f. info s a = Some f \<longrightarrow> string_rep (commandPtr f) \<noteq> string_rep ident"
  shows "\<exists>s1 s2. Tcl_AfterObjCmd c t i objv s = Some (Inr (EventId (string_rep ident)), s1)
    \<and> map_option fst (Tcl_AfterObjCmd c t i [w, info_word, ident] s1)
        = Some (Inr (Event (after_script c (drop 2 objv)) (if sub = AFTER_IDLE then ''idle'' else ''timer'')))
    \<and> Tcl_AfterObjCmd c t i [w, cancel_word, ident] s1 = Some (Inr NoReply, s2)
    \<and> chain t s2 = (chain t s)(i \<mapsto> pending_chain t s i) \<and> info s2 = info s
    \<and> firstTimerHandlerPtr (td t s2) = firstTimerHandlerPtr (td t s) \<and> idleList (td t s2) = idleList (td t s)"
proof -
  let ?xs = "pending_chain t s i"
  obtain s1 a f where s1: "Tcl_AfterObjCmd c t i objv s = Some (Inr (EventId (event_name (after_id f))), s1)" "after_ok c t {} s1"
    "chain t s1 = (chain t s)(i \<mapsto> a # ?xs)" "info s a = None" "info s1 = (info s)(a \<mapsto> f)"
    "commandPtr f = after_script c (drop 2 objv)" "after_id f = afterId (td t s)" "after_token f = 0 \<longleftrightarrow> sub = AFTER_IDLE"
    "if after_token f = 0
       then firstTimerHandlerPtr (td t s1) = firstTimerHandlerPtr (td t s) \<and> (\<exists>b g. idleList (td t s1) = idleList (td t s) @ [(b, g)]
         \<and> idle_proc g = AfterProc_ptr c \<and> idle_clientData g = a)
       else idleList (td t s1) = idleList (td t s) \<and> delete_timer (after_token f) (firstTimerHandlerPtr (td t s1)) = firstTimerHandlerPtr (td t s)"
    using request_step [OF assms(1-7), of i] by blast
  have pc: "pending_chain t s1 i = a # ?xs" using s1(3) by (simp add: pending_chain_def)
  have a: "a \<in> set (pending_chain t s1 i)" "info s1 a = Some f" using pc s1(5) by simp_all
  have name: "string_rep ident = event_name (after_id f)" using assms(10) s1(7) by simp
  have "\<forall>b\<in>set (pending_chain t s1 i). \<forall>g. info s1 b = Some g \<longrightarrow> string_rep (commandPtr g) \<noteq> string_rep ident"
    using assms(11,12) pc s1(5,6) by simp
  from cancel_by_name [OF assms(1) s1(2) a name this assms(9) refl] obtain s2 where
    s2: "Tcl_AfterObjCmd c t i [w, cancel_word, ident] s1 = Some (Inr NoReply, s2)"
      "chain t s2 = (chain t s1)(i \<mapsto> remove1 a (pending_chain t s1 i))" "info s2 = (info s1)(a := None)"
      "firstTimerHandlerPtr (td t s2) = (if after_token f \<noteq> 0 then delete_timer (after_token f) (firstTimerHandlerPtr (td t s1))
         else firstTimerHandlerPtr (td t s1))"
      "idleList (td t s2) = (if after_token f \<noteq> 0 then idleList (td t s1)
         else filter (\<lambda>x. \<not> (idle_proc (snd x) = AfterProc_ptr c \<and> idle_clientData (snd x) = a)) (idleList (td t s1)))" by blast
  have "firstTimerHandlerPtr (td t s2) = firstTimerHandlerPtr (td t s) \<and> idleList (td t s2) = idleList (td t s)"
    using s1(9) s2(4,5) fresh_idles [OF assms(2) s1(4)] by (auto split: if_splits)
  moreover have "chain t s2 = (chain t s)(i \<mapsto> ?xs)" using s2(2) s1(3) pc by simp
  moreover have "info s2 = info s" using s2(3) s1(4,5) by (simp add: fun_upd_idem)
  ultimately show ?thesis
    using s1(1,6,8) name inspect_by_name [OF assms(1) s1(2) a name assms(8), of w] s2(1) by auto
qed

theorem after_cancel_undoes_witness:
  "\<exists>s1 s2. Tcl_AfterObjCmd example_after 0 1 [word ''after'', word ''0'', word ''b''] one_event = Some (Inr (EventId ''after#1''), s1)
    \<and> map_option fst (Tcl_AfterObjCmd example_after 0 1 [word ''after'', word ''info'', word ''after#1''] s1)
        = Some (Inr (Event (word ''b'') ''timer''))
    \<and> Tcl_AfterObjCmd example_after 0 1 [word ''after'', word ''cancel'', word ''after#1''] s1 = Some (Inr NoReply, s2)
    \<and> info s2 = info one_event"
proof -
  let ?objv = "[word ''after'', word ''0'', word ''b'']"
  have w: "3 \<le> length ?objv" "get_subcommand example_after (?objv ! 1) = Some (AFTER_TIME 0)" by (simp_all add: example_words)
  have "event_name (afterId (td 0 one_event)) = ''after#1''"
    by (simp add: td_one_event zero_timers_def event_name_def print_int_def print_nat.simps digit_chars)
  then have i: "string_rep (word ''after#1'') = event_name (afterId (td 0 one_event))" by (simp add: word_def)
  have n: "string_rep (after_script example_after (drop 2 ?objv)) \<noteq> string_rep (word ''after#1'')"
    "after_script example_after (drop 2 ?objv) = word ''b''" by (simp_all add: after_script_def word_def)
  have "pending_chain 0 one_event 1 = [3]" by (simp add: pending_chain_def chain_one_event)
  then have a: "\<forall>a\<in>set (pending_chain 0 one_event 1). \<forall>f. info one_event a = Some f \<longrightarrow> string_rep (commandPtr f) \<noteq> string_rep (word ''after#1'')"
    by (simp add: chain_one_event word_def)
  have "string_rep (word ''after#1'') = ''after#1''" by (simp add: word_def)
  then show ?thesis
    using after_cancel_undoes [OF example_platform_after one_event_ok one_event_room(1,2) w(1,2) disjI2 [OF refl] example_words(2,1) i n(1) a, of "word ''after''"]
    unfolding n(2) by auto
qed

lemma event_name_inject: "0 \<le> m \<Longrightarrow> 0 \<le> n \<Longrightarrow> event_name m = event_name n \<Longrightarrow> m = n"
  using print_nat_digits by (simp add: event_name_def print_int_def) (metis int_nat_eq)

lemma after_info_step:
  assumes "after_platform c t" "after_ok c t {} s" "get_subcommand c info_word = Some AFTER_INFO"
  shows "map_option fst (Tcl_AfterObjCmd c t i [w, info_word] s)
      = Some (Inr (Events (map (\<lambda>a. event_name (id_of (info s) a)) (pending_chain t s i))))
    \<and> sorted_wrt (\<lambda>a b. id_of (info s) b < id_of (info s) a) (pending_chain t s i)
    \<and> distinct (map (\<lambda>a. event_name (id_of (info s) a)) (pending_chain t s i))"
proof -
  let ?s = "prepared c t i s"
  note p = prepared [OF assms(1,2), of i]
  have ch: "chain t ?s i = Some (pending_chain t s i)" using p(3) by simp
  have co: "chains_ok (chain t ?s) (info s) (afterId (td t s))" using p(1,4,5) by (simp add: after_ok_def after_wf_def)
  have cells: "\<forall>a\<in>set (pending_chain t s i). \<exists>f. info ?s a = Some f" by (rule chain_cells [OF p(1) ch])
  have "map_option fst (Tcl_AfterObjCmd c t i [w, info_word] s)
      = Some (Inr (Events (map (\<lambda>a. event_name (id_of (info s) a)) (pending_chain t s i))))"
    using command_prepared [of "[w, info_word]" c t i s] assms(3) ch list_events_map [OF cells] p(4) by (simp add: after_form_def)
  moreover have sorted: "sorted_wrt (\<lambda>a b. id_of (info s) b < id_of (info s) a) (pending_chain t s i)"
    using co ch by (simp add: chains_ok_def)
  moreover have ids: "0 \<le> id_of (info s) a" if "a \<in> set (pending_chain t s i)" for a
    using chain_info [OF co ch that] by (auto simp: id_of_def)
  have "a = b" if a: "a \<in> set (pending_chain t s i)" "b \<in> set (pending_chain t s i)"
    and e: "event_name (id_of (info s) a) = event_name (id_of (info s) b)" for a b
  proof -
    have "id_of (info s) a = id_of (info s) b" by (rule event_name_inject [OF ids [OF a(1)] ids [OF a(2)] e])
    moreover have "inj_on (id_of (info s)) (listed (chain t ?s))" using co by (simp add: chains_ok_def)
    ultimately show ?thesis
      using chain_listed [of "chain t ?s", OF ch a(1)] chain_listed [of "chain t ?s", OF ch a(2)] by (simp add: inj_on_def)
  qed
  then have "distinct (map (\<lambda>a. event_name (id_of (info s) a)) (pending_chain t s i))"
    using chain_distinct [OF co ch] by (simp add: distinct_map inj_on_def)
  ultimately show ?thesis by blast
qed

text \<open>
  \<open>after info\<close> lists the identifiers of all pending events of the interpreter, the newest first and
  each once.
\<close>

theorem after_info_lists:
  assumes "after_platform c t" "after_ok c t {} s" "get_subcommand c info_word = Some AFTER_INFO"
  shows "map_option fst (Tcl_AfterObjCmd c t i [w, info_word] s)
      = Some (Inr (Events (map (\<lambda>a. event_name (id_of (info s) a)) (pending_chain t s i))))
    \<and> sorted_wrt (\<lambda>a b. id_of (info s) b < id_of (info s) a) (pending_chain t s i)
    \<and> distinct (map (\<lambda>a. event_name (id_of (info s) a)) (pending_chain t s i))"
  by (rule after_info_step [OF assms])

theorem after_info_lists_witness:
  "map_option fst (Tcl_AfterObjCmd example_after 0 1 [word ''after'', word ''info''] one_event) = Some (Inr (Events [''after#0'']))"
proof -
  have "map (\<lambda>a. event_name (id_of (info one_event) a)) (pending_chain 0 one_event 1) = [''after#0'']"
    by (simp add: pending_chain_def chain_one_event id_of_def event_name_def print_int_def print_nat.simps digit_chars)
  then show ?thesis
    using after_info_lists [OF example_platform_after one_event_ok example_words(2), of 1 "word ''after''"] by simp
qed

text \<open>
  Identifiers are read as \<open>unsigned long\<close> and cut to \<open>int\<close>, with white space and signs allowed, so an
  event has other spellings than the one that was returned.
\<close>

theorem other_spellings:
  "GetAfterEvent xs ''after#4294967297'' s = GetAfterEvent xs ''after#1'' s"
  "GetAfterEvent xs ''after# +1'' s = GetAfterEvent xs ''after#1'' s"
  by (simp_all add: GetAfterEvent_def strtoul_def is_space_def is_digit_def digits_value_def ULONG_MAX_def int32_def Let_def)

section \<open>The blocking delay\<close>

text \<open>An interpreter without limits that nothing interrupts, and a system that sleeps as long as asked.\<close>

definition undisturbed :: "'v after_calls \<Rightarrow> nat \<Rightarrow> bool" where
  "undisturbed c i \<longleftrightarrow> (\<forall>s. \<not> Tcl_AsyncReady (notifier (timing c)) s \<and> Tcl_Canceled c i s = (0, s) \<and> \<not> limit_timeEvent c i s)"

definition sleeps :: "'v after_calls \<Rightarrow> bool" where
  "sleeps c \<longleftrightarrow> (\<forall>ms s. 0 \<le> ms \<longrightarrow> micros (after_clock c s) + 1000 * ms \<le> micros (after_clock c (Tcl_Sleep c ms s)))"

lemma int64_id: "- LONG_MAX - 1 \<le> x \<Longrightarrow> x \<le> LONG_MAX \<Longrightarrow> int64 x = x"
  by (simp add: int64_def LONG_MAX_def)

lemma cut_bounds:
  fixes u :: int
  assumes "- 1000000 < u" "u < 1001000"
  shows "sgn u * (\<bar>u\<bar> div 1000) \<le> 1000" "- 1000 \<le> sgn u * (\<bar>u\<bar> div 1000)" "1000 * (sgn u * (\<bar>u\<bar> div 1000)) \<le> max 0 u"
proof -
  have e: "sgn u * (\<bar>u\<bar> div 1000) = (if 0 \<le> u then u div 1000 else - (- u div 1000))"
    by (cases u "0 :: int" rule: linorder_cases) simp_all
  have "u div 1000 \<le> 1000" "1000 * (u div 1000) \<le> u" "0 \<le> u \<Longrightarrow> 0 \<le> u div 1000" using assms(2) by simp_all
  moreover have "- u div 1000 \<le> 1000" "u < 0 \<Longrightarrow> 0 \<le> - u div 1000" using assms(1) by simp_all
  ultimately show "sgn u * (\<bar>u\<bar> div 1000) \<le> 1000" "- 1000 \<le> sgn u * (\<bar>u\<bar> div 1000)" "1000 * (sgn u * (\<bar>u\<bar> div 1000)) \<le> max 0 u"
    unfolding e by auto
qed

text \<open>The remaining time is computed without overflow while it is at most a second less than the largest.\<close>

lemma diff_exact:
  assumes "normalized now" "normalized endTime" "micros now \<le> micros endTime" "micros endTime - micros now \<le> 1000 * (LONG_MAX - 1000)"
  shows "TCL_TIME_DIFF_MS_CEILING endTime now = 1000 * (sec endTime - sec now)
    + sgn (usec endTime - usec now + 999) * (\<bar>usec endTime - usec now + 999\<bar> div 1000)"
proof -
  let ?s = "sec endTime - sec now" and ?u = "usec endTime - usec now + 999"
  obtain z where z: "z = sgn ?u * (\<bar>?u\<bar> div 1000)" by blast
  have u: "- 1000000 < ?u" "?u < 1001000" using assms(1,2) by (auto simp: normalized_def)
  have zs: "z \<le> 1000" "- 1000 \<le> z" "1000 * z \<le> max 0 ?u" using cut_bounds [OF u] unfolding z by simp_all
  have m: "0 \<le> 1000000 * ?s + (?u - 999)" "1000000 * ?s + (?u - 999) \<le> 1000 * (LONG_MAX - 1000)"
    using assms(3,4) by (simp_all add: micros_def algebra_simps)
  have r: "0 \<le> x" if "0 \<le> 1000000 * x + (y - 999)" "y - 999 < 1000000" for x y :: int using that by simp
  have d: "?u - 999 < 1000000" "- 1000000 < ?u - 999" using assms(1,2) by (simp_all add: normalized_def)
  from m(1) d(1) have s0: "0 \<le> ?s" by (rule r)
  have r': "1000 * x \<le> l" if "1000000 * x + v \<le> 1000 * (l - 1000)" "- 1000000 < v" for x v l :: int using that by simp
  from m(2) d(2) have s1: "1000 * ?s \<le> LONG_MAX" by (rule r')
  have s2: "1000 * ?s + z \<le> LONG_MAX"
  proof (cases "0 \<le> ?u")
    case True
    have "1000 * x + w \<le> l" if "1000000 * x + (v - 999) \<le> 1000 * (l - 1000)" "1000 * w \<le> v" for x v w l :: int using that by simp
    moreover have "1000 * z \<le> ?u" using True zs(3) by simp
    ultimately show ?thesis using m(2) by blast
  next
    case False
    then show ?thesis using s1 zs(3) by linarith
  qed
  have "int64 ?s = ?s" using s0 s1 by (intro int64_id) (simp_all add: LONG_MAX_def)
  moreover have "int64 (1000 * ?s) = 1000 * ?s" using s0 s1 by (intro int64_id) (simp_all add: LONG_MAX_def)
  moreover have "int64 (1000 * ?s + z) = 1000 * ?s + z" using s0 s2 zs(2) by (intro int64_id) (simp_all add: LONG_MAX_def)
  ultimately show ?thesis unfolding TCL_TIME_DIFF_MS_CEILING_def Let_def z [symmetric] by simp
qed

lemma diff_ceiling:
  assumes "normalized now" "normalized endTime" "micros now \<le> micros endTime" "micros endTime - micros now \<le> 1000 * (LONG_MAX - 1000)"
  shows "micros endTime - micros now \<le> 1000 * TCL_TIME_DIFF_MS_CEILING endTime now"
    "micros endTime - micros now \<le> 0 \<Longrightarrow> TCL_TIME_DIFF_MS_CEILING endTime now \<le> 0"
proof -
  let ?u = "usec endTime - usec now + 999"
  have t: "1000 * (sgn u * (\<bar>u\<bar> div 1000)) \<ge> u - 999" "u \<le> 0 \<Longrightarrow> sgn u * (\<bar>u\<bar> div 1000) \<le> 0"
    "0 < u \<Longrightarrow> 1000 * (sgn u * (\<bar>u\<bar> div 1000)) \<le> u" for u :: int
    by (cases u "0 :: int" rule: linorder_cases; simp; presburger)+
  obtain z where z: "z = sgn ?u * (\<bar>?u\<bar> div 1000)" by blast
  have e: "TCL_TIME_DIFF_MS_CEILING endTime now = 1000 * (sec endTime - sec now) + z"
    unfolding diff_exact [OF assms] z by (rule refl)
  note t' = t [of ?u, folded z]
  show "micros endTime - micros now \<le> 1000 * TCL_TIME_DIFF_MS_CEILING endTime now"
    unfolding e micros_def using t'(1) by presburger
  assume "micros endTime - micros now \<le> 0"
  then have m: "1000000 * (sec endTime - sec now) + (usec endTime - usec now) \<le> 0" by (simp add: micros_def)
  show "TCL_TIME_DIFF_MS_CEILING endTime now \<le> 0" 
  proof (cases "?u \<le> 0")
    case True
    have "- 1000000 < usec endTime - usec now" using assms(1,2) by (simp add: normalized_def)
    moreover have "x \<le> 0" if "1000000 * x + y \<le> 0" "- 1000000 < y" for x y :: int using that by simp
    ultimately have "sec endTime - sec now \<le> 0" using m by blast
    moreover have "z \<le> 0" using t'(2) True by blast
    ultimately show ?thesis unfolding e by simp
  next
    case False
    have "1000 * (1000 * (sec endTime - sec now) + z) = 1000000 * (sec endTime - sec now) + 1000 * z" by (simp add: algebra_simps)
    also have "\<dots> \<le> 999" using t'(3) False m by simp
    finally have "1000 * (1000 * (sec endTime - sec now) + z) \<le> 999" .
    moreover have "x \<le> 0" if "1000 * x \<le> 999" for x :: int using that by simp
    ultimately show ?thesis unfolding e by blast
  qed
qed


lemma slice_bounds: "0 < d \<Longrightarrow> 0 < slice d \<and> slice d \<le> d" "d \<le> 0 \<Longrightarrow> slice d = d" "slice d < 500 \<Longrightarrow> slice d = d"
  by (auto simp: slice_def TCL_TIME_MAXIMUM_SLICE_def LONG_MAX_def Let_def split: if_splits)

lemma delay_loop_ends:
  assumes env: "after_platform c t" and quiet: "undisturbed c i" "sleeps c" and n: "normalized endTime"
  shows "normalized now \<Longrightarrow> micros now \<le> micros (after_clock c s) \<Longrightarrow>
    micros now \<le> micros endTime \<Longrightarrow> micros endTime - micros now \<le> 1000 * (LONG_MAX - 1000) \<Longrightarrow>
    \<exists>s'. delay_loop c i endTime now s = Some (0, s') \<and> micros endTime \<le> micros (after_clock c s')"
proof (induction "nat (micros endTime - micros now)" arbitrary: now s rule: less_induct)
  case less
  have q: "check_interrupts c i s = (True, s)" "\<not> limit_timeEvent c i s" for s
    using quiet(1) by (simp_all add: undisturbed_def check_interrupts_def check_async_def check_canceled_def)
  let ?d = "TCL_TIME_DIFF_MS_CEILING endTime now"
  note ceil = diff_ceiling [OF less.prems(1) n less.prems(3,4)]
  show ?case
  proof (cases "TCL_TIME_BEFORE now endTime")
    case False
    then have le: "micros endTime \<le> micros now" using before_micros [OF less.prems(1) n] by simp
    then have "slice ?d \<le> 0" using ceil(2) slice_bounds(2) [of ?d] by simp
    then have "delay_turn c i endTime now s = (Delayed, s)" using False q by (simp add: delay_turn_def Let_def)
    then show ?thesis using le less.prems(2) by (subst delay_loop.simps) simp
  next
    case True
    then have lt: "micros now < micros endTime" using before_micros [OF less.prems(1) n] by simp
    moreover have "0 < d" if "m \<le> 1000 * d" "0 < m" for d m :: int using that by simp
    ultimately have pos: "0 < ?d" using ceil(1) by fastforce
    note sl = slice_bounds(1) [OF pos]
    let ?s = "Tcl_Sleep c (slice ?d) s"
    have turn: "delay_turn c i endTime now s = (if slice ?d < SLEEP_OFFLOAD_GETTIMEOFDAY then Delayed else Again, ?s)"
      using sl q by (simp add: delay_turn_def Let_def)
    have slept: "micros now + 1000 * slice ?d \<le> micros (after_clock c ?s)"
    proof -
      have "micros (after_clock c s) + 1000 * slice ?d \<le> micros (after_clock c ?s)"
        using quiet(2) sl unfolding sleeps_def by simp
      then show ?thesis using less.prems(2) by simp
    qed
    show ?thesis
    proof (cases "slice ?d < SLEEP_OFFLOAD_GETTIMEOFDAY")
      case True
      then have "slice ?d = ?d" by (intro slice_bounds(3)) (simp add: SLEEP_OFFLOAD_GETTIMEOFDAY_def)
      then have "micros endTime \<le> micros (after_clock c ?s)" using slept ceil(1) by simp
      then show ?thesis using turn True by (subst delay_loop.simps) simp
    next
      case long: False
      obtain now' s' where g: "get_time (timing c) ?s = (now', s')" by (cases "get_time (timing c) ?s")
      note time = same_get_time [OF env g]
      have later: "not_earlier (after_clock c s') now'" using time(1,2) by (simp add: same_events_def)
      obtain now'' s'' where g'': "get_time (timing c) s' = (now'', s'')" by (cases "get_time (timing c) s'")
      have n'': "normalized (after_clock c s')" using same_get_time(2,3) [OF env g''] by simp
      have le: "micros now' \<le> micros (after_clock c s')"
        using later before_micros [OF n'' time(3)] by (simp add: not_earlier_def)
      have loop: "delay_loop c i endTime now s = (if TCL_TIME_BEFORE now' endTime then delay_loop c i endTime now' s' else Some (0, s'))"
        using turn long g by (subst delay_loop.simps) simp
      show ?thesis
      proof (cases "TCL_TIME_BEFORE now' endTime")
        case True
        have "micros now < micros now'" using slept sl time(2) by simp
        then have "nat (micros endTime - micros now') < nat (micros endTime - micros now)" using lt by simp
        moreover have "micros now' \<le> micros endTime" using True before_micros [OF time(3) n] by simp
        moreover have "micros endTime - micros now' \<le> 1000 * (LONG_MAX - 1000)" using less.prems(4) \<open>micros now < micros now'\<close> by simp
        ultimately show ?thesis using less.hyps [OF _ time(3) le] loop True by simp
      next
        case False
        then have "micros endTime \<le> micros (after_clock c s')" using before_micros [OF time(3) n] le by simp
        then show ?thesis using loop False by simp
      qed
    qed
  qed
qed

text \<open>The longest delay overflows when the microseconds carry a second: it ends at once.\<close>

lemma delay_overflow:
  assumes "undisturbed c i" "get_time (timing c) s = (now, s1)" "193000 \<le> usec now" "usec now < 1000000"
  shows "AfterDelay c i LONG_MAX s = Some (0, s1)"
proof -
  let ?stop = "\<lparr>sec = sec now + 9223372036854776, usec = usec now - 193000\<rparr>"
  have e: "after_ms LONG_MAX now = ?stop" using assms(3) by (simp add: after_ms_def LONG_MAX_def)
  have d: "TCL_TIME_DIFF_MS_CEILING ?stop now = - 9223372036854775808"
    by (simp add: TCL_TIME_DIFF_MS_CEILING_def int64_def)
  have q: "check_interrupts c i s = (True, s)" "\<not> limit_timeEvent c i s" for s
    using assms(1) by (simp_all add: undisturbed_def check_interrupts_def check_async_def check_canceled_def)
  have "delay_turn c i ?stop now s1 = (Delayed, s1)"
    using q by (simp add: delay_turn_def Let_def d slice_def LONG_MAX_def TCL_TIME_MAXIMUM_SLICE_def)
  then have "delay_loop c i ?stop now s1 = Some (0, s1)" by (subst delay_loop.simps) simp
  then show ?thesis using assms(2) e by (simp add: AfterDelay_def)
qed

text \<open>
  C28. \<open>after ms\<close> without a script: in an interpreter that has no limits and is not interrupted the delay
  ends successfully, not before the given number of milliseconds has passed, if that number is at
  least 1000 below the largest \<open>Tcl_WideInt\<close>.  The largest itself is not waited for at all when the
  microseconds of the clock are at least 193000: the difference of the times in milliseconds
  overflows and is negative, and the command returns at once, without a sleep.
\<close>

theorem after_delay_long_enough:
  assumes "after_platform c t" "undisturbed c i" "sleeps c" "0 \<le> ms" "get_time (timing c) s = (now, s1)"
  shows "(ms + 1000 \<le> LONG_MAX \<longrightarrow>
      (\<exists>s'. AfterDelay c i ms s = Some (0, s') \<and> micros (after_clock c s) + 1000 * ms \<le> micros (after_clock c s')))
    \<and> (ms = LONG_MAX \<and> 193000 \<le> usec now \<longrightarrow> AfterDelay c i ms s = Some (0, s1))"
proof (intro conjI impI)
  note time = same_get_time [OF assms(1,5)]
  note e = after_ms_micros [OF time(3) assms(4)]
  obtain now' s' where g': "get_time (timing c) s1 = (now', s')" by (cases "get_time (timing c) s1")
  have "normalized (after_clock c s1)" using same_get_time(2,3) [OF assms(1) g'] by simp
  then have le: "micros now \<le> micros (after_clock c s1)"
    using time before_micros [of "after_clock c s1" now] by (simp add: same_events_def not_earlier_def)
  {
    assume "ms + 1000 \<le> LONG_MAX"
    then have "micros now \<le> micros (after_ms ms now)" "micros (after_ms ms now) - micros now \<le> 1000 * (LONG_MAX - 1000)"
      using e(1) assms(4) by simp_all
    from delay_loop_ends [OF assms(1-3) e(2) time(3) le this]
    show "\<exists>s'. AfterDelay c i ms s = Some (0, s') \<and> micros (after_clock c s) + 1000 * ms \<le> micros (after_clock c s')"
      using assms(5) time(2) e(1) by (auto simp: AfterDelay_def)
  next
    assume "ms = LONG_MAX \<and> 193000 \<le> usec now"
    then show "AfterDelay c i ms s = Some (0, s1)"
      using delay_overflow [OF assms(2,5)] time(3) by (simp add: normalized_def)
  }
qed

text \<open>The clock of the example stands at six seconds, and in the second state at six and a half.\<close>

theorem after_delay_long_enough_witness:
  "(\<exists>s'. AfterDelay example_after 1 1234 one_event = Some (0, s') \<and> 7234000 \<le> micros (after_clock example_after s'))
    \<and> (let s = one_event\<lparr>world := (world one_event)\<lparr>user := (user (world one_event))\<lparr>app := 6500\<rparr>\<rparr>\<rparr> in
       AfterDelay example_after 1 9223372036854775807 s = Some (0, s))"
proof -
  have u: "undisturbed example_after 1" by (simp add: undisturbed_def example_after_def)
  have m: "micros (clock_time v) = 1000 * int v" for v
  proof -
    have "int v = 1000 * int (v div 1000) + int (v mod 1000)" 
      using mult_div_mod_eq [of 1000 v] by (metis of_nat_add of_nat_mult of_nat_numeral)
    then show ?thesis by (simp add: micros_def clock_time_def)
  qed
  have "sleeps example_after" by (simp add: sleeps_def after_clock_def example_after_def m)
  note delay = after_delay_long_enough [OF example_platform_after u this]
  have g: "get_time (timing example_after) s = (clock_time (app (user (world s))), s)" for s
    by (simp add: get_time_def example_after_def)
  have "\<exists>s'. AfterDelay example_after 1 1234 one_event = Some (0, s') \<and> 7234000 \<le> micros (after_clock example_after s')"
    using delay [of 1234, OF _ g [of one_event]] by (simp add: after_clock_def example_after_def one_event_def m LONG_MAX_def)
  moreover have "usec (clock_time 6500) = 500000" by (simp add: clock_time_def)
  then have "AfterDelay example_after 1 9223372036854775807 s = Some (0, s)" if "app (user (world s)) = 6500" for s
    using delay [of LONG_MAX, OF _ g [of s]] that by (simp add: LONG_MAX_def)
  ultimately show ?thesis by (simp add: Let_def)
qed

text \<open>
  C29. The time at which a script is to run is the given number of milliseconds from now, but a sum of
  exactly one second of microseconds is left without a carry, which \<open>Tcl_CreateTimerHandler\<close> and
  the blocking delay do not do.  Such a time is before an equal one, so that of two scripts for the
  same moment the one that was requested later may run first.
\<close>

theorem after_carry_missing:
  assumes "normalized now" "0 \<le> ms"
  shows "micros (after_wakeup ms now) = micros now + 1000 * ms
    \<and> (normalized (after_wakeup ms now) \<longleftrightarrow> usec now + ms mod 1000 * 1000 \<noteq> 1000000)
    \<and> (after_wakeup ms now = after_ms ms now \<longleftrightarrow> usec now + ms mod 1000 * 1000 \<noteq> 1000000)
    \<and> micros (after_wakeup 1 \<lparr>sec = 5, usec = 999000\<rparr>) = micros (after_wakeup 1000 \<lparr>sec = 5, usec = 0\<rparr>)
    \<and> TCL_TIME_BEFORE (after_wakeup 1 \<lparr>sec = 5, usec = 999000\<rparr>) (after_wakeup 1000 \<lparr>sec = 5, usec = 0\<rparr>)"
proof -
  have m: "0 \<le> ms mod 1000" "ms mod 1000 < 1000" "1000 * (ms div 1000) + ms mod 1000 = ms" by simp_all
  have u: "0 \<le> usec now" "usec now < 1000000" using assms(1) by (simp_all add: normalized_def)
  have s: "sgn ms * (\<bar>ms\<bar> div 1000) = ms div 1000" "sgn ms * (\<bar>ms\<bar> mod 1000) = ms mod 1000"
    using assms(2) by (cases "ms = 0"; simp)+
  have e: "after_ms ms now = (if usec now + ms mod 1000 * 1000 \<ge> 1000000
      then \<lparr>sec = sec now + ms div 1000 + 1, usec = usec now + ms mod 1000 * 1000 - 1000000\<rparr>
      else \<lparr>sec = sec now + ms div 1000, usec = usec now + ms mod 1000 * 1000\<rparr>)"
    unfolding after_ms_def Let_def s by simp
  have q: "ms div 1000 * 1000000 + ms mod 1000 * 1000 = ms * 1000" using m(3) by linarith
  have "micros (after_wakeup ms now) = micros now + 1000 * ms"
    using q by (auto simp: after_wakeup_def Let_def micros_def)
  moreover have "normalized (after_wakeup ms now) \<longleftrightarrow> usec now + ms mod 1000 * 1000 \<noteq> 1000000"
    using m(1,2) u by (auto simp: after_wakeup_def Let_def normalized_def)
  moreover have "after_wakeup ms now = after_ms ms now \<longleftrightarrow> usec now + ms mod 1000 * 1000 \<noteq> 1000000"
    unfolding e by (auto simp: after_wakeup_def Let_def)
  ultimately show ?thesis by (simp add: after_wakeup_def micros_def TCL_TIME_BEFORE_def)
qed

theorem after_carry_missing_witness:
  "\<not> normalized (after_wakeup 1 \<lparr>sec = 5, usec = 999000\<rparr>) \<and> after_wakeup 1 \<lparr>sec = 5, usec = 999000\<rparr> = \<lparr>sec = 5, usec = 1000000\<rparr>"
  using after_carry_missing [of "\<lparr>sec = 5, usec = 999000\<rparr>" 1] by (simp add: normalized_def after_wakeup_def)

end
