(* ===== verification/Utf.thy ===== *)
theory Utf
  imports Prelude
begin

text \<open>
  The UTF-8 routines of \<open>tcl8.6/generic/tclUtf.c\<close>, compiled as AMESTER builds them
  (\<open>TCL_UTF_MAX\<close> is 3, so a \<open>Tcl_UniChar\<close> is an unsigned 16-bit number and the branches
  under \<open>#if TCL_UTF_MAX > 3\<close> are absent).  A buffer is the list of its bytes, a pointer
  into it is the list of the bytes from there on; output buffers are the list of bytes
  written.  The case mapping tables of \<open>tclUniData.c\<close> are not translated: the
  case-insensitive comparisons take the mapping \<open>lower\<close> as an argument.
\<close>

section \<open>Encoding\<close>

definition UniChar :: "int \<Rightarrow> int" where
  "UniChar x = take_bit 16 x"

definition UtfCount :: "int \<Rightarrow> int" where
  "UtfCount ch =
     (if ch > 0 \<and> ch < 0x80 then 1
      else if ch \<le> 0x7FF then 2
      else 3)"

definition three_bytes :: "int \<Rightarrow> string" where
  "three_bytes ch =
     [char_of (drop_bit 12 ch OR 0xE0),
      char_of ((drop_bit 6 ch OR 0x80) AND 0xBF),
      char_of ((ch OR 0x80) AND 0xBF)]"

definition Tcl_UniCharToUtf :: "int \<Rightarrow> string" where
  "Tcl_UniCharToUtf ch =
     (if ch > 0 \<and> ch < 0x80 then [char_of ch]
      else if ch \<ge> 0 \<and> ch \<le> 0x7FF then
        [char_of (drop_bit 6 ch OR 0xC0), char_of ((ch OR 0x80) AND 0xBF)]
      else if ch \<ge> 0 \<and> ch \<le> 0xFFFF then three_bytes ch
      else three_bytes 0xFFFD)"

text \<open>
  A \<open>Tcl_DString\<close> is the string it holds; the result is the new string and the offset
  of the pointer returned.
\<close>

fun UniCharToUtf_loop :: "int list \<Rightarrow> string" where
  "UniCharToUtf_loop [] = []"
| "UniCharToUtf_loop (w # ws) = Tcl_UniCharToUtf w @ UniCharToUtf_loop ws"

definition Tcl_UniCharToUtfDString :: "int list \<Rightarrow> string \<Rightarrow> string \<times> nat" where
  "Tcl_UniCharToUtfDString uniStr ds =
     (let oldLength = length ds in (ds @ UniCharToUtf_loop uniStr, oldLength))"

text \<open>The length that the string is given before the loop; the product is an \<open>int\<close>.\<close>

definition UniCharToUtf_room :: "int list \<Rightarrow> string \<Rightarrow> int" where
  "UniCharToUtf_room uniStr ds =
     (let n = int32 (int32 (int (length ds) + int (length uniStr) + 1) * 3) in if n < 0 then 0 else n)"

section \<open>Decoding\<close>

text \<open>
  The pair holds the character stored through \<open>chPtr\<close> and the number of bytes consumed.
  A trail byte is tested with \<open>(src[i] & 0xC0) == 0x80\<close>.
\<close>

definition is_trail :: "int \<Rightarrow> bool" where
  "is_trail b \<longleftrightarrow> b AND 0xC0 = 0x80"

definition Tcl_UtfToUniChar :: "string \<Rightarrow> int \<times> nat" where
  "Tcl_UtfToUniChar src =
     (let byte = rd src 0 in
      if byte < 0xC0 then (UniChar byte, 1)
      else if byte < 0xE0 then
        (if is_trail (rd src 1)
         then (UniChar (push_bit 6 (byte AND 0x1F) OR (rd src 1 AND 0x3F)), 2)
         else (UniChar byte, 1))
      else if byte < 0xF0 then
        (if is_trail (rd src 1) \<and> is_trail (rd src 2)
         then (UniChar (push_bit 12 (byte AND 0x0F) OR
                 (push_bit 6 (rd src 1 AND 0x3F) OR (rd src 2 AND 0x3F))), 3)
         else (UniChar byte, 1))
      else (UniChar byte, 1))"

text \<open>
  The macro \<open>TclUtfToUniChar\<close> of \<open>tclInt.h\<close> casts \<open>*(str)\<close>, a plain \<open>char\<close>, to
  \<open>Tcl_UniChar\<close> when the byte is below 0xC0.  Whether \<open>char\<close> is signed depends on the
  platform (it is on x86-64 and is not on POWER), so that is the argument \<open>sc\<close>.
\<close>

definition char_value :: "bool \<Rightarrow> int \<Rightarrow> int" where
  "char_value sc b = (if sc \<and> b \<ge> 128 then b - 256 else b)"

definition TclUtfToUniChar :: "bool \<Rightarrow> string \<Rightarrow> int \<times> nat" where
  "TclUtfToUniChar sc str =
     (if rd str 0 < 0xC0 then (UniChar (char_value sc (rd str 0)), 1)
      else Tcl_UtfToUniChar str)"

definition totalBytes :: "int \<Rightarrow> nat" where
  "totalBytes b =
     (if b < 0xC0 then 1 else if b < 0xE0 then 2 else if b < 0xF0 then 3 else 1)"

definition Tcl_UtfCharComplete :: "string \<Rightarrow> int \<Rightarrow> bool" where
  "Tcl_UtfCharComplete src len \<longleftrightarrow> len \<ge> int (totalBytes (rd src 0))"

section \<open>Facts about one character\<close>

lemma is_trail_iff [bytes]: "0 \<le> b \<Longrightarrow> b < 256 \<Longrightarrow> is_trail b \<longleftrightarrow> 128 \<le> b \<and> b < 192"
proof -
  assume "0 \<le> b" and "b < 256"
  then have "b div 64 mod 4 = b div 64" by (intro mod_pos_pos_trivial) linarith+
  moreover have "b div 64 = 2 \<longleftrightarrow> 128 \<le> b \<and> b < 192" by linarith
  ultimately show ?thesis by (simp add: is_trail_def bytes)
qed

lemma is_trail_rd [bytes]: "is_trail (rd s i) \<longleftrightarrow> 128 \<le> rd s i \<and> rd s i < 192"
  by (rule is_trail_iff) simp_all

lemma UniChar_id [bytes]: "0 \<le> x \<Longrightarrow> x < 65536 \<Longrightarrow> UniChar x = x"
  by (simp add: UniChar_def take_bit_eq_mod)

lemma UniChar_range: "0 \<le> UniChar x" "UniChar x < 65536"
  by (simp_all add: UniChar_def take_bit_eq_mod)

lemma UniChar_rd [bytes]: "UniChar (rd s i) = rd s i"
  using rd_less_256 [of s i] by (intro UniChar_id) (simp_all del: rd_less_256)

lemma Tcl_UniCharToUtf_arith:
  "Tcl_UniCharToUtf ch =
     (if 0 < ch \<and> ch < 128 then [char_of ch]
      else if 0 \<le> ch \<and> ch < 2048 then
        [char_of (0xC0 + ch div 64), char_of (0x80 + ch mod 64)]
      else if 0 \<le> ch \<and> ch < 65536 then
        [char_of (0xE0 + ch div 4096), char_of (0x80 + ch div 64 mod 64), char_of (0x80 + ch mod 64)]
      else [CHR 0xEF, CHR 0xBF, CHR 0xBD])"
proof -
  have "ch div 4096 < 16" if "ch < 65536" using that by simp
  moreover have "ch div 64 < 32" if "ch < 2048" using that by simp
  moreover have "three_bytes 0xFFFD = [CHR 0xEF, CHR 0xBF, CHR 0xBD]"
    by (code_simp)
  ultimately show ?thesis
    by (auto simp: Tcl_UniCharToUtf_def three_bytes_def bytes drop_bit_eq_div)
qed

lemma Tcl_UtfToUniChar_arith:
  "Tcl_UtfToUniChar s =
     (let b = rd s 0; c = rd s 1; d = rd s 2 in
      if b < 0xC0 then (b, 1)
      else if b < 0xE0 then
        (if 128 \<le> c \<and> c < 192 then (64 * (b mod 32) + c mod 64, 2) else (b, 1))
      else if b < 0xF0 then
        (if (128 \<le> c \<and> c < 192) \<and> 128 \<le> d \<and> d < 192
         then (4096 * (b mod 16) + (64 * (c mod 64) + d mod 64), 3) else (b, 1))
      else (b, 1))"
proof -
  have 1: "UniChar (push_bit 6 (b mod 32) OR (c mod 64)) = 64 * (b mod 32) + c mod 64" for b c :: int
  proof -
    have "0 \<le> 64 * (b mod 32) + c mod 64" "64 * (b mod 32) + c mod 64 < 65536"
      using pos_mod_bound [of 32 b] pos_mod_bound [of 64 c]
        pos_mod_sign [of 32 b] pos_mod_sign [of 64 c] by linarith+
    then show ?thesis by (simp add: bytes)
  qed
  have 2: "UniChar (push_bit 12 (b mod 16) OR (push_bit 6 (c mod 64) OR d mod 64)) =
      4096 * (b mod 16) + (64 * (c mod 64) + d mod 64)" for b c d :: int
  proof -
    have r: "0 \<le> 64 * (c mod 64) + d mod 64" "64 * (c mod 64) + d mod 64 < 4096"
      using pos_mod_bound [of 64 c] pos_mod_bound [of 64 d]
        pos_mod_sign [of 64 c] pos_mod_sign [of 64 d] by linarith+
    moreover from r have "0 \<le> 4096 * (b mod 16) + (64 * (c mod 64) + d mod 64)"
      "4096 * (b mod 16) + (64 * (c mod 64) + d mod 64) < 65536"
      using pos_mod_bound [of 16 b] pos_mod_sign [of 16 b] by linarith+
    ultimately show ?thesis by (simp add: bytes)
  qed
  show ?thesis
    by (simp add: Tcl_UtfToUniChar_def Let_def is_trail_rd UniChar_rd and_low_bits 1 2)
qed

lemma Tcl_UtfToUniChar_pos: "0 < snd (Tcl_UtfToUniChar s)"
  by (simp add: Tcl_UtfToUniChar_def Let_def)

lemma TclUtfToUniChar_pos: "0 < snd (TclUtfToUniChar sc s)"
  by (simp add: TclUtfToUniChar_def Tcl_UtfToUniChar_pos)

lemma Tcl_UtfToUniChar_le3: "snd (Tcl_UtfToUniChar s) \<le> 3"
  by (simp add: Tcl_UtfToUniChar_def Let_def)

lemma TclUtfToUniChar_snd: "snd (TclUtfToUniChar sc s) = snd (Tcl_UtfToUniChar s)"
  by (simp add: TclUtfToUniChar_def Tcl_UtfToUniChar_def)

lemma TclUtfToUniChar_pair_pos: "(w, n) = TclUtfToUniChar sc s \<Longrightarrow> 0 < n"
  using TclUtfToUniChar_pos [of sc s] by (metis snd_conv)

lemma drop_decode_less:
  assumes "rd s 0 \<noteq> 0" and "0 < n"
  shows "length s - n < length s"
  using rd_length_nonzero [OF assms(1)] assms(2) by simp

lemma trail_in_buffer: "is_trail (rd s i) \<Longrightarrow> i < length s"
  using rd_length_nonzero [of s i] by (auto simp: is_trail_rd)

lemma Tcl_UtfToUniChar_fits: "s \<noteq> [] \<Longrightarrow> snd (Tcl_UtfToUniChar s) \<le> length s"
  using trail_in_buffer [of s 1] trail_in_buffer [of s 2]
  by (cases s) (auto simp: Tcl_UtfToUniChar_def Let_def Suc_le_eq simp del: rd_Cons_1 rd_Cons_2)

lemma Tcl_UtfToUniChar_range:
  "0 \<le> fst (Tcl_UtfToUniChar s)" "fst (Tcl_UtfToUniChar s) < 65536"
  by (simp_all add: Tcl_UtfToUniChar_def Let_def UniChar_range)

section \<open>Loops over strings\<close>

function NumUtfChars_nul :: "bool \<Rightarrow> string \<Rightarrow> int \<Rightarrow> int" where
  "NumUtfChars_nul sc src i =
     (if rd src 0 \<noteq> 0
      then NumUtfChars_nul sc (drop (snd (TclUtfToUniChar sc src)) src) (i + 1)
      else i)"
  by pat_completeness auto
termination
  by (relation "measure (\<lambda>(sc, src, i). length src)")
    (auto intro!: drop_decode_less TclUtfToUniChar_pos)

function NumUtfChars_counted :: "string \<Rightarrow> int \<Rightarrow> int \<Rightarrow> int" where
  "NumUtfChars_counted src len i =
     (if len > 0 then
        (if rd src 0 < 0xC0 then NumUtfChars_counted (drop 1 src) (len - 1) (i + 1)
         else let n = snd (Tcl_UtfToUniChar src) in
              NumUtfChars_counted (drop n src) (len - int n) (i + 1))
      else i)"
  by pat_completeness auto
termination
  by (relation "measure (\<lambda>(src, len, i). nat len)")
    (auto simp: Tcl_UtfToUniChar_pos)

definition Tcl_NumUtfChars :: "bool \<Rightarrow> string \<Rightarrow> int \<Rightarrow> int" where
  "Tcl_NumUtfChars sc src len =
     (if len < 0 then NumUtfChars_nul sc src 0 else NumUtfChars_counted src len 0)"

text \<open>A wide \<open>Tcl_DString\<close> is the list of the \<open>Tcl_UniChar\<close>s it holds.\<close>

function UtfToUniChar_loop :: "bool \<Rightarrow> string \<Rightarrow> int \<Rightarrow> int list" where
  "UtfToUniChar_loop sc p left =
     (if left > 0 then
        let (w, n) = TclUtfToUniChar sc p in
        w # UtfToUniChar_loop sc (drop n p) (left - int n)
      else [])"
  by pat_completeness auto
termination
  by (relation "measure (\<lambda>(sc, p, left). nat left)")
    (auto dest: TclUtfToUniChar_pair_pos)

definition Tcl_UtfToUniCharDString :: "bool \<Rightarrow> string \<Rightarrow> int \<Rightarrow> int list \<Rightarrow> int list \<times> nat" where
  "Tcl_UtfToUniCharDString sc src len ds =
     (let len = (if len < 0 then int (length (takeWhile (\<lambda>c. c \<noteq> CHR 0x00) src)) else len);
          oldLength = length ds
      in (ds @ UtfToUniChar_loop sc src len, oldLength))"

text \<open>The length in bytes that the string is given before the loop, for \<open>len\<close> bytes of UTF-8.\<close>

definition UtfToUniChar_room :: "int \<Rightarrow> int list \<Rightarrow> int" where
  "UtfToUniChar_room len ds =
     (let n = int32 (int32 (2 * int (length ds) + len + 1) * 2) in if n < 0 then 0 else n)"

function UtfFindFirst_loop :: "bool \<Rightarrow> string \<Rightarrow> int \<Rightarrow> nat \<Rightarrow> nat option" where
  "UtfFindFirst_loop sc src ch pos =
     (let (find, len) = TclUtfToUniChar sc src in
      if find = ch then Some pos
      else if rd src 0 = 0 then None
      else UtfFindFirst_loop sc (drop len src) ch (pos + len))"
  by pat_completeness auto
termination
  by (relation "measure (\<lambda>(sc, src, ch, pos). length src)")
    (auto intro!: drop_decode_less TclUtfToUniChar_pair_pos)

definition Tcl_UtfFindFirst :: "bool \<Rightarrow> string \<Rightarrow> int \<Rightarrow> nat option" where
  "Tcl_UtfFindFirst sc src ch = UtfFindFirst_loop sc src ch 0"

function UtfFindLast_loop :: "bool \<Rightarrow> string \<Rightarrow> int \<Rightarrow> nat \<Rightarrow> nat option \<Rightarrow> nat option" where
  "UtfFindLast_loop sc src ch pos lst =
     (let (find, len) = TclUtfToUniChar sc src;
          lst = (if find = ch then Some pos else lst)
      in if rd src 0 = 0 then lst
         else UtfFindLast_loop sc (drop len src) ch (pos + len) lst)"
  by pat_completeness auto
termination
  by (relation "measure (\<lambda>(sc, src, ch, pos, lst). length src)")
    (auto intro!: drop_decode_less TclUtfToUniChar_pair_pos)

definition Tcl_UtfFindLast :: "bool \<Rightarrow> string \<Rightarrow> int \<Rightarrow> nat option" where
  "Tcl_UtfFindLast sc src ch = UtfFindLast_loop sc src ch 0 None"

definition Tcl_UtfNext :: "bool \<Rightarrow> string \<Rightarrow> nat \<Rightarrow> nat" where
  "Tcl_UtfNext sc s src = src + snd (TclUtfToUniChar sc (drop src s))"

text \<open>
  \<open>Tcl_UtfPrev\<close> moves below the start of the string before it tests for it, so positions
  are integers here; \<open>start\<close> is usually 0.
\<close>

fun UtfPrev_loop :: "string \<Rightarrow> int \<Rightarrow> int \<Rightarrow> int \<Rightarrow> nat \<Rightarrow> int" where
  "UtfPrev_loop s start src look 0 = src"
| "UtfPrev_loop s start src look (Suc i) =
     (if look < start then (if src < start then start else src)
      else let byte = rd s (nat look) in
           if byte < 0x80 then src
           else if byte \<ge> 0xC0 then look
           else UtfPrev_loop s start src (look - 1) i)"

definition Tcl_UtfPrev :: "string \<Rightarrow> int \<Rightarrow> int \<Rightarrow> int" where
  "Tcl_UtfPrev s src start = UtfPrev_loop s start (src - 1) (src - 1) 3"

function UniCharAtIndex_loop :: "bool \<Rightarrow> string option \<Rightarrow> int \<Rightarrow> int \<Rightarrow> int option" where
  "UniCharAtIndex_loop sc src index ch =
     (if index \<ge> 0 then
        (case src of None \<Rightarrow> None
         | Some s \<Rightarrow> let (c, n) = TclUtfToUniChar sc s in
             UniCharAtIndex_loop sc (advance s n) (index - 1) c)
      else Some ch)"
  by pat_completeness auto
termination
  by (relation "measure (\<lambda>(sc, src, index, ch). nat (index + 1))") auto

definition Tcl_UniCharAtIndex :: "bool \<Rightarrow> string \<Rightarrow> int \<Rightarrow> int option" where
  "Tcl_UniCharAtIndex sc src index = UniCharAtIndex_loop sc (Some src) index 0"

function UtfAtIndex_loop :: "bool \<Rightarrow> string option \<Rightarrow> int \<Rightarrow> nat \<Rightarrow> nat option" where
  "UtfAtIndex_loop sc src index pos =
     (if index > 0 then
        (case src of None \<Rightarrow> None
         | Some s \<Rightarrow> let n = snd (TclUtfToUniChar sc s) in
             UtfAtIndex_loop sc (advance s n) (index - 1) (pos + n))
      else Some pos)"
  by pat_completeness auto
termination
  by (relation "measure (\<lambda>(sc, src, index, pos). nat index)") auto

definition Tcl_UtfAtIndex :: "bool \<Rightarrow> string \<Rightarrow> int \<Rightarrow> nat option" where
  "Tcl_UtfAtIndex sc src index = UtfAtIndex_loop sc (Some src) index 0"

declare NumUtfChars_nul.simps [simp del] NumUtfChars_counted.simps [simp del]
  UtfToUniChar_loop.simps [simp del] UtfFindFirst_loop.simps [simp del]
  UtfFindLast_loop.simps [simp del] UniCharAtIndex_loop.simps [simp del]
  UtfAtIndex_loop.simps [simp del]

section \<open>Comparisons\<close>

text \<open>
  \<open>TclpUtfNcmp2\<close> compares bytes.  The first loop stops at the first byte that differs,
  with the number of bytes left; the second part treats the pair C0 80, Tcl's encoding of
  the NUL character, as 0.
\<close>

fun Ncmp2_loop :: "string \<Rightarrow> string \<Rightarrow> nat \<Rightarrow> nat \<times> string \<times> string \<times> int" where
  "Ncmp2_loop cs ct 0 = (0, cs, ct, 0)"
| "Ncmp2_loop cs ct (Suc n) =
     (if rd cs 0 \<noteq> rd ct 0 then (Suc n, cs, ct, rd cs 0 - rd ct 0)
      else Ncmp2_loop (drop 1 cs) (drop 1 ct) n)"

definition TclpUtfNcmp2 :: "string \<Rightarrow> string \<Rightarrow> nat \<Rightarrow> int" where
  "TclpUtfNcmp2 cs ct numBytes =
     (let (n, cs, ct, result) = Ncmp2_loop cs ct numBytes in
      if n \<noteq> 0 \<and> (rd cs 0 = 0xC0 \<or> rd ct 0 = 0xC0) then
        (let c1 = (if rd cs 0 = 0xC0 \<and> rd cs 1 = 0x80 then 0 else rd cs 0);
             c2 = (if rd ct 0 = 0xC0 \<and> rd ct 1 = 0x80 then 0 else rd ct 0)
         in c1 - c2)
      else result)"

fun Tcl_UtfNcmp :: "bool \<Rightarrow> string option \<Rightarrow> string option \<Rightarrow> nat \<Rightarrow> int option" where
  "Tcl_UtfNcmp sc cs ct 0 = Some 0"
| "Tcl_UtfNcmp sc (Some cs) (Some ct) (Suc n) =
     (let (ch1, n1) = TclUtfToUniChar sc cs; (ch2, n2) = TclUtfToUniChar sc ct in
      if ch1 \<noteq> ch2 then Some (ch1 - ch2)
      else Tcl_UtfNcmp sc (advance cs n1) (advance ct n2) n)"
| "Tcl_UtfNcmp sc _ _ (Suc n) = None"

fun Tcl_UtfNcasecmp ::
  "(int \<Rightarrow> int) \<Rightarrow> bool \<Rightarrow> string option \<Rightarrow> string option \<Rightarrow> nat \<Rightarrow> int option" where
  "Tcl_UtfNcasecmp lower sc cs ct 0 = Some 0"
| "Tcl_UtfNcasecmp lower sc (Some cs) (Some ct) (Suc n) =
     (let (ch1, n1) = TclUtfToUniChar sc cs; (ch2, n2) = TclUtfToUniChar sc ct in
      if ch1 \<noteq> ch2 \<and> lower ch1 \<noteq> lower ch2 then Some (lower ch1 - lower ch2)
      else Tcl_UtfNcasecmp lower sc (advance cs n1) (advance ct n2) n)"
| "Tcl_UtfNcasecmp lower sc _ _ (Suc n) = None"

function TclUtfCasecmp :: "(int \<Rightarrow> int) \<Rightarrow> bool \<Rightarrow> string \<Rightarrow> string \<Rightarrow> int" where
  "TclUtfCasecmp lower sc cs ct =
     (if rd cs 0 \<noteq> 0 \<and> rd ct 0 \<noteq> 0 then
        let p1 = TclUtfToUniChar sc cs; p2 = TclUtfToUniChar sc ct; ch1 = fst p1; ch2 = fst p2 in
        if ch1 \<noteq> ch2 \<and> lower ch1 \<noteq> lower ch2 then lower ch1 - lower ch2
        else TclUtfCasecmp lower sc (drop (snd p1) cs) (drop (snd p2) ct)
      else rd cs 0 - rd ct 0)"
  by pat_completeness auto
termination
  by (relation "measure (\<lambda>(lower, sc, cs, ct). length cs)")
    (auto intro!: drop_decode_less TclUtfToUniChar_pos)

declare TclUtfCasecmp.simps [simp del]

text \<open>Strings of \<open>Tcl_UniChar\<close>s: a NUL-terminated one is the list before the first 0.\<close>

fun Tcl_UniCharLen :: "int list \<Rightarrow> int" where
  "Tcl_UniCharLen [] = 0"
| "Tcl_UniCharLen (u # us) = (if u \<noteq> 0 then Tcl_UniCharLen us + 1 else 0)"

text \<open>The little-endian branch; on big-endian hosts the code calls \<open>memcmp\<close>.\<close>

fun Tcl_UniCharNcmp :: "int list \<Rightarrow> int list \<Rightarrow> nat \<Rightarrow> int option" where
  "Tcl_UniCharNcmp ucs uct 0 = Some 0"
| "Tcl_UniCharNcmp (u # ucs) (v # uct) (Suc n) =
     (if u \<noteq> v then Some (u - v) else Tcl_UniCharNcmp ucs uct n)"
| "Tcl_UniCharNcmp _ _ (Suc n) = None"

fun Tcl_UniCharNcasecmp :: "(int \<Rightarrow> int) \<Rightarrow> int list \<Rightarrow> int list \<Rightarrow> nat \<Rightarrow> int option" where
  "Tcl_UniCharNcasecmp lower ucs uct 0 = Some 0"
| "Tcl_UniCharNcasecmp lower (u # ucs) (v # uct) (Suc n) =
     (if u \<noteq> v \<and> lower u \<noteq> lower v then Some (lower u - lower v)
      else Tcl_UniCharNcasecmp lower ucs uct n)"
| "Tcl_UniCharNcasecmp lower _ _ (Suc n) = None"

section \<open>One character, encoded and decoded\<close>

abbreviation uchar :: "int \<Rightarrow> bool" where
  "uchar ch \<equiv> 0 \<le> ch \<and> ch \<le> 0xFFFF"

lemma base64_digits:
  fixes ch :: int
  shows "4096 * (ch div 4096) + (64 * (ch div 64 mod 64) + ch mod 64) = ch"
proof -
  have "a = 64 * q + r \<Longrightarrow> q = 64 * u + v \<Longrightarrow> 4096 * u + (64 * v + r) = a" for a q r u v :: int
    by simp
  moreover have "ch div 4096 = ch div 64 div 64" using zdiv_zmult2_eq [of 64 ch 64] by simp
  ultimately show ?thesis
    using mult_div_mod_eq [of 64 ch] mult_div_mod_eq [of 64 "ch div 64"] by metis
qed

lemma mod_base_add:
  fixes q :: int
  assumes "0 \<le> q" and "q < m" and "b mod m = 0"
  shows "(b + q) mod m = q"
  using assms by (metis add.left_neutral mod_add_left_eq mod_pos_pos_trivial)

lemma lead_mod [bytes]:
  fixes q :: int
  shows "0 \<le> q \<Longrightarrow> q < 32 \<Longrightarrow> (0xC0 + q) mod 256 = 0xC0 + q"
    and "0 \<le> q \<Longrightarrow> q < 32 \<Longrightarrow> (0xC0 + q) mod 32 = q"
    and "0 \<le> q \<Longrightarrow> q < 16 \<Longrightarrow> (0xE0 + q) mod 256 = 0xE0 + q"
    and "0 \<le> q \<Longrightarrow> q < 16 \<Longrightarrow> (0xE0 + q) mod 16 = q"
  by (simp_all add: mod_base_add)

lemma trail_mod [bytes]:
  fixes x :: int
  shows "(0x80 + x mod 64) mod 256 = 0x80 + x mod 64" and "(0x80 + x mod 64) mod 64 = x mod 64"
    and "0x80 + x mod 64 < 192" and "0x80 \<le> 0x80 + x mod 64"
  using pos_mod_sign [of 64 x] pos_mod_bound [of 64 x]
  by (simp_all add: mod_base_add del: pos_mod_sign pos_mod_bound)

lemma trail_value [bytes]:
  fixes x :: int
  shows "0 \<le> x \<Longrightarrow> x < 64 \<Longrightarrow> (0x80 + x) mod 256 = 0x80 + x"
    and "0 \<le> x \<Longrightarrow> x < 64 \<Longrightarrow> (0x80 + x) mod 64 = x"
  by (simp_all add: mod_base_add)

lemma decode_two:
  "0 \<le> q \<Longrightarrow> q < 32 \<Longrightarrow> 0 \<le> x \<Longrightarrow> x < 64 \<Longrightarrow>
     Tcl_UtfToUniChar (char_of (0xC0 + q) # char_of (0x80 + x) # rest) = (64 * q + x, 2)"
  by (simp add: Tcl_UtfToUniChar_arith Let_def lead_mod trail_value)

lemma decode_three:
  "0 \<le> q \<Longrightarrow> q < 16 \<Longrightarrow> 0 \<le> x \<Longrightarrow> x < 64 \<Longrightarrow> 0 \<le> y \<Longrightarrow> y < 64 \<Longrightarrow>
     Tcl_UtfToUniChar (char_of (0xE0 + q) # char_of (0x80 + x) # char_of (0x80 + y) # rest)
       = (4096 * q + (64 * x + y), 3)"
  by (simp add: Tcl_UtfToUniChar_arith Let_def lead_mod trail_value)

lemma decode_encode:
  assumes "uchar ch"
  shows "Tcl_UtfToUniChar (Tcl_UniCharToUtf ch @ rest) = (ch, length (Tcl_UniCharToUtf ch))"
proof -
  consider "0 < ch" "ch < 128" | "ch = 0 \<or> 128 \<le> ch" "ch < 2048" | "2048 \<le> ch" "ch < 65536"
    using assms by linarith
  then show ?thesis
  proof cases
    case 1
    then show ?thesis by (simp add: Tcl_UniCharToUtf_arith Tcl_UtfToUniChar_arith)
  next
    case 2
    then have q: "0 \<le> ch div 64" "ch div 64 < 32" using assms by linarith+
    from 2 assms have "Tcl_UniCharToUtf ch = [char_of (0xC0 + ch div 64), char_of (0x80 + ch mod 64)]"
      by (auto simp: Tcl_UniCharToUtf_arith)
    with decode_two [OF q, of "ch mod 64" rest] show ?thesis by simp
  next
    case 3
    then have q: "0 \<le> ch div 4096" "ch div 4096 < 16" by linarith+
    from 3 assms have "Tcl_UniCharToUtf ch = [char_of (0xE0 + ch div 4096),
        char_of (0x80 + ch div 64 mod 64), char_of (0x80 + ch mod 64)]"
      by (simp add: Tcl_UniCharToUtf_arith)
    with decode_three [OF q, of "ch div 64 mod 64" "ch mod 64" rest] base64_digits [of ch]
    show ?thesis by simp
  qed
qed

lemma UniCharToUtf_nonempty [simp]: "Tcl_UniCharToUtf ch \<noteq> []"
  by (simp add: Tcl_UniCharToUtf_arith)

lemma length_UniCharToUtf: "uchar ch \<Longrightarrow> int (length (Tcl_UniCharToUtf ch)) = UtfCount ch"
  by (auto simp: Tcl_UniCharToUtf_arith UtfCount_def)

lemma length_UniCharToUtf_le3: "length (Tcl_UniCharToUtf ch) \<le> 3"
  by (simp add: Tcl_UniCharToUtf_arith)

interpretation utf: codec Tcl_UniCharToUtf Tcl_UtfToUniChar uchar
  by unfold_locales (simp_all add: decode_encode)

lemma macro_agrees:
  "\<not> sc \<or> rd s 0 < 0x80 \<or> 0xC0 \<le> rd s 0 \<Longrightarrow> TclUtfToUniChar sc s = Tcl_UtfToUniChar s"
  by (auto simp: TclUtfToUniChar_def Tcl_UtfToUniChar_def Let_def char_value_def)

lemma length_UniCharToUtf_pos [simp]: "0 < length (Tcl_UniCharToUtf ch)"
  by simp

lemma rd_UniCharToUtf:
  "uchar ch \<Longrightarrow> rd (Tcl_UniCharToUtf ch) 0 =
     (if 0 < ch \<and> ch < 128 then ch else if ch < 2048 then 0xC0 + ch div 64 else 0xE0 + ch div 4096)"
proof -
  assume a: "uchar ch"
  have "ch div 4096 < 16" "0 \<le> ch div 4096" using a by linarith+
  moreover have "ch div 64 < 32" "0 \<le> ch div 64" if "ch < 2048" using a that by linarith+
  ultimately show ?thesis using a by (auto simp: Tcl_UniCharToUtf_arith lead_mod)
qed

lemma rd_UniCharToUtf_lead:
  assumes "uchar ch"
  shows "rd (Tcl_UniCharToUtf ch) 0 < 0x80 \<or> 0xC0 \<le> rd (Tcl_UniCharToUtf ch) 0"
    and "rd (Tcl_UniCharToUtf ch) 0 \<noteq> 0"
proof -
  have "0 \<le> ch div 64" "0 \<le> ch div 4096" using assms by linarith+
  then show "rd (Tcl_UniCharToUtf ch) 0 < 0x80 \<or> 0xC0 \<le> rd (Tcl_UniCharToUtf ch) 0"
    and "rd (Tcl_UniCharToUtf ch) 0 \<noteq> 0"
    using assms by (simp_all add: rd_UniCharToUtf)
qed

interpretation utfm: codec Tcl_UniCharToUtf "TclUtfToUniChar sc" uchar for sc
  by unfold_locales (simp_all add: macro_agrees rd_UniCharToUtf_lead(1) decode_encode)

section \<open>Strings of characters\<close>

abbreviation utf_string :: "int list \<Rightarrow> string" where
  "utf_string cs \<equiv> utf.encs cs"

abbreviation uchars :: "int list \<Rightarrow> bool" where
  "uchars cs \<equiv> \<forall>ch\<in>set cs. uchar ch"

lemma UniCharToUtf_loop_encs [simp]: "UniCharToUtf_loop cs = utf_string cs"
  by (induction cs) auto

lemma length_utf_string_le: "length (utf_string cs) \<le> 3 * length cs"
proof (induction cs)
  case (Cons c cs)
  then show ?case using length_UniCharToUtf_le3 [of c] by simp
qed simp

lemma NumUtfChars_nul_encs:
  "uchars cs \<Longrightarrow> NumUtfChars_nul sc (utf_string cs) i = i + int (length cs)"
proof (induction cs arbitrary: i)
  case Nil
  then show ?case by (simp add: NumUtfChars_nul.simps)
next
  case (Cons c cs)
  then show ?case
    by (subst NumUtfChars_nul.simps) (simp add: rd_UniCharToUtf_lead(2) utfm.dec_enc)
qed

lemma UtfToUniChar_low: "rd s 0 < 0xC0 \<Longrightarrow> snd (Tcl_UtfToUniChar s) = 1"
  by (simp add: Tcl_UtfToUniChar_def)

lemma NumUtfChars_counted_step:
  "len > 0 \<Longrightarrow> NumUtfChars_counted s len i =
     NumUtfChars_counted (drop (snd (Tcl_UtfToUniChar s)) s) (len - int (snd (Tcl_UtfToUniChar s))) (i + 1)"
  by (subst NumUtfChars_counted.simps) (simp add: UtfToUniChar_low Let_def)

lemma NumUtfChars_counted_encs:
  "uchars cs \<Longrightarrow>
     NumUtfChars_counted (utf_string cs @ rest) (int (length (utf_string cs))) i = i + int (length cs)"
proof (induction cs arbitrary: i)
  case Nil
  then show ?case by (simp add: NumUtfChars_counted.simps)
next
  case (Cons c cs)
  have "0 < int (length (utf_string (c # cs)))" by (simp add: add_pos_nonneg)
  with Cons show ?case by (subst NumUtfChars_counted_step) (simp_all add: decode_encode)
qed

lemma UtfToUniChar_loop_encs:
  "uchars cs \<Longrightarrow> UtfToUniChar_loop sc (utf_string cs @ rest) (int (length (utf_string cs))) = cs"
proof (induction cs)
  case Nil
  then show ?case by (simp add: UtfToUniChar_loop.simps)
next
  case (Cons c cs)
  have "0 < int (length (utf_string (c # cs)))" by (simp add: add_pos_nonneg)
  with Cons show ?case by (subst UtfToUniChar_loop.simps) (simp_all add: utfm.dec_enc)
qed

lemma length_UtfToUniChar_loop: "length (UtfToUniChar_loop sc s left) \<le> nat left"
proof (induction sc s left rule: UtfToUniChar_loop.induct)
  case (1 sc p left)
  show ?case
  proof (cases "left > 0")
    case True
    obtain w n where wn: "TclUtfToUniChar sc p = (w, n)" by force
    then have "0 < n" using TclUtfToUniChar_pair_pos [of w n sc p] by simp
    with True wn 1 [OF True wn [symmetric] refl] show ?thesis
      by (subst UtfToUniChar_loop.simps) simp
  next
    case False
    then show ?thesis by (simp add: UtfToUniChar_loop.simps)
  qed
qed

lemma UniCharAtIndex_loop_encs:
  "uchars cs \<Longrightarrow> n < length cs \<Longrightarrow>
     UniCharAtIndex_loop sc (Some (utf_string cs @ rest)) (int n) ch = Some (cs ! n)"
proof (induction cs arbitrary: n ch)
  case (Cons c cs)
  show ?case
  proof (cases n)
    case 0
    with Cons.prems show ?thesis
      by (simp add: UniCharAtIndex_loop.simps utfm.dec_enc)
  next
    case (Suc m)
    with Cons show ?thesis
      by (simp add: UniCharAtIndex_loop.simps [of sc "Some (Tcl_UniCharToUtf c @ _)"] utfm.dec_enc)
  qed
qed simp

lemma UtfAtIndex_loop_encs:
  "uchars cs \<Longrightarrow> n \<le> length cs \<Longrightarrow>
     UtfAtIndex_loop sc (Some (utf_string cs @ rest)) (int n) pos
       = Some (pos + length (utf_string (take n cs)))"
proof (induction cs arbitrary: n pos)
  case Nil
  then show ?case by (simp add: UtfAtIndex_loop.simps)
next
  case (Cons c cs)
  show ?case
  proof (cases n)
    case 0
    then show ?thesis by (simp add: UtfAtIndex_loop.simps)
  next
    case (Suc m)
    with Cons show ?thesis
      by (simp add: UtfAtIndex_loop.simps [of sc "Some (Tcl_UniCharToUtf c @ _)"] utfm.dec_enc Let_def)
  qed
qed

lemma UtfFindFirst_loop_encs:
  "uchars cs \<Longrightarrow> UtfFindFirst_loop sc (utf_string cs) ch pos =
     (if ch = 0 \<or> ch \<in> set cs then Some (pos + length (utf_string (takeWhile (\<lambda>c. c \<noteq> ch) cs)))
      else None)"
proof (induction cs arbitrary: pos)
  case Nil
  then show ?case
    by (simp add: UtfFindFirst_loop.simps TclUtfToUniChar_def UniChar_def char_value_def)
next
  case (Cons c cs)
  then show ?case
    by (subst UtfFindFirst_loop.simps) (auto simp: utfm.dec_enc rd_UniCharToUtf_lead(2))
qed

text \<open>Stepping back from the byte after a character reaches its first byte.\<close>

lemma rd_pre:
  "rd (pre @ a # post) (length pre) = of_char a"
  "rd (pre @ a # b # post) (Suc (length pre)) = of_char b"
  "rd (pre @ a # b # c # post) (Suc (Suc (length pre))) = of_char c"
  by (simp_all add: rd_def nth_append)

lemma UtfPrev_two:
  fixes q x :: int
  assumes "0 \<le> q" "q < 32" "0 \<le> x" "x < 64"
  shows "Tcl_UtfPrev (pre @ char_of (0xC0 + q) # char_of (0x80 + x) # post) (int (length pre) + 2) 0
    = int (length pre)"
proof -
  have "nat (1 + int (length pre)) = Suc (length pre)" by simp
  with assms show ?thesis
    by (simp add: Tcl_UtfPrev_def numeral_3_eq_3 Let_def rd_pre lead_mod trail_value)
qed

lemma UtfPrev_three:
  fixes q x y :: int
  assumes "0 \<le> q" "q < 16" "0 \<le> x" "x < 64" "0 \<le> y" "y < 64"
  shows "Tcl_UtfPrev (pre @ char_of (0xE0 + q) # char_of (0x80 + x) # char_of (0x80 + y) # post)
    (int (length pre) + 3) 0 = int (length pre)"
proof -
  have "nat (2 + int (length pre)) = Suc (Suc (length pre))"
    "nat (1 + int (length pre)) = Suc (length pre)" by simp_all
  with assms show ?thesis
    by (simp add: Tcl_UtfPrev_def numeral_3_eq_3 Let_def rd_pre lead_mod trail_value)
qed

lemma UtfPrev_encoded:
  assumes "uchar ch"
  shows "Tcl_UtfPrev (pre @ Tcl_UniCharToUtf ch @ post) (int (length pre + length (Tcl_UniCharToUtf ch))) 0
    = int (length pre)"
proof -
  consider "0 < ch" "ch < 128" | "ch = 0 \<or> 128 \<le> ch" "ch < 2048" | "2048 \<le> ch" "ch < 65536"
    using assms by linarith
  then show ?thesis
  proof cases
    case 1
    then show ?thesis
      by (simp add: Tcl_UtfPrev_def numeral_3_eq_3 Let_def Tcl_UniCharToUtf_arith rd_pre)
  next
    case 2
    then have q: "0 \<le> ch div 64" "ch div 64 < 32" using assms by linarith+
    from 2 assms have "Tcl_UniCharToUtf ch = [char_of (0xC0 + ch div 64), char_of (0x80 + ch mod 64)]"
      by (auto simp: Tcl_UniCharToUtf_arith)
    with UtfPrev_two [OF q, of "ch mod 64" pre post] show ?thesis by (simp add: add.commute)
  next
    case 3
    then have q: "0 \<le> ch div 4096" "ch div 4096 < 16" by linarith+
    from 3 assms have "Tcl_UniCharToUtf ch = [char_of (0xE0 + ch div 4096),
        char_of (0x80 + ch div 64 mod 64), char_of (0x80 + ch mod 64)]"
      by (simp add: Tcl_UniCharToUtf_arith)
    with UtfPrev_three [OF q, of "ch div 64 mod 64" "ch mod 64" pre post] show ?thesis by (simp add: add.commute)
  qed
qed

lemma UtfNcmp_encs:
  "uchars cs \<Longrightarrow> uchars ds \<Longrightarrow> n \<le> length cs \<Longrightarrow> n \<le> length ds \<Longrightarrow>
     Tcl_UtfNcmp sc (Some (utf_string cs @ s)) (Some (utf_string ds @ t)) n = Tcl_UniCharNcmp cs ds n"
proof (induction n arbitrary: cs ds)
  case (Suc n)
  then obtain c cs' d ds' where e: "cs = c # cs'" "ds = d # ds'"
    by (metis Suc_le_length_iff)
  with Suc show ?case by (simp add: utfm.dec_enc)
qed simp

section \<open>The byte order agrees with the order of characters\<close>

fun first_diff :: "int list \<Rightarrow> int list \<Rightarrow> int" where
  "first_diff (c # cs) (d # ds) = (if c \<noteq> d then c - d else first_diff cs ds)"
| "first_diff _ _ = 0"

lemma Ncmp2_loop_common: "Ncmp2_loop (p @ s) (p @ t) (length p + n) = Ncmp2_loop s t n"
  by (induction p) auto

lemma Ncmp2_common: "TclpUtfNcmp2 (p @ s) (p @ t) (length p + n) = TclpUtfNcmp2 s t n"
  by (simp add: TclpUtfNcmp2_def Ncmp2_loop_common)

lemma Ncmp2_differ:
  "n \<noteq> 0 \<Longrightarrow> rd s 0 \<noteq> rd t 0 \<Longrightarrow> TclpUtfNcmp2 s t n =
     (if rd s 0 = 0xC0 \<and> rd s 1 = 0x80 then 0 else rd s 0) -
     (if rd t 0 = 0xC0 \<and> rd t 1 = 0x80 then 0 else rd t 0)"
  by (cases n) (auto simp: TclpUtfNcmp2_def Let_def)

text \<open>The weight of a lead byte in the comparison.\<close>

definition lead_weight :: "int \<Rightarrow> int" where
  "lead_weight ch = (if ch < 128 then ch else if ch < 2048 then 0xC0 + ch div 64 else 0xE0 + ch div 4096)"

lemma lead_weight_mono:
  assumes "uchar c" and "uchar d" and "c < d"
  shows "lead_weight c \<le> lead_weight d"
proof -
  have "c div 64 \<le> d div 64" "c div 4096 \<le> d div 4096" using assms(3) by (simp_all add: zdiv_mono1)
  moreover have "c div 64 < 32" if "c < 2048" using that by linarith
  moreover have "0 \<le> d div 64" "0 \<le> d div 4096" using assms by linarith+
  ultimately show ?thesis using assms by (auto simp: lead_weight_def)
qed

lemma enc_cases:
  assumes "uchar c"
  obtains (one) "0 < c" "c < 128" "Tcl_UniCharToUtf c = [char_of c]" "lead_weight c = c"
  | (zero) "c = 0" "Tcl_UniCharToUtf c = [CHR 0xC0, CHR 0x80]" "lead_weight c = 0"
  | (two) "128 \<le> c" "c < 2048" "lead_weight c = 0xC0 + c div 64" "2 \<le> c div 64" "c div 64 < 32"
      "Tcl_UniCharToUtf c = [char_of (0xC0 + c div 64), char_of (0x80 + c mod 64)]"
  | (three) "2048 \<le> c" "c < 65536" "lead_weight c = 0xE0 + c div 4096" "0 \<le> c div 4096" "c div 4096 < 16"
      "Tcl_UniCharToUtf c = [char_of (0xE0 + c div 4096), char_of (0x80 + c div 64 mod 64),
         char_of (0x80 + c mod 64)]"
proof -
  consider "0 < c" "c < 128" | "c = 0" | "128 \<le> c" "c < 2048" | "2048 \<le> c" "c < 65536"
    using assms by linarith
  then show thesis
  proof cases
    case 1 then show thesis by (intro one) (simp_all add: Tcl_UniCharToUtf_arith lead_weight_def)
  next
    case 2 
    moreover have "Tcl_UniCharToUtf 0 = [CHR 0xC0, CHR 0x80]" by code_simp
    ultimately show thesis by (intro zero) (simp_all add: lead_weight_def)
  next
    case 3
    then have "2 \<le> c div 64" "c div 64 < 32" by linarith+
    with 3 show thesis by (intro two) (simp_all add: Tcl_UniCharToUtf_arith lead_weight_def)
  next
    case 4
    then have "0 \<le> c div 4096" "c div 4096 < 16" by linarith+
    with 4 show thesis by (intro three) (simp_all add: Tcl_UniCharToUtf_arith lead_weight_def)
  qed
qed

lemma lead_term:
  assumes "uchar c"
  shows "(if rd (Tcl_UniCharToUtf c @ s) 0 = 0xC0 \<and> rd (Tcl_UniCharToUtf c @ s) 1 = 0x80 then 0
     else rd (Tcl_UniCharToUtf c @ s) 0) = lead_weight c"
    and "rd (Tcl_UniCharToUtf c @ s) 0 = 0xC0 \<longleftrightarrow> c = 0"
  using assms by (cases rule: enc_cases; simp add: lead_mod)+

lemma three_digit_diff:
  "4096 * u + (64 * v + r) = c \<Longrightarrow> 4096 * u + (64 * v' + r') = d \<Longrightarrow>
     64 * (v - v') + (r - r') = c - (d::int)"
  by auto

lemma sgn_digit: "x \<noteq> 0 \<Longrightarrow> - 64 < y \<Longrightarrow> y < 64 \<Longrightarrow> sgn (64 * x + y) = sgn (x::int)"
  by (cases "x > 0") (auto simp: sgn_if)

lemma Ncmp2_trail:
  assumes "0 \<le> x" "x < 64" "0 \<le> y" "y < 64" "x \<noteq> y"
  shows "TclpUtfNcmp2 (char_of (0x80 + x) # s) (char_of (0x80 + y) # t) (Suc k) = x - y"
proof -
  have r: "rd (char_of (0x80 + x) # s) 0 = 0x80 + x" "rd (char_of (0x80 + y) # t) 0 = 0x80 + y"
    using assms by simp_all
  show ?thesis using assms Ncmp2_differ [of "Suc k" "char_of (0x80 + x) # s" "char_of (0x80 + y) # t"]
    unfolding r by simp
qed

lemma Ncmp2_char_differ:
  assumes c: "uchar c" and d: "uchar d" and "c \<noteq> d"
    and n: "length (Tcl_UniCharToUtf c) \<le> n \<or> length (Tcl_UniCharToUtf d) \<le> n"
  shows "sgn (TclpUtfNcmp2 (Tcl_UniCharToUtf c @ s) (Tcl_UniCharToUtf d @ t) n) = sgn (c - d)"
proof (cases "lead_weight c = lead_weight d")
  case False
  have n0: "n \<noteq> 0"
  proof
    assume "n = 0"
    with n have "length (Tcl_UniCharToUtf c) = 0 \<or> length (Tcl_UniCharToUtf d) = 0" by simp
    then show False by (simp only: length_0_conv UniCharToUtf_nonempty simp_thms)
  qed
  have ne: "rd (Tcl_UniCharToUtf c @ s) 0 \<noteq> rd (Tcl_UniCharToUtf d @ t) 0"
    using False lead_term [OF c, of s] lead_term [OF d, of t] by metis
  have "sgn (lead_weight c - lead_weight d) = sgn (c - d)"
  proof (cases "c < d")
    case True
    with lead_weight_mono [OF c d True] False show ?thesis by simp
  next
    case nl: False
    with \<open>c \<noteq> d\<close> have "d < c" by simp
    with lead_weight_mono [OF d c this] False show ?thesis by simp
  qed
  with Ncmp2_differ [OF n0 ne] show ?thesis by (simp only: lead_term(1) [OF c] lead_term(1) [OF d])
next
  case True
  show ?thesis using c
  proof (cases rule: enc_cases)
    case one
    with True d \<open>c \<noteq> d\<close> show ?thesis by (cases rule: enc_cases [OF d]) simp_all
  next
    case zero
    with True d \<open>c \<noteq> d\<close> show ?thesis by (cases rule: enc_cases [OF d]) simp_all
  next
    case two
    then have cd: "d < 2048 \<and> 128 \<le> d \<and> d div 64 = c div 64" using True
      by (cases rule: enc_cases [OF d]) simp_all
    then have e: "Tcl_UniCharToUtf d = [char_of (0xC0 + c div 64), char_of (0x80 + d mod 64)]"
      by (cases rule: enc_cases [OF d]) simp_all
    have m: "c mod 64 - d mod 64 = c - d"
      using cd div_mult_mod_eq [of c 64] div_mult_mod_eq [of d 64] by (metis add_diff_cancel_left)
    then have ne: "c mod 64 \<noteq> d mod 64" using \<open>c \<noteq> d\<close> by auto
    obtain k where k: "n = length [char_of (0xC0 + c div 64)] + Suc k"
      using n two(6) e by (auto simp: Suc_le_eq dest!: less_imp_Suc_add)
    have "TclpUtfNcmp2 (Tcl_UniCharToUtf c @ s) (Tcl_UniCharToUtf d @ t) n =
        TclpUtfNcmp2 ([char_of (0xC0 + c div 64)] @ char_of (0x80 + c mod 64) # s)
          ([char_of (0xC0 + c div 64)] @ char_of (0x80 + d mod 64) # t) n"
      by (simp add: two(6) e)
    also have "\<dots> = c mod 64 - d mod 64"
      unfolding k Ncmp2_common by (rule Ncmp2_trail) (simp_all add: ne)
    finally show ?thesis using m by simp
  next
    case three
    then have cd: "2048 \<le> d \<and> d div 4096 = c div 4096" using True
      by (cases rule: enc_cases [OF d]) simp_all
    then have e: "Tcl_UniCharToUtf d = [char_of (0xE0 + c div 4096), char_of (0x80 + d div 64 mod 64),
        char_of (0x80 + d mod 64)]"
      by (cases rule: enc_cases [OF d]) simp_all
    define x where "x = c div 64 mod 64 - d div 64 mod 64"
    define y where "y = c mod 64 - d mod 64"
    have "64 * x + y = c - d"
      using cd base64_digits [of c] base64_digits [of d] unfolding x_def y_def
      by (metis (no_types) three_digit_diff)
    then have m: "sgn (c - d) = sgn (64 * x + y)" and xy: "x \<noteq> 0 \<or> y \<noteq> 0"
      using \<open>c \<noteq> d\<close> by auto
    have y64: "- 64 < y" "y < 64"
      unfolding y_def using pos_mod_sign [of 64 c] pos_mod_bound [of 64 c] pos_mod_sign [of 64 d]
        pos_mod_bound [of 64 d] by linarith+
    show ?thesis
    proof (cases "x = 0")
      case eq: True
      then have ce: "c div 64 mod 64 = d div 64 mod 64" by (simp add: x_def)
      obtain k where k: "n = length [char_of (0xE0 + c div 4096), char_of (0x80 + c div 64 mod 64)] + Suc k"
        using n three(6) e by (auto simp: Suc_le_eq dest!: less_imp_Suc_add)
      have "TclpUtfNcmp2 (Tcl_UniCharToUtf c @ s) (Tcl_UniCharToUtf d @ t) n =
        TclpUtfNcmp2 ([char_of (0xE0 + c div 4096), char_of (0x80 + c div 64 mod 64)] @ char_of (0x80 + c mod 64) # s)
          ([char_of (0xE0 + c div 4096), char_of (0x80 + c div 64 mod 64)] @ char_of (0x80 + d mod 64) # t) n"
        by (simp add: three(6) e ce)
      also have "\<dots> = c mod 64 - d mod 64"
        unfolding k Ncmp2_common by (rule Ncmp2_trail) (use xy eq in \<open>simp_all add: y_def\<close>)
      finally show ?thesis using m eq by (simp add: y_def)
    next
      case ne: False
      obtain k where k: "n = length [char_of (0xE0 + c div 4096)] + Suc k"
        using n three(6) e by (auto simp: Suc_le_eq dest!: less_imp_Suc_add)
      have "TclpUtfNcmp2 (Tcl_UniCharToUtf c @ s) (Tcl_UniCharToUtf d @ t) n =
        TclpUtfNcmp2 ([char_of (0xE0 + c div 4096)] @
            char_of (0x80 + c div 64 mod 64) # char_of (0x80 + c mod 64) # s)
          ([char_of (0xE0 + c div 4096)] @
            char_of (0x80 + d div 64 mod 64) # char_of (0x80 + d mod 64) # t) n"
        by (simp add: three(6) e)
      also have "\<dots> = c div 64 mod 64 - d div 64 mod 64"
        unfolding k Ncmp2_common by (rule Ncmp2_trail) (use ne in \<open>simp_all add: x_def\<close>)
      finally have "TclpUtfNcmp2 (Tcl_UniCharToUtf c @ s) (Tcl_UniCharToUtf d @ t) n = x"
        by (simp only: x_def)
      then show ?thesis by (simp only: m sgn_digit [OF ne y64])
    qed
  qed
qed

lemma Ncmp2_encs:
  "uchars cs \<Longrightarrow> uchars ds \<Longrightarrow>
     sgn (TclpUtfNcmp2 (utf_string cs) (utf_string ds)
            (min (length (utf_string cs)) (length (utf_string ds)))) = sgn (first_diff cs ds)"
proof (induction cs ds rule: first_diff.induct)
  case (1 c cs d ds)
  show ?case
  proof (cases "c = d")
    case True
    with 1 show ?thesis by (simp add: Ncmp2_common flip: min_add_distrib_right)
  next
    case False
    with 1 show ?thesis by (simp, intro Ncmp2_char_differ) auto
  qed
qed (simp_all add: TclpUtfNcmp2_def)

lemma UtfFindLast_loop_absent:
  "uchars cs \<Longrightarrow> ch \<noteq> 0 \<Longrightarrow> ch \<notin> set cs \<Longrightarrow> UtfFindLast_loop sc (utf_string cs) ch pos lst = lst"
proof (induction cs arbitrary: pos)
  case Nil
  then show ?case
    by (simp add: UtfFindLast_loop.simps TclUtfToUniChar_def UniChar_def char_value_def)
next
  case (Cons c cs)
  then show ?case
    by (subst UtfFindLast_loop.simps) (auto simp: utfm.dec_enc rd_UniCharToUtf_lead(2) Let_def)
qed

lemma UtfFindLast_loop_encs:
  "uchars (xs @ ch # ys) \<Longrightarrow> ch \<noteq> 0 \<Longrightarrow> ch \<notin> set ys \<Longrightarrow>
     UtfFindLast_loop sc (utf_string (xs @ ch # ys)) ch pos lst = Some (pos + length (utf_string xs))"
proof (induction xs arbitrary: pos lst)
  case Nil
  then show ?case
    by (subst UtfFindLast_loop.simps)
      (simp add: utfm.dec_enc rd_UniCharToUtf_lead(2) UtfFindLast_loop_absent)
next
  case (Cons c cs)
  then show ?case
    by (subst UtfFindLast_loop.simps) (auto simp: utfm.dec_enc rd_UniCharToUtf_lead(2) Let_def)
qed

lemma char_of_nonzero: "x mod 256 \<noteq> (0::int) \<Longrightarrow> CHR 0x00 \<noteq> char_of x"
  using of_char_zero_iff [of "char_of x"] by auto

lemma no_NUL_UniCharToUtf:
  assumes "uchar ch"
  shows "CHR 0x00 \<notin> set (Tcl_UniCharToUtf ch)"
proof -
  have 1: "CHR 0x00 \<noteq> char_of (0x80 + x mod 64)" for x :: int
    by (rule char_of_nonzero) (simp add: trail_mod(1) add_pos_nonneg)
  have 2: "CHR 0x00 \<noteq> char_of (0xC0 + q)" if "0 \<le> q" "q < 32" for q :: int
    using that by (intro char_of_nonzero) (simp add: lead_mod)
  have 3: "CHR 0x00 \<noteq> char_of (0xE0 + q)" if "0 \<le> q" "q < 16" for q :: int
    using that by (intro char_of_nonzero) (simp add: lead_mod)
  have 4: "CHR 0x00 \<noteq> char_of q" if "0 < q" "q < 128" for q :: int
    using that by (intro char_of_nonzero) simp
  from assms show ?thesis by (cases rule: enc_cases) (simp_all add: 1 2 3 4)
qed

section \<open>What the routines promise\<close>

text \<open>The UTF-8 text of a list of characters, as \<open>Tcl_UniCharToUtfDString\<close> builds it.\<close>

abbreviation utf_of :: "int list \<Rightarrow> string" where
  "utf_of cs \<equiv> fst (Tcl_UniCharToUtfDString cs [])"

lemma utf_of_encs [simp]: "utf_of cs = utf_string cs"
  by (simp add: Tcl_UniCharToUtfDString_def)

text \<open>
  C20. Decoding inverts encoding for every 16-bit character, whatever bytes follow: the
  decoder returns the character and consumes exactly the bytes the encoder wrote, their
  number is what \<open>UtfCount\<close> says, no byte written is NUL, and \<open>Tcl_UtfCharComplete\<close>
  holds for exactly the prefixes that contain them all.
\<close>

theorem utf_char_roundtrip:
  assumes "0 \<le> ch" and "ch \<le> 0xFFFF"
  shows "Tcl_UtfToUniChar (Tcl_UniCharToUtf ch @ rest) = (ch, length (Tcl_UniCharToUtf ch))
    \<and> int (length (Tcl_UniCharToUtf ch)) = UtfCount ch
    \<and> CHR 0x00 \<notin> set (Tcl_UniCharToUtf ch)
    \<and> (Tcl_UtfCharComplete (Tcl_UniCharToUtf ch) n \<longleftrightarrow> UtfCount ch \<le> n)"
proof -
  have u: "uchar ch" using assms by simp
  have "CHR 0x00 \<notin> set (Tcl_UniCharToUtf ch)"
    using u by (rule no_NUL_UniCharToUtf)
  moreover have "int (totalBytes (rd (Tcl_UniCharToUtf ch) 0)) = UtfCount ch"
    using u by (cases rule: enc_cases) (simp_all add: totalBytes_def UtfCount_def lead_mod)
  ultimately show ?thesis
    using decode_encode [OF u] length_UniCharToUtf [OF u] by (simp add: Tcl_UtfCharComplete_def)
qed

theorem utf_char_roundtrip_witness:
  "Tcl_UtfToUniChar (Tcl_UniCharToUtf 0x20AC @ ''x'') = (0x20AC, length (Tcl_UniCharToUtf 0x20AC))"
  using utf_char_roundtrip [where ch = "0x20AC" and rest = "''x''" and n = "3"] by simp

text \<open>
  C21. Strings: converting a string of 16-bit characters to UTF-8 and back gives it again,
  appended to what the target already held, and \<open>Tcl_NumUtfChars\<close> counts its characters,
  both on a counted buffer and up to the terminator.
\<close>

theorem utf_string_roundtrip:
  assumes "\<forall>ch\<in>set cs. 0 \<le> ch \<and> ch \<le> 0xFFFF"
  shows "Tcl_UtfToUniCharDString sc (utf_of cs @ rest) (int (length (utf_of cs))) ds = (ds @ cs, length ds)
    \<and> Tcl_NumUtfChars sc (utf_of cs @ rest) (int (length (utf_of cs))) = int (length cs)
    \<and> Tcl_NumUtfChars sc (utf_of cs) (- 1) = int (length cs)"
  using assms
  by (simp add: Tcl_UtfToUniCharDString_def Tcl_NumUtfChars_def UtfToUniChar_loop_encs
      NumUtfChars_nul_encs NumUtfChars_counted_encs)

theorem utf_string_roundtrip_witness:
  "Tcl_NumUtfChars True (utf_of [0x41, 0, 0x20AC]) (- 1) = 3"
  using utf_string_roundtrip [of "[0x41, 0, 0x20AC]" True "[]" "[]"] by simp

text \<open>
  C22. Character positions: in UTF-8 text the byte offset of character \<open>n\<close>, the character
  at index \<open>n\<close> and the first and the last occurrence of a character are those of the list of
  characters; \<open>Tcl_UtfNext\<close> and \<open>Tcl_UtfPrev\<close> move between the ends of one character.
\<close>

theorem utf_positions:
  assumes "\<forall>ch\<in>set (xs @ c # ys). 0 \<le> ch \<and> ch \<le> 0xFFFF"
  defines "s \<equiv> utf_of (xs @ c # ys)" and "p \<equiv> length (utf_of xs)"
  shows "Tcl_UtfAtIndex sc s (int (length xs)) = Some p
    \<and> Tcl_UniCharAtIndex sc s (int (length xs)) = Some c
    \<and> (c \<noteq> 0 \<and> c \<notin> set xs \<longrightarrow> Tcl_UtfFindFirst sc s c = Some p)
    \<and> (c \<noteq> 0 \<and> c \<notin> set ys \<longrightarrow> Tcl_UtfFindLast sc s c = Some p)
    \<and> Tcl_UtfNext sc s p = p + nat (UtfCount c)
    \<and> Tcl_UtfPrev s (int (p + nat (UtfCount c))) 0 = int p"
proof -
  have u: "uchars xs" "uchar c" "uchars ys" and all: "uchars (xs @ c # ys)" using assms(1) by auto
  have s: "s = utf_string (xs @ c # ys)" and p: "p = length (utf_string xs)"
    by (simp_all add: s_def p_def)
  have n: "nat (UtfCount c) = length (Tcl_UniCharToUtf c)"
    using length_UniCharToUtf [OF u(2)] by linarith
  have 1: "Tcl_UtfAtIndex sc s (int (length xs)) = Some p"
    using UtfAtIndex_loop_encs [OF all, of "length xs" sc "[]" 0]
    by (simp add: Tcl_UtfAtIndex_def s p)
  have 2: "Tcl_UniCharAtIndex sc s (int (length xs)) = Some c"
    using UniCharAtIndex_loop_encs [OF all, of "length xs" sc "[]" 0]
    by (simp add: Tcl_UniCharAtIndex_def s)
  have 3: "Tcl_UtfFindFirst sc s c = Some p" if h: "c \<noteq> 0 \<and> c \<notin> set xs"
  proof -
    have "takeWhile (\<lambda>a. a \<noteq> c) (xs @ c # ys) = xs"
      using conjunct2 [OF h] by (induction xs) auto
    then show ?thesis
      using UtfFindFirst_loop_encs [OF all, of sc c 0] h
      by (simp only: Tcl_UtfFindFirst_def s p) simp
  qed
  have 4: "Tcl_UtfFindLast sc s c = Some p" if "c \<noteq> 0 \<and> c \<notin> set ys"
    using UtfFindLast_loop_encs [OF all, of sc 0 None] that
    by (simp only: Tcl_UtfFindLast_def s p add_0 simp_thms)
  have 5: "Tcl_UtfNext sc s p = p + nat (UtfCount c)"
    using utfm.dec_enc [OF u(2), of sc "utf_string ys"] by (simp add: Tcl_UtfNext_def s p n)
  have 6: "Tcl_UtfPrev s (int (p + nat (UtfCount c))) 0 = int p"
    using UtfPrev_encoded [OF u(2), of "utf_string xs" "utf_string ys"] by (simp add: s p n)
  from 1 2 3 4 5 6 show ?thesis by blast
qed

theorem utf_positions_witness:
  "Tcl_UtfFindFirst True (utf_of [0x41, 0x20AC, 0x42]) 0x20AC = Some (length (utf_of [0x41]))"
  using utf_positions [where xs = "[0x41]" and c = "0x20AC" and ys = "[0x42]" and sc = "True"] by simp

text \<open>
  The order of UTF-8 text: comparing the bytes with \<open>TclpUtfNcmp2\<close>, over as many bytes
  as both texts have, has the sign of the first difference between the characters (the
  special case for C0 80 is what makes this true for NUL), and comparing by characters
  with \<open>Tcl_UtfNcmp\<close> is \<open>Tcl_UniCharNcmp\<close> on the characters.
\<close>

theorem utf_compare:
  assumes "\<forall>ch\<in>set cs \<union> set ds. 0 \<le> ch \<and> ch \<le> 0xFFFF"
    and "n \<le> length cs" and "n \<le> length ds"
  shows "sgn (TclpUtfNcmp2 (utf_of cs) (utf_of ds) (min (length (utf_of cs)) (length (utf_of ds))))
      = sgn (first_diff cs ds)
    \<and> Tcl_UtfNcmp sc (Some (utf_of cs)) (Some (utf_of ds)) n = Tcl_UniCharNcmp cs ds n"
proof -
  have u: "uchars cs" "uchars ds" using assms(1) by auto
  then show ?thesis
    using Ncmp2_encs [OF u] UtfNcmp_encs [OF u assms(2,3), of sc "[]" "[]"] by simp
qed

theorem utf_compare_witness:
  "sgn (TclpUtfNcmp2 (utf_of [0x41, 0]) (utf_of [0x41, 1])
     (min (length (utf_of [0x41, 0])) (length (utf_of [0x41, 1])))) = sgn (first_diff [0x41, 0] [0x41, 1])"
  using utf_compare [where cs = "[0x41, 0]" and ds = "[0x41, 1]" and n = "2" and sc = "True"] by simp

text \<open>
  C23. Memory bounds.  On arbitrary bytes, well-formed or not, the decoder consumes at least
  one byte, at most \<open>TCL_UTF_MAX\<close>, and never moves past the terminator.  The conversions of whole
  strings fit, with the terminator, in the room that they reserve, as long as that room can be
  counted in an \<open>int\<close>: the products that compute it overflow otherwise.
\<close>

theorem utf_bounds:
  assumes "3 * (int (length ds) + int (length cs) + 1) \<le> INT_MAX" "2 * (2 * int (length ws) + int n + 1) \<le> INT_MAX"
  shows "0 < snd (Tcl_UtfToUniChar s) \<and> snd (Tcl_UtfToUniChar s) \<le> 3
    \<and> advance (s @ [CHR 0x00]) (snd (Tcl_UtfToUniChar s)) \<noteq> None
    \<and> 0 \<le> fst (Tcl_UtfToUniChar s) \<and> fst (Tcl_UtfToUniChar s) < 65536
    \<and> int (length (fst (Tcl_UniCharToUtfDString cs ds))) + 3 \<le> UniCharToUtf_room cs ds
    \<and> 2 * int (length (fst (Tcl_UtfToUniCharDString sc s (int n) ws)) + 1) \<le> UtfToUniChar_room (int n) ws"
proof -
  have "snd (Tcl_UtfToUniChar s) \<le> Suc (length s)"
    using Tcl_UtfToUniChar_fits [of s] by (cases "s = []") (simp_all add: Tcl_UtfToUniChar_def)
  moreover have "UniCharToUtf_room cs ds = 3 * (int (length ds) + int (length cs) + 1)"
    using assms(1) by (simp add: UniCharToUtf_room_def INT_MAX_def)
  moreover have "UtfToUniChar_room (int n) ws = 2 * (2 * int (length ws) + int n + 1)"
    using assms(2) by (simp add: UtfToUniChar_room_def INT_MAX_def)
  moreover have "length (UtfToUniChar_loop sc s (int n)) \<le> n" using length_UtfToUniChar_loop [of sc s "int n"] by simp
  ultimately show ?thesis
    using Tcl_UtfToUniChar_pos [of s] Tcl_UtfToUniChar_le3 [of s] Tcl_UtfToUniChar_range [of s] length_utf_string_le [of cs]
    by (simp add: advance_def Tcl_UniCharToUtfDString_def Tcl_UtfToUniCharDString_def)
qed

theorem utf_bounds_witness:
  "snd (Tcl_UtfToUniChar [CHR 0xE2, CHR 0x82]) \<le> 3
    \<and> int (length (fst (Tcl_UniCharToUtfDString [0x20AC, 0x41] ''x''))) + 3 \<le> UniCharToUtf_room [0x20AC, 0x41] ''x''
    \<and> 2 * int (length (fst (Tcl_UtfToUniCharDString True [CHR 0xE2, CHR 0x82] 2 [0x41])) + 1) \<le> UtfToUniChar_room 2 [0x41]"
  using utf_bounds [of "''x''" "[0x20AC, 0x41]" "[0x41]" 2 "[CHR 0xE2, CHR 0x82]" True] by (simp add: INT_MAX_def)

text \<open>A string of 800 million characters is given a room that its UTF-8 form need not fit in.\<close>

lemma utf_room_overflow: "length cs = 800000000 \<Longrightarrow> UniCharToUtf_room cs [] = 0"
  by (simp add: UniCharToUtf_room_def int32_def)

text \<open>
  The macro \<open>TclUtfToUniChar\<close> and the routine it stands for: they agree whenever
  \<open>char\<close> is unsigned or the first byte is not a naked trail byte; with a signed \<open>char\<close> a
  naked trail byte becomes a character above 0xFF00 in the macro, itself in the routine.
\<close>

theorem utf_macro_divergence:
  "TclUtfToUniChar sc s = (if sc \<and> is_trail (rd s 0) then (0xFF00 + rd s 0, 1) else Tcl_UtfToUniChar s)
    \<and> (is_trail (rd s 0) = (Tcl_UtfToUniChar s = (rd s 0, 1) \<and> 0x80 \<le> rd s 0 \<and> rd s 0 < 0xC0))"
proof -
  have "UniChar (b - 256) = 0xFF00 + b" if "128 \<le> b" "b < 192" for b :: int
  proof -
    have "(b - 256) mod 65536 = (b - 256 + 65536) mod 65536" by (simp only: mod_add_self2)
    with that show ?thesis by (simp add: UniChar_def take_bit_eq_mod)
  qed
  then show ?thesis
    using macro_agrees [of sc s]
    by (auto simp: is_trail_rd TclUtfToUniChar_def char_value_def Tcl_UtfToUniChar_def UniChar_rd)
qed

end
