(* ===== verification/Backslash.thy ===== *)
theory Backslash
  imports Utf
begin

text \<open>
  The character classes and the lexical routines of \<open>tcl8.6/generic/tclParse.c\<close> that lists
  and scripts share: white space, hexadecimal digits and backslash sequences; and
  \<open>Tcl_UtfBackslash\<close> of \<open>tclUtf.c\<close>.  A counted buffer is the list \<open>src\<close> of the bytes
  that follow the pointer, with the number \<open>numBytes\<close> of those that may be read.
\<close>

section \<open>Character classes\<close>

definition TYPE_NORMAL :: int where "TYPE_NORMAL = 0"
definition TYPE_SPACE :: int where "TYPE_SPACE = 0x1"
definition TYPE_COMMAND_END :: int where "TYPE_COMMAND_END = 0x2"
definition TYPE_SUBS :: int where "TYPE_SUBS = 0x4"
definition TYPE_QUOTE :: int where "TYPE_QUOTE = 0x8"
definition TYPE_CLOSE_PAREN :: int where "TYPE_CLOSE_PAREN = 0x10"
definition TYPE_CLOSE_BRACK :: int where "TYPE_CLOSE_BRACK = 0x20"
definition TYPE_BRACE :: int where "TYPE_BRACE = 0x40"

lemmas TYPE_defs = TYPE_NORMAL_def TYPE_SPACE_def TYPE_COMMAND_END_def TYPE_SUBS_def
  TYPE_QUOTE_def TYPE_CLOSE_PAREN_def TYPE_CLOSE_BRACK_def TYPE_BRACE_def

text \<open>
  The table \<open>tclCharTypeTable\<close> as a function of the character; every byte of 128 and above
  is \<open>TYPE_NORMAL\<close> in both halves of the table.
\<close>

definition CHAR_TYPE :: "char \<Rightarrow> int" where
  "CHAR_TYPE c =
     (if c = CHR 0x00 then TYPE_SUBS
      else if c = CHR 0x09 then TYPE_SPACE
      else if c = CHR 0x0A then TYPE_COMMAND_END
      else if c = CHR 0x0B \<or> c = CHR 0x0C \<or> c = CHR 0x0D \<or> c = CHR '' '' then TYPE_SPACE
      else if c = CHR 0x22 then TYPE_QUOTE
      else if c = CHR ''$'' then TYPE_SUBS
      else if c = CHR '')'' then TYPE_CLOSE_PAREN
      else if c = CHR '';'' then TYPE_COMMAND_END
      else if c = CHR ''['' \<or> c = CHR 0x5C then TYPE_SUBS
      else if c = CHR '']'' then TYPE_CLOSE_BRACK
      else if c = CHR ''{'' \<or> c = CHR ''}'' then TYPE_BRACE
      else TYPE_NORMAL)"

definition TclIsSpaceProc :: "char \<Rightarrow> bool" where
  "TclIsSpaceProc byte \<longleftrightarrow> CHAR_TYPE byte AND TYPE_SPACE \<noteq> 0 \<or> byte = CHR 0x0A"

lemma TclIsSpaceProc_iff:
  "TclIsSpaceProc c \<longleftrightarrow> c = CHR 0x09 \<or> c = CHR 0x0A \<or> c = CHR 0x0B \<or> c = CHR 0x0C \<or> c = CHR 0x0D
     \<or> c = CHR '' ''"
  by (simp add: TclIsSpaceProc_def CHAR_TYPE_def TYPE_defs)

text \<open>A \<open>char\<close> of 128 and above is negative or large, so never a bareword byte.\<close>

definition TclIsBareword :: "char \<Rightarrow> bool" where
  "TclIsBareword c =
     (let byte = (of_char c :: int) in
      if byte < 48 \<or> byte > 122 then False
      else if byte \<le> 57 \<or> byte \<ge> 97 then True
      else if byte = 95 then True
      else if byte < 65 \<or> byte > 90 then False
      else True)"

section \<open>White space between words\<close>

text \<open>
  \<open>ParseWhiteSpace\<close> returns the number of bytes scanned, the type of the character that
  ended the run, and whether it set \<open>*incompletePtr\<close>.  The inner loop only assigns
  \<open>type\<close> when a byte is left.
\<close>

fun skip_spaces :: "string \<Rightarrow> nat \<Rightarrow> int \<Rightarrow> nat \<Rightarrow> string \<times> nat \<times> int \<times> nat" where
  "skip_spaces p 0 type k = (p, 0, type, k)"
| "skip_spaces p (Suc n) type k =
     (let type = CHAR_TYPE (char_of (rd p 0)) in
      if type AND TYPE_SPACE \<noteq> 0 then skip_spaces (drop 1 p) n type (k + 1)
      else (p, Suc n, type, k))"

lemma skip_spaces_le:
  "skip_spaces p n type k = (p', n', type', k') \<Longrightarrow> n' \<le> n \<and> k' + n' = k + n \<and> p' = drop (k' - k) p"
proof (induction n arbitrary: p type k)
  case (Suc n)
  show ?case
  proof (cases "CHAR_TYPE (char_of (rd p 0)) AND TYPE_SPACE \<noteq> 0")
    case True
    with Suc.prems have "skip_spaces (drop 1 p) n (CHAR_TYPE (char_of (rd p 0))) (k + 1) = (p', n', type', k')"
      by simp
    from Suc.IH [OF this] have "n' \<le> n" "k' + n' = (k + 1) + n" "p' = drop (k' - (k + 1) + 1) p"
      by simp_all
    moreover from this have "k' - (k + 1) + 1 = k' - k" by simp
    ultimately show ?thesis by simp
  next
    case False
    with Suc.prems show ?thesis by auto
  qed
qed simp

function ParseWhiteSpace_loop :: "string \<Rightarrow> nat \<Rightarrow> int \<Rightarrow> nat \<Rightarrow> nat \<times> int \<times> bool" where
  "ParseWhiteSpace_loop p numBytes type k =
     (let (p, n, type, k) = skip_spaces p numBytes type k in
      if n \<noteq> 0 \<and> type AND TYPE_SUBS \<noteq> 0 then
        (if rd p 0 \<noteq> 92 then (k, type, False)
         else if n - 1 = 0 then (k, type, False)
         else if rd p 1 \<noteq> 10 then (k, type, False)
         else if n - 2 = 0 then (k + 2, type, True)
         else ParseWhiteSpace_loop (drop 2 p) (n - 2) type (k + 2))
      else (k, type, False))"
  by pat_completeness auto
termination
  by (relation "measure (\<lambda>(p, numBytes, type, k). numBytes)") (auto dest!: sym [THEN skip_spaces_le])

declare ParseWhiteSpace_loop.simps [simp del]

definition ParseWhiteSpace :: "string \<Rightarrow> nat \<Rightarrow> nat \<times> int \<times> bool" where
  "ParseWhiteSpace src numBytes = ParseWhiteSpace_loop src numBytes TYPE_NORMAL 0"

lemma ParseWhiteSpace_loop_bounds:
  "k \<le> fst (ParseWhiteSpace_loop p n type k) \<and> fst (ParseWhiteSpace_loop p n type k) \<le> k + n"
proof (induction p n type k rule: ParseWhiteSpace_loop.induct)
  case (1 p n type k)
  obtain p' n' t' k' where s: "skip_spaces p n type k = (p', n', t', k')" by (metis prod_cases4)
  from skip_spaces_le [OF s] have le: "n' \<le> n" "k' + n' = k + n" by auto
  show ?case
  proof (cases "(n' \<noteq> 0 \<and> t' AND TYPE_SUBS \<noteq> 0) \<and> rd p' 0 = 92 \<and> n' - 1 \<noteq> 0 \<and> rd p' 1 = 10 \<and> n' - 2 \<noteq> 0")
    case True
    with 1 [OF s [symmetric] refl refl refl] le show ?thesis
      by (subst ParseWhiteSpace_loop.simps, subst (2) ParseWhiteSpace_loop.simps) (auto simp: s)
  next
    case False
    with le show ?thesis
      by (subst ParseWhiteSpace_loop.simps, subst (2) ParseWhiteSpace_loop.simps) (auto simp: s)
  qed
qed

function ParseAllWhiteSpace_loop :: "string \<Rightarrow> nat \<Rightarrow> nat \<Rightarrow> nat" where
  "ParseAllWhiteSpace_loop p numBytes k =
     (let scanned = fst (ParseWhiteSpace p numBytes);
          p = drop scanned p; n = numBytes - scanned; k = k + scanned
      in if n \<noteq> 0 \<and> rd p 0 = 10
         then (if n - 1 \<noteq> 0 then ParseAllWhiteSpace_loop (drop 1 p) (n - 1) (k + 1) else k + 1)
         else k)"
  by pat_completeness auto
termination
  by (relation "measure (\<lambda>(p, numBytes, k). numBytes)") auto

declare ParseAllWhiteSpace_loop.simps [simp del]

definition TclParseAllWhiteSpace :: "string \<Rightarrow> nat \<Rightarrow> nat" where
  "TclParseAllWhiteSpace src numBytes = ParseAllWhiteSpace_loop src numBytes 0"

section \<open>Hexadecimal digits and backslash sequences\<close>

definition isxdigit :: "int \<Rightarrow> bool" where
  "isxdigit b \<longleftrightarrow> 48 \<le> b \<and> b \<le> 57 \<or> 65 \<le> b \<and> b \<le> 70 \<or> 97 \<le> b \<and> b \<le> 102"

definition isdigit :: "int \<Rightarrow> bool" where
  "isdigit b \<longleftrightarrow> 48 \<le> b \<and> b \<le> 57"

fun ParseHex_loop :: "string \<Rightarrow> nat \<Rightarrow> int \<Rightarrow> nat \<Rightarrow> int \<times> nat" where
  "ParseHex_loop p 0 result k = (result, k)"
| "ParseHex_loop p (Suc numBytes) result k =
     (let digit = rd p 0 in
      if \<not> isxdigit digit \<or> result > 0x10fff then (result, k)
      else let result = push_bit 4 result;
               result = (if digit \<ge> 97 then result OR (10 + digit - 97)
                         else if digit \<ge> 65 then result OR (10 + digit - 65)
                         else result OR (digit - 48))
           in ParseHex_loop (drop 1 p) numBytes result (k + 1))"

definition TclParseHex :: "string \<Rightarrow> nat \<Rightarrow> int \<times> nat" where
  "TclParseHex src numBytes = ParseHex_loop src numBytes 0 0"

text \<open>
  The blanks after a backslash-newline: the body of the \<open>do\<close> loop has run once when
  \<open>count\<close> is 2.
\<close>

function newline_blanks :: "string \<Rightarrow> nat \<Rightarrow> nat \<Rightarrow> nat" where
  "newline_blanks src numBytes count =
     (if count < numBytes \<and> (rd src count = 32 \<or> rd src count = 9)
      then newline_blanks src numBytes (count + 1) else count)"
  by pat_completeness auto
termination
  by (relation "measure (\<lambda>(src, numBytes, count). numBytes - count)") auto

declare newline_blanks.simps [simp del]

text \<open>
  The value of a backslash sequence and the number of bytes it takes; \<open>src\<close> starts with
  the backslash.  Only \<open>case\<close> branches that the code takes for two or more bytes.
\<close>

definition backslash_value :: "string \<Rightarrow> nat \<Rightarrow> int \<times> nat" where
  "backslash_value src numBytes =
     (let c = rd src 1 in
      if c = 97 then (0x7, 2)
      else if c = 98 then (0x8, 2)
      else if c = 102 then (0xc, 2)
      else if c = 110 then (0xa, 2)
      else if c = 114 then (0xd, 2)
      else if c = 116 then (0x9, 2)
      else if c = 118 then (0xb, 2)
      else if c = 120 then
        (let (result, k) = TclParseHex (drop 2 src) (if numBytes > 3 then 2 else numBytes - 2) in
         if k = 0 then (120, 2) else (result AND 0xFF, 2 + k))
      else if c = 117 then
        (let (result, k) = TclParseHex (drop 2 src) (if numBytes > 5 then 4 else numBytes - 2) in
         if k = 0 then (117, 2) else (result, 2 + k))
      else if c = 85 then
        (let (result, k) = TclParseHex (drop 2 src) (if numBytes > 9 then 8 else numBytes - 2) in
         if k = 0 then (85, 2) else (result, 2 + k))
      else if c = 10 then (32, newline_blanks src numBytes 2)
      else if c = 0 then (92, 1)
      else if isdigit c \<and> c < 56 then
        (let result = c - 48 in
         if numBytes = 2 \<or> \<not> isdigit (rd src 2) \<or> rd src 2 \<ge> 56 then (result, 2)
         else let result = push_bit 3 result + (rd src 2 - 48) in
           if numBytes = 3 \<or> \<not> isdigit (rd src 3) \<or> rd src 3 \<ge> 56 \<or> result \<ge> 0x20 then (result, 3)
           else ((push_bit 3 result + (rd src 3 - 48)) AND 0xFF, 4))
      else let (unichar, k) =
             (if Tcl_UtfCharComplete (drop 1 src) (int numBytes - 1)
              then Tcl_UtfToUniChar (drop 1 src)
              else Tcl_UtfToUniChar (take (numBytes - 1) (drop 1 src)))
           in (unichar, k + 1))"

text \<open>The bytes written to \<open>dst\<close> and the number stored through \<open>readPtr\<close>.\<close>

definition TclParseBackslash :: "string \<Rightarrow> nat \<Rightarrow> string \<times> nat" where
  "TclParseBackslash src numBytes =
     (if numBytes = 0 then ([], 0)
      else let (result, count) = (if numBytes = 1 then (92, 1) else backslash_value src numBytes)
           in (Tcl_UniCharToUtf result, count))"

definition Tcl_UtfBackslash :: "string \<Rightarrow> string \<times> nat" where
  "Tcl_UtfBackslash src =
     (let (dst, numRead) = TclParseBackslash src 128 in
      if numRead = 128
      then TclParseBackslash src (length (takeWhile (\<lambda>c. c \<noteq> CHR 0x00) src))
      else (dst, numRead))"

section \<open>Bounds\<close>

lemma rd_take [simp]: "i < n \<Longrightarrow> rd (take n s) i = rd s i"
  by (simp add: rd_def)

lemma ParseHex_loop_count:
  "k \<le> snd (ParseHex_loop p n r k) \<and> snd (ParseHex_loop p n r k) \<le> k + n"
proof (induction n arbitrary: p r k)
  case (Suc n)
  have "k + 1 \<le> snd (ParseHex_loop p' n r' (k + 1)) \<and> snd (ParseHex_loop p' n r' (k + 1)) \<le> k + 1 + n"
    for p' r' by (rule Suc.IH)
  then show ?case by (auto simp: Let_def dest: Suc_leD)
qed simp

lemma ParseHex_loop_digits:
  "i < snd (ParseHex_loop p n r k) - k \<Longrightarrow> isxdigit (rd p i)"
proof (induction n arbitrary: p r k i)
  case (Suc n)
  show ?case
  proof (cases "isxdigit (rd p 0) \<and> r \<le> 0x10fff")
    case True
    show ?thesis
    proof (cases i)
      case 0
      with True show ?thesis by simp
    next
      case (Suc j)
      obtain r' where e: "ParseHex_loop p (Suc n) r k = ParseHex_loop (drop 1 p) n r' (k + 1)"
        using True by (simp add: Let_def)
      have "j < snd (ParseHex_loop (drop 1 p) n r' (k + 1)) - (k + 1)"
        using Suc.prems Suc unfolding e by simp
      from Suc.IH [OF this] Suc show ?thesis by (simp add: rd_drop)
    qed
  next
    case False
    with Suc.prems show ?thesis by auto
  qed
qed simp

lemma ParseHex_loop_take:
  "n \<le> m \<Longrightarrow> ParseHex_loop (take m p) n r k = ParseHex_loop p n r k"
proof (induction n arbitrary: m p r k)
  case (Suc n)
  have "drop 1 (take m p) = take (m - 1) (drop 1 p)" by (rule drop_take)
  with Suc show ?case by (simp add: Let_def del: One_nat_def)
qed simp

lemma TclParseHex_count: "snd (TclParseHex p n) \<le> n"
  using ParseHex_loop_count [of 0 p n 0] by (simp add: TclParseHex_def)

lemma TclParseHex_digits: "i < snd (TclParseHex p n) \<Longrightarrow> isxdigit (rd p i)"
  using ParseHex_loop_digits [of i p n 0 0] by (simp add: TclParseHex_def)

lemma TclParseHex_take: "n \<le> m \<Longrightarrow> TclParseHex (take m p) n = TclParseHex p n"
  by (simp add: TclParseHex_def ParseHex_loop_take)

lemma newline_blanks_bounds:
  "c \<le> n \<Longrightarrow> c \<le> newline_blanks src n c \<and> newline_blanks src n c \<le> n"
proof (induction src n c rule: newline_blanks.induct)
  case (1 src n c)
  then show ?case by (subst newline_blanks.simps, subst (2) newline_blanks.simps) auto
qed

lemma newline_blanks_take: "newline_blanks (take n src) n c = newline_blanks src n c"
proof (induction src n c rule: newline_blanks.induct)
  case (1 src n c)
  then show ?case by (subst newline_blanks.simps, subst (2) newline_blanks.simps) auto
qed

lemma UtfToUniChar_totalBytes: "snd (Tcl_UtfToUniChar s) \<le> totalBytes (rd s 0)"
  by (simp add: Tcl_UtfToUniChar_def Let_def totalBytes_def)

lemma UtfToUniChar_take:
  "totalBytes (rd s 0) \<le> m \<Longrightarrow> Tcl_UtfToUniChar (take m s) = Tcl_UtfToUniChar s"
proof -
  assume a: "totalBytes (rd s 0) \<le> m"
  then have "0 < m" by (cases m) (auto simp: totalBytes_def split: if_splits)
  then have "rd (take m s) 0 = rd s 0" by simp
  moreover have "rd (take m s) 1 = rd s 1" if "0xC0 \<le> rd s 0" "rd s 0 < 0xF0"
    using a that by (intro rd_take) (auto simp: totalBytes_def split: if_splits)
  moreover have "rd (take m s) 2 = rd s 2" if "0xE0 \<le> rd s 0" "rd s 0 < 0xF0"
    using a that by (intro rd_take) (auto simp: totalBytes_def split: if_splits)
  ultimately show ?thesis by (simp add: Tcl_UtfToUniChar_def Let_def)
qed

lemma UtfToUniChar_trail:
  "0 < i \<Longrightarrow> i < snd (Tcl_UtfToUniChar s) \<Longrightarrow> is_trail (rd s i)"
proof -
  assume a: "0 < i" "i < snd (Tcl_UtfToUniChar s)"
  with Tcl_UtfToUniChar_le3 [of s] have "i = 1 \<or> i = 2" by linarith
  then show ?thesis
    using a by (elim disjE) (auto simp: Tcl_UtfToUniChar_def Let_def split: if_splits)
qed

lemma UtfToUniChar_small: "snd (Tcl_UtfToUniChar s) = 1 \<Longrightarrow> fst (Tcl_UtfToUniChar s) < 256"
  by (auto simp: Tcl_UtfToUniChar_arith Let_def split: if_splits)

lemma length_enc_2: "0 \<le> ch \<Longrightarrow> ch < 2048 \<Longrightarrow> length (Tcl_UniCharToUtf ch) \<le> 2"
  by (simp add: Tcl_UniCharToUtf_arith)

text \<open>The character after a backslash, decoded within the counted buffer.\<close>

definition escaped_char :: "string \<Rightarrow> nat \<Rightarrow> int \<times> nat" where
  "escaped_char src n =
     (if Tcl_UtfCharComplete (drop 1 src) (int n - 1) then Tcl_UtfToUniChar (drop 1 src)
      else Tcl_UtfToUniChar (take (n - 1) (drop 1 src)))"

lemma escaped_char_bounds:
  assumes "2 \<le> n" and "rd src 1 \<noteq> 0"
  shows "1 \<le> snd (escaped_char src n)" and "snd (escaped_char src n) \<le> n - 1"
    and "length (Tcl_UniCharToUtf (fst (escaped_char src n))) \<le> snd (escaped_char src n) + 1"
    and "0 < i \<Longrightarrow> i < snd (escaped_char src n) \<Longrightarrow> is_trail (rd src (1 + i))"
    and "escaped_char (take n src) n = escaped_char src n"
proof -
  define s where "s = (if Tcl_UtfCharComplete (drop 1 src) (int n - 1) then drop 1 src
    else take (n - 1) (drop 1 src))"
  have e: "escaped_char src n = Tcl_UtfToUniChar s" by (simp add: escaped_char_def s_def)
  have ne: "drop 1 src \<noteq> []" using rd_length_nonzero [OF assms(2)] by simp
  show pos: "1 \<le> snd (escaped_char src n)" using Tcl_UtfToUniChar_pos [of s] by (simp add: e)
  show le: "snd (escaped_char src n) \<le> n - 1"
  proof (cases "Tcl_UtfCharComplete (drop 1 src) (int n - 1)")
    case True
    then have "totalBytes (rd (drop 1 src) 0) \<le> n - 1" using assms(1)
      by (simp add: Tcl_UtfCharComplete_def)
    with UtfToUniChar_totalBytes [of "drop 1 src"] True show ?thesis by (simp add: e s_def)
  next
    case False
    have "take (n - 1) (drop 1 src) \<noteq> []" using ne assms(1) by simp
    from Tcl_UtfToUniChar_fits [OF this] False show ?thesis by (simp add: e s_def)
  qed
  have "length (Tcl_UniCharToUtf (fst (Tcl_UtfToUniChar s))) \<le> 2" if "snd (Tcl_UtfToUniChar s) = 1"
    using that UtfToUniChar_small [of s] Tcl_UtfToUniChar_range [of s] by (intro length_enc_2) auto
  moreover have "length (Tcl_UniCharToUtf (fst (Tcl_UtfToUniChar s))) \<le> 3"
    by (rule length_UniCharToUtf_le3)
  ultimately show "length (Tcl_UniCharToUtf (fst (escaped_char src n))) \<le> snd (escaped_char src n) + 1"
    using pos unfolding e by (cases "snd (Tcl_UtfToUniChar s) = 1") auto
  show "is_trail (rd src (1 + i))" if "0 < i" "i < snd (escaped_char src n)"
  proof -
    have "rd s i = rd src (1 + i)" using that(2) le by (simp add: s_def rd_drop)
    with UtfToUniChar_trail [OF that(1), of s] that(2) show ?thesis by (simp add: e)
  qed
  have t: "drop 1 (take n src) = take (n - 1) (drop 1 src)" by (rule drop_take)
  have r: "rd (take (n - 1) (drop 1 src)) 0 = rd (drop 1 src) 0" using assms(1) by simp
  show "escaped_char (take n src) n = escaped_char src n"
    using UtfToUniChar_take [of "drop 1 src" "n - 1"] assms(1)
    unfolding escaped_char_def t Tcl_UtfCharComplete_def r by auto
qed

text \<open>Bytes that can follow the second byte of a backslash sequence, when that is no newline.\<close>

definition plain_byte :: "int \<Rightarrow> bool" where
  "plain_byte b \<longleftrightarrow> isxdigit b \<or> is_trail b"

lemma backslash_value_bounds:
  assumes "2 \<le> n" and "n \<le> length src" and "backslash_value src n = (v, k)"
  shows "1 \<le> k \<and> k \<le> n \<and> length (Tcl_UniCharToUtf v) \<le> k
    \<and> backslash_value (take n src) n = (v, k)
    \<and> (rd src 1 \<noteq> 10 \<longrightarrow> (\<forall>i. 2 \<le> i \<longrightarrow> i < k \<longrightarrow> plain_byte (rd src i)))"
proof -
  have enc: "length (Tcl_UniCharToUtf ch) \<le> 3" for ch by (rule length_UniCharToUtf_le3)
  have small: "length (Tcl_UniCharToUtf ch) \<le> 2" if "0 \<le> ch" "ch < 2048" for ch
    using that by (rule length_enc_2)
  have one: "length (Tcl_UniCharToUtf 92) = 1" "length (Tcl_UniCharToUtf 32) = 1" by code_simp+
  have r1: "rd (take n src) 1 = rd src 1" using assms(1) by simp
  have t: "drop 2 (take n src) = take (n - 2) (drop 2 src)" by (rule drop_take)
  have hex: "1 \<le> k \<and> k \<le> n \<and> length (Tcl_UniCharToUtf v) \<le> k
      \<and> TclParseHex (drop 2 (take n src)) m = TclParseHex (drop 2 src) m
      \<and> (\<forall>i. 2 \<le> i \<longrightarrow> i < k \<longrightarrow> plain_byte (rd src i))"
    if h: "TclParseHex (drop 2 src) m = (r, j)" "m \<le> n - 2"
      and vk: "(if j = 0 then (d, 2) else (f r, 2 + j)) = (v, k)" and d: "0 \<le> d" "d < 2048"
    for m r j d f
  proof -
    have j: "j \<le> n - 2" using TclParseHex_count [of "drop 2 src" m] h by simp
    have dig: "isxdigit (rd src (2 + i))" if "i < j" for i
      using TclParseHex_digits [of i "drop 2 src" m] that h(1) by (simp add: rd_drop)
    have "plain_byte (rd src i)" if "2 \<le> i" "i < 2 + j" for i
      using dig [of "i - 2"] that le_add_diff_inverse [of 2 i] by (simp add: plain_byte_def)
    moreover have "TclParseHex (drop 2 (take n src)) m = TclParseHex (drop 2 src) m"
      unfolding t using h(2) by (rule TclParseHex_take)
    ultimately show ?thesis
      using vk j assms(1) enc [of "f r"] small [OF d] by (auto split: if_splits)
  qed
  consider (simple) "rd src 1 \<in> {97, 98, 102, 110, 114, 116, 118}" | (x) "rd src 1 = 120"
    | (u) "rd src 1 = 117" | (U) "rd src 1 = 85" | (nl) "rd src 1 = 10" | (nul) "rd src 1 = 0"
    | (oct) "isdigit (rd src 1)" "rd src 1 < 56"
    | (other) "rd src 1 \<notin> {97, 98, 102, 110, 114, 116, 118, 120, 117, 85, 10, 0}"
        "\<not> (isdigit (rd src 1) \<and> rd src 1 < 56)"
    by blast
  then show ?thesis
  proof cases
    case simple
    then have vk: "0 \<le> v \<and> v < 2048 \<and> k = 2" and tk: "backslash_value (take n src) n = (v, k)"
      using assms(3) by (auto simp: backslash_value_def r1 [unfolded One_nat_def])
    with small [of v] assms(1) show ?thesis by auto
  next
    case x
    define m where "m = (if n > 3 then 2 else n - 2)"
    obtain r j where h: "TclParseHex (drop 2 src) m = (r, j)" by force
    have m: "m \<le> n - 2" using assms(1) unfolding m_def by (cases "n > 3") auto
    have vk: "(if j = 0 then (120, 2) else (r AND 0xFF, 2 + j)) = (v, k)"
      using assms(3) x h by (simp add: backslash_value_def m_def)
    have "backslash_value (take n src) n =
        (let (result, k) = TclParseHex (drop 2 (take n src)) m in
         if k = 0 then (120, 2) else (result AND 0xFF, 2 + k))"
      using x by (simp add: backslash_value_def r1 [unfolded One_nat_def] m_def)
    with hex [OF h m, of 120 "\<lambda>x. x AND 0xFF"] vk h show ?thesis by simp
  next
    case u
    define m where "m = (if n > 5 then 4 else n - 2)"
    obtain r j where h: "TclParseHex (drop 2 src) m = (r, j)" by force
    have m: "m \<le> n - 2" using assms(1) unfolding m_def by (cases "n > 5") auto
    have vk: "(if j = 0 then (117, 2) else (r, 2 + j)) = (v, k)"
      using assms(3) u h by (simp add: backslash_value_def m_def)
    have "backslash_value (take n src) n =
        (let (result, k) = TclParseHex (drop 2 (take n src)) m in
         if k = 0 then (117, 2) else (result, 2 + k))"
      using u by (simp add: backslash_value_def r1 [unfolded One_nat_def] m_def)
    with hex [OF h m, of 117 "\<lambda>x. x"] vk h show ?thesis by simp
  next
    case U
    define m where "m = (if n > 9 then 8 else n - 2)"
    obtain r j where h: "TclParseHex (drop 2 src) m = (r, j)" by force
    have m: "m \<le> n - 2" using assms(1) unfolding m_def by (cases "n > 9") auto
    have vk: "(if j = 0 then (85, 2) else (r, 2 + j)) = (v, k)"
      using assms(3) U h by (simp add: backslash_value_def m_def)
    have "backslash_value (take n src) n =
        (let (result, k) = TclParseHex (drop 2 (take n src)) m in
         if k = 0 then (85, 2) else (result, 2 + k))"
      using U by (simp add: backslash_value_def r1 [unfolded One_nat_def] m_def)
    with hex [OF h m, of 85 "\<lambda>x. x"] vk h show ?thesis by simp
  next
    case nl
    then have "v = 32 \<and> k = newline_blanks src n 2"
      using assms(3) by (simp add: backslash_value_def)
    with newline_blanks_bounds [OF assms(1), of src] nl one show ?thesis
      by (simp add: backslash_value_def r1 [unfolded One_nat_def] newline_blanks_take)
  next
    case nul
    with assms show ?thesis using one by (simp add: backslash_value_def r1 [unfolded One_nat_def])
  next
    case oct
    then have c: "48 \<le> rd src 1" "rd src 1 < 56" by (simp_all add: isdigit_def)
    have r2: "rd (take n src) 2 = rd src 2" if "n \<noteq> 2" using that assms(1) by simp
    have r3: "rd (take n src) 3 = rd src 3" if "n \<noteq> 2" "n \<noteq> 3" using that assms(1) by simp
    have oct_value: "backslash_value s n =
        (let result = rd s 1 - 48 in
         if n = 2 \<or> \<not> isdigit (rd s 2) \<or> rd s 2 \<ge> 56 then (result, 2)
         else let result = push_bit 3 result + (rd s 2 - 48) in
           if n = 3 \<or> \<not> isdigit (rd s 3) \<or> rd s 3 \<ge> 56 \<or> result \<ge> 0x20 then (result, 3)
           else ((push_bit 3 result + (rd s 3 - 48)) AND 0xFF, 4))" if "rd s 1 = rd src 1" for s
      using c that unfolding backslash_value_def by (simp add: isdigit_def Let_def)
    have tk: "backslash_value (take n src) n = backslash_value src n"
    proof (cases "n = 2")
      case True
      then show ?thesis unfolding oct_value [OF r1] oct_value [OF refl] r1 by simp
    next
      case n2: False
      show ?thesis
      proof (cases "n = 3")
        case True
        show ?thesis unfolding oct_value [OF r1] oct_value [OF refl] r1 r2 [OF n2] by (simp only: True simp_thms Let_def if_True)
      next
        case False
        show ?thesis unfolding oct_value [OF r1] oct_value [OF refl] r1 r2 [OF n2] r3 [OF n2 False] by (rule refl)
      qed
    qed
    show ?thesis
    proof (cases "n = 2 \<or> \<not> isdigit (rd src 2) \<or> rd src 2 \<ge> 56")
      case True
      then have "v = rd src 1 - 48" "k = 2" using assms(3) unfolding oct_value [OF refl] by (auto simp: Let_def)
      with small [of v] c tk assms show ?thesis by auto
    next
      case False
      then have d2: "plain_byte (rd src 2)" by (simp add: plain_byte_def isxdigit_def isdigit_def)
      have 23: "i = 2 \<or> i = 3" if "2 \<le> i" "i < k" "k \<le> 4" for i using that by linarith
      show ?thesis
      proof (cases "n = 3 \<or> \<not> isdigit (rd src 3) \<or> rd src 3 \<ge> 56
          \<or> push_bit 3 (rd src 1 - 48) + (rd src 2 - 48) \<ge> 0x20")
        case True
        with False have "k = 3" using assms(3) unfolding oct_value [OF refl] by (auto simp: Let_def)
        moreover from this d2 23 have "\<forall>i. 2 \<le> i \<longrightarrow> i < k \<longrightarrow> plain_byte (rd src i)" by fastforce
        ultimately show ?thesis using False enc [of v] tk assms by auto
      next
        case F2: False
        then have d3: "plain_byte (rd src 3)" by (simp add: plain_byte_def isxdigit_def isdigit_def)
        from False F2 have "k = 4" using assms(3) unfolding oct_value [OF refl] by (auto simp: Let_def)
        moreover from this d2 d3 23 have "\<forall>i. 2 \<le> i \<longrightarrow> i < k \<longrightarrow> plain_byte (rd src i)" by fastforce
        ultimately show ?thesis using False F2 enc [of v] tk assms by auto
      qed
    qed
  next
    case other
    then have nz: "rd src 1 \<noteq> 0" by simp
    have b: "backslash_value s n = (fst (escaped_char s n), snd (escaped_char s n) + 1)"
      if "rd s 1 = rd src 1" for s
    proof -
      have F: "(isdigit (rd src 1) \<and> rd src 1 < 56) = False" using other(2) by blast
      show ?thesis using other(1) unfolding backslash_value_def escaped_char_def Let_def that F
        by (simp add: split_beta del: One_nat_def)
    qed
    have vk: "v = fst (escaped_char src n)" "k = snd (escaped_char src n) + 1"
      using b [of src] assms(3) by simp_all
    have "plain_byte (rd src i)" if "2 \<le> i" "i < k" for i
      using escaped_char_bounds(4) [OF assms(1) nz, of "i - 1"] that vk by (simp add: plain_byte_def)
    then show ?thesis
      using escaped_char_bounds(1,2,3,5) [OF assms(1) nz] vk b [OF r1] assms(1) by auto
  qed
qed

text \<open>The facts list parsing uses.\<close>

lemma TclParseBackslash_bounds:
  assumes "1 \<le> n" and "n \<le> length src"
  shows "1 \<le> snd (TclParseBackslash src n)" and "snd (TclParseBackslash src n) \<le> n"
    and "length (fst (TclParseBackslash src n)) \<le> snd (TclParseBackslash src n)"
    and "TclParseBackslash (take n src) n = TclParseBackslash src n"
    and "rd src 1 \<noteq> 10 \<Longrightarrow> 2 \<le> i \<Longrightarrow> i < snd (TclParseBackslash src n) \<Longrightarrow> plain_byte (rd src i)"
proof -
  obtain v k where vk: "backslash_value src n = (v, k)" by force
  have one: "length (Tcl_UniCharToUtf 92) = 1" by code_simp
  have "1 \<le> snd (TclParseBackslash src n) \<and> snd (TclParseBackslash src n) \<le> n
    \<and> length (fst (TclParseBackslash src n)) \<le> snd (TclParseBackslash src n)
    \<and> TclParseBackslash (take n src) n = TclParseBackslash src n
    \<and> (rd src 1 \<noteq> 10 \<longrightarrow> (\<forall>i. 2 \<le> i \<longrightarrow> i < snd (TclParseBackslash src n) \<longrightarrow> plain_byte (rd src i)))"
  proof (cases "n = 1")
    case True
    with one show ?thesis by (simp add: TclParseBackslash_def)
  next
    case False
    with assms(1) have "2 \<le> n" by simp
    from backslash_value_bounds [OF this assms(2) vk] False assms(1) vk show ?thesis
      by (simp add: TclParseBackslash_def)
  qed
  then show "1 \<le> snd (TclParseBackslash src n)" and "snd (TclParseBackslash src n) \<le> n"
    and "length (fst (TclParseBackslash src n)) \<le> snd (TclParseBackslash src n)"
    and "TclParseBackslash (take n src) n = TclParseBackslash src n"
    and "rd src 1 \<noteq> 10 \<Longrightarrow> 2 \<le> i \<Longrightarrow> i < snd (TclParseBackslash src n) \<Longrightarrow> plain_byte (rd src i)"
    by blast+
qed

lemma newline_blanks_ge: "c \<le> newline_blanks src n c"
proof (induction src n c rule: newline_blanks.induct)
  case (1 src n c)
  then show ?case by (subst newline_blanks.simps) auto
qed

lemma length_TclParseBackslash: "length (fst (TclParseBackslash src n)) \<le> 3"
  by (simp add: TclParseBackslash_def split_beta length_UniCharToUtf_le3)

lemma TclParseBackslash_pos: "0 < n \<Longrightarrow> 0 < snd (TclParseBackslash src n)"
proof -
  assume "0 < n"
  have nl: "0 < newline_blanks src n 2"
    by (subst newline_blanks.simps) (use newline_blanks_ge [of 3 src n] in auto)
  have "0 < snd (Tcl_UtfToUniChar s)" for s using Tcl_UtfToUniChar_pos [of s] by simp
  with nl have "0 < snd (backslash_value src n)"
    by (simp add: backslash_value_def Let_def split_beta)
  with \<open>0 < n\<close> show ?thesis by (simp add: TclParseBackslash_def split_beta)
qed

text \<open>The lower-case hexadecimal digit of a number below 16.\<close>

definition hex_digit :: "int \<Rightarrow> char" where
  "hex_digit d = char_of (if d < 10 then 48 + d else 87 + d)"

lemma of_char_char_of_small: "0 \<le> b \<Longrightarrow> b < 256 \<Longrightarrow> (of_char (char_of b) :: int) = b"
  by (simp add: of_char_of)

lemma ParseHex_loop_digit:
  assumes "0 \<le> d" and "d < 16" and "r \<le> 0x10fff"
  shows "ParseHex_loop (hex_digit d # p) (Suc n) r k = ParseHex_loop p n (16 * r + d) (k + 1)"
proof -
  have v: "(of_char (hex_digit d) :: int) = (if d < 10 then 48 + d else 87 + d)"
    unfolding hex_digit_def using assms by (intro of_char_char_of_small) auto
  have "push_bit 4 r OR d = push_bit 4 r + d"
    using assms by (intro or_disjoint_add [of _ 4]) (simp_all add: push_bit_eq_mult)
  with assms v show ?thesis
    by (simp add: Let_def isxdigit_def push_bit_eq_mult algebra_simps)
qed

lemma TclParseHex_four:
  assumes "0 \<le> a" "a < 16" "0 \<le> b" "b < 16" "0 \<le> c" "c < 16" "0 \<le> d" "d < 16"
  shows "TclParseHex (hex_digit a # hex_digit b # hex_digit c # hex_digit d # p) 4
    = (4096 * a + 256 * b + 16 * c + d, 4)"
  using assms by (simp add: TclParseHex_def eval_nat_numeral ParseHex_loop_digit del: ParseHex_loop.simps(2))

lemma TclParseBackslash_four_digits:
  assumes "6 \<le> n" "0 \<le> a" "a < 16" "0 \<le> b" "b < 16" "0 \<le> c" "c < 16" "0 \<le> d" "d < 16"
  shows "TclParseBackslash (CHR 0x5C # CHR ''u'' # hex_digit a # hex_digit b # hex_digit c # hex_digit d # p) n
    = (Tcl_UniCharToUtf (4096 * a + 256 * b + 16 * c + d), 6)"
  using TclParseHex_four [OF assms(2-9)] assms(1) by (simp add: TclParseBackslash_def backslash_value_def)

lemma four_nibbles:
  "x = 16 * y + d \<Longrightarrow> y = 16 * z + c \<Longrightarrow> z = 16 * a + b \<Longrightarrow> 4096 * a + 256 * b + 16 * c + d = (x::int)"
  by simp

section \<open>The properties\<close>

text \<open>
  C24. Memory safety of backslash substitution on arbitrary bytes: for a counted buffer of
  \<open>n\<close> bytes the sequence takes between 1 and \<open>n\<close> of them, what is written to \<open>dst\<close> is at
  most \<open>TCL_UTF_MAX\<close> bytes and never more than the sequence took, so collapsing in place
  or into a buffer of the size of the source cannot overflow; and the result does not
  depend on any byte at or after the limit.
\<close>

theorem backslash_safe:
  assumes "1 \<le> n" and "n \<le> length src"
  shows "1 \<le> snd (TclParseBackslash src n) \<and> snd (TclParseBackslash src n) \<le> n
    \<and> length (fst (TclParseBackslash src n)) \<le> min 3 (snd (TclParseBackslash src n))
    \<and> TclParseBackslash (take n src @ rest) n = TclParseBackslash src n"
proof -
  have "TclParseBackslash (take n src @ rest) n = TclParseBackslash (take n (take n src @ rest)) n"
    using assms by (intro TclParseBackslash_bounds(4) [symmetric]) auto
  also have "\<dots> = TclParseBackslash src n"
    using assms TclParseBackslash_bounds(4) [OF assms] by simp
  finally show ?thesis
    using TclParseBackslash_bounds(1,2,3) [OF assms] length_TclParseBackslash [of src n] by simp
qed

theorem backslash_safe_witness:
  "let src = CHR 0x5C # ''u00e9'' in
     TclParseBackslash src 6 = ([CHR 0xC3, CHR 0xA9], 6)
   \<and> length (fst (TclParseBackslash src 6)) \<le> min 3 (snd (TclParseBackslash src 6))
   \<and> TclParseBackslash (take 6 src @ ''f'') 6 = TclParseBackslash src 6"
proof -
  have "TclParseBackslash (CHR 0x5C # ''u00e9'') 6 = ([CHR 0xC3, CHR 0xA9], 6)" by code_simp
  with backslash_safe [where src = "CHR 0x5C # ''u00e9''" and n = 6 and rest = "''f''"]
  show ?thesis by (simp add: Let_def)
qed

text \<open>
  What the named, octal, hexadecimal and Unicode escapes stand for: the letters
  \<open>a b f n r t v\<close> give their control characters, a backslash-newline with the blanks after
  it gives one space, a lone backslash gives itself, and \<open>\u\<close> with four hexadecimal digits
  gives the UTF-8 form of the character with that number, whatever follows.
\<close>

theorem backslash_values:
  assumes "6 \<le> n" and "0 \<le> ch" and "ch < 65536"
  shows "TclParseBackslash (CHR 0x5C # CHR ''u'' # hex_digit (ch div 4096) # hex_digit (ch div 256 mod 16)
        # hex_digit (ch div 16 mod 16) # hex_digit (ch mod 16) # rest) n = (Tcl_UniCharToUtf ch, 6)
    \<and> map (\<lambda>c. TclParseBackslash (CHR 0x5C # c # rest) n) ''abfnrtv''
      = map (\<lambda>v. ([v], 2)) [CHR 0x07, CHR 0x08, CHR 0x0C, CHR 0x0A, CHR 0x0D, CHR 0x09, CHR 0x0B]
    \<and> TclParseBackslash (CHR 0x5C # rest) 1 = ([CHR 0x5C], 1)
    \<and> fst (TclParseBackslash (CHR 0x5C # CHR 0x0A # rest) n) = '' ''"
proof (intro conjI)
  have digits: "0 \<le> ch div 4096" "ch div 4096 < 16" "0 \<le> ch div 256 mod 16" "ch div 256 mod 16 < 16"
    "0 \<le> ch div 16 mod 16" "ch div 16 mod 16 < 16" "0 \<le> ch mod 16" "ch mod 16 < 16"
    using assms(2,3) by simp_all
  have "4096 * (ch div 4096) + 256 * (ch div 256 mod 16) + 16 * (ch div 16 mod 16) + ch mod 16 = ch"
  proof (rule four_nibbles)
    show "ch = 16 * (ch div 16) + ch mod 16" by simp
    show "ch div 16 = 16 * (ch div 256) + ch div 16 mod 16" using zdiv_zmult2_eq [of 16 ch 16] by simp
    show "ch div 256 = 16 * (ch div 4096) + ch div 256 mod 16" using zdiv_zmult2_eq [of 16 ch 256] by simp
  qed
  then show "TclParseBackslash (CHR 0x5C # CHR ''u'' # hex_digit (ch div 4096) # hex_digit (ch div 256 mod 16)
      # hex_digit (ch div 16 mod 16) # hex_digit (ch mod 16) # rest) n = (Tcl_UniCharToUtf ch, 6)"
    by (simp only: TclParseBackslash_four_digits [OF assms(1) digits])
  have enc: "Tcl_UniCharToUtf 7 = [CHR 0x07]" "Tcl_UniCharToUtf 8 = [CHR 0x08]"
    "Tcl_UniCharToUtf 12 = [CHR 0x0C]" "Tcl_UniCharToUtf 10 = [CHR 0x0A]" "Tcl_UniCharToUtf 13 = [CHR 0x0D]"
    "Tcl_UniCharToUtf 9 = [CHR 0x09]" "Tcl_UniCharToUtf 11 = [CHR 0x0B]" "Tcl_UniCharToUtf 92 = [CHR 0x5C]"
    "Tcl_UniCharToUtf 32 = [CHR 0x20]"
    by code_simp+
  with assms(1) show "map (\<lambda>c. TclParseBackslash (CHR 0x5C # c # rest) n) ''abfnrtv''
      = map (\<lambda>v. ([v], 2)) [CHR 0x07, CHR 0x08, CHR 0x0C, CHR 0x0A, CHR 0x0D, CHR 0x09, CHR 0x0B]"
    "TclParseBackslash (CHR 0x5C # rest) 1 = ([CHR 0x5C], 1)"
    "fst (TclParseBackslash (CHR 0x5C # CHR 0x0A # rest) n) = '' ''"
    by (simp_all add: TclParseBackslash_def backslash_value_def)
qed

theorem backslash_values_witness:
  "TclParseBackslash (CHR 0x5C # ''u20ACx'') 7 = (Tcl_UniCharToUtf 0x20AC, 6)
   \<and> TclParseBackslash (CHR 0x5C # ''u20acx'') 7 = (Tcl_UniCharToUtf 0x20AC, 6)"
proof
  show "TclParseBackslash (CHR 0x5C # ''u20ACx'') 7 = (Tcl_UniCharToUtf 0x20AC, 6)" by code_simp
  have "map hex_digit [2, 0, 10, 12] = ''20ac''" by code_simp
  with backslash_values [where n = 7 and ch = "0x20AC" and rest = "''x''"]
  show "TclParseBackslash (CHR 0x5C # ''u20acx'') 7 = (Tcl_UniCharToUtf 0x20AC, 6)" by simp
qed

end
