(* ===== verification/ListFmt.thy ===== *)
theory ListFmt
  imports Backslash
begin

text \<open>
  The string form of lists, from \<open>tcl8.6/generic/tclUtil.c\<close>: finding the elements of a list
  (\<open>TclMaxListLength\<close>, \<open>FindElement\<close>, \<open>TclCopyAndCollapse\<close>, \<open>Tcl_SplitList\<close>) and formatting
  them (\<open>TclScanElement\<close>, \<open>TclConvertElement\<close>, \<open>Tcl_Merge\<close>).  A length argument of -1, which
  stands for "up to the terminator", is \<open>None\<close>; a \<open>NULL\<close> source takes the branch of the
  empty string and is written \<open>[]\<close> with \<open>None\<close>.
\<close>

section \<open>Counting elements\<close>

text \<open>A run of white space: the inner \<open>do\<close> loop, at the pointer it is left with.\<close>

definition dec_length :: "nat option \<Rightarrow> nat option" where
  "dec_length n = map_option (\<lambda>k. k - 1) n"

definition room :: "string \<Rightarrow> nat \<Rightarrow> nat option \<Rightarrow> nat" where
  "room s i n = (case n of None \<Rightarrow> length s - i | Some k \<Rightarrow> k)"

function skip_run :: "string \<Rightarrow> nat \<Rightarrow> nat option \<Rightarrow> nat \<times> nat option" where
  "skip_run s i n =
     (if n \<noteq> Some 0 \<and> TclIsSpaceProc (chr_at s i) then skip_run s (i + 1) (dec_length n) else (i, n))"
  by pat_completeness auto
termination
  by (relation "measure (\<lambda>(s, i, n). room s i n)")
    (auto simp: room_def dec_length_def chr_at_def TclIsSpaceProc_iff split: option.splits if_splits)

declare skip_run.simps [simp del]

lemma skip_run_room: "skip_run s i n = (i', n') \<Longrightarrow> i \<le> i' \<and> room s i' n' \<le> room s i n"
proof (induction s i n arbitrary: i' n' rule: skip_run.induct)
  case (1 s i n)
  show ?case
  proof (cases "n \<noteq> Some 0 \<and> TclIsSpaceProc (chr_at s i)")
    case True
    with 1 have "i + 1 \<le> i' \<and> room s i' n' \<le> room s (i + 1) (dec_length n)"
      by (simp add: skip_run.simps [of s i n])
    then show ?thesis by (auto simp: room_def dec_length_def split: option.splits)
  next
    case False
    with 1 show ?thesis by (auto simp: skip_run.simps [of s i n])
  qed
qed

text \<open>The outer \<open>while\<close> loop: the count and the position where the scan stopped.\<close>

function MaxListLength_loop :: "string \<Rightarrow> nat \<Rightarrow> nat option \<Rightarrow> int \<Rightarrow> int \<times> nat" where
  "MaxListLength_loop s i n count =
     (if n = Some 0 \<or> n = None \<and> chr_at s i = CHR 0x00 then (count, i)
      else if TclIsSpaceProc (chr_at s i) then
        (let (j, m) = skip_run s (i + 1) (dec_length n) in
         if m = Some 0 \<or> m = None \<and> chr_at s j = CHR 0x00 then (count + 1, j)
         else MaxListLength_loop s (j + 1) (dec_length m) (count + 1))
      else MaxListLength_loop s (i + 1) (dec_length n) count)"
  by pat_completeness auto
termination
proof (relation "measure (\<lambda>(s, i, n, count). room s i n)", goal_cases)
  case (2 s i n count x j m)
  then have "room s j m \<le> room s (i + 1) (dec_length n)" using skip_run_room [of s "i + 1"] by auto
  moreover have "room s (i + 1) (dec_length n) \<le> room s i n"
    by (auto simp: room_def dec_length_def split: option.splits)
  moreover have "room s (j + 1) (dec_length m) < room s j m"
    using 2 by (auto simp: room_def dec_length_def chr_at_def split: option.splits if_splits)
  ultimately show ?case by simp
next
  case (3 s i n count)
  then show ?case
    by (auto simp: room_def dec_length_def chr_at_def split: option.splits if_splits)
qed simp

declare MaxListLength_loop.simps [simp del]

text \<open>
  The count is an \<open>int\<close> in the code; a text whose bytes can be counted in an \<open>int\<close> has at most half
  as many words, so that the count does not wrap (\<open>runs_int\<close>).
\<close>

definition TclMaxListLength :: "string \<Rightarrow> nat option \<Rightarrow> int \<times> nat" where
  "TclMaxListLength bytes numBytes =
     (if numBytes = Some 0 \<or> numBytes = None \<and> chr_at bytes 0 = CHR 0x00 then (0, 0)
      else let (count, i) = MaxListLength_loop bytes 0 numBytes
                 (1 - (if TclIsSpaceProc (chr_at bytes 0) then 1 else 0))
           in (count - (if TclIsSpaceProc (chr_at bytes (i - 1)) then 1 else 0), i))"

section \<open>Finding an element\<close>

text \<open>The message left in the interpreter and the error code.\<close>

type_synonym tcl_error = "string \<times> string list"

definition junk_error :: "string \<Rightarrow> string \<Rightarrow> string \<Rightarrow> string \<Rightarrow> tcl_error" where
  "junk_error typeStr typeCode kind junk =
     (typeStr @ '' element in '' @ kind @ '' followed by '' @ [CHR 0x22] @ junk @ [CHR 0x22]
        @ '' instead of space'',
      [''TCL'', ''VALUE'', typeCode, ''JUNK''])"

definition unmatched_error :: "string \<Rightarrow> string \<Rightarrow> string \<Rightarrow> string \<Rightarrow> tcl_error" where
  "unmatched_error typeStr typeCode kind code =
     (''unmatched open '' @ kind @ '' in '' @ typeStr, [''TCL'', ''VALUE'', typeCode, code])"

text \<open>The bytes from \<open>p\<close> to the next white space, at most twenty of them.\<close>

definition junk_text :: "string \<Rightarrow> nat \<Rightarrow> nat \<Rightarrow> string" where
  "junk_text s limit p = takeWhile (\<lambda>c. \<not> TclIsSpaceProc c) (take (min 20 (limit - p)) (drop p s))"

text \<open>
  One turn of the \<open>while\<close> loop of \<open>FindElement\<close>: it goes on with a new pointer and a new
  state, jumps to \<open>done\<close> with the size found, or fails.
\<close>

record find_state =
  openBraces :: int
  inQuotes :: bool
  literal :: bool

datatype find_step =
    Continue nat find_state
  | Done nat nat bool
  | Fail tcl_error

definition closed_at :: "string \<Rightarrow> nat \<Rightarrow> string \<Rightarrow> string \<Rightarrow> string \<Rightarrow> nat \<Rightarrow> nat \<Rightarrow> bool \<Rightarrow> find_step" where
  "closed_at s limit typeStr typeCode kind p sz lit =
     (if p \<ge> limit \<or> TclIsSpaceProc (chr_at s p) then Done p sz lit
      else Fail (junk_error typeStr typeCode kind (junk_text s limit p)))"

definition FindElement_step ::
  "string \<Rightarrow> nat \<Rightarrow> string \<Rightarrow> string \<Rightarrow> nat \<Rightarrow> nat \<Rightarrow> find_state \<Rightarrow> find_step" where
  "FindElement_step s limit typeStr typeCode elemStart p st =
     (let c = chr_at s p in
      if c = CHR ''{'' then
        Continue (p + 1) (if openBraces st \<noteq> 0 then st\<lparr>openBraces := openBraces st + 1\<rparr> else st)
      else if c = CHR ''}'' then
        (if openBraces st > 1 then Continue (p + 1) (st\<lparr>openBraces := openBraces st - 1\<rparr>)
         else if openBraces st = 1 then
           closed_at s limit typeStr typeCode ''braces'' (p + 1) (p - elemStart) (literal st)
         else Continue (p + 1) st)
      else if c = CHR 0x5C then
        (let st = (if openBraces st = 0 then st\<lparr>literal := False\<rparr> else st);
             numChars = snd (TclParseBackslash (drop p s) (limit - p))
         in Continue (p + (numChars - 1) + 1) st)
      else if c = CHR '' '' \<or> c = CHR 0x0C \<or> c = CHR 0x0A \<or> c = CHR 0x0D \<or> c = CHR 0x09 \<or> c = CHR 0x0B then
        (if openBraces st = 0 \<and> \<not> inQuotes st then Done p (p - elemStart) (literal st)
         else Continue (p + 1) st)
      else if c = CHR 0x22 then
        (if inQuotes st then
           closed_at s limit typeStr typeCode ''quotes'' (p + 1) (p - elemStart) (literal st)
         else Continue (p + 1) st)
      else Continue (p + 1) st)"

lemma FindElement_step_less:
  "FindElement_step s limit typeStr typeCode elemStart p st = Continue p' st' \<Longrightarrow> p < p'"
  by (auto simp: FindElement_step_def closed_at_def Let_def split: if_splits)

function FindElement_loop ::
  "string \<Rightarrow> nat \<Rightarrow> string \<Rightarrow> string \<Rightarrow> nat \<Rightarrow> nat \<Rightarrow> find_state \<Rightarrow> tcl_error + (nat \<times> nat \<times> bool)" where
  "FindElement_loop s limit typeStr typeCode elemStart p st =
     (if p < limit then
        (case FindElement_step s limit typeStr typeCode elemStart p st of
           Continue p' st' \<Rightarrow> FindElement_loop s limit typeStr typeCode elemStart p' st'
         | Done p' sz lit \<Rightarrow> Inr (p', sz, lit)
         | Fail e \<Rightarrow> Inl e)
      else if p = limit then
        (if openBraces st \<noteq> 0 then Inl (unmatched_error typeStr typeCode ''brace'' ''BRACE'')
         else if inQuotes st then Inl (unmatched_error typeStr typeCode ''quote'' ''QUOTE'')
         else Inr (p, p - elemStart, literal st))
      else Inr (p, 0, literal st))"
  by pat_completeness auto
termination
  by (relation "measure (\<lambda>(s, limit, typeStr, typeCode, elemStart, p, st). limit - p)")
    (auto dest: FindElement_step_less)

declare FindElement_loop.simps [simp del]

text \<open>White space before \<open>limit\<close>.\<close>

function skip_space :: "string \<Rightarrow> nat \<Rightarrow> nat \<Rightarrow> nat" where
  "skip_space s limit p = (if p < limit \<and> TclIsSpaceProc (chr_at s p) then skip_space s limit (p + 1) else p)"
  by pat_completeness auto
termination
  by (relation "measure (\<lambda>(s, limit, p). limit - p)") auto

declare skip_space.simps [simp del]

text \<open>The offsets of the element and of the rest of the list, the size and the literal flag.\<close>

definition FindElement ::
  "string \<Rightarrow> nat \<Rightarrow> string \<Rightarrow> string \<Rightarrow> tcl_error + (nat \<times> nat \<times> nat \<times> bool)" where
  "FindElement s limit typeStr typeCode =
     (let p = skip_space s limit 0 in
      if p = limit then Inr (limit, skip_space s limit p, 0, True)
      else let st = \<lparr>openBraces = (if chr_at s p = CHR ''{'' then 1 else 0),
                     inQuotes = (chr_at s p = CHR 0x22), literal = True\<rparr>;
               elemStart = (if chr_at s p = CHR ''{'' \<or> chr_at s p = CHR 0x22 then p + 1 else p)
           in case FindElement_loop s limit typeStr typeCode elemStart elemStart st of
                Inl e \<Rightarrow> Inl e
              | Inr (p, sz, lit) \<Rightarrow> Inr (elemStart, skip_space s limit p, sz, lit))"

definition TclFindElement :: "string \<Rightarrow> nat \<Rightarrow> tcl_error + (nat \<times> nat \<times> nat \<times> bool)" where
  "TclFindElement s listLength = FindElement s listLength ''list'' ''LIST''"

definition TclFindDictElement :: "string \<Rightarrow> nat \<Rightarrow> tcl_error + (nat \<times> nat \<times> nat \<times> bool)" where
  "TclFindDictElement s dictLength = FindElement s dictLength ''dict'' ''DICTIONARY''"

text \<open>
  Copying an element while its backslash sequences are substituted: the bytes written to
  \<open>dst\<close>, without the NUL the routine adds.
\<close>

function TclCopyAndCollapse :: "nat \<Rightarrow> string \<Rightarrow> string" where
  "TclCopyAndCollapse count src =
     (if count > 0 then
        (if chr_at src 0 = CHR 0x5C then
           (let (bytes, numRead) = TclParseBackslash src count
            in bytes @ TclCopyAndCollapse (count - numRead) (drop numRead src))
         else chr_at src 0 # TclCopyAndCollapse (count - 1) (drop 1 src))
      else [])"
  by pat_completeness auto
termination
proof (relation "measure fst", goal_cases)
  case (2 count src x bytes numRead)
  with TclParseBackslash_pos [of count src] show ?case by (cases "TclParseBackslash src count") auto
qed auto

declare TclCopyAndCollapse.simps [simp del]

text \<open>
  The loop of \<open>Tcl_SplitList\<close>: \<open>lst\<close> and \<open>len\<close> are the list pointer and the bytes left,
  \<open>argv\<close> the elements stored so far and \<open>p\<close> the bytes used in the block behind the array.
  The routine returns the elements, their number \<open>i\<close> and the bytes used; the writes themselves are
  not stopped at the end of the block, whose size is \<open>SplitList_block\<close>.
\<close>

function SplitList_loop ::
  "string \<Rightarrow> nat \<Rightarrow> int \<Rightarrow> nat \<Rightarrow> string list \<Rightarrow> nat \<Rightarrow> tcl_error + (string list \<times> nat \<times> nat)" where
  "SplitList_loop lst len sz i argv p =
     (if chr_at lst 0 = CHR 0x00 then Inr (argv, i, p)
      else case TclFindElement lst len of
        Inl e \<Rightarrow> Inl e
      | Inr (element, next, elSize, lit) \<Rightarrow>
          if chr_at lst element = CHR 0x00 then Inr (argv, i, p)
          else if int i \<ge> sz then
            Inl (''internal error in Tcl_SplitList'', [''TCL'', ''INTERNAL'', ''Tcl_SplitList''])
          else
            let value = (if lit then take elSize (drop element lst)
                         else TclCopyAndCollapse elSize (drop element lst))
            in SplitList_loop (drop next lst) (len - next) sz (i + 1) (argv @ [value])
                 (p + length value + 1))"
  by pat_completeness auto
termination
  by (relation "measure (\<lambda>(lst, len, sz, i, argv, p). nat (sz - int i))") auto

declare SplitList_loop.simps [simp del]

definition Tcl_SplitList :: "string \<Rightarrow> tcl_error + (string list \<times> nat \<times> nat)" where
  "Tcl_SplitList lst =
     (let (n, len) = TclMaxListLength lst None in SplitList_loop lst len (n + 1) 0 [] 0)"

text \<open>
  The bytes of the array of pointers, behind which the copies are stored, and the argument of
  \<open>ckalloc\<close>, an \<open>unsigned int\<close>.  \<open>size\<close> and \<open>length\<close> are exact for texts of at most \<open>INT_MAX\<close> bytes,
  those that the code is written for.
\<close>

definition SplitList_block :: "string \<Rightarrow> int \<times> int" where
  "SplitList_block lst =
     (let (n, len) = TclMaxListLength lst None; array = 8 * (n + 1)
      in (array, (array + int len + 1) mod 4294967296))"

section \<open>Formatting an element\<close>

definition TCL_DONT_USE_BRACES :: int where "TCL_DONT_USE_BRACES = 1"
definition TCL_DONT_QUOTE_HASH :: int where "TCL_DONT_QUOTE_HASH = 8"
definition CONVERT_NONE :: int where "CONVERT_NONE = 0"
definition CONVERT_BRACE :: int where "CONVERT_BRACE = 2"
definition CONVERT_ESCAPE :: int where "CONVERT_ESCAPE = 4"
definition CONVERT_MASK :: int where "CONVERT_MASK = 6"
definition CONVERT_ANY :: int where "CONVERT_ANY = 16"

lemmas flag_defs = TCL_DONT_USE_BRACES_def TCL_DONT_QUOTE_HASH_def CONVERT_NONE_def CONVERT_BRACE_def
  CONVERT_ESCAPE_def CONVERT_MASK_def CONVERT_ANY_def

text \<open>
  The local variables of \<open>TclScanElement\<close>, compiled with \<open>COMPAT\<close>, and its \<open>while\<close> loop,
  which returns them with the number of bytes scanned.
\<close>

record scan =
  nestingLevel :: int
  forbidNone :: bool
  requireEscape :: bool
  extra :: int
  preferEscape :: bool
  preferBrace :: bool
  braceCount :: int

text \<open>
  One turn of the loop: the local variables after the \<open>switch\<close>, and the number of bytes that
  the turn passes over (a backslash may take the byte after it along).
\<close>

definition last_byte :: "string \<Rightarrow> nat option \<Rightarrow> bool" where
  "last_byte p len \<longleftrightarrow> len = Some 1 \<or> len = None \<and> chr_at p 1 = CHR 0x00"

definition ScanElement_step :: "string \<Rightarrow> nat option \<Rightarrow> scan \<Rightarrow> scan \<times> nat" where
  "ScanElement_step p len v =
     (let c = chr_at p 0 in
      if CHAR_TYPE c \<noteq> TYPE_NORMAL then
        (if c = CHR ''{'' then
           (v\<lparr>braceCount := braceCount v + 1, extra := extra v + 1, nestingLevel := nestingLevel v + 1\<rparr>, 1)
         else if c = CHR ''}'' then
           (v\<lparr>braceCount := braceCount v + 1, extra := extra v + 1, nestingLevel := nestingLevel v - 1,
              requireEscape := (requireEscape v \<or> nestingLevel v - 1 < 0)\<rparr>, 1)
         else if c = CHR '']'' \<or> c = CHR 0x22 then
           (v\<lparr>forbidNone := True, extra := extra v + 1, preferEscape := True\<rparr>, 1)
         else if c \<in> set ''[$; '' \<or> c \<in> set [CHR 0x0C, CHR 0x0A, CHR 0x0D, CHR 0x09, CHR 0x0B] then
           (v\<lparr>forbidNone := True, extra := extra v + 1, preferBrace := True\<rparr>, 1)
         else if c = CHR 0x5C then
           (if last_byte p len then (v\<lparr>extra := extra v + 1, requireEscape := True\<rparr>, 1)
            else if chr_at p 1 = CHR 0x0A then (v\<lparr>extra := extra v + 2, requireEscape := True\<rparr>, 2)
            else if chr_at p 1 = CHR ''{'' \<or> chr_at p 1 = CHR ''}'' \<or> chr_at p 1 = CHR 0x5C then
              (v\<lparr>extra := extra v + 2, forbidNone := True, preferBrace := True\<rparr>, 2)
            else (v\<lparr>extra := extra v + 1, forbidNone := True, preferBrace := True\<rparr>, 1))
         else (v, 1))
      else (v, 1))"

text \<open>The decrement \<open>length -= (length > 0)\<close>, once for each byte passed over.\<close>

definition dec_len :: "nat option \<Rightarrow> nat \<Rightarrow> nat option" where
  "dec_len len n = map_option (\<lambda>k. k - n) len"

lemma ScanElement_step_pos: "snd (ScanElement_step p len v) \<in> {1, 2}"
  by (simp add: ScanElement_step_def Let_def)

function ScanElement_loop :: "string \<Rightarrow> nat option \<Rightarrow> scan \<Rightarrow> nat \<Rightarrow> scan \<times> nat" where
  "ScanElement_loop p len v k =
     (if len = Some 0 \<or> len = None \<and> chr_at p 0 = CHR 0x00 then (v, k)
      else let (v', n) = ScanElement_step p len v
           in ScanElement_loop (drop n p) (dec_len len n) v' (k + n))"
  by pat_completeness auto
termination
proof (relation "measure (\<lambda>(p, len, v, k). room p 0 len)", goal_cases)
  case (2 p len v k x v' n)
  then have "0 < n" using ScanElement_step_pos [of p len v] by (cases "ScanElement_step p len v") auto
  with 2 show ?case
    by (auto simp: room_def dec_len_def chr_at_def split: option.splits if_splits)
qed simp

declare ScanElement_loop.simps [simp del]

text \<open>
  The value stored through \<open>flagPtr\<close> and the number of bytes, a signed 32-bit sum that is
  checked for overflow at the end: \<open>None\<close> is the panic.
\<close>

definition scan_start :: "string \<Rightarrow> scan" where
  "scan_start src =
     (let lead = (chr_at src 0 = CHR ''{'' \<or> chr_at src 0 = CHR 0x22) in
      \<lparr>nestingLevel = 0, forbidNone = lead, requireEscape = False, extra = 0, preferEscape = False,
       preferBrace = lead, braceCount = 0\<rparr>)"

definition hash_room :: "string \<Rightarrow> int \<Rightarrow> bool" where
  "hash_room src flags \<longleftrightarrow> chr_at src 0 = CHR ''#'' \<and> flags AND TCL_DONT_QUOTE_HASH = 0"

definition ScanElement_finish :: "string \<Rightarrow> int \<Rightarrow> scan \<Rightarrow> nat \<Rightarrow> int \<times> int" where
  "ScanElement_finish src flags v k =
     (let requireEscape = (requireEscape v \<or> nestingLevel v \<noteq> 0);
          bytesNeeded = int k
      in if requireEscape then
           (CONVERT_ESCAPE, bytesNeeded + extra v + (if hash_room src flags then 1 else 0))
         else
           let extra = (if flags AND CONVERT_ANY \<noteq> 0 \<and> extra v < 2 then 2 else extra v);
               flags = (if flags AND CONVERT_ANY \<noteq> 0
                        then (flags AND NOT CONVERT_ANY) OR TCL_DONT_USE_BRACES else flags)
           in if forbidNone v then
                (if preferEscape v \<and> \<not> preferBrace v then
                   (CONVERT_MASK,
                    bytesNeeded + (extra - braceCount v) + (if hash_room src flags then 1 else 0)
                      + (if flags AND TCL_DONT_USE_BRACES \<noteq> 0 then braceCount v else 0))
                 else if flags AND TCL_DONT_USE_BRACES \<noteq> 0 then
                   (CONVERT_BRACE, bytesNeeded + extra + (if hash_room src flags then 1 else 0))
                 else (CONVERT_BRACE, bytesNeeded + 2))
              else (CONVERT_NONE, bytesNeeded + (if hash_room src flags then 2 else 0)))"

definition TclScanElement :: "string \<Rightarrow> nat option \<Rightarrow> int \<Rightarrow> (int \<times> int) option" where
  "TclScanElement src len flags =
     (if len = Some 0 \<or> chr_at src 0 = CHR 0x00 \<and> len = None then Some (CONVERT_BRACE, 2)
      else let (v, k) = ScanElement_loop src len (scan_start src) 0;
               (flags, bytesNeeded) = ScanElement_finish src flags v k
           in if int32 bytesNeeded < 0 then None else Some (flags, int32 bytesNeeded))"

definition Tcl_ScanCountedElement :: "string \<Rightarrow> nat option \<Rightarrow> (int \<times> int) option" where
  "Tcl_ScanCountedElement src len = TclScanElement src len CONVERT_ANY"

definition Tcl_ScanElement :: "string \<Rightarrow> (int \<times> int) option" where
  "Tcl_ScanElement src = Tcl_ScanCountedElement src None"

text \<open>The loop that writes escape sequences, and \<open>TclConvertElement\<close>: the bytes written.\<close>

definition escape_char :: "int \<Rightarrow> char \<Rightarrow> string" where
  "escape_char conversion c =
     (if c \<in> set ''][$; '' \<or> c = CHR 0x5C \<or> c = CHR 0x22 then [CHR 0x5C, c]
      else if c = CHR ''{'' \<or> c = CHR ''}'' then
        (if conversion = CONVERT_ESCAPE then [CHR 0x5C, c] else [c])
      else if c = CHR 0x0C then [CHR 0x5C, CHR ''f'']
      else if c = CHR 0x0A then [CHR 0x5C, CHR ''n'']
      else if c = CHR 0x0D then [CHR 0x5C, CHR ''r'']
      else if c = CHR 0x09 then [CHR 0x5C, CHR ''t'']
      else if c = CHR 0x0B then [CHR 0x5C, CHR ''v'']
      else [c])"

function ConvertElement_loop :: "string \<Rightarrow> nat option \<Rightarrow> int \<Rightarrow> string" where
  "ConvertElement_loop src len conversion =
     (if len = Some 0 \<or> len = None \<and> chr_at src 0 = CHR 0x00 then []
      else escape_char conversion (chr_at src 0)
             @ ConvertElement_loop (drop 1 src) (dec_len len 1) conversion)"
  by pat_completeness auto
termination
  by (relation "measure (\<lambda>(p, len, conversion). room p 0 len)")
    (auto simp: room_def dec_len_def chr_at_def split: option.splits if_splits)

declare ConvertElement_loop.simps [simp del]

text \<open>The literal bytes: \<open>memcpy\<close>, or a copy up to the terminator.\<close>

definition counted :: "string \<Rightarrow> nat option \<Rightarrow> string" where
  "counted src len = (case len of None \<Rightarrow> takeWhile (\<lambda>c. c \<noteq> CHR 0x00) src | Some n \<Rightarrow> take n src)"

text \<open>The caller may demand escape sequences rather than braces.\<close>

definition conversion_of :: "int \<Rightarrow> int" where
  "conversion_of flags =
     (if flags AND TCL_DONT_USE_BRACES \<noteq> 0 \<and> flags AND CONVERT_MASK AND CONVERT_BRACE \<noteq> 0
      then CONVERT_ESCAPE else flags AND CONVERT_MASK)"

definition TclConvertElement :: "string \<Rightarrow> nat option \<Rightarrow> int \<Rightarrow> string" where
  "TclConvertElement src len flags =
     (let conversion = conversion_of flags;
          empty = (len = Some 0 \<or> chr_at src 0 = CHR 0x00 \<and> len = None);
          src = (if empty then [] else src);
          len = (if empty then Some 0 else len);
          conversion = (if empty then CONVERT_BRACE else conversion);
          hash = (chr_at src 0 = CHR ''#'' \<and> flags AND TCL_DONT_QUOTE_HASH = 0);
          pre = (if hash \<and> conversion = CONVERT_ESCAPE then [CHR 0x5C, CHR ''#''] else []);
          rest = (if hash \<and> conversion = CONVERT_ESCAPE then drop 1 src else src);
          len = (if hash \<and> conversion = CONVERT_ESCAPE then dec_len len 1 else len);
          conversion = (if hash \<and> conversion \<noteq> CONVERT_ESCAPE then CONVERT_BRACE else conversion)
      in if conversion = CONVERT_NONE then counted rest len
         else if conversion = CONVERT_BRACE then ''{'' @ counted rest len @ ''}''
         else pre @ ConvertElement_loop rest len conversion)"

definition Tcl_ConvertCountedElement :: "string \<Rightarrow> nat option \<Rightarrow> int \<Rightarrow> string" where
  "Tcl_ConvertCountedElement src len flags = TclConvertElement src len flags @ [CHR 0x00]"

definition Tcl_ConvertElement :: "string \<Rightarrow> int \<Rightarrow> string" where
  "Tcl_ConvertElement src flags = Tcl_ConvertCountedElement src None flags"

section \<open>Merging\<close>

text \<open>
  The two passes of \<open>Tcl_Merge\<close>.  The first returns the flags of the elements and the bytes
  they need, or \<open>None\<close> for the panic; the second joins the converted elements.  The result
  is the C string and the size of the block allocated for it.
\<close>

fun Merge_scan :: "nat \<Rightarrow> string list \<Rightarrow> int \<Rightarrow> (int list \<times> int) option" where
  "Merge_scan i [] bytesNeeded = Some ([], bytesNeeded)"
| "Merge_scan i (arg # argv) bytesNeeded =
     (case TclScanElement arg None (if i \<noteq> 0 then TCL_DONT_QUOTE_HASH else 0) of
        None \<Rightarrow> None
      | Some (flag, n) \<Rightarrow>
          (let bytesNeeded = int32 (bytesNeeded + n) in
           if bytesNeeded < 0 then None
           else map_option (\<lambda>(flags, b). (flag # flags, b)) (Merge_scan (i + 1) argv bytesNeeded)))"

fun Merge_convert :: "nat \<Rightarrow> string list \<Rightarrow> int list \<Rightarrow> string" where
  "Merge_convert i (arg # argv) (flag # flags) =
     TclConvertElement arg None (flag OR (if i \<noteq> 0 then TCL_DONT_QUOTE_HASH else 0)) @ '' ''
       @ Merge_convert (i + 1) argv flags"
| "Merge_convert i _ _ = []"

definition Tcl_Merge :: "string list \<Rightarrow> (string \<times> int) option" where
  "Tcl_Merge argv =
     (if argv = [] then Some ([], 1)
      else if length argv > 20 \<and> int (length argv) > 1073741823 then None
      else case Merge_scan 0 argv 0 of
        None \<Rightarrow> None
      | Some (flags, bytesNeeded) \<Rightarrow>
          (if bytesNeeded > INT_MAX - int (length argv) + 1 then None
           else Some (butlast (Merge_convert 0 argv flags), bytesNeeded + int (length argv))))"

section \<open>The loops on well-delimited text\<close>

text \<open>
  Text whose end the loops find where the list ends: with an explicit length, or without
  one and without a NUL.
\<close>

definition fits :: "string \<Rightarrow> nat option \<Rightarrow> bool" where
  "fits s len \<longleftrightarrow> len = Some (length s) \<or> len = None \<and> CHR 0x00 \<notin> set s"

lemma fits_end: "fits s len \<Longrightarrow> (len = Some 0 \<or> len = None \<and> chr_at s 0 = CHR 0x00) = (s = [])"
  by (cases s) (auto simp: fits_def)

lemma fits_drop: "fits s len \<Longrightarrow> n \<le> length s \<Longrightarrow> fits (drop n s) (dec_len len n)"
  by (auto simp: fits_def dec_len_def dest: in_set_dropD)

lemma fits_tl: "fits (c # s) len \<Longrightarrow> fits s (dec_len len 1)"
  using fits_drop [of "c # s" len 1] by simp

lemma fits_counted: "fits s len \<Longrightarrow> counted s len = s"
  by (auto simp: fits_def counted_def takeWhile_eq_all_conv)

lemma fits_last_byte: "fits (c # s) len \<Longrightarrow> last_byte (c # s) len = (s = [])"
  by (cases s) (auto simp: fits_def last_byte_def)

lemma ConvertElement_loop_concat:
  "fits s len \<Longrightarrow> ConvertElement_loop s len conv = concat (map (escape_char conv) s)"
proof (induction s arbitrary: len)
  case Nil
  then show ?case
    unfolding ConvertElement_loop.simps [of "[]" len conv] fits_end [OF Nil.prems] by simp
next
  case (Cons c s)
  from Cons.IH [OF fits_tl [OF Cons.prems]] show ?case
    unfolding ConvertElement_loop.simps [of "c # s" len conv] fits_end [OF Cons.prems] by simp
qed

text \<open>
  When text can be enclosed in braces: \<open>braces s n\<close> is the nesting depth after \<open>s\<close>, starting
  from depth \<open>n\<close>; a close brace too many, a final backslash and a backslash-newline forbid it.
\<close>

definition brace_or_backslash :: "char \<Rightarrow> bool" where
  "brace_or_backslash c \<longleftrightarrow> c = CHR ''{'' \<or> c = CHR ''}'' \<or> c = CHR 0x5C"

fun braces :: "string \<Rightarrow> nat \<Rightarrow> nat option" where
  "braces [] n = Some n"
| "braces (c # s) n =
     (if c = CHR ''{'' then braces s (n + 1)
      else if c = CHR ''}'' then (if n = 0 then None else braces s (n - 1))
      else if c = CHR 0x5C then
        (case s of
           [] \<Rightarrow> None
         | d # s' \<Rightarrow> if d = CHR 0x0A then None
                     else if brace_or_backslash d then braces s' n
                     else braces s n)
      else braces s n)"

text \<open>Characters that need no protection, and the bytes that escaping adds.\<close>

definition special :: "char \<Rightarrow> bool" where
  "special c \<longleftrightarrow> TclIsSpaceProc c \<or> c \<in> set ''][$;'' \<or> c = CHR 0x22 \<or> c = CHR 0x5C"

definition escapes :: "string \<Rightarrow> nat" where
  "escapes s = length (filter (\<lambda>c. special c \<or> c = CHR ''{'' \<or> c = CHR ''}'') s)"

definition brace_chars :: "string \<Rightarrow> nat" where
  "brace_chars s = length (filter (\<lambda>c. c = CHR ''{'' \<or> c = CHR ''}'') s)"

lemma escapes_simps [simp]:
  "escapes [] = 0"
  "escapes (c # s) = (if special c \<or> c = CHR ''{'' \<or> c = CHR ''}'' then 1 else 0) + escapes s"
  by (simp_all add: escapes_def)

lemma brace_chars_simps [simp]:
  "brace_chars [] = 0"
  "brace_chars (c # s) = (if c = CHR ''{'' \<or> c = CHR ''}'' then 1 else 0) + brace_chars s"
  by (simp_all add: brace_chars_def)

text \<open>What one turn of the scan does, with the condition on the character type discharged.\<close>

lemma ScanElement_step_char:
  "ScanElement_step p len v =
     (let c = chr_at p 0 in
      if c = CHR ''{'' then
        (v\<lparr>braceCount := braceCount v + 1, extra := extra v + 1, nestingLevel := nestingLevel v + 1\<rparr>, 1)
      else if c = CHR ''}'' then
        (v\<lparr>braceCount := braceCount v + 1, extra := extra v + 1, nestingLevel := nestingLevel v - 1,
           requireEscape := (requireEscape v \<or> nestingLevel v - 1 < 0)\<rparr>, 1)
      else if c = CHR 0x5C then
        (if last_byte p len then (v\<lparr>extra := extra v + 1, requireEscape := True\<rparr>, 1)
         else if chr_at p 1 = CHR 0x0A then (v\<lparr>extra := extra v + 2, requireEscape := True\<rparr>, 2)
         else if brace_or_backslash (chr_at p 1) then
           (v\<lparr>extra := extra v + 2, forbidNone := True, preferBrace := True\<rparr>, 2)
         else (v\<lparr>extra := extra v + 1, forbidNone := True, preferBrace := True\<rparr>, 1))
      else if c = CHR '']'' \<or> c = CHR 0x22 then
        (v\<lparr>forbidNone := True, extra := extra v + 1, preferEscape := True\<rparr>, 1)
      else if special c then
        (v\<lparr>forbidNone := True, extra := extra v + 1, preferBrace := True\<rparr>, 1)
      else (v, 1))"
  by (auto simp: ScanElement_step_def Let_def CHAR_TYPE_def TYPE_defs special_def TclIsSpaceProc_iff
      brace_or_backslash_def)

lemma ScanElement_loop_Nil:
  assumes "fits [] len"
  shows "ScanElement_loop [] len v k = (v, k)"
  unfolding ScanElement_loop.simps [of "[]" len v k] fits_end [OF assms] by simp

lemma ScanElement_loop_Cons:
  assumes "fits (c # s) len"
  shows "ScanElement_loop (c # s) len v k =
     (let (v', n) = ScanElement_step (c # s) len v
      in ScanElement_loop (drop n (c # s)) (dec_len len n) v' (k + n))"
  unfolding ScanElement_loop.simps [of "c # s" len v k] fits_end [OF assms] by simp

text \<open>What the scan has found out about the text when it ends.\<close>

definition scan_post :: "string \<Rightarrow> scan \<Rightarrow> scan \<Rightarrow> bool" where
  "scan_post s v v' \<longleftrightarrow>
     (requireEscape v \<longrightarrow> requireEscape v') \<and> (forbidNone v \<longrightarrow> forbidNone v')
     \<and> (preferBrace v \<longrightarrow> preferBrace v')
     \<and> extra v' = extra v + int (escapes s)
     \<and> braceCount v \<le> braceCount v' \<and> braceCount v' \<le> braceCount v + int (brace_chars s)
     \<and> (preferEscape v' \<longrightarrow> preferEscape v \<or> brace_chars s < escapes s)
     \<and> (\<not> requireEscape v' \<and> nestingLevel v' = 0 \<and> 0 \<le> nestingLevel v \<longrightarrow>
          braces s (nat (nestingLevel v)) = Some 0)
     \<and> (\<not> requireEscape v' \<and> \<not> forbidNone v' \<longrightarrow> (\<forall>c\<in>set s. \<not> special c))
     \<and> (\<not> preferBrace v' \<longrightarrow> braceCount v' = braceCount v + int (brace_chars s))"

lemma brace_chars_le: "brace_chars s \<le> escapes s"
  by (induction s) auto

lemma special_distinct: "special c \<Longrightarrow> c \<noteq> CHR ''{'' \<and> c \<noteq> CHR ''}''"
  by (auto simp: special_def TclIsSpaceProc_iff)

lemma special_backslash [simp]: "special (CHR 0x5C)" "special (CHR 0x0A)" "special (CHR 0x22)" "special (CHR '']'')"
  by (simp_all add: special_def TclIsSpaceProc_iff)

lemma special_brace [simp]: "\<not> special (CHR ''{'')" "\<not> special (CHR ''}'')"
  by (simp_all add: special_def TclIsSpaceProc_iff)

text \<open>One turn of the scan against one turn of the specification.\<close>

lemma scan_post_open:
  assumes "scan_post t (v\<lparr>braceCount := braceCount v + 1, extra := extra v + 1, nestingLevel := nestingLevel v + 1\<rparr>) v'"
  shows "scan_post (CHR ''{'' # t) v v'"
  using assms by (auto simp: scan_post_def nat_add_distrib)

lemma scan_post_close:
  assumes "scan_post t (v\<lparr>braceCount := braceCount v + 1, extra := extra v + 1, nestingLevel := nestingLevel v - 1,
           requireEscape := (requireEscape v \<or> nestingLevel v - 1 < 0)\<rparr>) v'"
  shows "scan_post (CHR ''}'' # t) v v'"
proof -
  have "nat (nestingLevel v - 1) = nat (nestingLevel v) - 1" by simp
  with assms show ?thesis by (auto simp: scan_post_def)
qed

lemma braces_pair: "brace_or_backslash d \<Longrightarrow> braces (CHR 0x5C # d # u) n = braces u n"
  by (auto simp: brace_or_backslash_def)

lemma scan_post_Cons:
  assumes step: "ScanElement_step (c # t) len v = (v1, n)"
    and lastb: "last_byte (c # t) len = (t = [])"
    and IH: "scan_post (drop n (c # t)) v1 v'"
  shows "scan_post (c # t) v v'"
proof -
  consider (lbrace) "c = CHR ''{''" | (rbrace) "c = CHR ''}''" | (final) "c = CHR 0x5C" "t = []"
    | (newl) u where "c = CHR 0x5C" "t = CHR 0x0A # u"
    | (pair) d u where "c = CHR 0x5C" "t = d # u" "brace_or_backslash d"
    | (single) d u where "c = CHR 0x5C" "t = d # u" "d \<noteq> CHR 0x0A" "\<not> brace_or_backslash d"
    | (quote) "c = CHR '']'' \<or> c = CHR 0x22"
    | (protect) "special c" "c \<noteq> CHR 0x5C" "c \<noteq> CHR '']'' \<and> c \<noteq> CHR 0x22"
    | (plain) "\<not> special c" "c \<noteq> CHR ''{''" "c \<noteq> CHR ''}''"
    by (cases t) auto
  then show ?thesis
  proof cases
    case lbrace
    with step have "n = 1" "v1 = v\<lparr>braceCount := braceCount v + 1, extra := extra v + 1, nestingLevel := nestingLevel v + 1\<rparr>"
      by (auto simp: ScanElement_step_char)
    with IH lbrace show ?thesis by (simp add: scan_post_open)
  next
    case rbrace
    with step have "n = 1" "v1 = v\<lparr>braceCount := braceCount v + 1, extra := extra v + 1, nestingLevel := nestingLevel v - 1,
           requireEscape := (requireEscape v \<or> nestingLevel v - 1 < 0)\<rparr>"
      by (auto simp: ScanElement_step_char)
    with IH rbrace show ?thesis using scan_post_close by simp
  next
    case final
    with step lastb have "n = 1" "v1 = v\<lparr>extra := extra v + 1, requireEscape := True\<rparr>"
      by (auto simp: ScanElement_step_char)
    with IH final show ?thesis by (auto simp: scan_post_def)
  next
    case newl
    with step lastb have "n = 2" "v1 = v\<lparr>extra := extra v + 2, requireEscape := True\<rparr>"
      by (auto simp: ScanElement_step_char)
    with IH newl show ?thesis by (auto simp: scan_post_def)
  next
    case pair
    then have e: "escapes (c # t) = 2 + escapes u" "brace_chars u \<le> brace_chars (c # t)"
      "brace_chars (c # t) \<le> 1 + brace_chars u"
      by (auto simp: brace_or_backslash_def)
    from pair step lastb have "n = 2" "v1 = v\<lparr>extra := extra v + 2, forbidNone := True, preferBrace := True\<rparr>"
      by (auto simp: ScanElement_step_char brace_or_backslash_def)
    with IH pair(1,2) e braces_pair [OF pair(3), of u] brace_chars_le [of u] show ?thesis
      by (auto simp: scan_post_def simp del: braces.simps escapes_simps brace_chars_simps)
  next
    case single
    with step lastb have "n = 1" "v1 = v\<lparr>extra := extra v + 1, forbidNone := True, preferBrace := True\<rparr>"
      by (auto simp: ScanElement_step_char)
    moreover have "escapes (c # t) = 1 + escapes t" "brace_chars (c # t) = brace_chars t"
      "\<And>m. braces (c # t) m = braces t m"
      using single by auto
    ultimately show ?thesis using IH
      by (auto simp: scan_post_def simp del: braces.simps escapes_simps brace_chars_simps)
  next
    case quote
    with step have "n = 1" "v1 = v\<lparr>forbidNone := True, extra := extra v + 1, preferEscape := True\<rparr>"
      by (auto simp: ScanElement_step_char)
    moreover have "escapes (c # t) = 1 + escapes t" "brace_chars (c # t) = brace_chars t"
      "\<And>m. braces (c # t) m = braces t m"
      using quote by auto
    ultimately show ?thesis using IH brace_chars_le [of t]
      by (auto simp: scan_post_def simp del: braces.simps escapes_simps brace_chars_simps)
  next
    case protect
    with step special_distinct [OF protect(1)]
    have "n = 1" "v1 = v\<lparr>forbidNone := True, extra := extra v + 1, preferBrace := True\<rparr>"
      by (auto simp: ScanElement_step_char)
    moreover have "escapes (c # t) = 1 + escapes t" "brace_chars (c # t) = brace_chars t"
      "\<And>m. braces (c # t) m = braces t m"
      using protect special_distinct [OF protect(1)] by auto
    ultimately show ?thesis using IH brace_chars_le [of t]
      by (auto simp: scan_post_def simp del: braces.simps escapes_simps brace_chars_simps)
  next
    case plain
    then have "c \<noteq> CHR 0x5C" "c \<noteq> CHR '']''" "c \<noteq> CHR 0x22" by auto
    with plain step have "n = 1" "v1 = v" by (auto simp: ScanElement_step_char)
    with IH plain \<open>c \<noteq> CHR 0x5C\<close> show ?thesis by (auto simp: scan_post_def)
  qed
qed

lemma ScanElement_loop_post:
  "fits s len \<Longrightarrow> ScanElement_loop s len v k = (v', k') \<Longrightarrow> k' = k + length s \<and> scan_post s v v'"
proof (induction "length s" arbitrary: s len v k rule: less_induct)
  case less
  show ?case
  proof (cases s)
    case Nil
    with less.prems show ?thesis
      using ScanElement_loop_Nil by (auto simp: scan_post_def)
  next
    case (Cons c t)
    with less.prems have fits: "fits (c # t) len" by simp
    obtain v1 n where step: "ScanElement_step (c # t) len v = (v1, n)" by force
    from ScanElement_step_pos [of "c # t" len v] step have n: "n = 1 \<or> n = 2" by auto
    have lastb: "last_byte (c # t) len = (t = [])" by (rule fits_last_byte [OF fits])
    have "n \<le> length (c # t)" using step lastb
      by (cases t) (auto simp: ScanElement_step_char Let_def split: if_splits)
    then have "fits (drop n (c # t)) (dec_len len n)" by (rule fits_drop [OF fits])
    moreover have "ScanElement_loop (drop n (c # t)) (dec_len len n) v1 (k + n) = (v', k')"
      using less.prems(2) ScanElement_loop_Cons [OF fits, of v k] step Cons by simp
    ultimately have IH: "k' = k + n + length (drop n (c # t))" "scan_post (drop n (c # t)) v1 v'"
      using less.hyps [of "drop n (c # t)" "dec_len len n" v1 "k + n"] n Cons by auto
    have k': "k' = k + length s" using IH(1) \<open>n \<le> length (c # t)\<close> Cons by simp
    have "scan_post (c # t) v v'"
      using scan_post_Cons [OF step lastb IH(2)] .
    with k' Cons show ?thesis by simp
  qed
qed

section \<open>The two forms of an element\<close>

text \<open>
  An element stands in braces, or bare: a word without white space in which a backslash
  stands before a character that it only protects or before the letter of a white-space
  character.  \<open>unbare\<close> is the value of such a word.
\<close>

definition unescape :: "char \<Rightarrow> char option" where
  "unescape d =
     (if d \<in> set ''][$; {}#'' \<or> d = CHR 0x5C \<or> d = CHR 0x22 then Some d
      else if d = CHR ''f'' then Some (CHR 0x0C)
      else if d = CHR ''n'' then Some (CHR 0x0A)
      else if d = CHR ''r'' then Some (CHR 0x0D)
      else if d = CHR ''t'' then Some (CHR 0x09)
      else if d = CHR ''v'' then Some (CHR 0x0B)
      else None)"

fun unbare :: "string \<Rightarrow> string option" where
  "unbare [] = Some []"
| "unbare (c # s) =
     (if c = CHR 0x5C then
        (case s of [] \<Rightarrow> None
         | d # s' \<Rightarrow> (case unescape d of None \<Rightarrow> None | Some u \<Rightarrow> map_option ((#) u) (unbare s')))
      else if TclIsSpaceProc c then None
      else map_option ((#) c) (unbare s))"

definition element_text :: "string \<Rightarrow> string \<Rightarrow> bool" where
  "element_text t src \<longleftrightarrow>
     t = ''{'' @ src @ ''}'' \<and> braces src 0 = Some 0
     \<or> t \<noteq> [] \<and> chr_at t 0 \<noteq> CHR ''{'' \<and> chr_at t 0 \<noteq> CHR 0x22 \<and> unbare t = Some src"

abbreviation escaped :: "int \<Rightarrow> string \<Rightarrow> string" where
  "escaped conv s \<equiv> concat (map (escape_char conv) s)"

lemma unbare_escape_char: "unbare (escape_char conv c @ s) = map_option ((#) c) (unbare s)"
proof -
  consider "c \<in> set ''][$; '' \<or> c = CHR 0x5C \<or> c = CHR 0x22" | "c = CHR ''{''" | "c = CHR ''}''" | "c = CHR 0x0C" | "c = CHR 0x0A"
    | "c = CHR 0x0D" | "c = CHR 0x09" | "c = CHR 0x0B"
    | "c \<notin> set ''][$; {}'' \<and> c \<noteq> CHR 0x5C \<and> c \<noteq> CHR 0x22 \<and> \<not> TclIsSpaceProc c"
    by (simp add: TclIsSpaceProc_iff) blast
  then show ?thesis
    by cases (auto simp: escape_char_def unescape_def TclIsSpaceProc_iff)
qed

lemma unbare_escaped: "unbare (escaped conv s) = Some s"
  by (induction s) (simp_all add: unbare_escape_char)

lemma unbare_plain: "\<forall>c\<in>set s. \<not> special c \<Longrightarrow> unbare s = Some s"
  by (induction s) (auto simp: special_def)

lemma escape_char_nonempty [simp]: "escape_char conv c \<noteq> []"
  by (simp add: escape_char_def)

lemma escape_char_lead:
  "conv = CONVERT_ESCAPE \<or> c \<noteq> CHR ''{'' \<Longrightarrow>
     chr_at (escape_char conv c @ s) 0 \<noteq> CHR ''{'' \<and> chr_at (escape_char conv c @ s) 0 \<noteq> CHR 0x22"
  by (auto simp: escape_char_def)

lemma escaped_start:
  assumes "s \<noteq> []" and "conv = CONVERT_ESCAPE \<or> chr_at s 0 \<noteq> CHR ''{''"
  shows "escaped conv s \<noteq> [] \<and> chr_at (escaped conv s) 0 \<noteq> CHR ''{'' \<and> chr_at (escaped conv s) 0 \<noteq> CHR 0x22"
proof -
  obtain c t where s: "s = c # t" using assms(1) by (cases s) auto
  with assms(2) escape_char_lead [of conv c "escaped conv t"] show ?thesis by simp
qed

text \<open>\<open>TclConvertElement\<close> without its early assignments.\<close>

lemma TclConvertElement_Nil:
  assumes "fits [] len"
  shows "TclConvertElement [] len flags = ''{}''"
proof -
  have empty: "(len = Some 0 \<or> chr_at [] 0 = CHR 0x00 \<and> len = None) = True"
    using fits_end [OF assms] by blast
  show ?thesis unfolding TclConvertElement_def empty Let_def
    by (simp add: counted_def CONVERT_BRACE_def CONVERT_ESCAPE_def CONVERT_NONE_def)
qed

lemma TclConvertElement_text:
  assumes "fits src len" and "src \<noteq> []"
  shows "TclConvertElement src len flags =
     (let conv = conversion_of flags; hash = hash_room src flags in
      if conv = CONVERT_ESCAPE then
        (if hash then [CHR 0x5C, CHR ''#''] @ escaped conv (tl src) else escaped conv src)
      else if hash \<or> conv = CONVERT_BRACE then ''{'' @ src @ ''}''
      else if conv = CONVERT_NONE then src
      else escaped conv src)"
proof -
  have empty: "(len = Some 0 \<or> chr_at src 0 = CHR 0x00 \<and> len = None) = False"
    using fits_end [OF assms(1)] assms(2) by blast
  have tl: "fits (tl src) (dec_len len 1)" "drop 1 src = tl src"
    using assms fits_tl [of "hd src" "tl src" len] by (simp_all add: drop_Suc)
  have ne: "CONVERT_ESCAPE \<noteq> CONVERT_NONE" "CONVERT_ESCAPE \<noteq> CONVERT_BRACE" "CONVERT_BRACE \<noteq> CONVERT_NONE"
    by (simp_all add: flag_defs)
  have loops: "ConvertElement_loop src len conv = escaped conv src"
    "ConvertElement_loop (tl src) (dec_len len 1) conv = escaped conv (tl src)" "counted src len = src" for conv
    using ConvertElement_loop_concat [OF assms(1)] ConvertElement_loop_concat [OF tl(1)]
      fits_counted [OF assms(1)] by blast+
  show ?thesis
    unfolding TclConvertElement_def empty hash_room_def [symmetric] Let_def if_False
    by (cases "hash_room src flags"; cases "conversion_of flags = CONVERT_ESCAPE";
        cases "conversion_of flags = CONVERT_BRACE")
      (simp_all only: tl(2) loops ne ne(1) [symmetric] ne(2) [symmetric] HOL.simp_thms if_True if_False append_Nil if_cancel)
qed

text \<open>
  What a successful \<open>TclScanElement\<close> of non-empty text promises: the mode it recommends is
  possible for the text.
\<close>

definition mode_ok :: "string \<Rightarrow> int \<Rightarrow> bool" where
  "mode_ok src f \<longleftrightarrow> f = CONVERT_ESCAPE
     \<or> f \<in> {CONVERT_NONE, CONVERT_BRACE, CONVERT_MASK} \<and> braces src 0 = Some 0
       \<and> (f \<noteq> CONVERT_BRACE \<longrightarrow> chr_at src 0 \<noteq> CHR ''{'' \<and> chr_at src 0 \<noteq> CHR 0x22)
       \<and> (f = CONVERT_NONE \<longrightarrow> (\<forall>c\<in>set src. \<not> special c))"

lemma TclScanElement_text:
  assumes "fits src len" and "src \<noteq> []" and "TclScanElement src len flags = Some (f, n)"
  obtains v m where "scan_post src (scan_start src) v"
    and "ScanElement_finish src flags v (length src) = (f, m)" and "n = int32 m" and "0 \<le> int32 m"
proof -
  have empty: "(len = Some 0 \<or> chr_at src 0 = CHR 0x00 \<and> len = None) = False"
    using fits_end [OF assms(1)] assms(2) by blast
  obtain v k where v: "ScanElement_loop src len (scan_start src) 0 = (v, k)" by force
  from ScanElement_loop_post [OF assms(1) v] have "k = length src" "scan_post src (scan_start src) v" by auto
  with v assms(3) that show thesis
    unfolding TclScanElement_def empty if_False
    by (cases "ScanElement_finish src flags v (length src)") (auto split: if_splits)
qed

lemma ScanElement_finish_mode:
  assumes "scan_post src (scan_start src) v" and "ScanElement_finish src flags v k = (f, m)"
  shows "mode_ok src f"
proof -
  have b: "braces src 0 = Some 0" if "\<not> requireEscape v" "nestingLevel v = 0"
    using assms(1) that by (simp add: scan_post_def scan_start_def Let_def)
  have lead: "chr_at src 0 \<noteq> CHR ''{'' \<and> chr_at src 0 \<noteq> CHR 0x22" if "\<not> preferBrace v \<or> \<not> forbidNone v"
    using assms(1) that by (auto simp: scan_post_def scan_start_def Let_def)
  have plain: "\<forall>c\<in>set src. \<not> special c" if "\<not> requireEscape v" "\<not> forbidNone v"
    using assms(1) that by (simp add: scan_post_def)
  have "f = CONVERT_ESCAPE \<or> \<not> requireEscape v \<and> nestingLevel v = 0
      \<and> (f = CONVERT_MASK \<and> \<not> preferBrace v \<or> f = CONVERT_BRACE \<or> f = CONVERT_NONE \<and> \<not> forbidNone v)"
    using assms(2) by (auto simp: ScanElement_finish_def Let_def split: if_splits)
  then show ?thesis
    using b lead plain by (auto simp: mode_ok_def CONVERT_MASK_def CONVERT_NONE_def CONVERT_BRACE_def)
qed

text \<open>The caller's flags.\<close>

definition caller_flags :: "int set" where
  "caller_flags = {0, TCL_DONT_USE_BRACES, TCL_DONT_QUOTE_HASH, TCL_DONT_USE_BRACES OR TCL_DONT_QUOTE_HASH}"

lemma conversion_of_or:
  assumes "cf \<in> caller_flags"
  shows "conversion_of (CONVERT_ESCAPE OR cf) = CONVERT_ESCAPE"
    and "conversion_of (CONVERT_NONE OR cf) = CONVERT_NONE"
    and "conversion_of (CONVERT_BRACE OR cf) \<in> {CONVERT_BRACE, CONVERT_ESCAPE}"
    and "conversion_of (CONVERT_MASK OR cf) \<in> {CONVERT_MASK, CONVERT_ESCAPE}"
    and "conversion_of (CONVERT_BRACE OR cf) = CONVERT_ESCAPE \<longleftrightarrow> cf AND TCL_DONT_USE_BRACES \<noteq> 0"
    and "conversion_of (CONVERT_MASK OR cf) = CONVERT_ESCAPE \<longleftrightarrow> cf AND TCL_DONT_USE_BRACES \<noteq> 0"
  using assms by (auto simp: caller_flags_def conversion_of_def flag_defs)

lemma hash_room_or:
  assumes "cf \<in> caller_flags" and "f \<in> {CONVERT_NONE, CONVERT_BRACE, CONVERT_ESCAPE, CONVERT_MASK}"
  shows "hash_room src (f OR cf) = hash_room src cf"
  using assms by (auto simp: caller_flags_def hash_room_def flag_defs)

text \<open>Whatever the flags, the text written is an element whose value is the source.\<close>

lemma convert_element_text:
  assumes "fits src len" and "src \<noteq> []" and "mode_ok src f" and "cf \<in> caller_flags"
  shows "element_text (TclConvertElement src len (f OR cf)) src"
proof -
  have esc: "element_text (escaped conv src) src" if "conv = CONVERT_ESCAPE \<or> chr_at src 0 \<noteq> CHR ''{''" for conv
    using escaped_start [OF assms(2) that] unbare_escaped by (simp add: element_text_def)
  have hash: "element_text ([CHR 0x5C, CHR ''#''] @ escaped conv (tl src)) src" if h: "hash_room src (f OR cf)" for conv
  proof -
    obtain t where "src = CHR ''#'' # t" using assms(2) h by (cases src) (auto simp: hash_room_def)
    then show ?thesis using unbare_escaped by (simp add: element_text_def unescape_def)
  qed
  have none: "element_text src src" if "f = CONVERT_NONE"
    using that assms(2,3) unbare_plain by (auto simp: mode_ok_def element_text_def flag_defs)
  have brace: "element_text (''{'' @ src @ ''}'') src" if "f \<noteq> CONVERT_ESCAPE"
    using that assms(3) by (simp add: mode_ok_def element_text_def)
  have conv: "conversion_of (f OR cf) = CONVERT_ESCAPE
      \<or> f \<noteq> CONVERT_ESCAPE \<and> conversion_of (f OR cf) = f"
    using conversion_of_or [OF assms(4)] assms(3) by (auto simp: mode_ok_def flag_defs)
  show ?thesis
    unfolding TclConvertElement_text [OF assms(1,2)] Let_def
    using conv esc hash none brace assms(3) by (auto simp: mode_ok_def flag_defs)
qed

section \<open>The size that the scan promises\<close>

lemma length_escape_char:
  "length (escape_char CONVERT_ESCAPE c) = 1 + (if special c \<or> c = CHR ''{'' \<or> c = CHR ''}'' then 1 else 0)"
  "length (escape_char CONVERT_MASK c) = 1 + (if special c then 1 else 0)"
  by (auto simp: escape_char_def special_def TclIsSpaceProc_iff flag_defs)

lemma length_escaped:
  "length (escaped CONVERT_ESCAPE s) = length s + escapes s"
  "length (escaped CONVERT_MASK s) + brace_chars s = length s + escapes s"
  by (induction s) (use special_distinct in \<open>auto simp: length_escape_char\<close>)

lemma length_convert:
  assumes "fits src len" and "src \<noteq> []" and "mode_ok src f" and "cf \<in> caller_flags"
  shows "length (TclConvertElement src len (f OR cf)) =
    (if f = CONVERT_ESCAPE \<or> f \<noteq> CONVERT_NONE \<and> cf AND TCL_DONT_USE_BRACES \<noteq> 0
     then length src + escapes src + (if hash_room src cf then 1 else 0)
     else if f = CONVERT_BRACE \<or> hash_room src cf then length src + 2
     else if f = CONVERT_NONE then length src
     else length src + escapes src - brace_chars src)"
proof -
  have f: "f \<in> {CONVERT_NONE, CONVERT_BRACE, CONVERT_ESCAPE, CONVERT_MASK}"
    using assms(3) by (auto simp: mode_ok_def)
  have tl: "length (escaped CONVERT_ESCAPE (tl src)) + 1 = length src + escapes src" if h: "hash_room src cf"
  proof -
    have "\<not> special (CHR ''#'')" by (simp add: special_def TclIsSpaceProc_iff)
    then show ?thesis using assms(2) h by (cases src) (auto simp: hash_room_def length_escaped)
  qed
  have conv: "conversion_of (f OR cf) =
    (if f = CONVERT_ESCAPE \<or> f \<noteq> CONVERT_NONE \<and> cf AND TCL_DONT_USE_BRACES \<noteq> 0 then CONVERT_ESCAPE else f)"
    using conversion_of_or [OF assms(4)] f by (auto simp: flag_defs)
  show ?thesis
    unfolding TclConvertElement_text [OF assms(1,2)] Let_def hash_room_or [OF assms(4) f] conv
    using tl length_escaped [of src] f by (auto simp: flag_defs)
qed

lemma escapes_le: "escapes s \<le> length s"
  by (simp add: escapes_def)

lemma escapes_hash: "hash_room s flags \<Longrightarrow> escapes s + 1 \<le> length s"
proof -
  assume "hash_room s flags"
  then obtain t where "s = CHR ''#'' # t" by (cases s) (auto simp: hash_room_def)
  with escapes_le [of t] show ?thesis by (simp add: special_def TclIsSpaceProc_iff)
qed

lemma ScanElement_finish_size:
  assumes fits: "fits src len" and ne: "src \<noteq> []" and post: "scan_post src (scan_start src) v"
    and fin: "ScanElement_finish src flags v (length src) = (f, m)"
    and cf: "cf \<in> caller_flags" "flags = cf \<or> flags = CONVERT_ANY"
  shows "int (length (TclConvertElement src len (f OR cf))) \<le> m" and "m \<le> int (length src) + max 3 (int (length src))"
proof -
  have mode: "mode_ok src f" by (rule ScanElement_finish_mode [OF post fin])
  have e: "extra v = int (escapes src)" "0 \<le> braceCount v" "braceCount v \<le> int (brace_chars src)"
    "preferEscape v \<Longrightarrow> brace_chars src < escapes src"
    using post by (auto simp: scan_post_def scan_start_def Let_def)
  note bounds = escapes_le [of src] escapes_hash [of src cf] escapes_hash [of src TCL_DONT_USE_BRACES] brace_chars_le [of src]
  have any: "hash_room src cf \<Longrightarrow> hash_room src TCL_DONT_USE_BRACES"
    "hash_room src CONVERT_ANY = hash_room src TCL_DONT_USE_BRACES"
    by (simp_all add: hash_room_def flag_defs)
  have small: "cf AND CONVERT_ANY = 0" "CONVERT_ANY AND CONVERT_ANY = CONVERT_ANY"
    "(CONVERT_ANY AND NOT CONVERT_ANY) OR TCL_DONT_USE_BRACES = TCL_DONT_USE_BRACES"
    "TCL_DONT_USE_BRACES AND TCL_DONT_USE_BRACES = TCL_DONT_USE_BRACES" "CONVERT_ANY \<noteq> 0" "TCL_DONT_USE_BRACES \<noteq> 0"
    using cf(1) by (auto simp: caller_flags_def flag_defs)
  have distinct: "CONVERT_ESCAPE \<noteq> CONVERT_MASK" "CONVERT_ESCAPE \<noteq> CONVERT_BRACE" "CONVERT_ESCAPE \<noteq> CONVERT_NONE"
    "CONVERT_MASK \<noteq> CONVERT_BRACE" "CONVERT_MASK \<noteq> CONVERT_NONE" "CONVERT_BRACE \<noteq> CONVERT_NONE"
    by (simp_all add: flag_defs)
  have "int (length (TclConvertElement src len (f OR cf))) \<le> m \<and> m \<le> int (length src) + max 3 (int (length src))"
    using cf(2)
  proof
    assume "flags = cf"
    with fin e bounds show ?thesis
      unfolding length_convert [OF fits ne mode cf(1)] ScanElement_finish_def Let_def small
      by (auto simp: small distinct distinct [symmetric] split: if_splits)
  next
    assume "flags = CONVERT_ANY"
    with fin e bounds any show ?thesis
      unfolding length_convert [OF fits ne mode cf(1)] ScanElement_finish_def Let_def small
      by (auto simp: small distinct distinct [symmetric] split: if_splits)
  qed
  then show "int (length (TclConvertElement src len (f OR cf))) \<le> m" and "m \<le> int (length src) + max 3 (int (length src))"
    by blast+
qed

section \<open>Reading an element back\<close>

lemma UtfToUniChar_ascii: "(of_char c :: int) < 128 \<Longrightarrow> Tcl_UtfToUniChar (c # s) = (of_char c, 1)"
  using UniChar_rd [of "[c]" 0] by (simp add: Tcl_UtfToUniChar_def)

lemma backslash_value_other:
  assumes "b = (of_char d :: int)" and "2 \<le> n" and "0 < b" and "b < 128"
    and "b \<notin> {97, 98, 102, 110, 114, 116, 118, 120, 117, 85, 10}" and "\<not> (isdigit b \<and> b < 56)"
  shows "backslash_value (CHR 0x5C # d # s) n = (b, 2)"
proof -
  have F: "(isdigit b \<and> b < 56) = False" using assms(6) by blast
  have T: "Tcl_UtfCharComplete (d # s) (int n - 1) = True"
    using assms by (simp add: Tcl_UtfCharComplete_def totalBytes_def)
  have U: "Tcl_UtfToUniChar (d # s) = (b, 1)" using UtfToUniChar_ascii [of d s] assms by simp
  have D: "drop 1 (CHR 0x5C # d # s) = d # s" by simp
  have R: "rd (CHR 0x5C # d # s) 1 = b" using assms(1) by simp
  show ?thesis
    unfolding backslash_value_def Let_def R F D T U if_True if_False prod.case
    using assms(3,5) by simp
qed

lemma TclParseBackslash_protected:
  assumes "b = (of_char d :: int)" and "2 \<le> n" and "0 < b" and "b < 128"
    and "b \<notin> {97, 98, 102, 110, 114, 116, 118, 120, 117, 85, 10}" and "\<not> (isdigit b \<and> b < 56)"
  shows "TclParseBackslash (CHR 0x5C # d # s) n = ([d], 2)"
proof -
  have "Tcl_UniCharToUtf b = [char_of b]" using assms by (simp add: Tcl_UniCharToUtf_def)
  then show ?thesis using assms(1,2) backslash_value_other [OF assms] by (simp add: TclParseBackslash_def)
qed

lemma TclParseBackslash_letter:
  assumes "2 \<le> n"
  shows "TclParseBackslash (CHR 0x5C # CHR ''f'' # s) n = ([CHR 0x0C], 2)"
    and "TclParseBackslash (CHR 0x5C # CHR ''n'' # s) n = ([CHR 0x0A], 2)"
    and "TclParseBackslash (CHR 0x5C # CHR ''r'' # s) n = ([CHR 0x0D], 2)"
    and "TclParseBackslash (CHR 0x5C # CHR ''t'' # s) n = ([CHR 0x09], 2)"
    and "TclParseBackslash (CHR 0x5C # CHR ''v'' # s) n = ([CHR 0x0B], 2)"
proof -
  have "Tcl_UniCharToUtf 12 = [CHR 0x0C]" "Tcl_UniCharToUtf 10 = [CHR 0x0A]" "Tcl_UniCharToUtf 13 = [CHR 0x0D]"
    "Tcl_UniCharToUtf 9 = [CHR 0x09]" "Tcl_UniCharToUtf 11 = [CHR 0x0B]"
    by code_simp+
  with assms show "TclParseBackslash (CHR 0x5C # CHR ''f'' # s) n = ([CHR 0x0C], 2)"
    "TclParseBackslash (CHR 0x5C # CHR ''n'' # s) n = ([CHR 0x0A], 2)"
    "TclParseBackslash (CHR 0x5C # CHR ''r'' # s) n = ([CHR 0x0D], 2)"
    "TclParseBackslash (CHR 0x5C # CHR ''t'' # s) n = ([CHR 0x09], 2)"
    "TclParseBackslash (CHR 0x5C # CHR ''v'' # s) n = ([CHR 0x0B], 2)"
    by (simp_all add: TclParseBackslash_def backslash_value_def)
qed

lemma TclParseBackslash_unescape:
  assumes "unescape d = Some u" and "2 \<le> n"
  shows "TclParseBackslash (CHR 0x5C # d # s) n = ([u], 2)"
proof -
  have "d \<in> set (''][$; {}#'' @ [CHR 0x5C, CHR 0x22]) \<and> u = d \<or> d = CHR ''f'' \<and> u = CHR 0x0C
    \<or> d = CHR ''n'' \<and> u = CHR 0x0A \<or> d = CHR ''r'' \<and> u = CHR 0x0D \<or> d = CHR ''t'' \<and> u = CHR 0x09
    \<or> d = CHR ''v'' \<and> u = CHR 0x0B"
    using assms(1) by (auto simp: unescape_def split: if_splits)
  moreover have "TclParseBackslash (CHR 0x5C # d # s) n = ([d], 2)" if "d \<in> set (''][$; {}#'' @ [CHR 0x5C, CHR 0x22])"
    by (rule TclParseBackslash_protected [OF refl assms(2)]) (use that in \<open>auto simp: isdigit_def\<close>)
  ultimately show ?thesis using TclParseBackslash_letter [OF assms(2)] by blast
qed

lemma FindElement_loop_step:
  "p < limit \<Longrightarrow> FindElement_loop s limit ts tc es p st =
     (case FindElement_step s limit ts tc es p st of
        Continue p' st' \<Rightarrow> FindElement_loop s limit ts tc es p' st'
      | Done p' sz lit \<Rightarrow> Inr (p', sz, lit)
      | Fail e \<Rightarrow> Inl e)"
  by (subst FindElement_loop.simps) simp

lemma FindElement_loop_end:
  "FindElement_loop s limit ts tc es limit st =
     (if openBraces st \<noteq> 0 then Inl (unmatched_error ts tc ''brace'' ''BRACE'')
      else if inQuotes st then Inl (unmatched_error ts tc ''quote'' ''QUOTE'')
      else Inr (limit, limit - es, literal st))"
  by (subst FindElement_loop.simps) simp

text \<open>Collapsing a bare word gives its value.\<close>

lemma collapse_bare:
  "unbare t = Some src \<Longrightarrow> TclCopyAndCollapse (length t) (t @ rest) = src"
proof (induction t arbitrary: src rule: unbare.induct)
  case 1
  then show ?case by (simp add: TclCopyAndCollapse.simps [of 0])
next
  case (2 c s)
  show ?case
  proof (cases "c = CHR 0x5C")
    case True
    with 2(3) obtain d s' u src' where s: "s = d # s'" "unescape d = Some u" "unbare s' = Some src'" "src = u # src'"
      by (auto split: list.splits option.splits)
    from 2(1) [OF True s(1,2,3)] s True
      TclParseBackslash_unescape [OF s(2), of "length (c # s)" "s' @ rest"]
    show ?thesis by (simp add: TclCopyAndCollapse.simps [of "Suc (Suc (length s'))"])
  next
    case False
    with 2(3) obtain src' where "unbare s = Some src'" "src = c # src'" "\<not> TclIsSpaceProc c"
      by (auto split: if_splits)
    with 2(2) [OF False] False show ?thesis by (simp add: TclCopyAndCollapse.simps [of "Suc (length s)"])
  qed
qed

text \<open>The scan for the end of a bare word.\<close>

lemma drop_Cons_at: "drop p s = c # t \<Longrightarrow> p < length s \<and> chr_at s p = c \<and> drop (p + 1) s = t"
  by (metis Cons_nth_drop_Suc Suc_eq_plus1 chr_at_def drop_all leI list.distinct(1) list.inject)

definition ends_word :: "string \<Rightarrow> bool" where
  "ends_word rest \<longleftrightarrow> rest = [] \<or> TclIsSpaceProc (chr_at rest 0)"

lemma find_bare:
  assumes "unbare t = Some src" and "drop p s = t @ rest" and "ends_word rest" and "p \<le> length s"
    and "openBraces st = 0" and "\<not> inQuotes st"
  shows "FindElement_loop s (length s) ts tc es p st
    = Inr (p + length t, p + length t - es, literal st \<and> CHR 0x5C \<notin> set t)"
  using assms
proof (induction t arbitrary: src p st rule: unbare.induct)
  case 1
  show ?case
  proof (cases rest)
    case Nil
    with 1 have "p = length s" by simp
    with 1 show ?thesis by (simp add: FindElement_loop_end)
  next
    case (Cons c r)
    with 1 drop_Cons_at [of p s c r] have c: "p < length s" "chr_at s p = c" "TclIsSpaceProc c"
      by (auto simp: ends_word_def)
    then have "FindElement_step s (length s) ts tc es p st = Done p (p - es) (literal st)"
      using 1 by (auto simp: FindElement_step_def TclIsSpaceProc_iff)
    with c show ?thesis by (simp add: FindElement_loop_step)
  qed
next
  case (2 c t)
  note d = drop_Cons_at [of p s c "t @ rest"]
  show ?case
  proof (cases "c = CHR 0x5C")
    case True
    with 2(3) obtain d t' u src' where t: "t = d # t'" "unescape d = Some u" "unbare t' = Some src'"
      by (auto split: list.splits option.splits)
    from d 2(4) have c: "p < length s" "chr_at s p = c" "drop (p + 1) s = t @ rest" by auto
    have l: "length s - p = length (c # t @ rest)" using 2(4) by (metis append_Cons length_drop)
    have "TclParseBackslash (drop p s) (length s - p) = ([u], 2)"
      unfolding l using 2(4) True t TclParseBackslash_unescape [OF t(2), of _ "t' @ rest"] by simp
    then have step: "FindElement_step s (length s) ts tc es p st = Continue (p + 2) (st\<lparr>literal := False\<rparr>)"
      using c True 2(7) by (simp add: FindElement_step_def)
    have "drop (p + 2) s = t' @ rest" using c(3) t(1) by (metis add_2_eq_Suc' drop_Cons_at append_Cons Suc_eq_plus1)
    moreover have "p + 2 \<le> length s" using l t by simp
    ultimately have "FindElement_loop s (length s) ts tc es (p + 2) (st\<lparr>literal := False\<rparr>)
        = Inr (p + 2 + length t', p + 2 + length t' - es, False)"
      using 2(1) [OF True t(1,2,3), of "p + 2" "st\<lparr>literal := False\<rparr>"] 2 by simp
    with c step t True show ?thesis by (simp add: FindElement_loop_step)
  next
    case False
    with 2(3) obtain src' where t: "unbare t = Some src'" "\<not> TclIsSpaceProc c"
      by (auto split: if_splits)
    from d 2(4) have c: "p < length s" "chr_at s p = c" "drop (p + 1) s = t @ rest" by auto
    have "FindElement_step s (length s) ts tc es p st = Continue (p + 1) st"
      using c t(2) False 2(7,8) by (auto simp: FindElement_step_def TclIsSpaceProc_iff)
    moreover have "FindElement_loop s (length s) ts tc es (p + 1) st
        = Inr (p + 1 + length t, p + 1 + length t - es, literal st \<and> CHR 0x5C \<notin> set t)"
      using 2(2) [OF False t(2,1) c(3)] 2 c by simp
    ultimately show ?thesis using c False by (simp add: FindElement_loop_step)
  qed
qed

text \<open>The scan for the close brace, over text that may stand in braces.\<close>

lemma braces_drop:
  "j \<le> length s \<Longrightarrow> \<forall>i<j. \<not> brace_or_backslash (s ! i) \<Longrightarrow> braces s n = braces (drop j s) n"
proof (induction j arbitrary: s)
  case (Suc j)
  then obtain c t where s: "s = c # t" by (cases s) auto
  with Suc.prems have "\<not> brace_or_backslash c" "\<forall>i<j. \<not> brace_or_backslash (t ! i)" by auto
  with s Suc.IH [of t] Suc.prems show ?case by (simp add: brace_or_backslash_def)
qed simp

lemma plain_byte_not_brace: "plain_byte (rd s i) \<Longrightarrow> i < length s \<Longrightarrow> \<not> brace_or_backslash (s ! i)"
  by (auto simp: plain_byte_def rd_def isxdigit_def is_trail_iff brace_or_backslash_def)

text \<open>Where a backslash sequence inside braces ends: before the next brace that counts.\<close>

lemma backslash_in_braces:
  assumes "braces (CHR 0x5C # t) n = Some m"
    and k_def: "k = snd (TclParseBackslash (CHR 0x5C # t @ CHR ''}'' # rest) (length (CHR 0x5C # t @ CHR ''}'' # rest)))"
  shows "1 \<le> k" and "k - 1 \<le> length t" and "braces (drop (k - 1) t) n = Some m"
proof -
  let ?s = "CHR 0x5C # t @ CHR ''}'' # rest"
  obtain d t' where t: "t = d # t'" using assms(1) by (cases t) auto
  have len: "1 \<le> length ?s" "2 \<le> length ?s" using t by simp_all
  note b = TclParseBackslash_bounds [OF len(1) order.refl]
  show k1: "1 \<le> k" using b(1) by (simp add: k_def)
  have nl: "d \<noteq> CHR 0x0A" using assms(1) t by (auto split: if_splits)
  have "k - 1 \<le> length t \<and> braces (drop (k - 1) t) n = Some m"
  proof (cases "brace_or_backslash d")
    case True
    then have "unescape d = Some d" by (auto simp: brace_or_backslash_def unescape_def)
    from TclParseBackslash_unescape [OF this len(2), of "t' @ CHR ''}'' # rest"] t
    have "k = 2" by (simp add: k_def)
    moreover have "braces t' n = Some m"
      using assms(1) nl True braces_pair [OF True, of t' n] unfolding t by (simp del: braces.simps)
    ultimately show ?thesis using t by simp
  next
    case False
    then have bt: "braces t n = Some m" using assms(1) nl t by simp
    have "rd ?s 1 \<noteq> 10"
    proof -
      have "(of_char d :: int) \<noteq> of_char (CHR 0x0A)" using nl by (simp only: of_char_eq_iff) simp
      then show ?thesis using t by simp
    qed
    note plain = b(5) [OF this]
    have p: "\<not> brace_or_backslash ((t @ CHR ''}'' # rest) ! i)" if "i + 1 < k" for i
    proof (cases i)
      case 0
      with t False show ?thesis by simp
    next
      case (Suc j)
      have "i + 1 < length ?s" using that b(2) by (simp add: k_def)
      with plain [of "i + 1"] that Suc plain_byte_not_brace [of ?s "i + 1"] show ?thesis
        by (simp add: k_def)
    qed
    have "k - 1 \<le> length t"
    proof (rule ccontr)
      assume "\<not> k - 1 \<le> length t"
      then have "length t + 1 < k" by linarith
      with p [of "length t"] show False by (simp add: brace_or_backslash_def)
    qed
    moreover have "braces t n = braces (drop (k - 1) t) n"
    proof (rule braces_drop [OF calculation], intro allI impI)
      fix i
      assume "i < k - 1"
      then have "i + 1 < k" "i < length t" using calculation by simp_all
      with p [of i] show "\<not> brace_or_backslash (t ! i)" by (simp add: nth_append)
    qed
    ultimately show ?thesis using bt by simp
  qed
  then show "k - 1 \<le> length t" and "braces (drop (k - 1) t) n = Some m" by blast+
qed

lemma find_braces:
  assumes "braces body n = Some 0" and "drop p s = body @ CHR ''}'' # rest" and "ends_word rest"
    and "openBraces st = 1 + int n" and "\<not> inQuotes st"
  shows "FindElement_loop s (length s) ts tc es p st
    = Inr (p + length body + 1, p + length body - es, literal st)"
  using assms
proof (induction "length body" arbitrary: body p n st rule: less_induct)
  case less
  show ?case
  proof (cases body)
    case Nil
    with less.prems have n: "n = 0" and c: "p < length s" "chr_at s p = CHR ''}''" "drop (p + 1) s = rest"
      using drop_Cons_at [of p s "CHR ''}''" rest] by auto
    have "p + 1 \<ge> length s \<or> TclIsSpaceProc (chr_at s (p + 1))"
      using less.prems(3) c(3) chr_at_drop [of "p + 1" s 0] unfolding ends_word_def by auto
    then have "FindElement_step s (length s) ts tc es p st = Done (p + 1) (p - es) (literal st)"
      using c n less.prems(4) by (simp add: FindElement_step_def closed_at_def)
    with c Nil show ?thesis by (simp add: FindElement_loop_step)
  next
    case (Cons c t)
    then have c: "p < length s" "chr_at s p = c" "drop (p + 1) s = t @ CHR ''}'' # rest"
      using less.prems(2) drop_Cons_at [of p s c "t @ CHR ''}'' # rest"] by auto
    note IH = less.hyps [OF _ _ _ less.prems(3)]
    show ?thesis
    proof (cases "c = CHR 0x5C")
      case True
      define k where "k = snd (TclParseBackslash (drop p s) (length s - p))"
      have l: "length s - p = length (CHR 0x5C # t @ CHR ''}'' # rest)"
        using less.prems(2) Cons True by (metis append_Cons length_drop)
      have k: "k = snd (TclParseBackslash (CHR 0x5C # t @ CHR ''}'' # rest) (length (CHR 0x5C # t @ CHR ''}'' # rest)))"
        unfolding k_def l using less.prems(2) Cons True by simp
      have "braces (CHR 0x5C # t) n = Some 0" using less.prems(1) Cons True by simp
      note b = backslash_in_braces [OF this k]
      have step: "FindElement_step s (length s) ts tc es p st = Continue (p + k) st"
        using c True less.prems(4) b(1) by (simp add: FindElement_step_def k_def [symmetric])
      have "k - 1 + (p + 1) = p + k" using b(1) by simp
      then have "drop (p + k) s = drop (k - 1) (drop (p + 1) s)" by (simp only: drop_drop)
      then have d: "drop (p + k) s = drop (k - 1) t @ CHR ''}'' # rest"
        unfolding c(3) using b(2) by simp
      have "FindElement_loop s (length s) ts tc es (p + k) st
          = Inr (p + k + length (drop (k - 1) t) + 1, p + k + length (drop (k - 1) t) - es, literal st)"
        by (rule IH [OF _ b(3) d less.prems(4,5)]) (simp add: Cons)
      with step c b(1,2) Cons show ?thesis by (simp add: FindElement_loop_step)
    next
      case False
      consider (lbrace) "c = CHR ''{''" | (rbrace) "c = CHR ''}''" | (plain) "c \<noteq> CHR ''{''" "c \<noteq> CHR ''}''"
        by blast
      then obtain m st' where "braces t m = Some 0" "openBraces st' = 1 + int m" "literal st' = literal st"
        and "\<not> inQuotes st'" and "FindElement_step s (length s) ts tc es p st = Continue (p + 1) st'"
      proof cases
        case lbrace
        have "braces t (n + 1) = Some 0" using less.prems(1) Cons lbrace by simp
        moreover have "FindElement_step s (length s) ts tc es p st = Continue (p + 1) (st\<lparr>openBraces := openBraces st + 1\<rparr>)"
          using less.prems(4) lbrace c(2) by (simp add: FindElement_step_def)
        ultimately show thesis using that [of "n + 1" "st\<lparr>openBraces := openBraces st + 1\<rparr>"] less.prems(4,5) by simp
      next
        case rbrace
        have "n \<noteq> 0" "braces t (n - 1) = Some 0" using less.prems(1) Cons rbrace by (auto split: if_splits)
        moreover have "FindElement_step s (length s) ts tc es p st = Continue (p + 1) (st\<lparr>openBraces := openBraces st - 1\<rparr>)"
          using less.prems(4) rbrace c(2) \<open>n \<noteq> 0\<close> by (simp add: FindElement_step_def)
        ultimately show thesis using that [of "n - 1" "st\<lparr>openBraces := openBraces st - 1\<rparr>"] less.prems(4,5) by simp
      next
        case plain
        have "braces t n = Some 0" using less.prems(1) Cons plain False by simp
        moreover have "FindElement_step s (length s) ts tc es p st = Continue (p + 1) st"
          using c(2) plain False less.prems(4,5) by (simp add: FindElement_step_def)
        ultimately show thesis using that [of n st] less.prems(4,5) by simp
      qed
      with IH [of t m "p + 1" st'] c(1,3) Cons show ?thesis by (simp add: FindElement_loop_step)
    qed
  qed
qed

lemma skip_space_bounds: "p \<le> limit \<Longrightarrow> p \<le> skip_space s limit p \<and> skip_space s limit p \<le> limit"
proof (induction s limit p rule: skip_space.induct)
  case (1 s limit p)
  then show ?case by (subst skip_space.simps, subst (2) skip_space.simps) auto
qed

lemma skip_space_drop: "drop (skip_space s (length s) p) s = dropWhile TclIsSpaceProc (drop p s)"
proof (induction s "length s" p rule: skip_space.induct)
  case (1 s p)
  show ?case
  proof (cases "drop p s")
    case Nil
    then show ?thesis by (subst skip_space.simps) simp
  next
    case (Cons c t)
    with 1 drop_Cons_at [OF Cons] show ?thesis by (subst skip_space.simps) auto
  qed
qed

lemma skip_space_stay: "\<not> TclIsSpaceProc (chr_at s p) \<Longrightarrow> skip_space s limit p = p"
  by (subst skip_space.simps) simp

lemma unbare_verbatim: "unbare t = Some src \<Longrightarrow> CHR 0x5C \<notin> set t \<Longrightarrow> src = t"
  by (induction t arbitrary: src rule: unbare.induct) (auto split: if_splits)

lemma unbare_first: "unbare t = Some src \<Longrightarrow> t \<noteq> [] \<Longrightarrow> \<not> TclIsSpaceProc (chr_at t 0)"
  by (cases t) (auto simp: TclIsSpaceProc_iff split: if_splits)

text \<open>The value of the element that \<open>FindElement\<close> located, as its callers compute it.\<close>

definition element_value :: "string \<Rightarrow> nat \<Rightarrow> nat \<Rightarrow> bool \<Rightarrow> string" where
  "element_value s e sz lit = (if lit then take sz (drop e s) else TclCopyAndCollapse sz (drop e s))"

lemma FindElement_text:
  assumes "element_text t src" and "ends_word rest"
  obtains e nxt sz lit where "FindElement (t @ rest) (length (t @ rest)) ts tc = Inr (e, nxt, sz, lit)"
    and "element_value (t @ rest) e sz lit = src" and "drop nxt (t @ rest) = dropWhile TclIsSpaceProc rest"
    and "e < length (t @ rest)" and "0 < nxt" and "nxt \<le> length (t @ rest)"
proof -
  let ?s = "t @ rest"
  consider (brace) "t = ''{'' @ src @ ''}''" "braces src 0 = Some 0"
    | (bare) "t \<noteq> []" "chr_at t 0 \<noteq> CHR ''{''" "chr_at t 0 \<noteq> CHR 0x22" "unbare t = Some src"
    using assms(1) by (auto simp: element_text_def)
  then show thesis
  proof cases
    case brace
    have "skip_space ?s (length ?s) 0 = 0" by (rule skip_space_stay) (simp add: brace TclIsSpaceProc_iff)
    moreover have "FindElement_loop ?s (length ?s) ts tc 1 1 \<lparr>openBraces = 1, inQuotes = False, literal = True\<rparr>
        = Inr (length t, length src, True)"
      using find_braces [OF brace(2), of 1 ?s rest "\<lparr>openBraces = 1, inQuotes = False, literal = True\<rparr>" ts tc 1]
        assms(2) brace(1) by simp
    ultimately have "FindElement ?s (length ?s) ts tc = Inr (1, skip_space ?s (length ?s) (length t), length src, True)"
      using brace(1) by (simp add: FindElement_def)
    moreover have "element_value ?s 1 (length src) True = src" by (simp add: element_value_def brace(1))
    moreover have "drop (skip_space ?s (length ?s) (length t)) ?s = dropWhile TclIsSpaceProc rest"
      using skip_space_drop [of ?s "length t"] by simp
    moreover have "0 < skip_space ?s (length ?s) (length t)" "skip_space ?s (length ?s) (length t) \<le> length ?s"
      using skip_space_bounds [of "length t" "length ?s" ?s] brace(1) by simp_all
    ultimately show thesis using that brace(1) by simp
  next
    case bare
    define lit where "lit = (CHR 0x5C \<notin> set t)"
    have z: "chr_at ?s 0 = chr_at t 0" using bare(1) by (simp add: chr_at_def nth_append)
    have "skip_space ?s (length ?s) 0 = 0"
      by (rule skip_space_stay) (use unbare_first [OF bare(4,1)] z in simp)
    moreover have "FindElement_loop ?s (length ?s) ts tc 0 0 \<lparr>openBraces = 0, inQuotes = False, literal = True\<rparr>
        = Inr (length t, length t, lit)"
      using find_bare [OF bare(4), of 0 ?s rest "\<lparr>openBraces = 0, inQuotes = False, literal = True\<rparr>" ts tc 0]
        assms(2) by (simp add: lit_def)
    ultimately have "FindElement ?s (length ?s) ts tc = Inr (0, skip_space ?s (length ?s) (length t), length t, lit)"
      using bare(1,2,3) z by (simp add: FindElement_def)
    moreover have "element_value ?s 0 (length t) lit = src"
      using collapse_bare [OF bare(4), of rest] unbare_verbatim [OF bare(4)]
      by (simp add: element_value_def lit_def)
    moreover have "drop (skip_space ?s (length ?s) (length t)) ?s = dropWhile TclIsSpaceProc rest"
      using skip_space_drop [of ?s "length t"] by simp
    moreover have "0 < skip_space ?s (length ?s) (length t)" "skip_space ?s (length ?s) (length t) \<le> length ?s"
      using skip_space_bounds [of "length t" "length ?s" ?s] bare(1) by (cases t; simp)+
    ultimately show thesis using that bare(1) by simp
  qed
qed

section \<open>The list format as an interface\<close>

text \<open>
  What the list routines rely on: a formatter of the element at a given position, and a
  reader that takes one element off the front of a list and leaves the list of the others.
  Lists are elements separated by one space.
\<close>

locale element_format =
  fixes fmt :: "nat \<Rightarrow> string \<Rightarrow> string"
    and read :: "string \<Rightarrow> (string \<times> string) option"
    and valid :: "string \<Rightarrow> bool"
  assumes read_fmt: "valid e \<Longrightarrow> ends_word rest \<Longrightarrow>
      read (fmt i e @ rest) = Some (e, dropWhile TclIsSpaceProc rest)"
    and fmt_first: "valid e \<Longrightarrow> fmt i e \<noteq> [] \<and> \<not> TclIsSpaceProc (chr_at (fmt i e) 0)"
begin

fun joined :: "nat \<Rightarrow> string list \<Rightarrow> string" where
  "joined i [] = []"
| "joined i [e] = fmt i e"
| "joined i (e # es) = fmt i e @ '' '' @ joined (i + 1) es"

lemma joined_first:
  assumes "\<forall>e\<in>set es. valid e"
  shows "dropWhile TclIsSpaceProc (joined i es) = joined i es"
proof -
  have "dropWhile TclIsSpaceProc (fmt i e @ s) = fmt i e @ s" if "valid e" for i e s
    using fmt_first [OF that, of i] by (cases "fmt i e") auto
  from this [of _ _ "[]"] this assms show ?thesis
    by (induction i es rule: joined.induct) auto
qed

lemma read_joined:
  assumes "valid e" and "\<forall>d\<in>set es. valid d"
  shows "read (joined i (e # es)) = Some (e, joined (i + 1) es)"
proof (cases es)
  case Nil
  with read_fmt [OF assms(1), of "[]"] show ?thesis by (simp add: ends_word_def)
next
  case (Cons d ds)
  have "ends_word ('' '' @ joined (i + 1) es)" by (simp add: ends_word_def TclIsSpaceProc_iff)
  from read_fmt [OF assms(1) this, of i] joined_first [OF assms(2), of "i + 1"] Cons show ?thesis
    by (simp add: TclIsSpaceProc_iff)
qed

lemma joined_eq_Nil: "\<forall>e\<in>set es. valid e \<Longrightarrow> joined i es = [] \<longleftrightarrow> es = []"
  using fmt_first by (induction i es rule: joined.induct) auto

lemma joined_inj:
  "\<forall>e\<in>set es. valid e \<Longrightarrow> \<forall>d\<in>set ds. valid d \<Longrightarrow> joined i es = joined i ds \<Longrightarrow> es = ds"
proof (induction es arbitrary: i ds)
  case Nil
  then show ?case using joined_eq_Nil [of ds i] by simp
next
  case (Cons e es)
  obtain d ds' where ds: "ds = d # ds'"
    using Cons.prems joined_eq_Nil [of "e # es" i] joined_eq_Nil [of ds i] by (cases ds) auto
  have "read (joined i (e # es)) = Some (e, joined (i + 1) es)"
    using Cons.prems(1) by (intro read_joined) auto
  moreover have "read (joined i (d # ds')) = Some (d, joined (i + 1) ds')"
    using Cons.prems(2) ds by (intro read_joined) auto
  ultimately have "e = d" "joined (i + 1) es = joined (i + 1) ds'"
    using Cons.prems(3) ds by simp_all
  with Cons.IH [of ds' "i + 1"] Cons.prems ds show ?case by simp
qed

end

section \<open>The number of elements\<close>

text \<open>
  The words of a text: maximal runs of characters that are not white space.  The flag says
  whether the text is preceded by white space.
\<close>

fun runs :: "bool \<Rightarrow> string \<Rightarrow> nat" where
  "runs sp [] = 0"
| "runs sp (c # s) =
     (if TclIsSpaceProc c then runs True s else (if sp then 1 else 0) + runs False s)"

fun gaps :: "bool \<Rightarrow> string \<Rightarrow> nat" where
  "gaps sp [] = 0"
| "gaps sp (c # s) = (if TclIsSpaceProc c then (if sp then 0 else 1) + gaps True s else gaps False s)"

lemma runs_gaps:
  "s \<noteq> [] \<Longrightarrow> runs sp s + (if TclIsSpaceProc (last s) then 1 else 0) = gaps sp s + (if sp then 1 else 0)"
proof (induction s arbitrary: sp)
  case (Cons c s)
  then show ?case by (cases s) auto
qed simp

lemma gaps_sp: "s \<noteq> [] \<Longrightarrow> gaps False s = gaps True s + (if TclIsSpaceProc (chr_at s 0) then 1 else 0)"
  by (cases s) simp_all

lemma runs_append:
  "runs sp (u @ v) = runs sp u + runs (if u = [] then sp else TclIsSpaceProc (last u)) v"
  by (induction u arbitrary: sp) auto

lemma runs_pos: "c \<in> set u \<Longrightarrow> \<not> TclIsSpaceProc c \<Longrightarrow> 0 < runs True u"
  by (induction u) auto

lemma skip_run_gaps:
  assumes "skip_run s i n = (j, m)" and "fits (drop i s) n" and "i \<le> length s"
  shows "i \<le> j \<and> j \<le> length s \<and> fits (drop j s) m \<and> gaps True (drop i s) = gaps True (drop j s)
    \<and> (drop j s = [] \<or> \<not> TclIsSpaceProc (chr_at s j))"
  using assms
proof (induction s i n arbitrary: j m rule: skip_run.induct)
  case (1 s i n)
  have z: "chr_at (drop i s) 0 = chr_at s i" by simp
  show ?case
  proof (cases "drop i s")
    case Nil
    with 1(3) have "\<not> (n \<noteq> Some 0 \<and> TclIsSpaceProc (chr_at s i))"
      using z by (auto simp: fits_def TclIsSpaceProc_iff)
    with 1 Nil show ?thesis by (auto simp: skip_run.simps [of s i n])
  next
    case (Cons c t)
    from drop_Cons_at [OF Cons] have c: "i < length s" "chr_at s i = c" "drop (i + 1) s = t" by auto
    have n: "n \<noteq> Some 0" using fits_end [OF 1(3)] Cons by auto
    show ?thesis
    proof (cases "TclIsSpaceProc c")
      case True
      have "fits (drop (i + 1) s) (dec_length n)"
        using fits_tl [of c t n] 1(3) Cons c(3) by (simp add: dec_len_def dec_length_def)
      with 1(1) [of j m] 1(2,4) True c n have "i + 1 \<le> j \<and> j \<le> length s \<and> fits (drop j s) m
          \<and> gaps True (drop (i + 1) s) = gaps True (drop j s) \<and> (drop j s = [] \<or> \<not> TclIsSpaceProc (chr_at s j))"
        by (simp add: skip_run.simps [of s i n])
      with Cons True c(3) show ?thesis by simp
    next
      case False
      with 1 c show ?thesis by (simp add: skip_run.simps [of s i n])
    qed
  qed
qed

lemma MaxListLength_loop_gaps:
  assumes "fits (drop i s) n" and "i \<le> length s"
  shows "MaxListLength_loop s i n count = (count + int (gaps False (drop i s)), length s)"
  using assms
proof (induction s i n count rule: MaxListLength_loop.induct)
  case (1 s i n count)
  have z: "chr_at (drop i s) 0 = chr_at s i" by simp
  have e: "(n = Some 0 \<or> n = None \<and> chr_at s i = CHR 0x00) = (drop i s = [])"
    using fits_end [OF 1(3)] unfolding z .
  show ?case
  proof (cases "drop i s")
    case Nil
    with 1(4) have "i = length s" by simp
    with Nil e show ?thesis by (subst MaxListLength_loop.simps) simp
  next
    case (Cons c t)
    from drop_Cons_at [OF Cons] have c: "i < length s" "chr_at s i = c" "drop (i + 1) s = t" by auto
    have ne: "\<not> (n = Some 0 \<or> n = None \<and> chr_at s i = CHR 0x00)" using e Cons by simp
    have f: "fits (drop (i + 1) s) (dec_length n)"
      using fits_tl [of c t n] 1(3) Cons c(3) by (simp add: dec_len_def dec_length_def)
    show ?thesis
    proof (cases "TclIsSpaceProc c")
      case False
      with 1(2) [OF ne] c f ne Cons show ?thesis
        by (subst MaxListLength_loop.simps) simp
    next
      case True
      obtain j m where jm: "skip_run s (i + 1) (dec_length n) = (j, m)" by force
      from skip_run_gaps [OF jm f] c(1) have j: "j \<le> length s" "fits (drop j s) m"
        "gaps True (drop (i + 1) s) = gaps True (drop j s)" "drop j s = [] \<or> \<not> TclIsSpaceProc (chr_at s j)"
        by auto
      have z2: "chr_at (drop j s) 0 = chr_at s j" by simp
      have e2: "(m = Some 0 \<or> m = None \<and> chr_at s j = CHR 0x00) = (drop j s = [])"
        using fits_end [OF j(2)] unfolding z2 .
      show ?thesis
      proof (cases "drop j s")
        case Nil
        then have "j = length s" using j(1) by simp
        with Nil e2 jm ne c Cons True j(3) show ?thesis
          by (subst MaxListLength_loop.simps) simp
      next
        case (Cons d u)
        from drop_Cons_at [OF Cons] have d: "j < length s" "chr_at s j = d" "drop (j + 1) s = u" by auto
        have ne2: "\<not> (m = Some 0 \<or> m = None \<and> chr_at s j = CHR 0x00)" using e2 Cons by simp
        have f2: "fits (drop (j + 1) s) (dec_length m)"
          using fits_tl [of d u m] j(2) Cons d(3) by (simp add: dec_len_def dec_length_def)
        have g: "gaps True (drop j s) = gaps False (drop (j + 1) s)" using Cons j(4) d by simp
        have "MaxListLength_loop s (j + 1) (dec_length m) (count + 1)
            = (count + 1 + int (gaps False (drop (j + 1) s)), length s)"
          by (rule 1(1) [OF ne _ jm [symmetric] refl ne2 f2]) (use c True d in simp_all)
        moreover have "gaps False (drop i s) = 1 + gaps True (drop (i + 1) s)"
          using \<open>drop i s = c # t\<close> True c(3) by simp
        moreover have F: "(n = Some 0 \<or> n = None \<and> chr_at s i = CHR 0x00) = False"
            "(m = Some 0 \<or> m = None \<and> chr_at s j = CHR 0x00) = False" "TclIsSpaceProc (chr_at s i) = True"
          using ne ne2 c True by simp_all
        ultimately show ?thesis
          unfolding MaxListLength_loop.simps [of s i n count] F jm Let_def prod.case if_True if_False
          using j(3) g by simp
      qed
    qed
  qed
qed

lemma TclMaxListLength_runs:
  assumes "fits s n"
  shows "TclMaxListLength s n = (int (runs True s), length s)"
proof (cases "s = []")
  case True
  with fits_end [OF assms] show ?thesis by (auto simp: TclMaxListLength_def)
next
  case False
  have l: "chr_at s (length s - 1) = last s" using False by (simp add: chr_at_def last_conv_nth)
  have e: "(n = Some 0 \<or> n = None \<and> chr_at s 0 = CHR 0x00) = False" using fits_end [OF assms] False by simp
  have "MaxListLength_loop s 0 n c = (c + int (gaps False s), length s)" for c
    using MaxListLength_loop_gaps [of 0 s n c] assms by simp
  then show ?thesis
    unfolding TclMaxListLength_def e if_False Let_def
    using l runs_gaps [OF False, of True] gaps_sp [OF False] by auto
qed

section \<open>Bounds on arbitrary text\<close>

lemma FindElement_step_bounds:
  assumes "p < limit" and "limit \<le> length s" and "es \<le> p"
  shows "FindElement_step s limit ts tc es p st = Continue p' st' \<Longrightarrow> p < p' \<and> p' \<le> limit"
    and "FindElement_step s limit ts tc es p st = Done p' sz lit \<Longrightarrow>
      p \<le> p' \<and> p' \<le> limit \<and> es + sz \<le> p' \<and> (p' = limit \<or> TclIsSpaceProc (chr_at s p'))"
proof -
  have "snd (TclParseBackslash (drop p s) (limit - p)) \<le> limit - p"
    using assms(1,2) by (intro TclParseBackslash_bounds(2)) auto
  then show "FindElement_step s limit ts tc es p st = Continue p' st' \<Longrightarrow> p < p' \<and> p' \<le> limit"
    using assms(1) by (auto simp: FindElement_step_def closed_at_def Let_def split: if_splits)
  show "FindElement_step s limit ts tc es p st = Done p' sz lit \<Longrightarrow>
      p \<le> p' \<and> p' \<le> limit \<and> es + sz \<le> p' \<and> (p' = limit \<or> TclIsSpaceProc (chr_at s p'))"
    using assms by (auto simp: FindElement_step_def closed_at_def Let_def TclIsSpaceProc_iff split: if_splits)
qed

lemma FindElement_loop_bounds:
  "FindElement_loop s limit ts tc es p st = Inr (p', sz, lit) \<Longrightarrow> limit \<le> length s \<Longrightarrow> es \<le> p \<Longrightarrow> p \<le> limit \<Longrightarrow>
     p \<le> p' \<and> p' \<le> limit \<and> es + sz \<le> p' \<and> (p' = limit \<or> TclIsSpaceProc (chr_at s p'))"
proof (induction s limit ts tc es p st rule: FindElement_loop.induct)
  case (1 s limit ts tc es p st)
  show ?case
  proof (cases "p < limit")
    case False
    with 1(2-) show ?thesis by (auto simp: FindElement_loop_end split: if_splits)
  next
    case True
    show ?thesis
    proof (cases "FindElement_step s limit ts tc es p st")
      case (Continue q st')
      with FindElement_step_bounds(1) [OF True 1(3,4)] have q: "p < q" "q \<le> limit" by auto
      have "FindElement_loop s limit ts tc es q st' = Inr (p', sz, lit)"
        using 1(2) FindElement_loop_step [OF True, of s ts tc es st] Continue by simp
      from 1(1) [OF True Continue this 1(3)] q 1(4) show ?thesis by simp
    next
      case (Done q sz' lit')
      with 1(2) FindElement_loop_step [OF True, of s ts tc es st] FindElement_step_bounds(2) [OF True 1(3,4)]
      show ?thesis by auto
    next
      case (Fail e)
      with 1(2) FindElement_loop_step [OF True, of s ts tc es st] show ?thesis by simp
    qed
  qed
qed

lemma skip_space_prev: "p < skip_space s limit p \<Longrightarrow> TclIsSpaceProc (chr_at s (skip_space s limit p - 1))"
proof (induction s limit p rule: skip_space.induct)
  case (1 s limit p)
  show ?case
  proof (cases "p < limit \<and> TclIsSpaceProc (chr_at s p)")
    case True
    then have "skip_space s limit p = skip_space s limit (p + 1)" by (subst skip_space.simps) simp
    moreover have "skip_space s limit (p + 1) = p + 1 \<or> p + 1 < skip_space s limit (p + 1)"
      using skip_space_bounds [of "p + 1" limit s] True by auto
    ultimately show ?thesis using 1 True by auto
  next
    case False
    then have "skip_space s limit p = p" by (subst skip_space.simps) (simp only: if_False)
    with 1 show ?thesis by simp
  qed
qed

lemma skip_space_end: "skip_space s limit p < limit \<Longrightarrow> \<not> TclIsSpaceProc (chr_at s (skip_space s limit p))"
proof (induction s limit p rule: skip_space.induct)
  case (1 s limit p)
  then show ?case by (cases "p < limit \<and> TclIsSpaceProc (chr_at s p)") (auto simp: skip_space.simps [of s limit p])
qed

text \<open>The rest of a list starts behind the text that \<open>FindElement\<close> was given, whatever the limit.\<close>

lemma FindElement_loop_ge: "FindElement_loop s limit ts tc es p st = Inr (q, sz, lit) \<Longrightarrow> p \<le> q"
proof (induction s limit ts tc es p st rule: FindElement_loop.induct)
  case (1 s limit ts tc es p st)
  show ?case
  proof (cases "FindElement_step s limit ts tc es p st")
    case (Continue p' st')
    then show ?thesis using 1 FindElement_step_less [OF Continue]
      by (subst (asm) (2) FindElement_loop.simps) (auto split: if_splits)
  next
    case (Done p' sz' lit')
    then have "p \<le> p'" by (auto simp: FindElement_step_def closed_at_def Let_def split: if_splits)
    then show ?thesis using 1(2) Done by (subst (asm) FindElement_loop.simps) (auto split: if_splits)
  next
    case (Fail e)
    then show ?thesis using 1(2) by (subst (asm) FindElement_loop.simps) (auto split: if_splits)
  qed
qed

lemma skip_space_ge: "p \<le> skip_space s limit p"
  by (induction s limit p rule: skip_space.induct) (subst skip_space.simps, auto)

lemma TclFindElement_pos: "TclFindElement s len = Inr (el, next, sz, lit) \<Longrightarrow> 0 < len \<Longrightarrow> 0 < next"
proof -
  assume f: "TclFindElement s len = Inr (el, next, sz, lit)" and len: "0 < len"
  define p where "p = skip_space s len 0"
  show "0 < next"
  proof (cases "p = len")
    case True
    then show ?thesis using f len skip_space_ge [of len s len] by (auto simp: TclFindElement_def FindElement_def p_def)
  next
    case False
    define st where "st = \<lparr>openBraces = (if chr_at s p = CHR ''{'' then 1 else 0),
                     inQuotes = (chr_at s p = CHR 0x22), literal = True\<rparr>"
    define es where "es = (if chr_at s p = CHR ''{'' \<or> chr_at s p = CHR 0x22 then p + 1 else p)"
    obtain q where q: "FindElement_loop s len ''list'' ''LIST'' es es st = Inr (q, sz, lit)" "next = skip_space s len q"
      using f False by (auto simp: TclFindElement_def FindElement_def p_def [symmetric] st_def es_def Let_def split: sum.splits)
    have "0 < q"
    proof (cases "es = 0")
      case False then show ?thesis using FindElement_loop_ge [OF q(1)] by simp
    next
      case True
      then have p: "p = 0" "es = p" "chr_at s p \<noteq> CHR ''{''" "chr_at s p \<noteq> CHR 0x22" by (auto simp: es_def split: if_splits)
      have "\<not> TclIsSpaceProc (chr_at s p)" using p(1) len skip_space_end [of s len 0] by (simp add: p_def)
      moreover have "openBraces st = 0" "\<not> inQuotes st" using p by (simp_all add: st_def)
      ultimately obtain p' st' where "FindElement_step s len ''list'' ''LIST'' es p st = Continue p' st'" "0 < p'"
        using p by (cases "chr_at s 0 = CHR 0x5C") (auto simp: FindElement_step_def TclIsSpaceProc_iff Let_def)
      then show ?thesis using q(1) p(1,2) len FindElement_loop_ge [of s len "''list''" "''LIST''" es p' st' q sz lit]
        by (subst (asm) FindElement_loop.simps) auto
    qed
    then show ?thesis using q(2) skip_space_ge [of q s len] by simp
  qed
qed

text \<open>An element that starts with a brace or a quote ends before its closing character.\<close>

lemma FindElement_loop_closed:
  "FindElement_loop s limit ts tc es p st = Inr (p', sz, lit) \<Longrightarrow> 0 < openBraces st \<or> inQuotes st \<Longrightarrow>
     limit \<le> length s \<Longrightarrow> es \<le> p \<Longrightarrow> p \<le> limit \<Longrightarrow> es + sz < p'"
proof (induction s limit ts tc es p st rule: FindElement_loop.induct)
  case (1 s limit ts tc es p st)
  show ?case
  proof (cases "p < limit")
    case False
    with 1(2-) show ?thesis by (auto simp: FindElement_loop_end split: if_splits)
  next
    case True
    note step = FindElement_loop_step [OF True, of s ts tc es st]
    show ?thesis
    proof (cases "FindElement_step s limit ts tc es p st")
      case (Continue q st')
      with FindElement_step_bounds(1) [OF True 1(4,5)] have q: "p < q" "q \<le> limit" by auto
      moreover have "0 < openBraces st' \<or> inQuotes st'"
        using Continue 1(3) by (auto simp: FindElement_step_def closed_at_def Let_def split: if_splits)
      moreover have "FindElement_loop s limit ts tc es q st' = Inr (p', sz, lit)" using 1(2) step Continue by simp
      ultimately show ?thesis using 1(1) [OF True Continue] 1(4,5) by simp
    next
      case (Done q sz' lit')
      then have "es + sz' < q" using 1(3,5) by (auto simp: FindElement_step_def closed_at_def Let_def split: if_splits)
      then show ?thesis using 1(2) step Done by simp
    next
      case (Fail e)
      with 1(2) step show ?thesis by simp
    qed
  qed
qed

lemma FindElement_parts:
  assumes "FindElement s limit ts tc = Inr (e, nxt, sz, lit)" "limit \<le> length s"
  shows "e + sz \<le> nxt" "nxt \<le> limit"
    "nxt < limit \<Longrightarrow> 0 < nxt \<and> TclIsSpaceProc (chr_at s (nxt - 1)) \<and> \<not> TclIsSpaceProc (chr_at s nxt)"
    "e = limit \<Longrightarrow> nxt = limit \<and> (0 < limit \<longrightarrow> TclIsSpaceProc (chr_at s 0))"
    "e < limit \<Longrightarrow> 0 < e \<Longrightarrow> TclIsSpaceProc (chr_at s (e - 1)) \<or> e + sz < nxt"
proof -
  define p where "p = skip_space s limit 0"
  have p: "p \<le> limit" using skip_space_bounds [of 0 limit s] by (simp add: p_def)
  have "e + sz \<le> nxt \<and> nxt \<le> limit
    \<and> (nxt < limit \<longrightarrow> 0 < nxt \<and> TclIsSpaceProc (chr_at s (nxt - 1)) \<and> \<not> TclIsSpaceProc (chr_at s nxt))
    \<and> (e = limit \<longrightarrow> nxt = limit \<and> (0 < limit \<longrightarrow> TclIsSpaceProc (chr_at s 0)))
    \<and> (e < limit \<longrightarrow> 0 < e \<longrightarrow> TclIsSpaceProc (chr_at s (e - 1)) \<or> e + sz < nxt)"
  proof (cases "p = limit")
    case True
    have "skip_space s limit limit = limit" by (subst skip_space.simps) simp
    moreover have "0 < limit \<longrightarrow> TclIsSpaceProc (chr_at s 0)"
      using skip_space_stay [of s 0 limit] True by (auto simp: p_def)
    ultimately show ?thesis using True assms(1) by (auto simp: FindElement_def p_def [symmetric] Let_def split: if_splits)
  next
    case False
    define es where "es = (if chr_at s p = CHR ''{'' \<or> chr_at s p = CHR 0x22 then p + 1 else p)"
    define st where "st = \<lparr>openBraces = (if chr_at s p = CHR ''{'' then 1 else 0),
                     inQuotes = (chr_at s p = CHR 0x22), literal = True\<rparr>"
    have "FindElement s limit ts tc =
        (case FindElement_loop s limit ts tc es es st of Inl e \<Rightarrow> Inl e
         | Inr (p, sz, lit) \<Rightarrow> Inr (es, skip_space s limit p, sz, lit))"
      unfolding FindElement_def p_def [symmetric] Let_def es_def st_def using False by (simp only: if_False)
    with assms(1) obtain q where loop: "FindElement_loop s limit ts tc es es st = Inr (q, sz, lit)"
      and e: "e = es" and nxt: "nxt = skip_space s limit q"
      by (cases "FindElement_loop s limit ts tc es es st") auto
    have es: "p \<le> es" "es \<le> limit" using False p by (simp_all add: es_def)
    from FindElement_loop_bounds [OF loop assms(2) order.refl es(2)]
    have q: "es \<le> q" "q \<le> limit" "es + sz \<le> q" "q = limit \<or> TclIsSpaceProc (chr_at s q)" by auto
    have n: "q \<le> nxt" "nxt \<le> limit" using skip_space_bounds [OF q(2), of s] nxt by auto
    have lt: "q < nxt \<and> TclIsSpaceProc (chr_at s (nxt - 1)) \<and> \<not> TclIsSpaceProc (chr_at s nxt)" if "nxt < limit"
    proof -
      have ns: "\<not> TclIsSpaceProc (chr_at s nxt)" using that unfolding nxt by (rule skip_space_end)
      then have "q < nxt" using q(4) n that by (metis le_neq_implies_less not_less)
      then show ?thesis using ns skip_space_prev [of q s limit] unfolding nxt by blast
    qed
    have closed: "es + sz < q" if "es = p + 1"
      using FindElement_loop_closed [OF loop _ assms(2) order.refl es(2)] that
      by (auto simp: st_def es_def split: if_splits)
    have "es \<noteq> limit"
      using closed q(2) False by (auto simp: es_def split: if_splits)
    moreover have "TclIsSpaceProc (chr_at s (es - 1))" if "es = p" "0 < es"
      using that skip_space_prev [of 0 s limit] by (simp add: p_def)
    moreover have "es = p \<or> es = p + 1" by (simp add: es_def)
    ultimately show ?thesis using n q lt closed e by auto
  qed
  then show "e + sz \<le> nxt" "nxt \<le> limit"
    "nxt < limit \<Longrightarrow> 0 < nxt \<and> TclIsSpaceProc (chr_at s (nxt - 1)) \<and> \<not> TclIsSpaceProc (chr_at s nxt)"
    "e = limit \<Longrightarrow> nxt = limit \<and> (0 < limit \<longrightarrow> TclIsSpaceProc (chr_at s 0))"
    "e < limit \<Longrightarrow> 0 < e \<Longrightarrow> TclIsSpaceProc (chr_at s (e - 1)) \<or> e + sz < nxt"
    by blast+
qed

text \<open>
  An element found lies before the rest of the list, one byte before it when the rest is
  not empty; and it takes a word of the text with it.
\<close>

lemma FindElement_bounds:
  assumes "FindElement s (length s) ts tc = Inr (e, nxt, sz, lit)"
  shows "nxt \<le> length s" and "e + sz \<le> nxt" and "nxt < length s \<Longrightarrow> e + sz < nxt"
    and "e \<noteq> length s \<Longrightarrow> runs True (drop nxt s) < runs True s"
proof -
  define p where "p = skip_space s (length s) 0"
  have p: "p \<le> length s" using skip_space_bounds [of 0 "length s" s] by (simp add: p_def)
  have "nxt \<le> length s \<and> e + sz \<le> nxt \<and> (nxt < length s \<longrightarrow> e + sz < nxt)
    \<and> (e \<noteq> length s \<longrightarrow> runs True (drop nxt s) < runs True s)"
  proof (cases "p = length s")
    case True
    have "skip_space s (length s) (length s) = length s" by (subst skip_space.simps) simp
    with True assms show ?thesis by (simp add: FindElement_def p_def [symmetric] Let_def split: if_splits)
  next
    case False
    define es where "es = (if chr_at s p = CHR ''{'' \<or> chr_at s p = CHR 0x22 then p + 1 else p)"
    define st where "st = \<lparr>openBraces = (if chr_at s p = CHR ''{'' then 1 else 0),
                     inQuotes = (chr_at s p = CHR 0x22), literal = True\<rparr>"
    have "FindElement s (length s) ts tc =
        (case FindElement_loop s (length s) ts tc es es st of Inl e \<Rightarrow> Inl e
         | Inr (p, sz, lit) \<Rightarrow> Inr (es, skip_space s (length s) p, sz, lit))"
      unfolding FindElement_def p_def [symmetric] Let_def es_def st_def using False by (simp only: if_False)
    with assms obtain q where loop: "FindElement_loop s (length s) ts tc es es st = Inr (q, sz, lit)"
      and e: "e = es" and nxt: "nxt = skip_space s (length s) q"
      by (cases "FindElement_loop s (length s) ts tc es es st") auto
    have es: "p \<le> es" "es \<le> length s" using False p by (simp_all add: es_def)
    from FindElement_loop_bounds [OF loop order.refl order.refl es(2)]
    have q: "es \<le> q" "q \<le> length s" "es + sz \<le> q" "q = length s \<or> TclIsSpaceProc (chr_at s q)" by auto
    have n: "q \<le> nxt" "nxt \<le> length s" using skip_space_bounds [OF q(2), of s] nxt by auto
    have lt: "q < nxt" if "nxt < length s"
    proof -
      have "\<not> TclIsSpaceProc (chr_at s nxt)" using that unfolding nxt by (rule skip_space_end)
      then have "q \<noteq> nxt" using q(4) that by auto
      with n(1) show ?thesis by simp
    qed
    have ns: "\<not> TclIsSpaceProc (chr_at s p)" using skip_space_end [of s "length s" 0] False p by (simp add: p_def)
    have "p < q" using es q ns False by (cases "p = q") auto
    with n q have "p < length (take nxt s)" by simp
    moreover have "take nxt s ! p = chr_at s p" using calculation by (simp add: chr_at_def)
    ultimately have pos: "0 < runs True (take nxt s)"
      using runs_pos [of "chr_at s p" "take nxt s"] ns by (metis nth_mem)
    have split: "runs True s = runs True (take nxt s)
        + runs (if take nxt s = [] then True else TclIsSpaceProc (last (take nxt s))) (drop nxt s)"
      using runs_append [of True "take nxt s" "drop nxt s"] by simp
    have "runs True (drop nxt s) < runs True s"
    proof (cases "nxt < length s")
      case True
      have "last (take nxt s) = chr_at s (nxt - 1)"
        using True lt last_conv_nth [of "take nxt s"] by (cases "s = []") (auto simp: chr_at_def)
      moreover have "TclIsSpaceProc (chr_at s (nxt - 1))"
        using lt [OF True] unfolding nxt by (rule skip_space_prev)
      ultimately show ?thesis using split pos by (simp split: if_splits)
    next
      case False
      with n split pos show ?thesis by simp
    qed
    with n q lt e show ?thesis by auto
  qed
  then show "nxt \<le> length s" and "e + sz \<le> nxt" and "nxt < length s \<Longrightarrow> e + sz < nxt"
    and "e \<noteq> length s \<Longrightarrow> runs True (drop nxt s) < runs True s"
    by blast+
qed

lemma length_collapse: "n \<le> length src \<Longrightarrow> length (TclCopyAndCollapse n src) \<le> n"
proof (induction n src rule: TclCopyAndCollapse.induct)
  case (1 n src)
  show ?case
  proof (cases "0 < n \<and> chr_at src 0 = CHR 0x5C")
    case True
    obtain b k where b: "TclParseBackslash src n = (b, k)" by force
    have "1 \<le> n" using True by simp
    from TclParseBackslash_bounds(1,2,3) [OF this 1(3)] b have k: "1 \<le> k" "k \<le> n" "length b \<le> k" by simp_all
    have "length (TclCopyAndCollapse (n - k) (drop k src)) \<le> n - k"
      using 1(1) [of "(b, k)" b k] True b k 1(3) by simp
    with True b k show ?thesis by (subst TclCopyAndCollapse.simps) simp
  next
    case False
    show ?thesis
    proof (cases "0 < n")
      case True
      with False 1(2,3) have "length (TclCopyAndCollapse (n - 1) (drop 1 src)) \<le> n - 1" by simp
      with True False show ?thesis by (subst TclCopyAndCollapse.simps) auto
    next
      case F: False
      then show ?thesis by (subst TclCopyAndCollapse.simps) simp
    qed
  qed
qed

lemma length_element_value: "e + sz \<le> length s \<Longrightarrow> length (element_value s e sz lit) \<le> sz"
  using length_collapse [of sz "drop e s"] by (auto simp: element_value_def)

text \<open>The loop of \<open>Tcl_SplitList\<close>, one element at a time.\<close>

lemma SplitList_loop_end: "chr_at lst 0 = CHR 0x00 \<Longrightarrow> SplitList_loop lst len sz i argv p = Inr (argv, i, p)"
  by (subst SplitList_loop.simps) simp

lemma SplitList_loop_fail:
  "chr_at lst 0 \<noteq> CHR 0x00 \<Longrightarrow> TclFindElement lst len = Inl e \<Longrightarrow> SplitList_loop lst len sz i argv p = Inl e"
  by (subst SplitList_loop.simps) simp

lemma SplitList_loop_break:
  "chr_at lst 0 \<noteq> CHR 0x00 \<Longrightarrow> TclFindElement lst len = Inr (e, nxt, elSize, lit) \<Longrightarrow> chr_at lst e = CHR 0x00 \<Longrightarrow>
     SplitList_loop lst len sz i argv p = Inr (argv, i, p)"
  by (subst SplitList_loop.simps) simp

lemma SplitList_loop_element:
  "chr_at lst 0 \<noteq> CHR 0x00 \<Longrightarrow> TclFindElement lst len = Inr (e, nxt, elSize, lit) \<Longrightarrow> chr_at lst e \<noteq> CHR 0x00 \<Longrightarrow>
     int i < sz \<Longrightarrow> SplitList_loop lst len sz i argv p =
     SplitList_loop (drop nxt lst) (len - nxt) sz (i + 1) (argv @ [element_value lst e elSize lit])
       (p + length (element_value lst e elSize lit) + 1)"
  by (subst SplitList_loop.simps) (simp add: element_value_def Let_def)

definition internal_error :: tcl_error where
  "internal_error = (''internal error in Tcl_SplitList'', [''TCL'', ''INTERNAL'', ''Tcl_SplitList''])"

definition format_error :: "string \<Rightarrow> tcl_error \<Rightarrow> bool" where
  "format_error typeCode e \<longleftrightarrow>
     (\<exists>code\<in>{''JUNK'', ''BRACE'', ''QUOTE''}. snd e = [''TCL'', ''VALUE'', typeCode, code])"

lemma FindElement_loop_error: "FindElement_loop s limit ts tc es p st = Inl e \<Longrightarrow> format_error tc e"
proof (induction s limit ts tc es p st rule: FindElement_loop.induct)
  case (1 s limit ts tc es p st)
  show ?case
  proof (cases "p < limit")
    case False
    with 1(2) show ?thesis
      by (subst (asm) FindElement_loop.simps) (auto simp: format_error_def unmatched_error_def split: if_splits)
  next
    case True
    note step = FindElement_loop_step [OF True, of s ts tc es st]
    show ?thesis
    proof (cases "FindElement_step s limit ts tc es p st")
      case (Continue q st')
      with 1(1) [OF True Continue] 1(2) step show ?thesis by simp
    next
      case (Fail e')
      then have "snd e' = [''TCL'', ''VALUE'', tc, ''JUNK'']"
        by (auto simp: FindElement_step_def closed_at_def Let_def junk_error_def split: if_splits)
      with Fail 1(2) step show ?thesis by (simp add: format_error_def)
    next
      case (Done q sz lit)
      with 1(2) step show ?thesis by simp
    qed
  qed
qed

lemma FindElement_error: "FindElement s limit ts tc = Inl e \<Longrightarrow> format_error tc e"
  using FindElement_loop_error by (auto simp: FindElement_def Let_def split: sum.splits if_splits)

text \<open>
  With an argument array of more entries than the list has words, the loop never runs out of
  entries, the copies fit behind the array, and an error is one that \<open>FindElement\<close> reported.
\<close>

lemma SplitList_loop_safe:
  assumes "CHR 0x00 \<notin> set lst" and "int i + int (runs True lst) < sz"
  shows "case SplitList_loop lst (length lst) sz i argv p of
      Inl e \<Rightarrow> format_error ''LIST'' e
    | Inr (argv', i', p') \<Rightarrow> int i' < sz \<and> length argv' = length argv + (i' - i) \<and> i \<le> i'
        \<and> p' \<le> p + length lst + (if lst = [] then 0 else 1)"
  using assms
proof (induction "length lst" arbitrary: lst i argv p rule: less_induct)
  case less
  show ?case
  proof (cases "chr_at lst 0 = CHR 0x00")
    case True
    with less.prems(2) show ?thesis by (simp add: SplitList_loop_end)
  next
    case False
    then have ne: "lst \<noteq> []" by auto
    show ?thesis
    proof (cases "TclFindElement lst (length lst)")
      case (Inl e)
      with False FindElement_error [of lst "length lst" "''list''" "''LIST''" e] show ?thesis
        by (simp add: SplitList_loop_fail TclFindElement_def)
    next
      case (Inr r)
      obtain e nxt elSize lit where r: "r = (e, nxt, elSize, lit)" by (cases r)
      with Inr have fe: "TclFindElement lst (length lst) = Inr (e, nxt, elSize, lit)" by simp
      note b = FindElement_bounds [OF fe [unfolded TclFindElement_def]]
      show ?thesis
      proof (cases "chr_at lst e = CHR 0x00")
        case True
        with False fe less.prems(2) show ?thesis by (simp add: SplitList_loop_break)
      next
        case elem: False
        then have "e \<noteq> length lst" by (auto simp: chr_at_def)
        with b(4) have fewer: "runs True (drop nxt lst) < runs True lst" by blast
        then have "drop nxt lst \<noteq> lst" by auto
        then have "0 < nxt" by (cases nxt) auto
        with ne have shorter: "length (drop nxt lst) < length lst" by simp
        have v: "length (element_value lst e elSize lit) \<le> elSize"
          using length_element_value b(1,2) by (meson order_trans)
        have nul: "CHR 0x00 \<notin> set (drop nxt lst)" using less.prems(1) by (meson in_set_dropD)
        have "int (i + 1) + int (runs True (drop nxt lst)) < sz" using fewer less.prems(2) by linarith
        note IH = less.hyps [OF shorter nul this, of "argv @ [element_value lst e elSize lit]"
            "p + length (element_value lst e elSize lit) + 1"]
        have loop: "SplitList_loop lst (length lst) sz i argv p =
            SplitList_loop (drop nxt lst) (length (drop nxt lst)) sz (i + 1)
              (argv @ [element_value lst e elSize lit]) (p + length (element_value lst e elSize lit) + 1)"
          using SplitList_loop_element [OF False fe elem] less.prems(2) by simp
        have used: "length (element_value lst e elSize lit) + 1 + length (drop nxt lst)
            + (if drop nxt lst = [] then 0 else 1) \<le> length lst + 1"
          using v b(1,2,3) by (cases "nxt < length lst") auto
        show ?thesis
          unfolding loop using IH used ne
          by (auto split: sum.splits prod.splits)
      qed
    qed
  qed
qed

section \<open>The interface is met\<close>

text \<open>The mode that the scan recommends, without the check for overflow.\<close>

definition scan_flag :: "string \<Rightarrow> int \<Rightarrow> int" where
  "scan_flag src flags =
     (if src = [] then CONVERT_BRACE
      else let (v, k) = ScanElement_loop src None (scan_start src) 0
           in fst (ScanElement_finish src flags v k))"

lemma TclScanElement_flag:
  "CHR 0x00 \<notin> set src \<Longrightarrow> TclScanElement src None flags = Some (f, n) \<Longrightarrow> f = scan_flag src flags"
  using fits_end [of src None]
  by (auto simp: TclScanElement_def scan_flag_def fits_def split_beta split: if_splits)

lemma scan_flag_mode: "CHR 0x00 \<notin> set src \<Longrightarrow> src \<noteq> [] \<Longrightarrow> mode_ok src (scan_flag src flags)"
proof -
  assume a: "CHR 0x00 \<notin> set src" "src \<noteq> []"
  obtain v k where v: "ScanElement_loop src None (scan_start src) 0 = (v, k)" by force
  have "fits src None" using a by (simp add: fits_def)
  from ScanElement_loop_post [OF this v] have "scan_post src (scan_start src) v" by blast
  then show ?thesis
    using ScanElement_finish_mode [of src v flags k] v a(2)
    by (cases "ScanElement_finish src flags v k") (simp add: scan_flag_def)
qed

text \<open>How \<open>Tcl_Merge\<close> formats the element at index \<open>i\<close>, and one step of \<open>Tcl_SplitList\<close>.\<close>

definition hash_flag :: "nat \<Rightarrow> int" where
  "hash_flag i = (if i \<noteq> 0 then TCL_DONT_QUOTE_HASH else 0)"

definition merge_format :: "nat \<Rightarrow> string \<Rightarrow> string" where
  "merge_format i e = TclConvertElement e None (scan_flag e (hash_flag i) OR hash_flag i)"

definition list_read :: "string \<Rightarrow> (string \<times> string) option" where
  "list_read s = (case TclFindElement s (length s) of
     Inl _ \<Rightarrow> None
   | Inr (e, nxt, sz, lit) \<Rightarrow> if e < length s then Some (element_value s e sz lit, drop nxt s) else None)"

lemma hash_flag_caller: "hash_flag i \<in> caller_flags"
  by (simp add: hash_flag_def caller_flags_def)

lemma merge_format_text:
  assumes "CHR 0x00 \<notin> set e"
  shows "element_text (merge_format i e) e"
proof (cases "e = []")
  case True
  have "fits [] None" by (simp add: fits_def)
  from TclConvertElement_Nil [OF this] True show ?thesis
    by (simp add: merge_format_def element_text_def)
next
  case False
  have "fits e None" using assms by (simp add: fits_def)
  from convert_element_text [OF this False scan_flag_mode [OF assms False] hash_flag_caller]
  show ?thesis by (simp add: merge_format_def)
qed

lemma element_text_first:
  "element_text t src \<Longrightarrow> t \<noteq> [] \<and> \<not> TclIsSpaceProc (chr_at t 0)"
  using unbare_first [of t src] by (auto simp: element_text_def TclIsSpaceProc_iff)

interpretation merged: element_format merge_format list_read "\<lambda>e. CHR 0x00 \<notin> set e"
proof
  fix e rest :: string and i
  assume a: "CHR 0x00 \<notin> set e" "ends_word rest"
  from FindElement_text [OF merge_format_text [OF a(1)] a(2)]
  obtain p nxt sz lit where "FindElement (merge_format i e @ rest) (length (merge_format i e @ rest)) ''list'' ''LIST'' = Inr (p, nxt, sz, lit)"
    and "element_value (merge_format i e @ rest) p sz lit = e"
    and "drop nxt (merge_format i e @ rest) = dropWhile TclIsSpaceProc rest" and "p < length (merge_format i e @ rest)"
    by metis
  then show "list_read (merge_format i e @ rest) = Some (e, dropWhile TclIsSpaceProc rest)"
    by (simp add: list_read_def TclFindElement_def)
next
  fix e :: string and i
  assume "CHR 0x00 \<notin> set e"
  from element_text_first [OF merge_format_text [OF this]]
  show "merge_format i e \<noteq> [] \<and> \<not> TclIsSpaceProc (chr_at (merge_format i e) 0)" .
qed

text \<open>\<open>Tcl_Merge\<close> writes the joined list.\<close>

lemma Merge_convert_joined:
  assumes "\<forall>e\<in>set argv. CHR 0x00 \<notin> set e" and "argv \<noteq> []" and "Merge_scan i argv b = Some (flags, n)"
  shows "Merge_convert i argv flags = merged.joined i argv @ '' ''"
  using assms
proof (induction argv arbitrary: i b flags n)
  case (Cons e es)
  from Cons.prems(3) obtain f k fs where f: "TclScanElement e None (hash_flag i) = Some (f, k)"
    and flags: "flags = f # fs" and rest: "Merge_scan (i + 1) es (int32 (b + k)) = Some (fs, n)"
    by (auto simp: hash_flag_def Let_def split: option.splits if_splits)
  have e: "TclConvertElement e None (f OR hash_flag i) = merge_format i e"
    using TclScanElement_flag [OF _ f] Cons.prems(1) by (simp add: merge_format_def)
  show ?case
  proof (cases es)
    case Nil
    with flags e show ?thesis by (simp add: hash_flag_def)
  next
    case (Cons d ds)
    have "Merge_convert (i + 1) es fs = merged.joined (i + 1) es @ '' ''"
      using Cons.IH [OF _ _ rest] Cons.prems(1) Cons by simp
    with flags e Cons show ?thesis by (simp add: hash_flag_def)
  qed
qed simp

lemma Tcl_Merge_joined:
  assumes "\<forall>e\<in>set argv. CHR 0x00 \<notin> set e" and "Tcl_Merge argv = Some (s, n)"
  shows "s = merged.joined 0 argv"
proof (cases "argv = []")
  case True
  with assms show ?thesis by (simp add: Tcl_Merge_def)
next
  case False
  with assms(2) obtain flags b where "Merge_scan 0 argv 0 = Some (flags, b)" "s = butlast (Merge_convert 0 argv flags)"
    by (auto simp: Tcl_Merge_def split: option.splits if_splits)
  with Merge_convert_joined [OF assms(1) False this(1)] show ?thesis by simp
qed

lemma unbare_nul: "unbare t = Some src \<Longrightarrow> CHR 0x00 \<notin> set src \<Longrightarrow> CHR 0x00 \<notin> set t"
proof (induction t arbitrary: src rule: unbare.induct)
  case (2 c s)
  have "unescape (CHR 0x00) = None" by (simp add: unescape_def)
  with 2 show ?case
    by (cases "c = CHR 0x5C") (auto split: list.splits option.splits if_splits; blast)+
qed simp

lemma merge_format_nul: "CHR 0x00 \<notin> set e \<Longrightarrow> CHR 0x00 \<notin> set (merge_format i e)"
  using merge_format_text [of e i] unbare_nul [of "merge_format i e" e] by (auto simp: element_text_def)

lemma joined_nul: "\<forall>e\<in>set es. CHR 0x00 \<notin> set e \<Longrightarrow> CHR 0x00 \<notin> set (merged.joined i es)"
  by (induction i es rule: merged.joined.induct) (simp_all add: merge_format_nul)

text \<open>\<open>Tcl_SplitList\<close> reads the joined list.\<close>

lemma SplitList_loop_joined:
  assumes "\<forall>e\<in>set es. CHR 0x00 \<notin> set e" and "int k + int (runs True (merged.joined i es)) < sz"
  shows "\<exists>p'. SplitList_loop (merged.joined i es) (length (merged.joined i es)) sz k argv p
    = Inr (argv @ es, k + length es, p')"
  using assms
proof (induction es arbitrary: i k argv p)
  case Nil
  then show ?case by (simp add: SplitList_loop_end)
next
  case (Cons e es)
  let ?l = "merged.joined i (e # es)"
  have nul: "CHR 0x00 \<notin> set ?l" using joined_nul [OF Cons.prems(1)] .
  have valid: "CHR 0x00 \<notin> set e" "\<forall>d\<in>set es. CHR 0x00 \<notin> set d" using Cons.prems(1) by simp_all
  from merged.read_joined [OF valid, of i] obtain q nxt elSize lit where
    fe: "TclFindElement ?l (length ?l) = Inr (q, nxt, elSize, lit)" and q: "q < length ?l"
    and v: "element_value ?l q elSize lit = e" "drop nxt ?l = merged.joined (i + 1) es"
    by (auto simp: list_read_def split: sum.splits if_splits)
  have at: "chr_at ?l j \<noteq> CHR 0x00" if "j < length ?l" for j
    using that nul by (auto simp: chr_at_def in_set_conv_nth)
  note b = FindElement_bounds [OF fe [unfolded TclFindElement_def]]
  have fewer: "runs True (merged.joined (i + 1) es) < runs True ?l" using b(4) q v(2) by simp
  have len: "length ?l - nxt = length (merged.joined (i + 1) es)" using v(2) by (metis length_drop)
  have "int k < sz" using Cons.prems(2) by linarith
  have first: "0 < length ?l" using q by linarith
  from SplitList_loop_element [OF at [OF first] fe at [OF q] \<open>int k < sz\<close>, of argv p]
  have "SplitList_loop ?l (length ?l) sz k argv p =
      SplitList_loop (merged.joined (i + 1) es) (length (merged.joined (i + 1) es)) sz (k + 1) (argv @ [e]) (p + length e + 1)"
    unfolding v len by simp
  moreover have "int (k + 1) + int (runs True (merged.joined (i + 1) es)) < sz" using fewer Cons.prems(2) by linarith
  ultimately show ?case using Cons.IH [OF valid(2), of "k + 1" "i + 1" "argv @ [e]" "p + length e + 1"] by auto
qed

lemma Tcl_SplitList_joined:
  assumes "\<forall>e\<in>set es. CHR 0x00 \<notin> set e"
  shows "\<exists>p. Tcl_SplitList (merged.joined 0 es) = Inr (es, length es, p)"
proof -
  have "fits (merged.joined 0 es) None" using joined_nul [OF assms] by (simp add: fits_def)
  from TclMaxListLength_runs [OF this] SplitList_loop_joined [OF assms, of 0 0 _ "[]" 0] show ?thesis
    by (simp add: Tcl_SplitList_def)
qed

text \<open>The size of a converted element, and when \<open>Tcl_Merge\<close> does not panic.\<close>

lemma int32_le: "0 \<le> x \<Longrightarrow> x < 4294967296 \<Longrightarrow> 0 \<le> int32 x \<Longrightarrow> int32 x = x"
  using int32_overflow [of x] by (cases "x \<le> 2147483647") auto

lemma TclScanElement_size:
  assumes "fits src len" and "int (length src) \<le> INT_MAX" and "TclScanElement src len flags = Some (f, n)"
    and "cf \<in> caller_flags" and "flags = cf \<or> flags = CONVERT_ANY"
  shows "int (length (TclConvertElement src len (f OR cf))) \<le> n \<and> n \<le> 2 * int (length src) + 3"
proof (cases "src = []")
  case True
  with assms(1,3) fits_end [of src len] TclConvertElement_Nil [of len "f OR cf"] show ?thesis
    by (auto simp: TclScanElement_def)
next
  case False
  from TclScanElement_text [OF assms(1) False assms(3)] obtain v m where post: "scan_post src (scan_start src) v"
    and fin: "ScanElement_finish src flags v (length src) = (f, m)" and n: "n = int32 m" "0 \<le> int32 m" by metis
  note size = ScanElement_finish_size [OF assms(1) False post fin assms(4,5)]
  have "0 \<le> m" using size(1) by linarith
  moreover have "m < 4294967296" using size(2) assms(2) by (simp add: INT_MAX_def)
  ultimately have "n = m" using n int32_le by simp
  with size show ?thesis by simp
qed

lemma TclScanElement_some:
  assumes "fits src len" and "2 * int (length src) + 3 \<le> INT_MAX" and "flags \<in> caller_flags"
  shows "\<exists>f n. TclScanElement src len flags = Some (f, n) \<and> 0 \<le> n \<and> n \<le> 2 * int (length src) + 3"
proof (cases "src = []")
  case True
  with assms(1) fits_end [of src len] show ?thesis by (auto simp: TclScanElement_def)
next
  case False
  have empty: "(len = Some 0 \<or> chr_at src 0 = CHR 0x00 \<and> len = None) = False"
    using fits_end [OF assms(1)] False by blast
  obtain v k where v: "ScanElement_loop src len (scan_start src) 0 = (v, k)" by force
  from ScanElement_loop_post [OF assms(1) v] have k: "k = length src" and post: "scan_post src (scan_start src) v" by auto
  obtain f m where fin: "ScanElement_finish src flags v (length src) = (f, m)" by force
  note size = ScanElement_finish_size [OF assms(1) False post fin assms(3) disjI1 [OF refl]]
  have m: "0 \<le> m" "m \<le> 2 * int (length src) + 3" using size by linarith+
  then have "int32 m = m" using assms(2) by (simp add: INT_MAX_def)
  with m show ?thesis
    unfolding TclScanElement_def empty if_False v Let_def prod.case k fin by auto
qed

lemma Merge_scan_Cons:
  "Merge_scan i (e # es) b =
     (case TclScanElement e None (hash_flag i) of
        None \<Rightarrow> None
      | Some (flag, n) \<Rightarrow>
          (if int32 (b + n) < 0 then None
           else map_option (\<lambda>(flags, b). (flag # flags, b)) (Merge_scan (i + 1) es (int32 (b + n)))))"
  by (simp only: Merge_scan.simps hash_flag_def Let_def)

lemma Merge_scan_some:
  assumes "\<forall>e\<in>set argv. CHR 0x00 \<notin> set e" and "0 \<le> b"
    and "b + int (sum_list (map (\<lambda>e. 2 * length e + 3) argv)) \<le> INT_MAX"
  shows "\<exists>flags n. Merge_scan i argv b = Some (flags, n) \<and> n \<le> b + int (sum_list (map (\<lambda>e. 2 * length e + 3) argv))"
  using assms
proof (induction argv arbitrary: i b)
  case (Cons e es)
  have "fits e None" using Cons.prems(1) by (simp add: fits_def)
  moreover have "2 * int (length e) + 3 \<le> INT_MAX" using Cons.prems by simp
  ultimately obtain f k where f: "TclScanElement e None (hash_flag i) = Some (f, k)" "0 \<le> k" "k \<le> 2 * int (length e) + 3"
    using TclScanElement_some [OF _ _ hash_flag_caller] by blast
  then have le: "b + k + int (sum_list (map (\<lambda>e. 2 * length e + 3) es)) \<le> INT_MAX" using Cons.prems by simp
  then have w: "int32 (b + k) = b + k" using f(2) Cons.prems(2) by (simp add: INT_MAX_def)
  from Cons.IH [of "b + k" "i + 1"] Cons.prems f(2) le obtain fl n where
    "Merge_scan (i + 1) es (b + k) = Some (fl, n)" "n \<le> b + k + int (sum_list (map (\<lambda>e. 2 * length e + 3) es))" by auto
  with f w Cons.prems(2) show ?case by (simp add: Merge_scan_Cons del: Merge_scan.simps)
qed simp

lemma Merge_scan_size:
  assumes "\<forall>e\<in>set argv. CHR 0x00 \<notin> set e \<and> int (length e) \<le> INT_MAX" and "Merge_scan i argv b = Some (flags, n)"
    and "0 \<le> b" and "b \<le> INT_MAX"
  shows "b + int (length (Merge_convert i argv flags)) \<le> n + int (length argv)"
  using assms
proof (induction argv arbitrary: i b flags n)
  case (Cons e es)
  from Cons.prems(2) obtain f k fs where f: "TclScanElement e None (hash_flag i) = Some (f, k)"
    and flags: "flags = f # fs" and rest: "Merge_scan (i + 1) es (int32 (b + k)) = Some (fs, n)" and nn: "0 \<le> int32 (b + k)"
    by (auto simp: hash_flag_def Let_def split: option.splits if_splits)
  have "fits e None" using Cons.prems(1) by (simp add: fits_def)
  with TclScanElement_size [OF this _ f hash_flag_caller disjI1 [OF refl]] Cons.prems(1)
  have size: "int (length (TclConvertElement e None (f OR hash_flag i))) \<le> k" by simp
  have "k \<le> INT_MAX"
  proof -
    from f have "k = 2 \<or> (\<exists>x. k = int32 x)" by (auto simp: TclScanElement_def split_beta Let_def split: if_splits)
    then show ?thesis by (auto simp: int32_def INT_MAX_def) presburger?
  qed
  then have w: "int32 (b + k) = b + k"
    using nn size Cons.prems(3,4) by (intro int32_le) (simp_all add: INT_MAX_def)
  with nn have "b + k \<le> INT_MAX" using int32_overflow [of "b + k"] \<open>k \<le> INT_MAX\<close> Cons.prems(4)
    by (cases "b + k \<le> INT_MAX") (simp_all add: INT_MAX_def)
  with Cons.IH [OF _ rest] Cons.prems(1) nn w have "b + k + int (length (Merge_convert (i + 1) es fs)) \<le> n + int (length es)"
    by simp
  with flags size show ?case by (simp add: hash_flag_def)
qed simp

section \<open>The properties\<close>

text \<open>
  C1. \<open>Tcl_SplitList\<close> inverts \<open>Tcl_Merge\<close>: whatever bytes other than NUL the strings hold, if
  \<open>Tcl_Merge\<close> returns a list then splitting it succeeds and gives the same strings; and
  \<open>Tcl_Merge\<close> does return (no panic) whenever the total size leaves room for the escapes.
\<close>

theorem merge_split:
  assumes "\<forall>e\<in>set argv. CHR 0x00 \<notin> set e"
  shows "(\<forall>s n. Tcl_Merge argv = Some (s, n) \<longrightarrow> (\<exists>p. Tcl_SplitList s = Inr (argv, length argv, p)))
    \<and> (int (sum_list (map (\<lambda>e. 2 * length e + 4) argv)) \<le> INT_MAX \<longrightarrow> Tcl_Merge argv \<noteq> None)"
proof (intro conjI allI impI)
  fix s n
  assume "Tcl_Merge argv = Some (s, n)"
  with Tcl_Merge_joined [OF assms] Tcl_SplitList_joined [OF assms]
  show "\<exists>p. Tcl_SplitList s = Inr (argv, length argv, p)" by blast
next
  assume size: "int (sum_list (map (\<lambda>e. 2 * length e + 4) argv)) \<le> INT_MAX"
  have "sum_list (map (\<lambda>e. 2 * length e + 4) argv) = sum_list (map (\<lambda>e. 2 * length e + 3) argv) + length argv"
    by (induction argv) simp_all
  with size have le: "int (sum_list (map (\<lambda>e. 2 * length e + 3) argv)) + int (length argv) \<le> INT_MAX" by simp
  with Merge_scan_some [OF assms, of 0 0] obtain flags k where
    "Merge_scan 0 argv 0 = Some (flags, k)" "k \<le> int (sum_list (map (\<lambda>e. 2 * length e + 3) argv))" by auto
  moreover have "3 * length argv \<le> sum_list (map (\<lambda>e. 2 * length e + 3) argv)" by (induction argv) simp_all
  with le have "4 * int (length argv) \<le> INT_MAX" by linarith
  then have "int (length argv) \<le> 1073741823" by (simp add: INT_MAX_def)
  ultimately show "Tcl_Merge argv \<noteq> None" using le by (simp add: Tcl_Merge_def)
qed

theorem merge_split_witness:
  "let argv = [''#a'', '''', ''b c'', ''{'', CHR 0x5C # ''}'', ''d]''] in
   \<exists>s n p. Tcl_Merge argv = Some (s, n) \<and> Tcl_SplitList s = Inr (argv, 6, p)"
proof -
  let ?argv = "[''#a'', '''', ''b c'', ''{'', CHR 0x5C # ''}'', ''d]'']"
  have "\<forall>e\<in>set ?argv. CHR 0x00 \<notin> set e" by simp
  from merge_split [OF this] show ?thesis by (fastforce simp: INT_MAX_def)
qed

text \<open>
  C3. The buffers of list formatting are large enough: the byte count that \<open>TclScanElement\<close>
  returns covers what \<open>TclConvertElement\<close> writes, for counted and for NUL-terminated text,
  whether the caller announced its flags or left them open with \<open>CONVERT_ANY\<close>.
\<close>

theorem scan_covers_convert:
  assumes "len = Some (length src) \<or> len = None \<and> CHR 0x00 \<notin> set src" and "int (length src) \<le> INT_MAX"
    and "flags \<in> {0, TCL_DONT_USE_BRACES, TCL_DONT_QUOTE_HASH, TCL_DONT_USE_BRACES OR TCL_DONT_QUOTE_HASH}"
    and "announced = flags \<or> announced = CONVERT_ANY"
    and "TclScanElement src len announced = Some (f, n)"
  shows "int (length (TclConvertElement src len (f OR flags))) \<le> n"
  using TclScanElement_size [OF _ assms(2,5), of flags] assms(1,3,4)
  by (simp add: fits_def caller_flags_def)

theorem scan_covers_convert_witness:
  "int (length (TclConvertElement ''#]]'' None (CONVERT_MASK OR TCL_DONT_USE_BRACES))) \<le> 6"
proof -
  have "TclScanElement ''#]]'' None CONVERT_ANY = Some (CONVERT_MASK, 6)" by code_simp
  then show ?thesis
    by (intro scan_covers_convert [where announced = CONVERT_ANY]) (simp_all add: INT_MAX_def)
qed

text \<open>
  C12. Each element can be found again: text that was scanned and converted, with whatever
  caller flags, is located by \<open>FindElement\<close> when white space or the end of the list follows,
  its value (copied, or collapsed when it is not literal) is the source, and the position
  returned is the start of the next element.
\<close>

theorem element_found_again:
  assumes "len = Some (length src) \<or> len = None \<and> CHR 0x00 \<notin> set src"
    and "flags \<in> {0, TCL_DONT_USE_BRACES, TCL_DONT_QUOTE_HASH, TCL_DONT_USE_BRACES OR TCL_DONT_QUOTE_HASH}"
    and "TclScanElement src len announced = Some (f, n)"
    and "s = TclConvertElement src len (f OR flags) @ rest" and "rest = [] \<or> TclIsSpaceProc (chr_at rest 0)"
  shows "\<exists>e nxt sz lit. FindElement s (length s) typeStr typeCode = Inr (e, nxt, sz, lit)
    \<and> (if lit then take sz (drop e s) else TclCopyAndCollapse sz (drop e s)) = src
    \<and> drop nxt s = dropWhile TclIsSpaceProc rest"
proof -
  have fits: "fits src len" using assms(1) by (simp add: fits_def)
  have "element_text (TclConvertElement src len (f OR flags)) src"
  proof (cases "src = []")
    case True
    with TclConvertElement_Nil [of len "f OR flags"] fits show ?thesis by (simp add: element_text_def)
  next
    case False
    from TclScanElement_text [OF fits False assms(3)] ScanElement_finish_mode have "mode_ok src f" by metis
    from convert_element_text [OF fits False this] assms(2) show ?thesis by (simp add: caller_flags_def)
  qed
  from FindElement_text [OF this, of rest typeStr typeCode] assms(4,5) show ?thesis
    unfolding ends_word_def element_value_def by metis
qed

theorem element_found_again_witness:
  "\<exists>e nxt sz lit. FindElement (''{a '' @ CHR 0x5C # ''{} b'') 8 ''list'' ''LIST'' = Inr (e, nxt, sz, lit) \<and> nxt = 7"
proof -
  have scan: "TclScanElement (''a '' @ CHR 0x5C # ''{'') None 0 = Some (CONVERT_BRACE, 6)" by code_simp
  have conv: "''{a '' @ CHR 0x5C # ''{} b'' = TclConvertElement (''a '' @ CHR 0x5C # ''{'') None (CONVERT_BRACE OR 0) @ '' b''"
    by code_simp
  have len: "length (''{a '' @ CHR 0x5C # ''{} b'') = 8" by code_simp
  have sp: "dropWhile TclIsSpaceProc '' b'' = ''b''" by (simp add: TclIsSpaceProc_iff)
  have "\<exists>e nxt sz lit. FindElement (''{a '' @ CHR 0x5C # ''{} b'') 8 ''list'' ''LIST'' = Inr (e, nxt, sz, lit)
    \<and> (if lit then take sz (drop e (''{a '' @ CHR 0x5C # ''{} b''))
       else TclCopyAndCollapse sz (drop e (''{a '' @ CHR 0x5C # ''{} b''))) = ''a '' @ CHR 0x5C # ''{''
    \<and> drop nxt (''{a '' @ CHR 0x5C # ''{} b'') = ''b''"
    using element_found_again [OF _ _ scan conv, of "''list''" "''LIST''"] unfolding len sp
    by (simp add: TclIsSpaceProc_iff)
  then obtain e nxt sz lit where
    f: "FindElement (''{a '' @ CHR 0x5C # ''{} b'') 8 ''list'' ''LIST'' = Inr (e, nxt, sz, lit)"
    and d: "drop nxt (''{a '' @ CHR 0x5C # ''{} b'') = ''b''"
    by blast
  from d have "length (drop nxt (''{a '' @ CHR 0x5C # ''{} b'')) = 1" by simp
  then have "nxt = 7" by simp
  with f show ?thesis by blast
qed

lemma runs_half: "2 * runs sp s \<le> length s + (if sp then 1 else 0)"
  by (induction sp s rule: runs.induct) auto

lemma runs_int: "int (length s) \<le> INT_MAX \<Longrightarrow> int (runs sp s) \<le> 1073741824"
  using runs_half [of sp s] by (auto simp: INT_MAX_def split: if_splits)

text \<open>
  C11. \<open>Tcl_SplitList\<close> on arbitrary text that an \<open>int\<close> can count: \<open>TclMaxListLength\<close> is the number of
  words of the text, the argument array it sizes always has room (the internal error cannot
  happen), and every failure is one of the three format errors.  The array with its final \<open>NULL\<close> and
  the copies stay within the block if its size, 8 bytes for each word and the \<open>NULL\<close> and one byte for
  each byte of the text, is below \<open>2 ^ 32\<close>; otherwise \<open>ckalloc\<close> is asked for a smaller block.
\<close>

theorem split_safe:
  assumes "CHR 0x00 \<notin> set lst" "int (length lst) \<le> INT_MAX"
  shows "TclMaxListLength lst None = (int (runs True lst), length lst) \<and> int (runs True lst) < INT_MAX
    \<and> (case Tcl_SplitList lst of
         Inl e \<Rightarrow> \<exists>code\<in>{''JUNK'', ''BRACE'', ''QUOTE''}. snd e = [''TCL'', ''VALUE'', ''LIST'', code]
       | Inr (argv, argc, used) \<Rightarrow>
           argc = length argv \<and> argc \<le> runs True lst \<and> used \<le> length lst + 1
           \<and> (case SplitList_block lst of (array, block) \<Rightarrow>
                8 * (int argc + 1) \<le> array
                \<and> (if 8 * (int (runs True lst) + 1) + int (length lst) + 1 < 2 ^ 32 then array + int used \<le> block
                   else block < array + int (length lst) + 1)))"
proof -
  have runs: "TclMaxListLength lst None = (int (runs True lst), length lst)"
    using assms(1) by (intro TclMaxListLength_runs) (simp add: fits_def)
  let ?size = "8 * (int (runs True lst) + 1) + int (length lst) + 1"
  have block: "SplitList_block lst = (8 * (int (runs True lst) + 1), ?size mod 4294967296)"
    by (simp add: SplitList_block_def runs)
  have "?size mod 4294967296 = ?size" if "?size < 4294967296" using that by (intro mod_pos_pos_trivial) simp_all
  moreover have "?size mod 4294967296 < ?size" if "\<not> ?size < 4294967296"
    using that pos_mod_bound [of "4294967296 :: int" ?size] by linarith
  moreover have "int (runs True lst) < INT_MAX" using runs_int [OF assms(2), of True] by (simp add: INT_MAX_def)
  ultimately show ?thesis
    using SplitList_loop_safe [OF assms(1), of 0 "int (runs True lst) + 1" "[]" 0] runs
    unfolding Tcl_SplitList_def runs block by (auto simp: format_error_def split: sum.splits if_splits)
qed

theorem split_safe_witness:
  "TclMaxListLength ''a {b c} d}'' None = (4, 10)
   \<and> (\<exists>used. Tcl_SplitList ''a {b c} d}'' = Inr ([''a'', ''b c'', ''d}''], 3, used)
        \<and> SplitList_block ''a {b c} d}'' = (40, 51) \<and> 40 + int used \<le> 51)"
proof -
  have "CHR 0x00 \<notin> set ''a {b c} d}''" "int (length ''a {b c} d}'') \<le> INT_MAX" by (simp_all add: INT_MAX_def)
  moreover have "Tcl_SplitList ''a {b c} d}'' = Inr ([''a'', ''b c'', ''d}''], 3, 9)" by code_simp
  moreover have "runs True ''a {b c} d}'' = 4" by code_simp
  moreover have "SplitList_block ''a {b c} d}'' = (40, 51)" by code_simp
  ultimately show ?thesis using split_safe [of "''a {b c} d}''"] by simp
qed

text \<open>A text of \<open>10 ^ 9\<close> bytes with \<open>5 * 10 ^ 8\<close> words is given a block smaller than the array of pointers.\<close>

lemma split_block_truncated:
  assumes "CHR 0x00 \<notin> set lst" "length lst = 1000000000" "runs True lst = 500000000"
  shows "SplitList_block lst = (4000000008, 705032713)"
proof -
  have "TclMaxListLength lst None = (500000000, 1000000000)"
    using TclMaxListLength_runs [of lst None] assms by (simp add: fits_def)
  then show ?thesis by (simp add: SplitList_block_def)
qed

text \<open>
  \<open>Tcl_Merge\<close> is unambiguous and stays within its block: different argument lists have
  different list strings, and the string with its NUL fits the block that was allocated.
\<close>

theorem merge_injective:
  assumes "\<forall>e\<in>set xs \<union> set ys. CHR 0x00 \<notin> set e \<and> int (length e) \<le> INT_MAX"
    and "Tcl_Merge xs = Some (s, n)" and "Tcl_Merge ys = Some (t, m)"
  shows "(s = t) = (xs = ys) \<and> int (length s) + 1 \<le> n"
proof
  have x: "\<forall>e\<in>set xs. CHR 0x00 \<notin> set e" and y: "\<forall>e\<in>set ys. CHR 0x00 \<notin> set e" using assms(1) by auto
  show "(s = t) = (xs = ys)"
    using merged.joined_inj [OF x y, of 0] Tcl_Merge_joined [OF x assms(2)] Tcl_Merge_joined [OF y assms(3)] by auto
  show "int (length s) + 1 \<le> n"
  proof (cases "xs = []")
    case True
    with assms(2) show ?thesis by (simp add: Tcl_Merge_def)
  next
    case False
    with assms(2) obtain flags b where scan: "Merge_scan 0 xs 0 = Some (flags, b)"
      and s: "s = butlast (Merge_convert 0 xs flags)" and n: "n = b + int (length xs)"
      by (auto simp: Tcl_Merge_def split: option.splits if_splits)
    have "int (length (Merge_convert 0 xs flags)) \<le> n"
      using Merge_scan_size [OF _ scan] assms(1) n by (simp add: INT_MAX_def)
    moreover have "Merge_convert 0 xs flags \<noteq> []" using Merge_convert_joined [OF x False scan] by simp
    then have "0 < length (Merge_convert 0 xs flags)" by simp
    ultimately show ?thesis unfolding s by (cases "Merge_convert 0 xs flags") simp_all
  qed
qed

theorem merge_injective_witness:
  "Tcl_Merge [''a b''] = Some (''{a b}'', 6) \<and> Tcl_Merge [''a'', ''b''] = Some (''a b'', 4)
   \<and> (''{a b}'' = ''a b'') = ([''a b''] = [''a'', ''b''])"
proof -
  have "Tcl_Merge [''a b''] = Some (''{a b}'', 6)" by code_simp
  moreover have "Tcl_Merge [''a'', ''b''] = Some (''a b'', 4)" by code_simp
  ultimately show ?thesis using merge_injective [of "[''a b'']" "[''a'', ''b'']"] by (simp add: INT_MAX_def)
qed

end
