(* ===== verification/Parser.thy ===== *)
theory Parser
  imports ListFmt
begin

text \<open>
  The Tcl parser, from \<open>tcl8.6/generic/tclParse.c\<close>: the first command of a script is broken
  into words and tokens.  The script is one buffer \<open>s\<close>; a pointer into it is an offset, and
  \<open>e\<close> is the offset of the byte after the last one to parse, so that \<open>numBytes\<close> is the
  distance from the current offset to \<open>e\<close>.  Reading at \<open>length s\<close> gives the terminating NUL.
  The token array is a list.  The routines call each other recursively without a bound that
  is visible in the code, so they take fuel; \<open>NoFuel\<close> is shown never to be the outcome of
  the fuel that the exported routines use.
\<close>

section \<open>Tokens and the parse state\<close>

datatype token_type =
    TCL_TOKEN_WORD | TCL_TOKEN_SIMPLE_WORD | TCL_TOKEN_EXPAND_WORD
  | TCL_TOKEN_TEXT | TCL_TOKEN_BS | TCL_TOKEN_COMMAND | TCL_TOKEN_VARIABLE

record Tcl_Token =
  token_type :: token_type
  token_start :: nat
  token_size :: nat
  numComponents :: nat

datatype parse_error =
    TCL_PARSE_SUCCESS | TCL_PARSE_QUOTE_EXTRA | TCL_PARSE_BRACE_EXTRA | TCL_PARSE_MISSING_BRACE
  | TCL_PARSE_MISSING_BRACKET | TCL_PARSE_MISSING_PAREN | TCL_PARSE_MISSING_QUOTE
  | TCL_PARSE_MISSING_VAR_BRACE

text \<open>\<open>message\<close> is the result left in the interpreter; \<open>interp\<close> says whether there is one.\<close>

record Tcl_Parse =
  tokens :: "Tcl_Token list"
  numWords :: nat
  commentStart :: "nat option"
  commentSize :: nat
  commandStart :: nat
  commandSize :: nat
  end_of :: nat
  term_at :: nat
  interp :: bool
  incomplete :: bool
  errorType :: parse_error
  message :: "string option"

text \<open>
  How a routine ends: \<open>TCL_OK\<close>, \<open>TCL_ERROR\<close>, a panic, or \<open>Overrun\<close> for a read that went past
  the end and accepted a byte that does not belong to the script.
\<close>

datatype status = TCL_OK | TCL_ERROR | Panic | Overrun | NoFuel

definition TCL_SUBST_COMMANDS :: int where "TCL_SUBST_COMMANDS = 1"
definition TCL_SUBST_VARIABLES :: int where "TCL_SUBST_VARIABLES = 2"
definition TCL_SUBST_BACKSLASHES :: int where "TCL_SUBST_BACKSLASHES = 4"
definition TCL_SUBST_ALL :: int where "TCL_SUBST_ALL = 7"

lemmas SUBST_defs = TCL_SUBST_COMMANDS_def TCL_SUBST_VARIABLES_def TCL_SUBST_BACKSLASHES_def TCL_SUBST_ALL_def

text \<open>The fields of the command are not touched by \<open>TclParseInit\<close>; \<open>Tcl_ParseCommand\<close> sets them next.\<close>

definition TclParseInit :: "bool \<Rightarrow> nat \<Rightarrow> Tcl_Parse" where
  "TclParseInit ip e =
     \<lparr>tokens = [], numWords = 0, commentStart = None, commentSize = 0, commandStart = 0, commandSize = 0,
      end_of = e, term_at = e, interp = ip, incomplete = False, errorType = TCL_PARSE_SUCCESS, message = None\<rparr>"

definition token :: "token_type \<Rightarrow> nat \<Rightarrow> nat \<Rightarrow> nat \<Rightarrow> Tcl_Token" where
  "token ty st sz k = \<lparr>token_type = ty, token_start = st, token_size = sz, numComponents = k\<rparr>"

definition add_token :: "Tcl_Token \<Rightarrow> Tcl_Parse \<Rightarrow> Tcl_Parse" where
  "add_token t P = P\<lparr>tokens := tokens P @ [t]\<rparr>"

text \<open>Recording an error: its type, where the text that is not closed starts, and the message.\<close>

definition parse_failed :: "parse_error \<Rightarrow> nat \<Rightarrow> string \<Rightarrow> Tcl_Parse \<Rightarrow> Tcl_Parse" where
  "parse_failed err at msg P =
     P\<lparr>errorType := err, term_at := at, incomplete := True,
       message := (if interp P then Some msg else message P)\<rparr>"

section \<open>Comments\<close>

text \<open>The two inner loops of \<open>ParseComment\<close>: white space with newlines, and the comment's text.\<close>

function comment_space :: "string \<Rightarrow> nat \<Rightarrow> nat \<Rightarrow> bool \<Rightarrow> nat \<times> bool" where
  "comment_space s e p inc =
     (let (scanned, _, i) = ParseWhiteSpace (drop p s) (e - p); p = p + scanned; inc = (inc \<or> i)
      in if p < e \<and> chr_at s p = CHR 0x0A then comment_space s e (p + 1) inc else (p, inc))"
  by pat_completeness auto
termination
  by (relation "measure (\<lambda>(s, e, p, inc). e - p)") auto

declare comment_space.simps [simp del]

function comment_text :: "string \<Rightarrow> nat \<Rightarrow> nat \<Rightarrow> bool \<Rightarrow> nat \<times> bool" where
  "comment_text s e p inc =
     (if p \<ge> e then (p, inc)
      else if chr_at s p = CHR 0x5C then
        (let (scanned, _, i) = ParseWhiteSpace (drop p s) (e - p) in
         if scanned \<noteq> 0 then comment_text s e (p + scanned) (inc \<or> i)
         else comment_text s e (p + snd (TclParseBackslash (drop p s) (e - p))) (inc \<or> i))
      else if chr_at s p = CHR 0x0A then (p + 1, inc)
      else comment_text s e (p + 1) inc)"
  by pat_completeness auto
termination
proof (relation "measure (\<lambda>(s, e, p, inc). e - p)", goal_cases)
  case (3 s e p inc)
  then show ?case using TclParseBackslash_pos [of "e - p" "drop p s"] by simp
qed auto

declare comment_text.simps [simp del]

lemma comment_space_ge: "p \<le> fst (comment_space s e p inc)"
proof (induction s e p inc rule: comment_space.induct)
  case (1 s e p inc)
  then show ?case by (subst comment_space.simps) (fastforce simp: Let_def split: prod.splits)
qed

lemma comment_text_ge: "p \<le> fst (comment_text s e p inc) \<and> (p < e \<longrightarrow> p < fst (comment_text s e p inc))"
proof (induction s e p inc rule: comment_text.induct)
  case (1 s e p inc)
  show ?case
  proof (cases "p < e \<and> chr_at s p = CHR 0x5C")
    case True
    obtain scanned ty i where w: "ParseWhiteSpace (drop p s) (e - p) = (scanned, ty, i)" by (metis prod_cases3)
    have pos: "0 < snd (TclParseBackslash (drop p s) (e - p))" using True TclParseBackslash_pos [of "e - p" "drop p s"] by simp
    show ?thesis
    proof (cases "scanned = 0")
      case False
      then have "p + scanned \<le> fst (comment_text s e (p + scanned) (inc \<or> i))" using 1(1) w True by simp
      moreover have "comment_text s e p inc = comment_text s e (p + scanned) (inc \<or> i)"
        using True w False by (subst comment_text.simps) simp
      ultimately show ?thesis using False by simp
    next
      case z: True
      let ?q = "p + snd (TclParseBackslash (drop p s) (e - p))"
      have "?q \<le> fst (comment_text s e ?q (inc \<or> i))" using 1(2) w True z by simp
      moreover have "comment_text s e p inc = comment_text s e ?q (inc \<or> i)"
        using True w z by (subst comment_text.simps) simp
      ultimately show ?thesis using pos by simp
    qed
  next
    case False
    have step: "comment_text s e p inc = (if p \<ge> e then (p, inc) else if chr_at s p = CHR 0x0A then (p + 1, inc) else comment_text s e (p + 1) inc)"
      using False by (subst comment_text.simps) auto
    show ?thesis using 1(3) False unfolding step by auto
  qed
qed

function ParseComment_loop :: "string \<Rightarrow> nat \<Rightarrow> nat \<Rightarrow> Tcl_Parse \<Rightarrow> nat \<times> Tcl_Parse" where
  "ParseComment_loop s e p P =
     (if p \<ge> e then (p, P)
      else let (p, inc) = comment_space s e p (incomplete P); P = P\<lparr>incomplete := inc\<rparr> in
        if p \<ge> e \<or> chr_at s p \<noteq> CHR ''#'' then (p, P)
        else let P = (if commentStart P = None then P\<lparr>commentStart := Some p\<rparr> else P);
                 (p, inc) = comment_text s e p (incomplete P);
                 P = P\<lparr>incomplete := inc, commentSize := p - the (commentStart P)\<rparr>
             in ParseComment_loop s e p P)"
  by pat_completeness auto
termination
proof (relation "measure (\<lambda>(s, e, p, P). e - p)", goal_cases)
  case (2 s e p P x p' inc P' P'' x' p'' inc' P''')
  have "p \<le> p'" using comment_space_ge [of p s e "incomplete P"] 2(2,3) by (metis fst_conv)
  moreover have "p' < p''" using comment_text_ge [of p' s e "incomplete P''"] 2 by (metis fst_conv not_le)
  moreover have "p' < e" using 2 by simp
  ultimately show ?case by (simp add: diff_less_mono2)
qed simp

declare ParseComment_loop.simps [simp del]

definition ParseComment :: "string \<Rightarrow> nat \<Rightarrow> nat \<Rightarrow> Tcl_Parse \<Rightarrow> nat \<times> Tcl_Parse" where
  "ParseComment s e src P = (let (p, P) = ParseComment_loop s e src P in (p - src, P))"


section \<open>Variable names, braces and quotes\<close>

text \<open>
  The characters of a name after the dollar sign: letters, digits and underscores, and runs of
  two or more colons.
\<close>

function colons :: "string \<Rightarrow> nat \<Rightarrow> nat \<Rightarrow> nat" where
  "colons s e p = (if p < e \<and> chr_at s p = CHR '':'' then colons s e (p + 1) else p)"
  by pat_completeness auto
termination
  by (relation "measure (\<lambda>(s, e, p). e - p)") auto

declare colons.simps [simp del]

lemma colons_bounds: "p \<le> colons s e p \<and> (p \<le> e \<longrightarrow> colons s e p \<le> e)"
  by (induction s e p rule: colons.induct) (subst (1 2) colons.simps, auto)

function bare_name :: "string \<Rightarrow> nat \<Rightarrow> nat \<Rightarrow> nat" where
  "bare_name s e p =
     (if p \<ge> e then p
      else if TclIsBareword (chr_at s p) then bare_name s e (p + 1)
      else if chr_at s p = CHR '':'' \<and> e - p \<noteq> 1 \<and> chr_at s (p + 1) = CHR '':''
      then bare_name s e (colons s e (p + 2))
      else p)"
  by pat_completeness auto
termination
proof (relation "measure (\<lambda>(s, e, p). e - p)", goal_cases)
  case (3 s e p)
  then show ?case using colons_bounds [of "p + 2" s e] by auto
qed auto

declare bare_name.simps [simp del]

lemma bare_name_bounds: "p \<le> bare_name s e p \<and> (p \<le> e \<longrightarrow> bare_name s e p \<le> e)"
proof (induction s e p rule: bare_name.induct)
  case (1 s e p)
  show ?case using 1 colons_bounds [of "p + 2" s e] by (subst (1 2) bare_name.simps) auto
qed

text \<open>The end of a name in braces.\<close>

function close_brace :: "string \<Rightarrow> nat \<Rightarrow> nat \<Rightarrow> nat" where
  "close_brace s e p = (if p < e \<and> chr_at s p \<noteq> CHR ''}'' then close_brace s e (p + 1) else p)"
  by pat_completeness auto
termination
  by (relation "measure (\<lambda>(s, e, p). e - p)") auto

declare close_brace.simps [simp del]

lemma close_brace_bounds: "p \<le> close_brace s e p \<and> (p \<le> e \<longrightarrow> close_brace s e p \<le> e)"
  by (induction s e p rule: close_brace.induct) (subst (1 2) close_brace.simps, auto)

text \<open>
  \<open>Tcl_ParseVarName\<close> with \<open>append\<close> set, for a dollar sign at \<open>start\<close>; \<open>pt src stop\<close> is the
  call of \<open>ParseTokens\<close> for an array index.
\<close>

definition ParseVarName ::
  "(nat \<Rightarrow> int \<Rightarrow> Tcl_Parse \<Rightarrow> status \<times> Tcl_Parse) \<Rightarrow> string \<Rightarrow> nat \<Rightarrow> nat \<Rightarrow> Tcl_Parse \<Rightarrow> status \<times> Tcl_Parse" where
  "ParseVarName pt s e start P =
     (let varIndex = length (tokens P);
          src = start + 1;
          justADollarSign = (TCL_OK, add_token (token TCL_TOKEN_TEXT start 1 0) P);
          named = (\<lambda>src P. (TCL_OK, P\<lparr>tokens := (tokens P)[varIndex :=
                     token TCL_TOKEN_VARIABLE start (src - start) (length (tokens P) - (varIndex + 1))]\<rparr>))
      in
      if e \<le> start then (TCL_ERROR, P)
      else if src = e then justADollarSign
      else if chr_at s src = CHR ''{'' then
        (let q = close_brace s e (src + 1) in
         if q = e
         then (TCL_ERROR, parse_failed TCL_PARSE_MISSING_VAR_BRACE src ''missing close-brace for variable name''
                            (add_token (token TCL_TOKEN_VARIABLE start 0 0) P))
         else named (q + 1) (add_token (token TCL_TOKEN_TEXT (src + 1) (q - (src + 1)) 0)
                              (add_token (token TCL_TOKEN_VARIABLE start 0 0) P)))
      else
        (let q = bare_name s e src; arr = (q < e \<and> chr_at s q = CHR ''('') in
         if q - src = 0 \<and> \<not> arr then justADollarSign
         else
           let P = add_token (token TCL_TOKEN_TEXT src (q - src) 0)
                     (add_token (token TCL_TOKEN_VARIABLE start 0 0) P)
           in if \<not> arr then named q P
              else case pt (q + 1) TYPE_CLOSE_PAREN P of
                     (TCL_OK, P) \<Rightarrow>
                       (if term_at P = e \<or> chr_at s (term_at P) \<noteq> CHR '')''
                        then (TCL_ERROR, parse_failed TCL_PARSE_MISSING_PAREN q ''missing )'' P)
                        else named (term_at P + 1) P)
                   | (st, P) \<Rightarrow> (st, P)))"

text \<open>
  Braces.  \<open>brace_skip\<close> is the inner loop that steps over normal characters; \<open>src\<close> is the
  character the search starts behind, \<open>level\<close> the nesting and \<open>ts\<close> the start of the text token
  being collected.  On success the result is the offset after the closing brace.
\<close>

function brace_skip :: "string \<Rightarrow> nat \<Rightarrow> nat \<Rightarrow> nat" where
  "brace_skip s e src =
     (if src + 1 \<ge> e then e
      else if CHAR_TYPE (chr_at s (src + 1)) \<noteq> TYPE_NORMAL then src + 1
      else brace_skip s e (src + 1))"
  by pat_completeness auto
termination
  by (relation "measure (\<lambda>(s, e, src). e - src)") auto

declare brace_skip.simps [simp del]

lemma brace_skip_bounds: "src < e \<Longrightarrow> src < brace_skip s e src \<and> brace_skip s e src \<le> e"
proof (induction s e src rule: brace_skip.induct)
  case (1 s e src) then show ?case by (subst (1 2) brace_skip.simps) auto
qed

text \<open>
  The guess that an open brace in a comment caused the error: the text is searched backwards
  from \<open>src\<close>.
\<close>

fun brace_in_comment :: "string \<Rightarrow> nat \<Rightarrow> nat \<Rightarrow> bool \<Rightarrow> bool" where
  "brace_in_comment s start 0 openBrace = False"
| "brace_in_comment s start (Suc src) openBrace =
     (if src \<le> start then False
      else if chr_at s src = CHR ''{'' then brace_in_comment s start src True
      else if chr_at s src = CHR 0x0A then brace_in_comment s start src False
      else if chr_at s src = CHR ''#'' \<and> openBrace \<and> TclIsSpaceProc (chr_at s (src - 1)) then True
      else brace_in_comment s start src openBrace)"

definition missing_brace :: "string \<Rightarrow> nat \<Rightarrow> nat \<Rightarrow> Tcl_Parse \<Rightarrow> Tcl_Parse" where
  "missing_brace s start src P =
     parse_failed TCL_PARSE_MISSING_BRACE start
       (if brace_in_comment s start src False then ''missing close-brace: possible unbalanced brace in comment''
        else ''missing close-brace'') P"

function ParseBraces_loop ::
  "string \<Rightarrow> nat \<Rightarrow> nat \<Rightarrow> nat \<Rightarrow> nat \<Rightarrow> nat \<Rightarrow> nat \<Rightarrow> Tcl_Parse \<Rightarrow> status \<times> nat \<times> Tcl_Parse" where
  "ParseBraces_loop s e start startIndex src level ts P =
     (if e \<le> src then (TCL_ERROR, src, missing_brace s start src P)
      else let src = brace_skip s e src in
      if src = e then (TCL_ERROR, src, missing_brace s start src P)
      else if chr_at s src = CHR ''{'' then ParseBraces_loop s e start startIndex src (level + 1) ts P
      else if chr_at s src = CHR ''}'' then
        (if level = 1 then
           (TCL_OK, src + 1,
            if src \<noteq> ts \<or> length (tokens P) = startIndex then add_token (token TCL_TOKEN_TEXT ts (src - ts) 0) P else P)
         else ParseBraces_loop s e start startIndex src (level - 1) ts P)
      else if chr_at s src = CHR 0x5C then
        (let len = snd (TclParseBackslash (drop src s) (e - src)) in
         if len > 1 \<and> chr_at s (src + 1) = CHR 0x0A then
           (let P = (if e - src = 2 then P\<lparr>incomplete := True\<rparr> else P);
                P = (if src - ts \<noteq> 0 then add_token (token TCL_TOKEN_TEXT ts (src - ts) 0) P else P);
                P = add_token (token TCL_TOKEN_BS src len 0) P
            in ParseBraces_loop s e start startIndex (src + len - 1) level (src + len) P)
         else ParseBraces_loop s e start startIndex (src + len - 1) level ts P)
      else ParseBraces_loop s e start startIndex src level ts P)"
  by pat_completeness auto
termination
proof (relation "measure (\<lambda>(s, e, start, i, src, level, ts, P). e - src)", goal_cases)
  case (2 s e start i src level ts P src') then show ?case using brace_skip_bounds [of src e s] by auto
next
  case (3 s e start i src level ts P src') then show ?case using brace_skip_bounds [of src e s] by auto
next
  case (4 s e start i src level ts P src' len)
  then show ?case using brace_skip_bounds [of src e s] TclParseBackslash_pos [of "e - src'" "drop src' s"] by auto
next
  case (5 s e start i src level ts P src' len)
  then show ?case using brace_skip_bounds [of src e s] TclParseBackslash_pos [of "e - src'" "drop src' s"] by auto
next
  case (6 s e start i src level ts P src') then show ?case using brace_skip_bounds [of src e s] by auto
qed simp

declare ParseBraces_loop.simps [simp del]

text \<open>With \<open>append\<close> set; the middle component is \<open>*termPtr\<close>.\<close>

definition ParseBraces :: "string \<Rightarrow> nat \<Rightarrow> nat \<Rightarrow> Tcl_Parse \<Rightarrow> status \<times> nat \<times> Tcl_Parse" where
  "ParseBraces s e start P =
     (if e \<le> start then (TCL_ERROR, start, P)
      else ParseBraces_loop s e start (length (tokens P)) start 1 (start + 1) P)"

text \<open>
  Quotes.  If the tokens reach the end, the byte there is looked at without a check: when it
  is a quote, it is accepted although it is not part of the text, which is \<open>Overrun\<close>.
\<close>

definition ParseQuotedString ::
  "(nat \<Rightarrow> int \<Rightarrow> Tcl_Parse \<Rightarrow> status \<times> Tcl_Parse) \<Rightarrow> string \<Rightarrow> nat \<Rightarrow> nat \<Rightarrow> Tcl_Parse \<Rightarrow> status \<times> nat \<times> Tcl_Parse" where
  "ParseQuotedString pt s e start P =
     (if e \<le> start then (TCL_ERROR, start, P)
      else case pt (start + 1) TYPE_QUOTE P of
             (TCL_OK, P) \<Rightarrow>
               (if chr_at s (term_at P) \<noteq> CHR 0x22
                then (TCL_ERROR, start, parse_failed TCL_PARSE_MISSING_QUOTE start [CHR ''m'', CHR ''i'', CHR ''s'', CHR ''s'', CHR ''i'', CHR ''n'', CHR ''g'', CHR '' '', CHR 0x22] P)
                else if term_at P \<ge> e then (Overrun, term_at P + 1, P)
                else (TCL_OK, term_at P + 1, P))
           | (st, P) \<Rightarrow> (st, start, P))"


section \<open>Tokens and commands\<close>

text \<open>The end of a run of characters without substitutions that starts at \<open>src\<close>.\<close>

function scan_text :: "string \<Rightarrow> nat \<Rightarrow> int \<Rightarrow> nat \<Rightarrow> nat" where
  "scan_text s e stop src =
     (if src + 1 \<ge> e then e
      else if CHAR_TYPE (chr_at s (src + 1)) AND (stop OR TYPE_SUBS) \<noteq> 0 then src + 1
      else scan_text s e stop (src + 1))"
  by pat_completeness auto
termination
  by (relation "measure (\<lambda>(s, e, stop, src). e - src)") auto

declare scan_text.simps [simp del]

lemma scan_text_bounds: "src < e \<Longrightarrow> src < scan_text s e stop src \<and> scan_text s e stop src \<le> e"
proof (induction s e stop src rule: scan_text.induct)
  case (1 s e stop src) then show ?case by (subst (1 2) scan_text.simps) auto
qed

text \<open>
  One word of a command, without the word token itself: quoted, in braces or bare.  The result
  has the offset after the word.
\<close>

definition parse_part ::
  "(nat \<Rightarrow> int \<Rightarrow> Tcl_Parse \<Rightarrow> status \<times> Tcl_Parse) \<Rightarrow> string \<Rightarrow> nat \<Rightarrow> int \<Rightarrow> nat \<Rightarrow> Tcl_Parse \<Rightarrow> status \<times> nat \<times> Tcl_Parse" where
  "parse_part pt s e terminators src P =
     (if chr_at s src = CHR 0x22 then ParseQuotedString pt s e src P
      else if chr_at s src = CHR ''{'' then ParseBraces s e src P
      else case pt src (TYPE_SPACE OR terminators) P of (st, P) \<Rightarrow> (st, term_at P, P))"

text \<open>Whether the word just parsed is the prefix \<open>{*}\<close>, and the state after that test.\<close>

definition expand_prefix :: "string \<Rightarrow> nat \<Rightarrow> nat \<Rightarrow> nat \<Rightarrow> Tcl_Parse \<Rightarrow> bool \<times> Tcl_Parse" where
  "expand_prefix s e expIdx src P =
     (let expPtr = tokens P ! expIdx in
      if length (tokens P) - expIdx = 1 \<and> token_size expPtr = 1 \<and> chr_at s (token_start expPtr) = CHR ''*'' \<and> src < e
      then let (scanned, type, inc) = ParseWhiteSpace (drop src s) (e - src);
               P = P\<lparr>incomplete := (incomplete P \<or> inc)\<rparr>
           in (scanned = 0 \<and> type \<noteq> TYPE_COMMAND_END, P)
      else (False, P))"

text \<open>The flag says whether the word is to be expanded.\<close>

definition parse_word ::
  "(nat \<Rightarrow> int \<Rightarrow> Tcl_Parse \<Rightarrow> status \<times> Tcl_Parse) \<Rightarrow> string \<Rightarrow> nat \<Rightarrow> int \<Rightarrow> nat \<Rightarrow> Tcl_Parse \<Rightarrow> status \<times> nat \<times> bool \<times> Tcl_Parse" where
  "parse_word pt s e terminators src P =
     (let expIdx = length (tokens P) in
      case parse_part pt s e terminators src P of
        (TCL_OK, src', P) \<Rightarrow>
          (if chr_at s src = CHR ''{'' then
             (case expand_prefix s e expIdx src' P of
                (True, P) \<Rightarrow>
                  (case parse_part pt s e terminators src' (P\<lparr>tokens := butlast (tokens P)\<rparr>) of
                     (st, src'', P) \<Rightarrow> (st, src'', True, P))
              | (False, P) \<Rightarrow> (TCL_OK, src', False, P))
           else (TCL_OK, src', False, P))
      | (st, src', P) \<Rightarrow> (st, src', False, P))"

text \<open>
  A word to expand that is a literal list: the number of its elements, or \<open>None\<close> if the text
  is no list or an element is not a part of the script as it is.
\<close>

function literal_list :: "string \<Rightarrow> nat \<Rightarrow> nat \<Rightarrow> nat \<Rightarrow> nat option" where
  "literal_list s listEnd nextElem elemCount =
     (if nextElem < listEnd then
        (case TclFindElement (drop nextElem s) (listEnd - nextElem) of
           Inl e \<Rightarrow> None
         | Inr (el, next, sz, lit) \<Rightarrow>
             (if \<not> lit then None
              else literal_list s listEnd (nextElem + next) (if nextElem + el < listEnd then elemCount + 1 else elemCount)))
      else Some elemCount)"
  by pat_completeness auto
termination
  by (relation "measure (\<lambda>(s, listEnd, nextElem, k). listEnd - nextElem)") (auto dest: TclFindElement_pos)

declare literal_list.simps [simp del]

text \<open>The tokens of the elements: a simple word, with its braces or quotes, and its text.\<close>

function literal_tokens :: "string \<Rightarrow> nat \<Rightarrow> nat \<Rightarrow> nat \<Rightarrow> Tcl_Token list" where
  "literal_tokens s listStart listEnd nextElem =
     (if nextElem < listEnd then
        (case TclFindElement (drop nextElem s) (listEnd - nextElem) of
           Inl e \<Rightarrow> []
         | Inr (el, next, sz, lit) \<Rightarrow>
             (let st = nextElem + el;
                  quoted = (if (chr_at s (st - 1) = CHR ''{'' \<or> chr_at s (st - 1) = CHR 0x22) \<and> st > listStart then 1 else 0)
              in token TCL_TOKEN_SIMPLE_WORD (st - quoted) (st + sz - (st - quoted) + quoted) 1
                 # token TCL_TOKEN_TEXT st sz 0
                 # literal_tokens s listStart listEnd (nextElem + next)))
      else [])"
  by pat_completeness auto
termination
  by (relation "measure (\<lambda>(s, listStart, listEnd, nextElem). listEnd - nextElem)") (auto dest: TclFindElement_pos)

declare literal_tokens.simps [simp del]

text \<open>Finishing the token of the word at \<open>wordIndex\<close> that ends before \<open>src\<close>.\<close>

definition finish_word :: "string \<Rightarrow> nat \<Rightarrow> bool \<Rightarrow> nat \<Rightarrow> Tcl_Parse \<Rightarrow> Tcl_Parse" where
  "finish_word s wordIndex expandWord src P =
     (let nc = length (tokens P) - (wordIndex + 1);
          w = (tokens P ! wordIndex)\<lparr>token_size := src - token_start (tokens P ! wordIndex), numComponents := nc\<rparr>;
          typed = (\<lambda>ty. P\<lparr>tokens := (tokens P)[wordIndex := w\<lparr>token_type := ty\<rparr>]\<rparr>)
      in if expandWord then
           (if list_all (\<lambda>t. token_type t = TCL_TOKEN_TEXT) (drop (wordIndex + 1) (tokens P)) then
              (let lastTok = tokens P ! (wordIndex + nc);
                   listEnd = token_start lastTok + token_size lastTok;
                   listStart = token_start (tokens P ! (wordIndex + 1))
               in case literal_list s listEnd listStart 0 of
                    None \<Rightarrow> typed TCL_TOKEN_EXPAND_WORD
                  | Some elemCount \<Rightarrow>
                      (if elemCount = 0 then P\<lparr>numWords := numWords P - 1, tokens := take wordIndex (tokens P)\<rparr>
                       else P\<lparr>numWords := numWords P + elemCount - 1,
                              tokens := take wordIndex (tokens P)
                                @ take (2 * elemCount) (literal_tokens s listStart listEnd listStart)\<rparr>))
            else typed TCL_TOKEN_EXPAND_WORD)
         else if nc = 1 \<and> token_type (tokens P ! (wordIndex + 1)) = TCL_TOKEN_TEXT then typed TCL_TOKEN_SIMPLE_WORD
         else typed TCL_TOKEN_WORD)"

text \<open>What is wrong with text that follows a word directly.\<close>

definition extra_characters :: "string \<Rightarrow> nat \<Rightarrow> Tcl_Parse \<Rightarrow> Tcl_Parse" where
  "extra_characters s src P =
     (let quote = (chr_at s (src - 1) = CHR 0x22)
      in P\<lparr>errorType := (if quote then TCL_PARSE_QUOTE_EXTRA else TCL_PARSE_BRACE_EXTRA), term_at := src,
           message := (if interp P
                       then Some (if quote then ''extra characters after close-quote'' else ''extra characters after close-brace'')
                       else message P)\<rparr>)"

text \<open>The token of one character that is not substituted.\<close>

definition plain_token :: "nat \<Rightarrow> Tcl_Parse \<Rightarrow> Tcl_Parse" where
  "plain_token src P = add_token (token TCL_TOKEN_TEXT src 1 0) P"

text \<open>The end of \<open>ParseTokens\<close>: there is always at least one token.\<close>

definition end_tokens :: "nat \<Rightarrow> nat \<Rightarrow> Tcl_Parse \<Rightarrow> Tcl_Parse" where
  "end_tokens originalTokens src P =
     (let P = (if length (tokens P) = originalTokens then add_token (token TCL_TOKEN_TEXT src 0 0) P else P)
      in P\<lparr>term_at := src\<rparr>)"

text \<open>
  \<open>ParseTokens_loop\<close> is the loop of \<open>ParseTokens\<close>, \<open>nested_commands\<close> the loop over the commands
  between brackets (\<open>start\<close> is the open bracket), and \<open>ParseCommand_loop\<close> the loop over the words
  of a command.
\<close>

definition init_command :: "string \<Rightarrow> nat \<Rightarrow> nat \<Rightarrow> bool \<Rightarrow> bool \<Rightarrow> Tcl_Parse" where
  "init_command s e start nested ip =
     (let (scanned, P) = ParseComment s e start (TclParseInit ip e);
          src = start + scanned;
          P = (if src = e \<and> nested then P\<lparr>incomplete := True\<rparr> else P)
      in P\<lparr>commandStart := src\<rparr>)"

definition command_ok :: "nat \<Rightarrow> Tcl_Parse \<Rightarrow> status \<times> Tcl_Parse" where
  "command_ok src P = (TCL_OK, P\<lparr>commandSize := src - commandStart P\<rparr>)"

definition command_error :: "status \<Rightarrow> Tcl_Parse \<Rightarrow> status \<times> Tcl_Parse" where
  "command_error st P = (st, P\<lparr>commandSize := end_of P - commandStart P\<rparr>)"

type_synonym tokens_fun = "string \<Rightarrow> nat \<Rightarrow> int \<Rightarrow> int \<Rightarrow> nat \<Rightarrow> nat \<Rightarrow> Tcl_Parse \<Rightarrow> status \<times> Tcl_Parse"
type_synonym nested_fun = "string \<Rightarrow> nat \<Rightarrow> nat \<Rightarrow> nat \<Rightarrow> Tcl_Parse \<Rightarrow> status \<times> nat \<times> Tcl_Parse"
type_synonym command_fun = "string \<Rightarrow> nat \<Rightarrow> int \<Rightarrow> nat \<Rightarrow> Tcl_Parse \<Rightarrow> status \<times> Tcl_Parse"

text \<open>A call of \<open>ParseTokens\<close> with all substitutions, its loop being \<open>pt\<close>.\<close>

definition all_tokens :: "tokens_fun \<Rightarrow> string \<Rightarrow> nat \<Rightarrow> nat \<Rightarrow> int \<Rightarrow> Tcl_Parse \<Rightarrow> status \<times> Tcl_Parse" where
  "all_tokens pt s e src stop P = pt s e stop TCL_SUBST_ALL (length (tokens P)) src P"

text \<open>One turn of each loop; the arguments \<open>pt\<close>, \<open>nc\<close> and \<open>pc\<close> are the loops themselves.\<close>

definition ParseTokens_step :: "tokens_fun \<Rightarrow> nested_fun \<Rightarrow> tokens_fun" where
  "ParseTokens_step pt nc s e stop flags originalTokens src P =
     (let c = chr_at s src; type = CHAR_TYPE c; next = pt s e stop flags originalTokens in
      if e \<le> src \<or> type AND stop \<noteq> 0 then (TCL_OK, end_tokens originalTokens src P)
      else if type AND TYPE_SUBS = 0 then
        (let q = scan_text s e stop src in next q (add_token (token TCL_TOKEN_TEXT src (q - src) 0) P))
      else if c = CHR ''$'' then
        (if flags AND TCL_SUBST_VARIABLES = 0 then next (src + 1) (plain_token src P)
         else
           let varToken = length (tokens P) in
           case ParseVarName (all_tokens pt s e) s e src P of
             (TCL_OK, P) \<Rightarrow> next (src + token_size (tokens P ! varToken)) P
           | (st, P) \<Rightarrow> (st, P))
      else if c = CHR ''['' then
        (if flags AND TCL_SUBST_COMMANDS = 0 then next (src + 1) (plain_token src P)
         else case nc s e src (src + 1) P of
                (TCL_OK, q, P) \<Rightarrow> next q (add_token (token TCL_TOKEN_COMMAND src (q - src) 0) P)
              | (st, q, P) \<Rightarrow> (st, P))
      else if c = CHR 0x5C then
        (if flags AND TCL_SUBST_BACKSLASHES = 0 then next (src + 1) (plain_token src P)
         else
           let len = snd (TclParseBackslash (drop src s) (e - src)) in
           if len = 1 then next (src + 1) (plain_token src P)
           else
             let newline = (chr_at s (src + 1) = CHR 0x0A);
                 P = (if newline \<and> e - src = 2 then P\<lparr>incomplete := True\<rparr> else P)
             in if newline \<and> stop AND TYPE_SPACE \<noteq> 0 then (TCL_OK, end_tokens originalTokens src P)
                else next (src + len) (add_token (token TCL_TOKEN_BS src len 0) P))
      else if c = CHR 0x00 then next (src + 1) (plain_token src P)
      else (Panic, P))"

text \<open>The call of \<open>Tcl_ParseCommand\<close> with the words parsed by \<open>pc\<close>.\<close>

definition parse_command :: "command_fun \<Rightarrow> string \<Rightarrow> nat \<Rightarrow> bool \<Rightarrow> bool \<Rightarrow> nat \<Rightarrow> status \<times> Tcl_Parse" where
  "parse_command pc s e nested ip start =
     (let P = init_command s e start nested ip
      in pc s e (if nested then TYPE_COMMAND_END OR TYPE_CLOSE_BRACK else TYPE_COMMAND_END) (commandStart P) P)"

definition nested_step :: "nested_fun \<Rightarrow> command_fun \<Rightarrow> nested_fun" where
  "nested_step nc pc s e start src P =
     (case parse_command pc s e True (interp P) src of
        (TCL_OK, N) \<Rightarrow>
          (let src = commandStart N + commandSize N in
           if term_at N < end_of P \<and> chr_at s (term_at N) = CHR '']'' \<and> \<not> incomplete N then (TCL_OK, src, P)
           else if end_of P - src = 0
           then (TCL_ERROR, src, parse_failed TCL_PARSE_MISSING_BRACKET start ''missing close-bracket'' P)
           else nc s (end_of P) start src P)
      | (st, N) \<Rightarrow>
          (st, src, P\<lparr>errorType := errorType N, term_at := term_at N, incomplete := incomplete N,
                      message := (if message N = None then message P else message N)\<rparr>))"

text \<open>The checks behind a word: more words, the end of the command, or an error.\<close>

definition after_word :: "command_fun \<Rightarrow> command_fun" where
  "after_word pc s e terminators src P =
     (let (scanned, type, inc) = ParseWhiteSpace (drop src s) (e - src);
          P = P\<lparr>incomplete := (incomplete P \<or> inc)\<rparr>
      in if scanned \<noteq> 0 then pc s e terminators (src + scanned) P
         else if src = e then command_ok src (P\<lparr>term_at := src\<rparr>)
         else if type AND terminators \<noteq> 0 then command_ok (src + 1) (P\<lparr>term_at := src\<rparr>)
         else command_error TCL_ERROR (extra_characters s src P))"

definition ParseCommand_step :: "tokens_fun \<Rightarrow> command_fun \<Rightarrow> command_fun" where
  "ParseCommand_step pt pc s e terminators src P =
     (let wordIndex = length (tokens P);
          (scanned, type, inc) = ParseWhiteSpace (drop src s) (e - src);
          P = P\<lparr>incomplete := (incomplete P \<or> inc)\<rparr>;
          src = src + scanned
      in
      if src = e then command_ok src (P\<lparr>term_at := src\<rparr>)
      else if type AND terminators \<noteq> 0 then command_ok (src + 1) (P\<lparr>term_at := src\<rparr>)
      else
        case parse_word (all_tokens pt s e) s e terminators src
               ((add_token (token TCL_TOKEN_WORD src 0 0) P)\<lparr>numWords := numWords P + 1\<rparr>) of
          (TCL_OK, src, expandWord, P) \<Rightarrow> after_word pc s e terminators src (finish_word s wordIndex expandWord src P)
        | (st, src, expandWord, P) \<Rightarrow> command_error st P)"

text \<open>The three loops with fuel; \<open>loops\<close> ties them together, and the equations after it are their definition.\<close>

primrec loops :: "nat \<Rightarrow> tokens_fun \<times> nested_fun \<times> command_fun" where
  "loops 0 = (\<lambda>s e stop flags originalTokens src P. (NoFuel, P), \<lambda>s e start src P. (NoFuel, src, P),
     \<lambda>s e terminators src P. (NoFuel, P))"
| "loops (Suc n) = (case loops n of (pt, nc, pc) \<Rightarrow>
     (ParseTokens_step pt nc, nested_step nc pc, ParseCommand_step pt pc))"

definition ParseTokens_loop :: "nat \<Rightarrow> tokens_fun" where
  "ParseTokens_loop n = fst (loops n)"

definition nested_commands :: "nat \<Rightarrow> nested_fun" where
  "nested_commands n = fst (snd (loops n))"

definition ParseCommand_loop :: "nat \<Rightarrow> command_fun" where
  "ParseCommand_loop n = snd (snd (loops n))"

lemma loops_simps [simp, code]:
  "ParseTokens_loop 0 s e stop flags originalTokens src P = (NoFuel, P)"
  "ParseTokens_loop (Suc n) s e stop flags originalTokens src P =
     ParseTokens_step (ParseTokens_loop n) (nested_commands n) s e stop flags originalTokens src P"
  "nested_commands 0 s e start src P = (NoFuel, src, P)"
  "nested_commands (Suc n) s e start src P = nested_step (nested_commands n) (ParseCommand_loop n) s e start src P"
  "ParseCommand_loop 0 s e terminators src P = (NoFuel, P)"
  "ParseCommand_loop (Suc n) s e terminators src P =
     ParseCommand_step (ParseTokens_loop n) (ParseCommand_loop n) s e terminators src P"
  by (simp_all add: ParseTokens_loop_def nested_commands_def ParseCommand_loop_def split_beta)

text \<open>
  The exported routines.  The fuel is more than three times the number of bytes: one turn of a
  loop, or one call at the same place, uses one.
\<close>

definition Tcl_ParseCommand :: "bool \<Rightarrow> string \<Rightarrow> nat \<Rightarrow> nat \<Rightarrow> bool \<Rightarrow> status \<times> Tcl_Parse" where
  "Tcl_ParseCommand ip s start numBytes nested =
     parse_command (ParseCommand_loop (3 * numBytes + 3)) s (start + numBytes) nested ip start"

definition ParseTokens :: "string \<Rightarrow> nat \<Rightarrow> nat \<Rightarrow> int \<Rightarrow> int \<Rightarrow> Tcl_Parse \<Rightarrow> status \<times> Tcl_Parse" where
  "ParseTokens s src numBytes stop flags P =
     ParseTokens_loop (3 * numBytes + 3) s (src + numBytes) stop flags (length (tokens P)) src P"

definition Tcl_ParseVarName :: "bool \<Rightarrow> string \<Rightarrow> nat \<Rightarrow> nat \<Rightarrow> Tcl_Parse option \<Rightarrow> status \<times> Tcl_Parse" where
  "Tcl_ParseVarName ip s start numBytes given =
     (let P = (case given of None \<Rightarrow> TclParseInit ip (start + numBytes) | Some P \<Rightarrow> P)
      in ParseVarName (all_tokens (ParseTokens_loop (3 * numBytes + 3)) s (start + numBytes)) s (start + numBytes) start P)"

definition Tcl_ParseBraces :: "bool \<Rightarrow> string \<Rightarrow> nat \<Rightarrow> nat \<Rightarrow> Tcl_Parse option \<Rightarrow> status \<times> nat \<times> Tcl_Parse" where
  "Tcl_ParseBraces ip s start numBytes given =
     (let P = (case given of None \<Rightarrow> TclParseInit ip (start + numBytes) | Some P \<Rightarrow> P)
      in ParseBraces s (start + numBytes) start P)"

definition Tcl_ParseQuotedString ::
  "bool \<Rightarrow> string \<Rightarrow> nat \<Rightarrow> nat \<Rightarrow> Tcl_Parse option \<Rightarrow> status \<times> nat \<times> Tcl_Parse" where
  "Tcl_ParseQuotedString ip s start numBytes given =
     (let P = (case given of None \<Rightarrow> TclParseInit ip (start + numBytes) | Some P \<Rightarrow> P)
      in ParseQuotedString (all_tokens (ParseTokens_loop (3 * numBytes + 3)) s (start + numBytes)) s (start + numBytes) start P)"

text \<open>
  The loop of \<open>CommandComplete\<close>: commands are parsed until one fails or the end is reached, and
  the script is complete if the last one was.
\<close>

fun CommandComplete_loop :: "nat \<Rightarrow> string \<Rightarrow> nat \<Rightarrow> nat \<Rightarrow> bool option" where
  "CommandComplete_loop 0 s e p = None"
| "CommandComplete_loop (Suc n) s e p =
     (case Tcl_ParseCommand False s p (e - p) False of
        (TCL_OK, P) \<Rightarrow>
          (let p = commandStart P + commandSize P
           in if p \<ge> e then Some (\<not> incomplete P) else CommandComplete_loop n s e p)
      | (TCL_ERROR, P) \<Rightarrow> Some (\<not> incomplete P)
      | _ \<Rightarrow> None)"

definition CommandComplete :: "string \<Rightarrow> nat \<Rightarrow> bool option" where
  "CommandComplete script numBytes = CommandComplete_loop (numBytes + 1) script numBytes 0"

definition Tcl_CommandComplete :: "string \<Rightarrow> bool option" where
  "Tcl_CommandComplete script = CommandComplete script (length script)"

end
