(* ===== verification/ParserSafe.thy ===== *)
theory ParserSafe
  imports Parser
begin

text \<open>
  Safety of the parser of \<open>tclParse.c\<close>: the loops end within the fuel that the exported
  routines give them, no routine panics, everything stays within the script, and a parse that
  succeeds has made progress, so that the loop over the commands of a script ends too.
\<close>

section \<open>What each routine promises\<close>

definition same_command :: "Tcl_Parse \<Rightarrow> Tcl_Parse \<Rightarrow> bool" where
  "same_command P P' \<longleftrightarrow> end_of P' = end_of P \<and> interp P' = interp P \<and> commandStart P' = commandStart P
     \<and> numWords P' = numWords P"

lemma same_command_refl [simp]: "same_command P P"
  by (simp add: same_command_def)

lemma same_command_trans: "same_command P Q \<Longrightarrow> same_command Q R \<Longrightarrow> same_command P R"
  by (simp add: same_command_def)

text \<open>The same without the number of words, which grows with each word of a command.\<close>

definition same_start :: "Tcl_Parse \<Rightarrow> Tcl_Parse \<Rightarrow> bool" where
  "same_start P P' \<longleftrightarrow> end_of P' = end_of P \<and> interp P' = interp P \<and> commandStart P' = commandStart P"

lemma same_startI: "same_command P Q \<Longrightarrow> same_start P Q"
  by (simp add: same_start_def same_command_def)

lemma same_start_trans: "same_start P Q \<Longrightarrow> same_start Q R \<Longrightarrow> same_start P R"
  by (simp add: same_start_def)

definition tok_in :: "nat \<Rightarrow> nat \<Rightarrow> Tcl_Token \<Rightarrow> bool" where
  "tok_in lo hi t \<longleftrightarrow> lo \<le> token_start t \<and> token_start t + token_size t \<le> hi"

text \<open>
  The components of a word: the token of a variable is followed by the tokens of its name and of
  its index, and counts them; the other tokens have no components.
\<close>

fun components :: "Tcl_Token list \<Rightarrow> bool" where
  "components [] \<longleftrightarrow> True"
| "components (t # ts) \<longleftrightarrow>
     (if token_type t = TCL_TOKEN_VARIABLE then
        0 < numComponents t \<and> numComponents t \<le> length ts \<and> token_type (hd ts) = TCL_TOKEN_TEXT
        \<and> components (take (numComponents t) ts) \<and> components (drop (numComponents t) ts)
      else token_type t \<in> {TCL_TOKEN_TEXT, TCL_TOKEN_BS, TCL_TOKEN_COMMAND} \<and> numComponents t = 0 \<and> components ts)"

lemma components_append: "components xs \<Longrightarrow> components (xs @ ys) \<longleftrightarrow> components ys"
proof (induction xs rule: components.induct)
  case (2 t ts)
  then show ?case by (cases "token_type t = TCL_TOKEN_VARIABLE") (auto simp: hd_append)
qed simp

definition toks :: "nat \<Rightarrow> nat \<Rightarrow> Tcl_Token list \<Rightarrow> bool" where
  "toks lo hi ts \<longleftrightarrow> components ts \<and> (\<forall>t \<in> set ts. tok_in lo hi t)"

lemma toks_mono: "toks lo hi ts \<Longrightarrow> lo' \<le> lo \<Longrightarrow> hi \<le> hi' \<Longrightarrow> toks lo' hi' ts"
  by (auto simp: toks_def tok_in_def)

lemma toks_append [intro]: "toks lo hi xs \<Longrightarrow> toks lo hi ys \<Longrightarrow> toks lo hi (xs @ ys)"
  by (auto simp: toks_def components_append)

lemma toks_Nil [simp]: "toks lo hi []"
  by (simp add: toks_def)

definition tokens_post :: "nat \<Rightarrow> nat \<Rightarrow> nat \<Rightarrow> Tcl_Parse \<Rightarrow> status \<times> Tcl_Parse \<Rightarrow> bool" where
  "tokens_post e orig src P r \<longleftrightarrow>
     (case r of (st, P') \<Rightarrow> (st = TCL_OK \<or> st = TCL_ERROR) \<and> same_command P P'
        \<and> (st = TCL_OK \<longrightarrow> src \<le> term_at P' \<and> term_at P' \<le> e \<and> orig < length (tokens P')
             \<and> (\<exists>ts. tokens P' = tokens P @ ts \<and> toks src (term_at P') ts)))"

definition part_post :: "nat \<Rightarrow> nat \<Rightarrow> Tcl_Parse \<Rightarrow> status \<times> nat \<times> Tcl_Parse \<Rightarrow> bool" where
  "part_post e src P r \<longleftrightarrow>
     (case r of (st, q, P') \<Rightarrow> (st = TCL_OK \<or> st = TCL_ERROR) \<and> same_command P P'
        \<and> (st = TCL_OK \<longrightarrow> src \<le> q \<and> q \<le> e
             \<and> (\<exists>ts. tokens P' = tokens P @ ts \<and> ts \<noteq> [] \<and> toks src q ts)))"

definition nested_post :: "nat \<Rightarrow> nat \<Rightarrow> Tcl_Parse \<Rightarrow> status \<times> nat \<times> Tcl_Parse \<Rightarrow> bool" where
  "nested_post e src P r \<longleftrightarrow>
     (case r of (st, q, P') \<Rightarrow> (st = TCL_OK \<or> st = TCL_ERROR) \<and> same_command P P'
        \<and> (st = TCL_OK \<longrightarrow> src \<le> q \<and> q \<le> e \<and> P' = P))"

text \<open>
  The words of a command between \<open>lo\<close> and \<open>hi\<close>: each is a token for the word, which counts its
  components, and then the components, inside the word.
\<close>

definition word_ok :: "nat \<Rightarrow> nat \<Rightarrow> Tcl_Token \<Rightarrow> Tcl_Token list \<Rightarrow> bool" where
  "word_ok lo hi w cs \<longleftrightarrow> tok_in lo hi w \<and> numComponents w = length cs \<and> cs \<noteq> []
     \<and> toks (token_start w) (token_start w + token_size w) cs
     \<and> (token_type w = TCL_TOKEN_SIMPLE_WORD \<and> length cs = 1 \<and> token_type (hd cs) = TCL_TOKEN_TEXT
        \<or> token_type w = TCL_TOKEN_WORD \<or> token_type w = TCL_TOKEN_EXPAND_WORD)"

fun words :: "nat \<Rightarrow> nat \<Rightarrow> nat \<Rightarrow> Tcl_Token list \<Rightarrow> bool" where
  "words lo hi 0 ts \<longleftrightarrow> ts = []"
| "words lo hi (Suc k) [] \<longleftrightarrow> False"
| "words lo hi (Suc k) (w # ts) \<longleftrightarrow>
     word_ok lo hi w (take (numComponents w) ts) \<and> words lo hi k (drop (numComponents w) ts)"

lemma words_append: "words lo hi k xs \<Longrightarrow> words lo hi (k + m) (xs @ ys) \<longleftrightarrow> words lo hi m ys"
proof (induction lo hi k xs rule: words.induct)
  case (3 lo hi k w ts)
  then have "numComponents w = length (take (numComponents w) ts)" by (simp only: words.simps word_ok_def)
  then have "numComponents w \<le> length ts" by (simp only: length_take min_def split: if_splits)
  then show ?case using 3 by simp
qed simp_all

lemma words_single: "word_ok lo hi w cs \<Longrightarrow> words lo hi 1 (w # cs)"
  by (simp add: word_ok_def)

lemma words_mono: "words lo hi k ts \<Longrightarrow> lo' \<le> lo \<Longrightarrow> hi \<le> hi' \<Longrightarrow> words lo' hi' k ts"
  by (induction lo hi k ts rule: words.induct) (auto simp: word_ok_def tok_in_def)

definition command_words :: "nat \<Rightarrow> Tcl_Parse \<Rightarrow> bool" where
  "command_words q P \<longleftrightarrow> words (commandStart P) q (numWords P) (tokens P)"

lemma command_words_mono: "command_words q P \<Longrightarrow> q \<le> q' \<Longrightarrow> command_words q' P"
  by (simp add: command_words_def words_mono)

definition command_post :: "nat \<Rightarrow> nat \<Rightarrow> Tcl_Parse \<Rightarrow> status \<times> Tcl_Parse \<Rightarrow> bool" where
  "command_post e src P r \<longleftrightarrow>
     (case r of (st, P') \<Rightarrow> (st = TCL_OK \<or> st = TCL_ERROR) \<and> same_start P P'
        \<and> (st = TCL_OK \<longrightarrow> src \<le> commandStart P' + commandSize P' \<and> commandStart P' + commandSize P' \<le> e
             \<and> term_at P' \<le> e \<and> command_words (commandStart P' + commandSize P') P'
             \<and> (src < e \<longrightarrow> src < commandStart P' + commandSize P')))"

text \<open>A \<open>ParseTokens\<close> that keeps its promise from \<open>lo\<close> on.\<close>

definition tokens_ok :: "nat \<Rightarrow> nat \<Rightarrow> (nat \<Rightarrow> int \<Rightarrow> Tcl_Parse \<Rightarrow> status \<times> Tcl_Parse) \<Rightarrow> bool" where
  "tokens_ok e lo pt \<longleftrightarrow> (\<forall>src stop P. lo \<le> src \<longrightarrow> src \<le> e \<longrightarrow> end_of P = e \<longrightarrow>
      tokens_post e (length (tokens P)) src P (pt src stop P))"

lemma tokens_okD:
  "tokens_ok e lo pt \<Longrightarrow> lo \<le> src \<Longrightarrow> src \<le> e \<Longrightarrow> end_of P = e \<Longrightarrow>
     tokens_post e (length (tokens P)) src P (pt src stop P)"
  by (simp add: tokens_ok_def)

lemma tokens_ok_mono: "tokens_ok e lo pt \<Longrightarrow> lo \<le> lo' \<Longrightarrow> tokens_ok e lo' pt"
  by (simp add: tokens_ok_def)

lemma add_token_simps [simp]:
  "tokens (add_token t P) = tokens P @ [t]" "end_of (add_token t P) = end_of P"
  "commandStart (add_token t P) = commandStart P" "interp (add_token t P) = interp P" "numWords (add_token t P) = numWords P" "term_at (add_token t P) = term_at P"
  "same_command P (add_token t Q) = same_command P Q" "same_command (add_token t P) Q = same_command P Q"
  by (simp_all add: add_token_def same_command_def)

lemma parse_failed_simps [simp]:
  "same_command P (parse_failed err at msg Q) = same_command P Q"
  "tokens (parse_failed err at msg Q) = tokens Q"
  by (simp_all add: parse_failed_def same_command_def)

lemma token_simps [simp]:
  "token_type (token ty st sz k) = ty" "token_start (token ty st sz k) = st"
  "token_size (token ty st sz k) = sz" "numComponents (token ty st sz k) = k"
  by (simp_all add: token_def)

lemma toks_tok_in: "toks lo hi (t # ts) \<Longrightarrow> lo \<le> token_start t \<and> token_start t + token_size t \<le> hi"
  by (simp add: toks_def tok_in_def)

lemma toks_token [simp]:
  "toks lo hi (token TCL_TOKEN_TEXT st sz k # ts) \<longleftrightarrow> k = 0 \<and> lo \<le> st \<and> st + sz \<le> hi \<and> toks lo hi ts"
  "toks lo hi (token TCL_TOKEN_BS st sz k # ts) \<longleftrightarrow> k = 0 \<and> lo \<le> st \<and> st + sz \<le> hi \<and> toks lo hi ts"
  "toks lo hi (token TCL_TOKEN_COMMAND st sz k # ts) \<longleftrightarrow> k = 0 \<and> lo \<le> st \<and> st + sz \<le> hi \<and> toks lo hi ts"
  by (auto simp: toks_def tok_in_def)

lemma toks_variable [simp]:
  "n = length ts \<Longrightarrow>
     toks lo hi (token TCL_TOKEN_VARIABLE st sz (Suc n) # token TCL_TOKEN_TEXT st' sz' 0 # ts)
       \<longleftrightarrow> lo \<le> st \<and> st + sz \<le> hi \<and> toks lo hi (token TCL_TOKEN_TEXT st' sz' 0 # ts)"
  by (auto simp: toks_def tok_in_def)

section \<open>Variable names, braces and quotes\<close>

lemma ParseVarName_post:
  assumes pt: "tokens_ok e (start + 1) pt" and P: "end_of P = e" "start < e" and r: "ParseVarName pt s e start P = (st, P')"
  shows "(st = TCL_OK \<or> st = TCL_ERROR) \<and> same_command P P'
    \<and> (st = TCL_OK \<longrightarrow> (\<exists>v ts. tokens P' = tokens P @ v # ts \<and> 0 < token_size v \<and> token_start v = start
        \<and> start + token_size v \<le> e \<and> toks start (start + token_size v) (v # ts)))"
proof -
  let ?b = "bare_name s e (start + 1)" and ?c = "close_brace s e (start + 2)"
  have b: "start + 1 \<le> ?b" "?b \<le> e" using bare_name_bounds [of "start + 1" s e] P(2) by auto
  have c: "start + 2 \<le> ?c" "start + 1 < e \<Longrightarrow> ?c \<le> e" using close_brace_bounds [of "start + 2" s e] by auto
  consider (dollar) "start + 1 = e" | (brace) "start + 1 < e" "chr_at s (start + 1) = CHR ''{''"
    | (name) "start + 1 < e" "chr_at s (start + 1) \<noteq> CHR ''{''" using P(2) by linarith
  then show ?thesis
  proof cases
    case dollar
    then show ?thesis using r P by (auto simp: ParseVarName_def)
  next
    case brace
    then show ?thesis using r P c
      by (auto simp: ParseVarName_def Let_def tok_in_def list_update_append same_command_def add_token_def
          parse_failed_def split: if_splits)
  next
    case name
    show ?thesis
    proof (cases "?b < e \<and> chr_at s ?b = CHR ''(''")
      case False
      then show ?thesis using r P b name
        by (auto simp: ParseVarName_def Let_def tok_in_def list_update_append same_command_def add_token_def split: if_splits)
    next
      case True
      let ?P = "add_token (token TCL_TOKEN_TEXT (start + 1) (?b - (start + 1)) 0) (add_token (token TCL_TOKEN_VARIABLE start 0 0) P)"
      obtain st1 P1 where r1: "pt (?b + 1) TYPE_CLOSE_PAREN ?P = (st1, P1)" by force
      have tp: "tokens_post e (length (tokens ?P)) (?b + 1) ?P (st1, P1)"
        unfolding r1 [symmetric] using b True P(1) by (intro tokens_okD [OF pt]) auto
      then have sc: "same_command P P1" by (simp add: tokens_post_def)
      show ?thesis
      proof (cases "st1 = TCL_OK \<and> term_at P1 \<noteq> e \<and> chr_at s (term_at P1) = CHR '')''")
        case ok: True
        obtain ts where ts: "tokens P1 = tokens ?P @ ts" "toks (?b + 1) (term_at P1) ts" "?b + 1 \<le> term_at P1" "term_at P1 < e"
          using tp ok by (auto simp: tokens_post_def)
        let ?t = "token TCL_TOKEN_TEXT (start + 1) (?b - (start + 1)) 0"
          and ?v = "token TCL_TOKEN_VARIABLE start (term_at P1 + 1 - start) (Suc (length ts))"
        have "P' = P1\<lparr>tokens := tokens P @ ?v # ?t # ts\<rparr>" "st = TCL_OK"
          using r r1 ok True name ts(1) by (simp_all add: ParseVarName_def Let_def list_update_append)
        moreover have "toks start (start + token_size ?v) (?v # ?t # ts)"
          using ts toks_mono [OF ts(2), of start "start + token_size ?v"] b by auto
        ultimately show ?thesis using sc ts(3,4) b by (auto simp: same_command_def)
      next
        case no: False
        then show ?thesis using r r1 True name tp sc
          by (cases st1) (auto simp: ParseVarName_def Let_def tokens_post_def split: if_splits)
      qed
    qed
  qed
qed


lemma TclParseBackslash_le:
  assumes "e \<le> length s" "src < e"
  shows "src + snd (TclParseBackslash (drop src s) (e - src)) \<le> e"
proof -
  have "snd (TclParseBackslash (drop src s) (e - src)) \<le> e - src"
    using assms by (intro TclParseBackslash_bounds(2)) auto
  then show ?thesis using assms(2) by simp
qed

definition braces_post :: "nat \<Rightarrow> nat \<Rightarrow> nat \<Rightarrow> nat \<Rightarrow> Tcl_Parse \<Rightarrow> status \<times> nat \<times> Tcl_Parse \<Rightarrow> bool" where
  "braces_post e start startIndex src P r \<longleftrightarrow>
     (case r of (st, q, P') \<Rightarrow> (st = TCL_OK \<or> st = TCL_ERROR) \<and> same_command P P'
        \<and> (st = TCL_OK \<longrightarrow> src < q \<and> q \<le> e \<and> startIndex < length (tokens P')
          \<and> (\<exists>new. tokens P' = tokens P @ new \<and> toks start q new)))"

lemma braces_post_later:
  assumes "braces_post e start startIndex p Q r" "src \<le> p" "same_command P Q"
    "tokens Q = tokens P @ new" "toks start (p + 1) new"
  shows "braces_post e start startIndex src P r"
proof -
  obtain st q P' where r: "r = (st, q, P')" by (metis prod_cases3)
  have b: "st = TCL_OK \<or> st = TCL_ERROR" "same_command Q P'"
    "st = TCL_OK \<Longrightarrow> p < q \<and> q \<le> e \<and> startIndex < length (tokens P')
        \<and> (\<exists>new. tokens P' = tokens Q @ new \<and> toks start q new)"
    using assms(1) by (auto simp: braces_post_def r)
  have "\<exists>new. tokens P' = tokens P @ new \<and> toks start q new" if "st = TCL_OK"
  proof -
    from b(3) [OF that] obtain more where "tokens P' = tokens Q @ more" "toks start q more" "p < q" by auto
    then show ?thesis using assms(4) toks_mono [OF assms(5), of start q] by (intro exI [of _ "new @ more"]) auto
  qed
  then show ?thesis using b assms(2,3) same_command_trans [OF assms(3) b(2)] by (auto simp: braces_post_def r)
qed

lemma ParseBraces_loop_post:
  assumes "e \<le> length s" "start \<le> src" "start + 1 \<le> ts" "ts \<le> src + 1" "src < e" "0 < level"
    "startIndex \<le> length (tokens P)"
  shows "braces_post e start startIndex src P (ParseBraces_loop s e start startIndex src level ts P)"
  using assms
proof (induction s e start startIndex src level ts P rule: ParseBraces_loop.induct)
  case (1 s e start startIndex src level ts P)
  note prems = 1(6-)
  define p where "p = brace_skip s e src"
  have p: "src < p" "p \<le> e" using brace_skip_bounds [of src e s] prems by (auto simp: p_def)
  have ne: "\<not> e \<le> src" using prems by simp
  show ?case
  proof (cases "p = e")
    case True
    then show ?thesis using prems
      by (subst ParseBraces_loop.simps) (simp add: p_def missing_brace_def Let_def braces_post_def)
  next
    case False
    then have pe: "p < e" using p by simp
    let ?len = "snd (TclParseBackslash (drop p s) (e - p))"
    have len: "0 < ?len" "p + ?len \<le> e"
      using TclParseBackslash_pos [of "e - p" "drop p s"] TclParseBackslash_le [of e s p] pe prems(1) by auto
    have step: "braces_post e start startIndex src P (ParseBraces_loop s e start startIndex src level ts P)"
      if "braces_post e start startIndex p P r" "ParseBraces_loop s e start startIndex src level ts P = r" for r
      using braces_post_later [OF that(1), of src P "[]"] that(2) p by simp
    consider (op) "chr_at s p = CHR ''{''" | (last) "chr_at s p = CHR ''}''" "level = 1"
      | (cl) "chr_at s p = CHR ''}''" "level \<noteq> 1"
      | (bs) "chr_at s p = CHR 0x5C" "\<not> (?len > 1 \<and> chr_at s (p + 1) = CHR 0x0A)"
      | (nl) "chr_at s p = CHR 0x5C" "?len > 1" "chr_at s (p + 1) = CHR 0x0A"
      | (other) "chr_at s p \<notin> {CHR ''{'', CHR ''}'', CHR 0x5C}" by auto
    then show ?thesis
    proof cases
      case last
      then show ?thesis using prems p pe by (subst ParseBraces_loop.simps)
          (auto simp: p_def [symmetric] Let_def braces_post_def)
    next
      case op
      show ?thesis
      proof (rule step)
        show "braces_post e start startIndex p P (ParseBraces_loop s e start startIndex p (level + 1) ts P)"
          using prems p pe op by (intro 1(1) [OF ne p_def False]) auto
        show "ParseBraces_loop s e start startIndex src level ts P = ParseBraces_loop s e start startIndex p (level + 1) ts P"
          using prems op False by (subst ParseBraces_loop.simps) (simp add: p_def [symmetric] Let_def)
      qed
    next
      case cl
      show ?thesis
      proof (rule step)
        show "braces_post e start startIndex p P (ParseBraces_loop s e start startIndex p (level - 1) ts P)"
          using prems p pe cl by (intro 1(2) [OF ne p_def False]) auto
        show "ParseBraces_loop s e start startIndex src level ts P = ParseBraces_loop s e start startIndex p (level - 1) ts P"
          using prems cl False by (subst ParseBraces_loop.simps) (simp add: p_def [symmetric] Let_def)
      qed
    next
      case other
      show ?thesis
      proof (rule step)
        show "braces_post e start startIndex p P (ParseBraces_loop s e start startIndex p level ts P)"
          using prems p pe other by (intro 1(5) [OF ne p_def False]) auto
        show "ParseBraces_loop s e start startIndex src level ts P = ParseBraces_loop s e start startIndex p level ts P"
          using prems other False by (subst ParseBraces_loop.simps) (simp add: p_def [symmetric] Let_def)
      qed
    next
      case bs
      let ?r = "ParseBraces_loop s e start startIndex (p + ?len - 1) level ts P"
      have "braces_post e start startIndex (p + ?len - 1) P ?r"
        using prems p pe bs len by (intro 1(4) [OF ne p_def False _ _ _ refl]) auto
      moreover have "ParseBraces_loop s e start startIndex src level ts P = ?r"
        using prems bs False by (subst ParseBraces_loop.simps) (auto simp: p_def [symmetric] Let_def)
      ultimately show ?thesis using braces_post_later [of e start startIndex "p + ?len - 1" P ?r src P "[]"] len p by simp
    next
      case nl
      define P1 where "P1 = (if e - p = 2 then P\<lparr>incomplete := True\<rparr> else P)"
      define P2 where "P2 = (if p - ts \<noteq> 0 then add_token (token TCL_TOKEN_TEXT ts (p - ts) 0) P1 else P1)"
      define P3 where "P3 = add_token (token TCL_TOKEN_BS p ?len 0) P2"
      let ?r = "ParseBraces_loop s e start startIndex (p + ?len - 1) level (p + ?len) P3"
      have sc: "same_command P P3" by (simp add: P3_def P2_def P1_def same_command_def)
      have new: "tokens P3 = tokens P @ ((if p - ts \<noteq> 0 then [token TCL_TOKEN_TEXT ts (p - ts) 0] else []) @ [token TCL_TOKEN_BS p ?len 0])"
        by (simp add: P3_def P2_def P1_def)
      have "braces_post e start startIndex (p + ?len - 1) P3 ?r"
        using prems p pe nl len by (intro 1(3) [OF ne p_def False _ _ _ refl _ P1_def P2_def P3_def]) (auto simp: new)
      moreover have "ParseBraces_loop s e start startIndex src level ts P = ?r"
        using prems nl False by (subst ParseBraces_loop.simps) (simp add: p_def [symmetric] Let_def P1_def P2_def P3_def)
      moreover have "toks start (p + ?len - 1 + 1) ((if p - ts \<noteq> 0 then [token TCL_TOKEN_TEXT ts (p - ts) 0] else []) @ [token TCL_TOKEN_BS p ?len 0])"
        using len p prems by auto
      ultimately show ?thesis using braces_post_later [OF _ _ sc new, of e start startIndex "p + ?len - 1" ?r src] len p
        by simp
    qed
  qed
qed


lemma ParseBraces_post:
  assumes "e \<le> length s" "start < e"
  shows "part_post e start P (ParseBraces s e start P)"
  using ParseBraces_loop_post [of e s start start "start + 1" 1 "length (tokens P)" P] assms
  by (auto simp: ParseBraces_def braces_post_def part_post_def)

lemma ParseQuotedString_post:
  assumes "tokens_ok e (start + 1) pt" "start < e" "end_of P = e" "chr_at s e \<noteq> CHR 0x22"
  shows "part_post e start P (ParseQuotedString pt s e start P)"
proof -
  obtain st P' where r: "pt (start + 1) TYPE_QUOTE P = (st, P')" by force
  have t: "tokens_post e (length (tokens P)) (start + 1) P (st, P')"
    unfolding r [symmetric] using assms(2,3) by (intro tokens_okD [OF assms(1)]) auto
  show ?thesis
  proof (cases "st = TCL_OK \<and> chr_at s (term_at P') = CHR 0x22")
    case True
    then obtain ts where ts: "tokens P' = tokens P @ ts" "toks (start + 1) (term_at P') ts" "start + 1 \<le> term_at P'"
      "term_at P' \<le> e" "length (tokens P) < length (tokens P')" "same_command P P'"
      using t by (auto simp: tokens_post_def)
    then have "term_at P' < e" using True assms(4) by (metis le_neq_implies_less)
    then show ?thesis using True ts r assms(2) toks_mono [of "start + 1" "term_at P'" _ start "Suc (term_at P')"]
      by (auto simp: ParseQuotedString_def part_post_def)
  next
    case False
    then show ?thesis using t r assms(2)
      by (cases st) (auto simp: ParseQuotedString_def part_post_def tokens_post_def)
  qed
qed

section \<open>Words\<close>

lemma parse_part_post:
  assumes "tokens_ok e src pt" "src < e" "end_of P = e" "chr_at s e \<noteq> CHR 0x22" "e \<le> length s"
  shows "part_post e src P (parse_part pt s e terminators src P)"
proof -
  have "part_post e src P (ParseQuotedString pt s e src P)" "part_post e src P (ParseBraces s e src P)"
    using ParseQuotedString_post [of e src pt P s] tokens_ok_mono [OF assms(1)] ParseBraces_post assms by auto
  moreover obtain st P' where r: "pt src (TYPE_SPACE OR terminators) P = (st, P')" by force
  moreover have "part_post e src P (st, term_at P', P')"
    using tokens_okD [OF assms(1) order.refl, of P "TYPE_SPACE OR terminators"] assms(2,3) r
    by (auto simp: tokens_post_def part_post_def)
  ultimately show ?thesis by (simp add: parse_part_def)
qed

definition word_post :: "nat \<Rightarrow> nat \<Rightarrow> Tcl_Parse \<Rightarrow> status \<times> nat \<times> bool \<times> Tcl_Parse \<Rightarrow> bool" where
  "word_post e src P r \<longleftrightarrow> (case r of (st, q, expand, P') \<Rightarrow> part_post e src P (st, q, P'))"

lemma expand_prefix_same:
  "expand_prefix s e i src P = (b, P') \<Longrightarrow>
     same_command P P' \<and> tokens P' = tokens P \<and> (b \<longrightarrow> src < e \<and> length (tokens P) - i = 1)"
  by (auto simp: expand_prefix_def same_command_def Let_def split: if_splits prod.splits)

lemma parse_word_post:
  assumes "tokens_ok e src pt" "src < e" "end_of P = e" "chr_at s e \<noteq> CHR 0x22" "e \<le> length s"
  shows "word_post e src P (parse_word pt s e terminators src P)"
proof -
  obtain st q P1 where r: "parse_part pt s e terminators src P = (st, q, P1)" by (metis prod_cases3)
  have post: "part_post e src P (st, q, P1)"
    unfolding r [symmetric] by (rule parse_part_post [OF assms])
  then have p: "st = TCL_OK \<or> st = TCL_ERROR" "same_command P P1" "st = TCL_OK \<Longrightarrow> src \<le> q \<and> q \<le> e"
    "st = TCL_OK \<Longrightarrow> \<exists>ts. tokens P1 = tokens P @ ts \<and> ts \<noteq> [] \<and> toks src q ts"
    by (auto simp: part_post_def)
  show ?thesis
  proof (cases "st = TCL_OK \<and> chr_at s src = CHR ''{''")
    case False
    then show ?thesis using p(1) post r by (cases st) (auto simp: parse_word_def word_post_def)
  next
    case True
    obtain b P2 where b: "expand_prefix s e (length (tokens P)) q P1 = (b, P2)" by force
    note e2 = expand_prefix_same [OF b]
    show ?thesis
    proof (cases b)
      case False
      have "part_post e src P (TCL_OK, q, P2)" using p True e2 same_command_trans [OF p(2), of P2]
        by (simp add: part_post_def)
      then show ?thesis using True r b False by (simp add: parse_word_def word_post_def)
    next
      case exp: True
      let ?P = "P2\<lparr>tokens := butlast (tokens P2)\<rparr>"
      obtain st' q' P3 where r3: "parse_part pt s e terminators q ?P = (st', q', P3)" by (metis prod_cases3)
      have sc: "same_command P ?P" using same_command_trans [OF p(2), of P2] e2 by (simp add: same_command_def)
      obtain ts where ts: "tokens P1 = tokens P @ ts" "length ts = 1" using p(4) True e2 exp by auto
      then have tk: "tokens ?P = tokens P" using e2 by (cases ts) (auto simp: butlast_append)
      have "end_of ?P = e" using sc assms(3) by (simp add: same_command_def)
      then have "part_post e q ?P (st', q', P3)"
        unfolding r3 [symmetric] using e2 exp p(3) True assms(4,5) tokens_ok_mono [OF assms(1), of q] by (intro parse_part_post) auto
      then have "part_post e src P (st', q', P3)"
        using same_command_trans [OF sc, of P3] p(3) True tk toks_mono [of q q' _ src q']
        by (fastforce simp: part_post_def)
      then show ?thesis using True exp r b r3 by (simp add: parse_word_def word_post_def)
    qed
  qed
qed

text \<open>The pieces of a literal list.\<close>

lemma literal_pair:
  assumes f: "TclFindElement (drop nx s) (listEnd - nx) = Inr (el, nxt, sz, lit)"
    and le: "nx < listEnd" "listEnd \<le> length s" "listStart \<le> nx"
    and prev: "nx = listStart \<or> TclIsSpaceProc (chr_at s (nx - 1))" and el: "el \<noteq> listEnd - nx"
  shows "let st = nx + el;
             quoted = (if (chr_at s (st - 1) = CHR ''{'' \<or> chr_at s (st - 1) = CHR 0x22) \<and> st > listStart then 1 else 0)
         in word_ok nx listEnd (token TCL_TOKEN_SIMPLE_WORD (st - quoted) (st + sz - (st - quoted) + quoted) 1)
              [token TCL_TOKEN_TEXT st sz 0]"
proof -
  have lim: "listEnd - nx \<le> length (drop nx s)" using le by simp
  note parts = FindElement_parts [OF f [unfolded TclFindElement_def] lim]
  have elt: "el < listEnd - nx" using parts(1,2) el by linarith
  have "0 < el \<and> el + sz < nxt"
    if "chr_at s (nx + el - 1) = CHR ''{'' \<or> chr_at s (nx + el - 1) = CHR 0x22" "listStart < nx + el"
  proof -
    have ns: "\<not> TclIsSpaceProc (chr_at s (nx + el - 1))" using that(1) by (auto simp: TclIsSpaceProc_iff)
    have "0 < el"
    proof (rule ccontr)
      assume "\<not> 0 < el"
      then show False using ns prev that(2) by simp
    qed
    then show ?thesis using parts(5) [OF elt] ns chr_at_drop [of nx s "el - 1"] by simp
  qed
  then show ?thesis using parts(1,2) le elt
    by (auto simp: word_ok_def tok_in_def Let_def)
qed

lemma literal_words:
  assumes "literal_list s listEnd nx k = Some m" "listEnd \<le> length s" "listStart \<le> nx"
    "nx = listStart \<or> TclIsSpaceProc (chr_at s (nx - 1))" "nx < listEnd \<Longrightarrow> \<not> TclIsSpaceProc (chr_at s nx) \<or> k < m"
  shows "k \<le> m \<and> words nx listEnd (m - k) (literal_tokens s listStart listEnd nx)
    \<and> length (literal_tokens s listStart listEnd nx) = 2 * (m - k)"
  using assms
proof (induction s listEnd nx k rule: literal_list.induct)
  case (1 s listEnd nx k)
  show ?case
  proof (cases "nx < listEnd")
    case False
    then show ?thesis using 1(2) by (subst (1 2) literal_tokens.simps, subst (asm) literal_list.simps) simp
  next
    case True
    obtain el nxt sz lit where f: "TclFindElement (drop nx s) (listEnd - nx) = Inr (el, nxt, sz, lit)"
      using 1(2) True by (subst (asm) literal_list.simps) (auto split: sum.splits)
    have lim: "listEnd - nx \<le> length (drop nx s)" using 1(3) by simp
    note parts = FindElement_parts [OF f [unfolded TclFindElement_def] lim]
    have pos: "0 < nxt" using TclFindElement_pos [OF f] True by simp
    have el: "el \<noteq> listEnd - nx"
    proof
      assume el: "el = listEnd - nx"
      then have "TclIsSpaceProc (chr_at s nx)" "nx + nxt = listEnd" using parts(4) True by auto
      then have "Some k = Some m" using 1(2) True f el
        by (subst (asm) literal_list.simps) (auto simp: literal_list.simps [of s listEnd listEnd] split: if_splits)
      then show False using 1(6) True \<open>TclIsSpaceProc (chr_at s nx)\<close> by simp
    qed
    then have elt: "el < listEnd - nx" using parts(1,2) by linarith
    then have lt: "nx + el < listEnd" by simp
    have lit: lit and rest: "literal_list s listEnd (nx + nxt) (k + 1) = Some m"
      using 1(2) True f elt by (subst (asm) literal_list.simps, auto split: if_splits)+
    have "k + 1 \<le> m \<and> words (nx + nxt) listEnd (m - (k + 1)) (literal_tokens s listStart listEnd (nx + nxt))
      \<and> length (literal_tokens s listStart listEnd (nx + nxt)) = 2 * (m - (k + 1))"
    proof (cases "nx + nxt < listEnd")
      case True
      then have "TclIsSpaceProc (chr_at s (nx + nxt - 1))" "\<not> TclIsSpaceProc (chr_at s (nx + nxt))"
        using parts(3) chr_at_drop [of nx s "nxt - 1"] chr_at_drop [of nx s nxt] pos by auto
      then show ?thesis using 1(1) [OF \<open>nx < listEnd\<close> f refl refl refl] lit rest 1(3,4) lt by simp
    next
      case False
      then show ?thesis using rest by (subst (1 2) literal_tokens.simps, subst (asm) literal_list.simps) simp
    qed
    then have rec: "k + 1 \<le> m" "words nx listEnd (m - (k + 1)) (literal_tokens s listStart listEnd (nx + nxt))"
      "length (literal_tokens s listStart listEnd (nx + nxt)) = 2 * (m - (k + 1))"
      using words_mono [of "nx + nxt" listEnd _ _ nx] by auto
    let ?st = "nx + el"
    define quoted where
      "quoted = (if (chr_at s (?st - 1) = CHR ''{'' \<or> chr_at s (?st - 1) = CHR 0x22) \<and> ?st > listStart then 1 else 0 :: nat)"
    let ?w = "token TCL_TOKEN_SIMPLE_WORD (?st - quoted) (?st + sz - (?st - quoted) + quoted) 1"
    have "word_ok nx listEnd ?w [token TCL_TOKEN_TEXT ?st sz 0]"
      using literal_pair [OF f True 1(3,4,5) el] by (simp only: Let_def quoted_def)
    moreover have "literal_tokens s listStart listEnd nx
        = ?w # token TCL_TOKEN_TEXT ?st sz 0 # literal_tokens s listStart listEnd (nx + nxt)"
      using True f by (subst literal_tokens.simps) (simp add: Let_def quoted_def)
    moreover have "m - k = Suc (m - (k + 1))" using rec(1) by simp
    ultimately show ?thesis using rec by simp
  qed
qed

lemma token_update_type [simp]:
  "token_start (w\<lparr>token_type := ty\<rparr>) = token_start w" "token_size (w\<lparr>token_type := ty\<rparr>) = token_size w"
  "numComponents (w\<lparr>token_type := ty\<rparr>) = numComponents w"
  by simp_all

lemma finish_word_start: "same_start P (finish_word s i x src P)"
  by (auto simp: finish_word_def same_start_def Let_def split: option.splits)

lemma finish_word_words:
  assumes P: "tokens P = ts @ w # cs" "cs \<noteq> []" "toks (token_start w) src cs" "numWords P = Suc k"
    and ts: "words lo e k ts" and b: "lo \<le> token_start w" "token_start w \<le> src" "src \<le> e" "e \<le> length s"
  shows "words lo e (numWords (finish_word s (length ts) x src P)) (tokens (finish_word s (length ts) x src P))"
proof -
  let ?w = "w\<lparr>token_size := src - token_start w, numComponents := length cs\<rparr>"
  define typed where "typed = (\<lambda>ty. P\<lparr>tokens := ts @ ?w\<lparr>token_type := ty\<rparr> # cs\<rparr>)"
  have ok: "words lo e (numWords (typed ty)) (tokens (typed ty))"
    if "ty = TCL_TOKEN_WORD \<or> ty = TCL_TOKEN_EXPAND_WORD
        \<or> ty = TCL_TOKEN_SIMPLE_WORD \<and> length cs = 1 \<and> token_type (hd cs) = TCL_TOKEN_TEXT" for ty
  proof -
    have "word_ok lo e (?w\<lparr>token_type := ty\<rparr>) cs"
      using that P(2,3) b by (auto simp: word_ok_def tok_in_def)
    then show ?thesis using words_append [OF ts, of 1] words_single P(4) by (simp add: typed_def)
  qed
  show ?thesis
  proof (cases "x \<and> list_all (\<lambda>t. token_type t = TCL_TOKEN_TEXT) cs")
    case True
    define listStart where "listStart = token_start (hd cs)"
    define listEnd where "listEnd = token_start (last cs) + token_size (last cs)"
    have fin: "finish_word s (length ts) x src P =
        (case literal_list s listEnd listStart 0 of
           None \<Rightarrow> typed TCL_TOKEN_EXPAND_WORD
         | Some n \<Rightarrow> (if n = 0 then P\<lparr>numWords := numWords P - 1, tokens := ts\<rparr>
                      else P\<lparr>numWords := numWords P + n - 1,
                             tokens := ts @ take (2 * n) (literal_tokens s listStart listEnd listStart)\<rparr>))"
      using True P(1,2) by (auto simp: finish_word_def Let_def typed_def listStart_def listEnd_def hd_conv_nth
          last_conv_nth nth_append list_update_append split: option.splits)
    show ?thesis
    proof (cases "literal_list s listEnd listStart 0")
      case None
      then show ?thesis using fin ok by simp
    next
      case (Some n)
      show ?thesis
      proof (cases "n = 0")
        case True
        then show ?thesis using fin Some ts P(4) by simp
      next
        case False
        have in_cs: "tok_in (token_start w) src (hd cs)" "tok_in (token_start w) src (last cs)"
          using P(2,3) by (simp_all add: toks_def)
        then have b2: "lo \<le> listStart" "listEnd \<le> e" "listEnd \<le> length s"
          using b by (auto simp: tok_in_def listStart_def listEnd_def)
        have lt: "listStart < listEnd"
          using Some False by (subst (asm) literal_list.simps) (auto split: if_splits)
        have "words listStart listEnd n (literal_tokens s listStart listEnd listStart)"
          and len: "length (literal_tokens s listStart listEnd listStart) = 2 * n"
          using literal_words [OF Some b2(3), of listStart] False by auto
        then have "words lo e n (take (2 * n) (literal_tokens s listStart listEnd listStart))"
          using words_mono [OF _ b2(1,2)] len by simp
        then have "words lo e (k + n) (ts @ take (2 * n) (literal_tokens s listStart listEnd listStart))"
          using words_append [OF ts] by simp
        then show ?thesis using fin Some False P(4) by simp
      qed
    qed
  next
    case False
    then have "finish_word s (length ts) x src P =
        (if x then typed TCL_TOKEN_EXPAND_WORD
         else if length cs = 1 \<and> token_type (hd cs) = TCL_TOKEN_TEXT then typed TCL_TOKEN_SIMPLE_WORD
         else typed TCL_TOKEN_WORD)"
      using P(1,2) by (auto simp: finish_word_def Let_def typed_def hd_conv_nth nth_append list_update_append)
    then show ?thesis using ok by simp
  qed
qed

lemma ParseWhiteSpace_le: "fst (ParseWhiteSpace p n) \<le> n"
  using ParseWhiteSpace_loop_bounds [of 0 p n TYPE_NORMAL] by (simp add: ParseWhiteSpace_def)

section \<open>The loops\<close>

lemma end_tokens_post:
  "src \<le> e \<Longrightarrow> orig \<le> length (tokens P) \<Longrightarrow> tokens_post e orig src P (TCL_OK, end_tokens orig src P)"
  by (auto simp: end_tokens_def tokens_post_def same_command_def tok_in_def add_token_def Let_def)

lemma tokens_post_later:
  assumes "tokens_post e orig q Q r" "src \<le> q" "same_command P Q" "tokens Q = tokens P @ new"
    "toks src q new"
  shows "tokens_post e orig src P r"
proof -
  obtain st P' where r: "r = (st, P')" by force
  have b: "st = TCL_OK \<or> st = TCL_ERROR" "same_command Q P'"
    "st = TCL_OK \<Longrightarrow> q \<le> term_at P' \<and> term_at P' \<le> e \<and> orig < length (tokens P')
        \<and> (\<exists>new. tokens P' = tokens Q @ new \<and> toks q (term_at P') new)"
    using assms(1) by (auto simp: tokens_post_def r)
  have "\<exists>new. tokens P' = tokens P @ new \<and> toks src (term_at P') new" if "st = TCL_OK"
  proof -
    from b(3) [OF that] obtain more where "tokens P' = tokens Q @ more" "toks q (term_at P') more" "q \<le> term_at P'" by auto
    then show ?thesis using assms(2,4) toks_mono [OF assms(5), of src "term_at P'"] toks_mono [of q _ more src "term_at P'"] by (intro exI [of _ "new @ more"]) auto
  qed
  then show ?thesis using b assms(2,3) same_command_trans [OF assms(3) b(2)] by (auto simp: tokens_post_def r)
qed


lemma comment_space_le: "p \<le> e \<Longrightarrow> fst (comment_space s e p inc) \<le> e"
proof (induction s e p inc rule: comment_space.induct)
  case (1 s e p inc)
  obtain k ty i where w: "ParseWhiteSpace (drop p s) (e - p) = (k, ty, i)" by (metis prod_cases3)
  then have "p + k \<le> e" using ParseWhiteSpace_le [of "drop p s" "e - p"] 1(2) by simp
  then show ?case using 1(1) [OF w [symmetric] refl refl refl refl] w by (subst comment_space.simps) (simp add: Let_def)
qed

lemma comment_text_le: "e \<le> length s \<Longrightarrow> p \<le> e \<Longrightarrow> fst (comment_text s e p inc) \<le> e"
proof (induction s e p inc rule: comment_text.induct)
  case (1 s e p inc)
  obtain k ty i where w: "ParseWhiteSpace (drop p s) (e - p) = (k, ty, i)" by (metis prod_cases3)
  then have k: "p + k \<le> e" using ParseWhiteSpace_le [of "drop p s" "e - p"] 1(5) by simp
  show ?case
  proof (cases "p < e \<and> chr_at s p = CHR 0x5C")
    case True
    then have "p + snd (TclParseBackslash (drop p s) (e - p)) \<le> e" using TclParseBackslash_le 1(4) by blast
    then show ?thesis using 1(1,2) w k True 1(4) by (subst comment_text.simps) auto
  next
    case False
    then show ?thesis using 1(3,4,5) by (subst comment_text.simps) auto
  qed
qed

lemma ParseComment_loop_post:
  "e \<le> length s \<Longrightarrow> p \<le> e \<Longrightarrow> ParseComment_loop s e p P = (q, P') \<Longrightarrow>
     p \<le> q \<and> q \<le> e \<and> same_command P P' \<and> tokens P' = tokens P"
proof (induction s e p P arbitrary: q P' rule: ParseComment_loop.induct)
  case (1 s e p P)
  show ?case
  proof (cases "p < e")
    case False
    then show ?thesis using 1(3,4) by (subst (asm) ParseComment_loop.simps) auto
  next
    case True
    obtain p1 inc where c: "comment_space s e p (incomplete P) = (p1, inc)" by force
    have p1: "p \<le> p1" "p1 \<le> e" using comment_space_ge [of p s e] comment_space_le [of p e s] 1(3) c by (metis fst_conv)+
    show ?thesis
    proof (cases "p1 \<ge> e \<or> chr_at s p1 \<noteq> CHR ''#''")
      case stop: True
      then have "q = p1" "P' = P\<lparr>incomplete := inc\<rparr>"
        using 1(4) True c by (subst (asm) ParseComment_loop.simps, auto simp: Let_def)+
      then show ?thesis using p1 by (simp add: same_command_def)
    next
      case go: False
      define P1 where "P1 = (if commentStart P = None then P\<lparr>incomplete := inc, commentStart := Some p1\<rparr> else P\<lparr>incomplete := inc\<rparr>)"
      obtain p2 inc2 where c2: "comment_text s e p1 (incomplete P1) = (p2, inc2)" by force
      have p2: "p1 \<le> p2" "p2 \<le> e" using comment_text_ge [of p1 s e] comment_text_le [of e s p1] 1(2) p1 c2 by (metis fst_conv)+
      define P2 where "P2 = P1\<lparr>incomplete := inc2, commentSize := p2 - the (commentStart P1)\<rparr>"
      have "ParseComment_loop s e p P = ParseComment_loop s e p2 P2"
        using True c c2 go by (subst ParseComment_loop.simps) (simp add: Let_def P1_def P2_def)
      then have "ParseComment_loop s e p2 P2 = (q, P')" using 1(4) by simp
      moreover have "\<not> e \<le> p" using True by simp
      ultimately have "p2 \<le> q \<and> q \<le> e \<and> same_command P2 P' \<and> tokens P' = tokens P2"
        using 1(1) [of "(p1, inc)" p1 inc "P\<lparr>incomplete := inc\<rparr>" P1 "(p2, inc2)" p2 inc2 P2 q P'] c c2 go 1(2) p2
        by (simp add: P1_def P2_def)
      moreover have "same_command P P2" "tokens P2 = tokens P" by (simp_all add: P1_def P2_def same_command_def)
      ultimately show ?thesis using p1 p2 same_command_trans [of P P2 P'] by simp
    qed
  qed
qed

lemma init_command_post:
  assumes "e \<le> length s" "src \<le> e"
  shows "src \<le> commandStart (init_command s e src nested ip)" "commandStart (init_command s e src nested ip) \<le> e"
    "end_of (init_command s e src nested ip) = e" "tokens (init_command s e src nested ip) = []"
    "interp (init_command s e src nested ip) = ip" "numWords (init_command s e src nested ip) = 0"
    "command_words (commandStart (init_command s e src nested ip)) (init_command s e src nested ip)"
proof -
  obtain q P where r: "ParseComment_loop s e src (TclParseInit ip e) = (q, P)" by force
  have "src \<le> q \<and> q \<le> e \<and> same_command (TclParseInit ip e) P \<and> tokens P = tokens (TclParseInit ip e)"
    by (rule ParseComment_loop_post [OF assms r])
  then show "src \<le> commandStart (init_command s e src nested ip)" "commandStart (init_command s e src nested ip) \<le> e"
    "end_of (init_command s e src nested ip) = e" "tokens (init_command s e src nested ip) = []"
    "interp (init_command s e src nested ip) = ip" "numWords (init_command s e src nested ip) = 0"
    "command_words (commandStart (init_command s e src nested ip)) (init_command s e src nested ip)"
    unfolding init_command_def ParseComment_def r
    by (simp_all add: Let_def same_command_def TclParseInit_def command_words_def)
qed


lemma TYPE_SUBS_chars:
  "CHAR_TYPE c AND TYPE_SUBS \<noteq> 0 \<longleftrightarrow> c = CHR 0x00 \<or> c = CHR ''$'' \<or> c = CHR ''['' \<or> c = CHR 0x5C"
  by (simp add: CHAR_TYPE_def TYPE_defs)

lemma add_token_later:
  assumes "tokens_post e orig q (add_token t Q) r" "src \<le> q" "same_command P Q" "tokens Q = tokens P" "toks src q [t]"
  shows "tokens_post e orig src P r"
  by (rule tokens_post_later [OF assms(1,2), of P "[t]"]) (use assms(3-5) in auto)

lemma ParseTokens_step_post:
  assumes pt: "\<And>st fl k q Q. src < q \<Longrightarrow> q \<le> e \<Longrightarrow> end_of Q = e \<Longrightarrow> k \<le> length (tokens Q) \<Longrightarrow>
                 tokens_post e k q Q (pt s e st fl k q Q)"
    and nc: "src < e \<Longrightarrow> nested_post e (src + 1) P (nc s e src (src + 1) P)"
    and e: "e \<le> length s" and src: "src \<le> e" and P: "end_of P = e" "orig \<le> length (tokens P)"
  shows "tokens_post e orig src P (ParseTokens_step pt nc s e stop flags orig src P)"
proof (cases "e \<le> src \<or> CHAR_TYPE (chr_at s src) AND stop \<noteq> 0")
  case True
  then show ?thesis using end_tokens_post [of src e orig P] src P by (simp add: ParseTokens_step_def Let_def)
next
  case False
  then have lt: "src < e" by simp
  have plain: "tokens_post e orig src P (pt s e stop flags orig (src + 1) (plain_token src P))"
    unfolding plain_token_def
    by (rule add_token_later [of e orig "src + 1" _ P], rule pt) (use lt P in auto)
  note step = ParseTokens_step_def Let_def
  consider (chars) "CHAR_TYPE (chr_at s src) AND TYPE_SUBS = 0"
    | (dollar) "CHAR_TYPE (chr_at s src) AND TYPE_SUBS \<noteq> 0" "chr_at s src = CHR ''$''"
    | (bracket) "CHAR_TYPE (chr_at s src) AND TYPE_SUBS \<noteq> 0" "chr_at s src = CHR ''[''"
    | (bs) "CHAR_TYPE (chr_at s src) AND TYPE_SUBS \<noteq> 0" "chr_at s src = CHR 0x5C"
    | (nul) "CHAR_TYPE (chr_at s src) AND TYPE_SUBS \<noteq> 0" "chr_at s src = CHR 0x00"
    using TYPE_SUBS_chars [of "chr_at s src"] by blast
  then show ?thesis
  proof cases
    case chars
    let ?q = "scan_text s e stop src"
    have q: "src < ?q" "?q \<le> e" using scan_text_bounds [OF lt] by auto
    have "tokens_post e orig src P (pt s e stop flags orig ?q (add_token (token TCL_TOKEN_TEXT src (?q - src) 0) P))"
      by (rule add_token_later [of e orig ?q _ P], rule pt) (use q lt P in auto)
    then show ?thesis using False chars by (simp add: step)
  next
    case dollar
    show ?thesis
    proof (cases "flags AND TCL_SUBST_VARIABLES = 0")
      case True
      then show ?thesis using False dollar plain by (simp add: step)
    next
      case var: False
      obtain st P1 where r: "ParseVarName (all_tokens pt s e) s e src P = (st, P1)" by force
      have ok: "tokens_ok e (src + 1) (all_tokens pt s e)" by (simp add: tokens_ok_def all_tokens_def pt)
      note v = ParseVarName_post [OF ok P(1) lt r]
      show ?thesis
      proof (cases "st = TCL_OK")
        case True
        then obtain v ts where vt: "tokens P1 = tokens P @ v # ts" "0 < token_size v"
          "toks src (src + token_size v) (v # ts)" "src + token_size v \<le> e" "same_command P P1" using v by auto
        have "tokens_post e orig src P (pt s e stop flags orig (src + token_size v) P1)"
          by (rule tokens_post_later [of e orig "src + token_size v" P1 _ src P "v # ts"], rule pt)
             (use vt P toks_tok_in [OF vt(3)] in \<open>auto simp: same_command_def\<close>)
        moreover have "ParseTokens_step pt nc s e stop flags orig src P = pt s e stop flags orig (src + token_size v) P1"
          using False dollar var r True vt(1) by (simp add: step)
        ultimately show ?thesis by simp
      next
        case bad: False
        then have "ParseTokens_step pt nc s e stop flags orig src P = (st, P1)" "st = TCL_ERROR" "same_command P P1"
          using False dollar var r v by (cases st; simp add: step)+
        then show ?thesis by (simp add: tokens_post_def)
      qed
    qed
  next
    case bracket
    show ?thesis
    proof (cases "flags AND TCL_SUBST_COMMANDS = 0")
      case True
      then show ?thesis using False bracket plain by (simp add: step)
    next
      case cmd: False
      obtain st q P1 where r: "nc s e src (src + 1) P = (st, q, P1)" by (metis prod_cases3)
      have n: "st = TCL_OK \<or> st = TCL_ERROR" "same_command P P1" "st = TCL_OK \<Longrightarrow> src + 1 \<le> q \<and> q \<le> e \<and> P1 = P"
        using nc [OF lt] r by (auto simp: nested_post_def)
      show ?thesis
      proof (cases "st = TCL_OK")
        case True
        have "tokens_post e orig src P (pt s e stop flags orig q (add_token (token TCL_TOKEN_COMMAND src (q - src) 0) P))"
          by (rule add_token_later [of e orig q _ P], rule pt) (use n(3) [OF True] P in auto)
        moreover have "ParseTokens_step pt nc s e stop flags orig src P
            = pt s e stop flags orig q (add_token (token TCL_TOKEN_COMMAND src (q - src) 0) P)"
          using False bracket cmd r n(3) [OF True] True by (simp add: step)
        ultimately show ?thesis by simp
      next
        case bad: False
        then have "ParseTokens_step pt nc s e stop flags orig src P = (TCL_ERROR, P1)"
          using False bracket cmd r n(1) by (simp add: step)
        then show ?thesis using n(2) by (simp add: tokens_post_def)
      qed
    qed
  next
    case bs
    let ?len = "snd (TclParseBackslash (drop src s) (e - src))"
    have len: "0 < ?len" "src + ?len \<le> e"
      using TclParseBackslash_pos [of "e - src" "drop src s"] TclParseBackslash_le [of e s src] lt e by auto
    define P1 where "P1 = (if chr_at s (src + 1) = CHR 0x0A \<and> e - src = 2 then P\<lparr>incomplete := True\<rparr> else P)"
    have P1: "same_command P P1" "tokens P1 = tokens P" "end_of P1 = e" using P by (auto simp: P1_def same_command_def)
    have fin: "tokens_post e orig src P (TCL_OK, end_tokens orig src P1)"
      by (rule tokens_post_later [OF end_tokens_post [of src e orig P1], of src P "[]"]) (use lt P P1 in auto)
    have go: "tokens_post e orig src P (pt s e stop flags orig (src + ?len) (add_token (token TCL_TOKEN_BS src ?len 0) P1))"
      by (rule add_token_later [of e orig "src + ?len" _ P1], rule pt) (use len P P1 in auto)
    show ?thesis
    proof (cases "flags AND TCL_SUBST_BACKSLASHES = 0 \<or> ?len = 1")
      case True
      then show ?thesis using False bs plain by (auto simp: step)
    next
      case sub: False
      then have "ParseTokens_step pt nc s e stop flags orig src P =
          (if chr_at s (src + 1) = CHR 0x0A \<and> stop AND TYPE_SPACE \<noteq> 0 then (TCL_OK, end_tokens orig src P1)
           else pt s e stop flags orig (src + ?len) (add_token (token TCL_TOKEN_BS src ?len 0) P1))"
        using False bs by (simp add: step P1_def)
      then show ?thesis using fin go by simp
    qed
  next
    case nul
    then show ?thesis using False plain by (simp add: step)
  qed
qed

lemma nested_step_post:
  assumes pc: "\<And>term q Q. src \<le> q \<Longrightarrow> q \<le> e \<Longrightarrow> end_of Q = e \<Longrightarrow> commandStart Q \<le> q \<Longrightarrow> command_words q Q \<Longrightarrow>
                 command_post e q Q (pc s e term q Q)"
    and nc: "\<And>q. src < q \<Longrightarrow> q \<le> e \<Longrightarrow> nested_post e q P (nc s e start q P)"
    and e: "e \<le> length s" and src: "src \<le> e" and P: "end_of P = e"
  shows "nested_post e src P (nested_step nc pc s e start src P)"
proof -
  let ?I = "init_command s e src True (interp P)"
  note I = init_command_post [OF e src, of True "interp P"]
  obtain st N where r: "parse_command pc s e True (interp P) src = (st, N)" by force
  have c: "command_post e (commandStart ?I) ?I (st, N)"
    unfolding r [symmetric] parse_command_def Let_def using I by (intro pc) auto
  have ok: "st = TCL_OK \<or> st = TCL_ERROR" "end_of N = e" using c I by (auto simp: command_post_def same_start_def)
  show ?thesis
  proof (cases "st = TCL_OK")
    case False
    then show ?thesis using ok(1) r
      by (auto simp: nested_step_def nested_post_def same_command_def)
  next
    case True
    let ?q = "commandStart N + commandSize N"
    have q: "commandStart ?I \<le> ?q" "?q \<le> e" "commandStart ?I < e \<Longrightarrow> commandStart ?I < ?q"
      using c True by (auto simp: command_post_def)
    have "nested_post e ?q P (nc s e start ?q P)" if "?q < e"
      using that q I(1,2) by (intro nc) auto
    moreover have "end_of P - ?q = 0 \<longleftrightarrow> \<not> ?q < e" using P by auto
    ultimately show ?thesis using True r q I(1) P
      by (auto simp: nested_step_def Let_def nested_post_def)
  qed
qed

lemma command_post_later:
  assumes "command_post e q Q r" "src < q \<or> src = q \<and> q = e" "same_start P Q"
  shows "command_post e src P r"
  using assms same_start_trans [of P Q "snd r"] by (auto simp: command_post_def split: prod.splits)

lemma command_ok_post:
  "commandStart P \<le> q \<Longrightarrow> q \<le> e \<Longrightarrow> src < q \<or> src = e \<and> q = e \<Longrightarrow> at \<le> e \<Longrightarrow>
     command_words q P \<Longrightarrow> command_post e src P (command_ok q (P\<lparr>term_at := at\<rparr>))"
  by (auto simp: command_ok_def command_post_def same_start_def command_words_def)

lemma after_word_post:
  assumes pc: "\<And>q Q. src < q \<Longrightarrow> q \<le> e \<Longrightarrow> end_of Q = e \<Longrightarrow> commandStart Q \<le> q \<Longrightarrow> command_words q Q \<Longrightarrow>
                 command_post e q Q (pc s e terminators q Q)"
    and src: "src \<le> e" and P: "end_of P = e" "commandStart P \<le> src" and cw: "command_words src P" and lo: "lo \<le> src" "lo < e"
  shows "command_post e lo P (after_word pc s e terminators src P)"
proof -
  obtain k type inc where w: "ParseWhiteSpace (drop src s) (e - src) = (k, type, inc)" by (metis prod_cases3)
  have k: "src + k \<le> e" using ParseWhiteSpace_le [of "drop src s" "e - src"] w src by simp
  define P1 where "P1 = P\<lparr>incomplete := (incomplete P \<or> inc)\<rparr>"
  have P1: "same_start P P1" "end_of P1 = e" "commandStart P1 = commandStart P" "src \<le> q \<Longrightarrow> command_words q P1" for q
    using P command_words_mono [OF cw] by (auto simp: P1_def same_start_def command_words_def)
  have r: "after_word pc s e terminators src P =
      (if k \<noteq> 0 then pc s e terminators (src + k) P1
       else if src = e then command_ok src (P1\<lparr>term_at := src\<rparr>)
       else if type AND terminators \<noteq> 0 then command_ok (src + 1) (P1\<lparr>term_at := src\<rparr>)
       else command_error TCL_ERROR (extra_characters s src P1))"
    by (simp add: after_word_def w P1_def)
  consider (space) "k \<noteq> 0" | (fin) "k = 0" "src = e" | (stop) "k = 0" "src < e" "type AND terminators \<noteq> 0"
    | (extra) "k = 0" "src < e" "type AND terminators = 0" using src by linarith
  then show ?thesis
  proof cases
    case space
    then have "command_post e (src + k) P1 (pc s e terminators (src + k) P1)" using k P P1 by (intro pc) auto
    then show ?thesis using r space command_post_later [of e "src + k" P1 _ lo P] P1(1) lo by simp
  next
    case fin
    have "command_post e lo P1 (command_ok src (P1\<lparr>term_at := src\<rparr>))"
      using fin lo P P1 by (intro command_ok_post) auto
    then show ?thesis using r fin P1(1) same_start_trans [OF P1(1)] by (auto simp: command_post_def)
  next
    case stop
    have "command_post e lo P1 (command_ok (src + 1) (P1\<lparr>term_at := src\<rparr>))"
      using stop lo P P1 by (intro command_ok_post) auto
    then show ?thesis using r stop P1(1) same_start_trans [OF P1(1)] by (auto simp: command_post_def)
  next
    case extra
    then show ?thesis using r P1
      by (simp add: command_post_def command_error_def extra_characters_def same_start_def Let_def)
  qed
qed

lemma ParseCommand_step_post:
  assumes pt: "\<And>st q Q. src \<le> q \<Longrightarrow> q \<le> e \<Longrightarrow> end_of Q = e \<Longrightarrow>
                 tokens_post e (length (tokens Q)) q Q (pt s e st TCL_SUBST_ALL (length (tokens Q)) q Q)"
    and pc: "\<And>q Q. src < q \<Longrightarrow> q \<le> e \<Longrightarrow> end_of Q = e \<Longrightarrow> commandStart Q \<le> q \<Longrightarrow> command_words q Q \<Longrightarrow>
                 command_post e q Q (pc s e terminators q Q)"
    and e: "e \<le> length s" "chr_at s e \<noteq> CHR 0x22" and src: "src \<le> e" and P: "end_of P = e" "commandStart P \<le> src" "command_words src P"
  shows "command_post e src P (ParseCommand_step pt pc s e terminators src P)"
proof -
  obtain k type inc where w: "ParseWhiteSpace (drop src s) (e - src) = (k, type, inc)" by (metis prod_cases3)
  have k: "src + k \<le> e" using ParseWhiteSpace_le [of "drop src s" "e - src"] w src by simp
  define P1 where "P1 = P\<lparr>incomplete := (incomplete P \<or> inc)\<rparr>"
  define P2 where "P2 = (add_token (token TCL_TOKEN_WORD (src + k) 0 0) P1)\<lparr>numWords := numWords P1 + 1\<rparr>"
  have P1: "same_start P P1" "end_of P1 = e" "commandStart P1 = commandStart P" "src \<le> q \<Longrightarrow> command_words q P1"
    and P2: "same_start P1 P2" "end_of P2 = e" "commandStart P2 = commandStart P" "numWords P2 = Suc (numWords P)"
      "tokens P2 = tokens P @ [token TCL_TOKEN_WORD (src + k) 0 0]" for q
    using P command_words_mono [OF P(3)] by (auto simp: P1_def P2_def same_start_def command_words_def add_token_def)
  obtain st q ex P3 where pw: "parse_word (all_tokens pt s e) s e terminators (src + k) P2 = (st, q, ex, P3)"
    by (metis prod_cases4)
  have r: "ParseCommand_step pt pc s e terminators src P =
      (if src + k = e then command_ok (src + k) (P1\<lparr>term_at := src + k\<rparr>)
       else if type AND terminators \<noteq> 0 then command_ok (src + k + 1) (P1\<lparr>term_at := src + k\<rparr>)
       else if st = TCL_OK then after_word pc s e terminators q (finish_word s (length (tokens P)) ex q P3)
       else command_error st P3)"
    using pw by (cases st) (simp_all add: ParseCommand_step_def w P1_def P2_def Let_def)
  consider (fin) "src + k = e" | (stop) "src + k < e" "type AND terminators \<noteq> 0"
    | (word) "src + k < e" "type AND terminators = 0" using k by linarith
  then show ?thesis
  proof cases
    case fin
    have "command_post e src P1 (command_ok (src + k) (P1\<lparr>term_at := src + k\<rparr>))"
      using fin P P1 by (intro command_ok_post) auto
    then show ?thesis using r fin P1(1) same_start_trans [OF P1(1)] by (auto simp: command_post_def)
  next
    case stop
    have "command_post e src P1 (command_ok (src + k + 1) (P1\<lparr>term_at := src + k\<rparr>))"
      using stop P P1 by (intro command_ok_post) auto
    then show ?thesis using r stop P1(1) same_start_trans [OF P1(1)] by (auto simp: command_post_def)
  next
    case word
    have "tokens_ok e (src + k) (all_tokens pt s e)" using pt by (simp add: tokens_ok_def all_tokens_def)
    then have "word_post e (src + k) P2 (st, q, ex, P3)"
      unfolding pw [symmetric] using word e P2 by (intro parse_word_post) auto
    then have q: "st = TCL_OK \<or> st = TCL_ERROR" "same_command P2 P3" "st = TCL_OK \<Longrightarrow> src + k \<le> q \<and> q \<le> e"
      "st = TCL_OK \<Longrightarrow> \<exists>cs. tokens P3 = tokens P2 @ cs \<and> cs \<noteq> [] \<and> toks (src + k) q cs"
      by (auto simp: word_post_def part_post_def)
    have sc: "same_start P P3" using same_start_trans [OF same_start_trans [OF P1(1) P2(1)] same_startI [OF q(2)]] .
    show ?thesis
    proof (cases "st = TCL_OK")
      case False
      then show ?thesis using r word q(1) sc
        by (auto simp: command_post_def command_error_def same_start_def)
    next
      case True
      let ?F = "finish_word s (length (tokens P)) ex q P3"
      have F: "same_start P ?F" using same_start_trans [OF sc finish_word_start] .
      then have F2: "end_of ?F = e" "commandStart ?F = commandStart P" using P by (auto simp: same_start_def)
      obtain cs where cs: "tokens P3 = tokens P @ token TCL_TOKEN_WORD (src + k) 0 0 # cs" "cs \<noteq> []" "toks (src + k) q cs"
        using q(4) [OF True] P2(5) by auto
      have "command_words q P" using command_words_mono [OF P(3)] q(3) [OF True] by simp
      then have "words (commandStart P) q (numWords ?F) (tokens ?F)"
        using cs P q(2,3) [unfolded same_command_def] True P2(4) e(1)
        by (intro finish_word_words [OF cs(1,2)]) (auto simp: command_words_def)
      then have "command_words q ?F" using F2 by (simp add: command_words_def)
      then have "command_post e src ?F (after_word pc s e terminators q ?F)"
        using q(3) [OF True] word F2 P by (intro after_word_post pc) auto
      then show ?thesis using r word True F same_start_trans [OF F] by (auto simp: command_post_def)
    qed
  qed
qed

lemma loops_post:
  assumes e: "e \<le> length s" "chr_at s e \<noteq> CHR 0x22"
  shows "\<lbrakk>3 * (e - src) < n; src \<le> e; end_of P = e; orig \<le> length (tokens P)\<rbrakk> \<Longrightarrow>
           tokens_post e orig src P (ParseTokens_loop n s e stop flags orig src P)"
    and "\<lbrakk>3 * (e - src) + 2 < n; src \<le> e; end_of P = e\<rbrakk> \<Longrightarrow> nested_post e src P (nested_commands n s e start src P)"
    and "\<lbrakk>3 * (e - src) + 1 < n; src \<le> e; end_of P = e; commandStart P \<le> src; command_words src P\<rbrakk> \<Longrightarrow>
           command_post e src P (ParseCommand_loop n s e terminators src P)"
proof (induction n arbitrary: src P orig stop flags start terminators)
  case (Suc n)
  {
    case 1
    then show ?case using e
      by (subst loops_simps, intro ParseTokens_step_post Suc.IH) auto
  next
    case 2
    then show ?case using e
      by (subst loops_simps, intro nested_step_post Suc.IH) auto
  next
    case 3
    then show ?case using e
      by (subst loops_simps, intro ParseCommand_step_post Suc.IH) auto
  }
qed simp_all


section \<open>The exported routines\<close>

lemma Tcl_ParseCommand_post:
  assumes "start + numBytes \<le> length s" "chr_at s (start + numBytes) \<noteq> CHR 0x22"
  shows "command_post (start + numBytes) start (init_command s (start + numBytes) start nested ip)
           (Tcl_ParseCommand ip s start numBytes nested)"
    "Tcl_ParseCommand ip s start numBytes nested = (st, P) \<Longrightarrow> start \<le> commandStart P \<and> end_of P = start + numBytes"
proof -
  let ?e = "start + numBytes" and ?I = "init_command s (start + numBytes) start nested ip"
  note I = init_command_post [OF assms(1) le_add1, of nested ip]
  have "command_post ?e (commandStart ?I) ?I (Tcl_ParseCommand ip s start numBytes nested)"
    unfolding Tcl_ParseCommand_def parse_command_def Let_def
    by (rule loops_post(3)) (use assms I in auto)
  then show post: "command_post ?e start ?I (Tcl_ParseCommand ip s start numBytes nested)"
    using I(1,2) by (auto simp: command_post_def)
  show "Tcl_ParseCommand ip s start numBytes nested = (st, P) \<Longrightarrow> start \<le> commandStart P \<and> end_of P = ?e"
    using post I by (auto simp: command_post_def same_start_def)
qed

lemma CommandComplete_loop_some:
  assumes "e \<le> length s" "chr_at s e \<noteq> CHR 0x22"
  shows "p \<le> e \<Longrightarrow> e - p < n \<Longrightarrow> \<exists>b. CommandComplete_loop n s e p = Some b"
proof (induction n arbitrary: p)
  case (Suc n)
  obtain st P where r: "Tcl_ParseCommand False s p (e - p) False = (st, P)" by force
  have "command_post e p (init_command s e p False False) (st, P)"
    using Tcl_ParseCommand_post(1) [of p "e - p" s False False] assms Suc.prems r by simp
  then have st: "st = TCL_OK \<or> st = TCL_ERROR"
    and ok: "st = TCL_OK \<Longrightarrow> p \<le> commandStart P + commandSize P"
      "st = TCL_OK \<Longrightarrow> p < e \<Longrightarrow> p < commandStart P + commandSize P"
    by (auto simp: command_post_def)
  show ?case
  proof (cases "st = TCL_OK \<and> commandStart P + commandSize P < e")
    case True
    then have "p < commandStart P + commandSize P" using ok by (cases "p < e") auto
    moreover have "e - (commandStart P + commandSize P) < n" using True Suc.prems calculation by linarith
    ultimately show ?thesis using Suc.IH [of "commandStart P + commandSize P"] True r by simp
  next
    case False
    then show ?thesis using st r by auto
  qed
qed simp

text \<open>
  C10. Parsing a command never panics and never runs out of fuel: on every text whose counted bytes
  are not followed by a quote, \<open>Tcl_ParseCommand\<close> gives \<open>TCL_OK\<close> or \<open>TCL_ERROR\<close>.  When
  it succeeds, the command lies within the counted bytes, and it is not empty unless there is
  nothing to parse, so that a caller who goes on behind it makes progress.  With a quote there a
  quoted word may reach behind the counted bytes (\<open>quoted_string_overrun\<close>).
\<close>

theorem parse_command_safe:
  assumes "start + numBytes \<le> length s" "chr_at s (start + numBytes) \<noteq> CHR 0x22"
    and "Tcl_ParseCommand ip s start numBytes nested = (st, P)"
  shows "st = TCL_ERROR \<or> st = TCL_OK
      \<and> start \<le> commandStart P \<and> commandStart P + commandSize P \<le> start + numBytes \<and> term_at P \<le> start + numBytes
      \<and> (numBytes = 0 \<or> start < commandStart P + commandSize P)"
  using Tcl_ParseCommand_post(1) [OF assms(1,2), of nested ip] Tcl_ParseCommand_post(2) [OF assms] assms(3)
  by (auto simp: command_post_def)

text \<open>
  \<open>Tcl_CommandComplete\<close> ends on every script: the commands parsed one after the other reach the
  end of the script, or one of them fails, within one turn of the loop for each byte.
\<close>

theorem command_complete_ends: "\<exists>b. Tcl_CommandComplete script = Some b"
  unfolding Tcl_CommandComplete_def CommandComplete_def
  by (rule CommandComplete_loop_some) (simp_all add: chr_at_def)

theorem parse_command_safe_witness:
  "\<exists>P. Tcl_ParseCommand True ''{a} {b}; c'' 0 10 False = (TCL_OK, P) \<and> 0 < commandStart P + commandSize P
     \<and> commandStart P + commandSize P \<le> 10"
proof -
  obtain st P where P: "Tcl_ParseCommand True ''{a} {b}; c'' 0 10 False = (st, P)" by force
  have "fst (Tcl_ParseCommand True ''{a} {b}; c'' 0 10 False) = TCL_OK" by code_simp
  then have ok: "Tcl_ParseCommand True ''{a} {b}; c'' 0 10 False = (TCL_OK, P)" using P by (simp only: fst_conv)
  then show ?thesis using parse_command_safe [OF _ _ ok] by (intro exI [of _ P]) (simp add: chr_at_def del: One_nat_def)
qed

text \<open>
  C6. The tokens of a parsed command are well formed, if the byte behind the counted text is not a
  quote (\<open>quoted_string_overrun\<close> shows what happens otherwise): they are the tokens of \<open>numWords\<close>
  words, one after the other; each word token counts its components, lies between the start and the
  end of the command and contains them; a variable token counts the tokens of its name and its
  index; and a simple word has one text component.  This covers the words of an expanded literal
  list.
\<close>

theorem parse_command_words:
  assumes "start + numBytes \<le> length s" "chr_at s (start + numBytes) \<noteq> CHR 0x22"
    and "Tcl_ParseCommand ip s start numBytes nested = (TCL_OK, P)"
  shows "words (commandStart P) (commandStart P + commandSize P) (numWords P) (tokens P)"
  using Tcl_ParseCommand_post(1) [OF assms(1,2), of nested ip] assms(3)
  by (auto simp: command_post_def command_words_def)

theorem parse_command_words_witness:
  "\<exists>P. Tcl_ParseCommand True ''  a {*}{b c} ; d'' 0 16 False = (TCL_OK, P) \<and> numWords P = 3 \<and> words 2 14 3 (tokens P)"
proof -
  let ?s = "''  a {*}{b c} ; d''"
  obtain st P where P: "Tcl_ParseCommand True ?s 0 16 False = (st, P)" by force
  have "map_prod id (\<lambda>P. (commandStart P, commandSize P, numWords P)) (Tcl_ParseCommand True ?s 0 16 False) = (TCL_OK, 2, 12, 3)"
    by code_simp
  then have ok: "Tcl_ParseCommand True ?s 0 16 False = (TCL_OK, P)" "commandStart P = 2" "commandSize P = 12" "numWords P = 3"
    using P by (simp_all only: map_prod_simp id_apply prod.inject)
  have "words (commandStart P) (commandStart P + commandSize P) (numWords P) (tokens P)"
    by (rule parse_command_words [OF _ _ ok(1)]) (simp_all add: chr_at_def)
  then show ?thesis using ok by (intro exI [of _ P]) simp
qed

text \<open>
  The exported \<open>Tcl_ParseQuotedString\<close> accepts a quote behind the counted text: here the text is
  a quote and two letters, and the byte after it is a quote.
\<close>

lemma quoted_string_overrun:
  "Tcl_ParseQuotedString False [CHR 0x22, CHR ''a'', CHR ''b'', CHR 0x22] 0 3 None
     = (Overrun, 4, snd (snd (Tcl_ParseQuotedString False [CHR 0x22, CHR ''a'', CHR ''b'', CHR 0x22] 0 3 None)))"
  by code_simp

end
