(* ===== verification/Subst.thy ===== *)
theory Subst
  imports ParserSafe
begin

text \<open>
  Substitution of parsed tokens: \<open>TclSubstTokens\<close> and \<open>Tcl_ParseVar\<close> of \<open>tclParse.c\<close> and
  \<open>TclWordKnownAtCompileTime\<close> of \<open>tclCompile.c\<close>.

  The interpreter is a state of any type; what the routines need of it is a record of
  operations.  Values are strings: the sharing of objects and the bookkeeping of line numbers
  (TIP #280) are left out.
\<close>

section \<open>The interpreter\<close>

text \<open>
  The completion codes of \<open>tcl.h\<close>; any other number is a code of a package.  The last two are not
  codes: a panic, and the fuel of a model running out.
\<close>

datatype completion =
    OK
  | ERROR
  | RETURN
  | BREAK
  | CONTINUE
  | CODE int
  | PANIC
  | NOFUEL

text \<open>
  \<open>interpReady\<close> is \<open>TclInterpReady\<close> behind the increment of \<open>numLevels\<close> and \<open>leaveLevel\<close> the
  decrement with \<open>TclResetCancellation\<close>; \<open>getVar2\<close> is \<open>Tcl_ObjGetVar2\<close>, which gives the value
  or leaves a message; \<open>evalObjv\<close> is \<open>Tcl_EvalObjv\<close>, called with the interpreter's result and the
  words; \<open>topLevel\<close> says that \<open>numLevels\<close> is 0 and \<open>allowExceptions\<close> reads the evaluation flag
  \<open>TCL_ALLOW_EXCEPTIONS\<close>; the last two are \<open>TclUpdateReturnInfo\<close> and \<open>ProcessUnexpectedResult\<close>.
  Code, result and state are returned.
\<close>

record 'w interp =
  interpReady :: "'w \<Rightarrow> completion \<times> string \<times> 'w"
  leaveLevel :: "'w \<Rightarrow> 'w"
  getVar2 :: "'w \<Rightarrow> string \<Rightarrow> string option \<Rightarrow> (string + string) \<times> 'w"
  evalObjv :: "'w \<Rightarrow> string \<Rightarrow> string list \<Rightarrow> completion \<times> string \<times> 'w"
  topLevel :: "'w \<Rightarrow> bool"
  allowExceptions :: "'w \<Rightarrow> bool"
  updateReturnInfo :: "'w \<Rightarrow> completion \<times> 'w"
  processUnexpectedResult :: "'w \<Rightarrow> completion \<Rightarrow> string \<times> 'w"

text \<open>The evaluation of a nested script.\<close>

type_synonym 'w evaluator = "'w \<Rightarrow> string \<Rightarrow> completion \<times> string \<times> 'w"

section \<open>Substituting tokens\<close>

definition token_text :: "string \<Rightarrow> Tcl_Token \<Rightarrow> string" where
  "token_text s t = take (token_size t) (drop (token_start t) s)"

text \<open>A nested command: the text between the brackets is evaluated if the interpreter is ready.\<close>

definition subst_command :: "'w interp \<Rightarrow> 'w evaluator \<Rightarrow> string \<Rightarrow> Tcl_Token \<Rightarrow> 'w \<Rightarrow> completion \<times> string \<times> 'w" where
  "subst_command I ev s t w =
     (case interpReady I w of
        (OK, r, w) \<Rightarrow>
          (case ev w (take (token_size t - 2) (drop (token_start t + 1) s)) of
             (code, r, w) \<Rightarrow> (code, r, leaveLevel I w))
      | (code, r, w) \<Rightarrow> (code, r, leaveLevel I w))"

text \<open>
  The result so far is \<open>None\<close> before the first piece, and the pieces are appended to it.  The
  value is the code, the result, the state and the number of tokens left.
\<close>

definition add_piece :: "string option \<Rightarrow> string \<Rightarrow> string option" where
  "add_piece result piece = Some (case result of None \<Rightarrow> piece | Some r \<Rightarrow> r @ piece)"

definition final_result :: "completion \<Rightarrow> string option \<Rightarrow> string \<Rightarrow> string" where
  "final_result code result msg =
     (if code = ERROR then msg else (case result of None \<Rightarrow> [] | Some r \<Rightarrow> r))"

function SubstTokens_loop ::
  "'w interp \<Rightarrow> 'w evaluator \<Rightarrow> string \<Rightarrow> Tcl_Token list \<Rightarrow> string option \<Rightarrow> 'w
     \<Rightarrow> completion \<times> string \<times> 'w \<times> nat" where
  "SubstTokens_loop I ev s [] result w = (OK, final_result OK result [], w, 0)"
| "SubstTokens_loop I ev s (t # ts) result w =
     (case token_type t of
        TCL_TOKEN_TEXT \<Rightarrow> SubstTokens_loop I ev s ts (add_piece result (token_text s t)) w
      | TCL_TOKEN_BS \<Rightarrow>
          SubstTokens_loop I ev s ts
            (add_piece result (fst (TclParseBackslash (drop (token_start t) s) (token_size t)))) w
      | TCL_TOKEN_COMMAND \<Rightarrow>
          (case subst_command I ev s t w of
             (code, r, w) \<Rightarrow>
               if code = OK then SubstTokens_loop I ev s ts (add_piece result r) w
               else (code,
                     final_result code (if code = BREAK \<or> code = CONTINUE then result else add_piece result r) r,
                     w, length ts))
      | TCL_TOKEN_VARIABLE \<Rightarrow>
          (let n = numComponents t;
               (code, index, w) =
                 (if n > 1 then
                    (case SubstTokens_loop I ev s (take (n - 1) (drop 1 ts)) None w of
                       (code, index, w, left) \<Rightarrow> (code, Some index, w))
                  else (OK, None, w))
           in if code = OK then
                (case getVar2 I w (token_text s (hd ts)) index of
                   (Inr v, w) \<Rightarrow> SubstTokens_loop I ev s (drop n ts) (add_piece result v) w
                 | (Inl msg, w) \<Rightarrow> (ERROR, msg, w, length ts - n))
              else (code,
                    final_result code
                      (if code = BREAK \<or> code = CONTINUE then result else add_piece result (the index)) (the index),
                    w, length ts - n))
      | _ \<Rightarrow> (PANIC, [], w, length ts))"
  by pat_completeness auto
termination
  by (relation "measure (\<lambda>(I, ev, s, ts, result, w). length ts)") auto

declare SubstTokens_loop.simps(2) [simp del]

definition TclSubstTokens ::
  "'w interp \<Rightarrow> 'w evaluator \<Rightarrow> string \<Rightarrow> Tcl_Token list \<Rightarrow> 'w \<Rightarrow> completion \<times> string \<times> 'w \<times> nat" where
  "TclSubstTokens I ev s ts w = SubstTokens_loop I ev s ts None w"

text \<open>The value of a variable reference at \<open>start\<close> and the offset behind it; \<open>None\<close> for \<open>NULL\<close>.\<close>

definition Tcl_ParseVar ::
  "'w interp \<Rightarrow> 'w evaluator \<Rightarrow> string \<Rightarrow> nat \<Rightarrow> 'w \<Rightarrow> string option \<times> nat option \<times> 'w" where
  "Tcl_ParseVar I ev s start w =
     (case Tcl_ParseVarName True s start (length s - start) None of
        (TCL_OK, P) \<Rightarrow>
          (let term = Some (start + token_size (hd (tokens P))) in
           if length (tokens P) = 1 then (Some ''$'', term, w)
           else case TclSubstTokens I ev s (tokens P) w of
                  (code, r, w, left) \<Rightarrow> (if code = OK then Some r else None, term, w))
      | (_, P) \<Rightarrow> (None, None, w))"

text \<open>The value of a word that does not depend on the interpreter.\<close>

fun known_pieces :: "string \<Rightarrow> Tcl_Token list \<Rightarrow> string option" where
  "known_pieces s [] = Some []"
| "known_pieces s (t # ts) =
     (case token_type t of
        TCL_TOKEN_TEXT \<Rightarrow> map_option (\<lambda>v. token_text s t @ v) (known_pieces s ts)
      | TCL_TOKEN_BS \<Rightarrow>
          map_option (\<lambda>v. fst (TclParseBackslash (drop (token_start t) s) (token_size t)) @ v) (known_pieces s ts)
      | _ \<Rightarrow> None)"

definition TclWordKnownAtCompileTime :: "string \<Rightarrow> Tcl_Token list \<Rightarrow> string option" where
  "TclWordKnownAtCompileTime s ts =
     (let w = hd ts in
      if token_type w = TCL_TOKEN_SIMPLE_WORD then Some (token_text s (ts ! 1))
      else if token_type w \<noteq> TCL_TOKEN_WORD then None
      else known_pieces s (take (numComponents w) (tl ts)))"


section \<open>Safety\<close>

text \<open>A code that an operation of the interpreter may return.\<close>

definition real_code :: "completion \<Rightarrow> bool" where
  "real_code c \<longleftrightarrow> c \<noteq> PANIC \<and> c \<noteq> NOFUEL"

lemma real_code_simps [simp]:
  "real_code OK" "real_code ERROR" "real_code RETURN" "real_code BREAK" "real_code CONTINUE" "real_code (CODE n)"
  "\<not> real_code PANIC" "\<not> real_code NOFUEL"
  by (simp_all add: real_code_def)

text \<open>The operations return codes, and the evaluator does on scripts shorter than \<open>n\<close>.\<close>

definition sane :: "'w interp \<Rightarrow> bool" where
  "sane I \<longleftrightarrow> (\<forall>w. real_code (fst (interpReady I w))) \<and> (\<forall>w r objv. real_code (fst (evalObjv I w r objv)))
     \<and> (\<forall>w. real_code (fst (updateReturnInfo I w)))"

definition sane_below :: "nat \<Rightarrow> 'w evaluator \<Rightarrow> bool" where
  "sane_below n ev \<longleftrightarrow> (\<forall>w script. length script < n \<longrightarrow> real_code (fst (ev w script)))"

lemma subst_command_real:
  assumes "sane I" "sane_below n ev" "0 < n" "token_size t \<le> n"
  shows "real_code (fst (subst_command I ev s t w))"
proof -
  obtain c r w1 where r: "interpReady I w = (c, r, w1)" by (metis prod_cases3)
  have c: "real_code c" using assms(1) r by (metis sane_def fst_conv)
  have "length (take (token_size t - 2) (drop (token_start t + 1) s)) < n" using assms(3,4) by auto
  then have "real_code (fst (ev w1 (take (token_size t - 2) (drop (token_start t + 1) s))))"
    using assms(2) by (auto simp: sane_below_def)
  then show ?thesis using r c by (cases c) (auto simp: subst_command_def split: prod.splits)
qed

lemma components_index:
  assumes "components (t # ts)" "token_type t = TCL_TOKEN_VARIABLE"
  shows "components (take (numComponents t - 1) (drop 1 ts))"
proof -
  obtain u us where ts: "ts = u # us" using assms by (cases ts) auto
  moreover obtain k where "numComponents t = Suc k" using assms by (cases "numComponents t") auto
  ultimately show ?thesis using assms by simp
qed


lemma SubstTokens_loop_real:
  assumes env: "sane I" "sane_below n ev" "0 < n"
  shows "components ts \<Longrightarrow> \<forall>t \<in> set ts. token_size t \<le> n \<Longrightarrow> real_code (fst (SubstTokens_loop I ev s ts result w))"
proof (induction "length ts" arbitrary: ts result w rule: less_induct)
  case less
  show ?case
  proof (cases ts)
    case Nil
    then show ?thesis by simp
  next
    case (Cons t us)
    have IH: "real_code (fst (SubstTokens_loop I ev s vs r w'))"
      if "length vs \<le> length us" "components vs" "set vs \<subseteq> set us" for vs r w'
      using less.hyps [of vs r w'] less.prems(2) that Cons by auto
    note step = SubstTokens_loop.simps(2)
    consider (chars) "token_type t = TCL_TOKEN_TEXT" | (bs) "token_type t = TCL_TOKEN_BS"
      | (cmd) "token_type t = TCL_TOKEN_COMMAND" | (var) "token_type t = TCL_TOKEN_VARIABLE"
      using less.prems(1) Cons by (auto split: if_splits)
    then show ?thesis
    proof cases
      case chars
      then show ?thesis using IH [of us] less.prems(1) Cons by (simp add: step)
    next
      case bs
      then show ?thesis using IH [of us] less.prems(1) Cons by (simp add: step)
    next
      case cmd
      obtain c r w1 where r: "subst_command I ev s t w = (c, r, w1)" by (metis prod_cases3)
      have "real_code c" using subst_command_real [OF env, of t s w] less.prems(2) Cons r by simp
      then show ?thesis using IH [of us] less.prems(1) Cons cmd r by (simp add: step)
    next
      case var
      let ?n = "numComponents t"
      have vs: "components (take (?n - 1) (drop 1 us))" "components (drop ?n us)"
        using less.prems(1) Cons var components_index by auto
      define idx where "idx = (if ?n > 1 then
           (case SubstTokens_loop I ev s (take (?n - 1) (drop 1 us)) None w of
              (code, index, w, left) \<Rightarrow> (code, Some index, w)) else (OK, None, w))"
      obtain c i w1 where i: "idx = (c, i, w1)" by (metis prod_cases3)
      have "set (take (?n - 1) (drop 1 us)) \<subseteq> set us" by (meson order_trans set_drop_subset set_take_subset)
      then have c: "real_code c" using IH [of "take (?n - 1) (drop 1 us)" None w] vs(1) i
        by (auto simp: idx_def split: prod.splits if_splits)
      have eq: "SubstTokens_loop I ev s ts result w =
          (if c = OK then
             (case getVar2 I w1 (token_text s (hd us)) i of
                (Inr v, w) \<Rightarrow> SubstTokens_loop I ev s (drop ?n us) (add_piece result v) w
              | (Inl msg, w) \<Rightarrow> (ERROR, msg, w, length us - ?n))
           else (c, final_result c (if c = BREAK \<or> c = CONTINUE then result else add_piece result (the i)) (the i),
                 w1, length us - ?n))"
        unfolding Cons step Let_def idx_def [symmetric] i using var by simp
      show ?thesis using c vs(2) IH [of "drop ?n us"] set_drop_subset [of ?n us]
        by (auto simp: eq split: prod.splits sum.splits)
    qed
  qed
qed

section \<open>Words that do not depend on the interpreter\<close>

lemma known_pieces_subst:
  "known_pieces s ts = Some v \<Longrightarrow>
     SubstTokens_loop I ev s ts result w = (OK, final_result OK (if ts = [] then result else add_piece result v) [], w, 0)"
proof (induction ts arbitrary: v result)
  case (Cons t ts)
  from Cons.prems obtain piece u where p: "known_pieces s ts = Some u" "v = piece @ u"
    "token_type t = TCL_TOKEN_TEXT \<and> piece = token_text s t
     \<or> token_type t = TCL_TOKEN_BS \<and> piece = fst (TclParseBackslash (drop (token_start t) s) (token_size t))"
    by (auto split: token_type.splits)
  have "SubstTokens_loop I ev s (t # ts) result w = SubstTokens_loop I ev s ts (add_piece result piece) w"
    using p(3) by (auto simp: SubstTokens_loop.simps(2))
  then show ?case using Cons.IH [OF p(1), of "add_piece result piece"] p(1,2)
    by (cases ts; cases result) (auto simp: add_piece_def)
qed simp

lemma known_pieces_append:
  "known_pieces s (ts @ us) =
     (case known_pieces s ts of None \<Rightarrow> None | Some v \<Rightarrow> map_option ((@) v) (known_pieces s us))"
  by (induction ts; cases "known_pieces s us") (auto split: token_type.splits option.splits)

text \<open>
  C8. A word whose value is computed at compile time has that value at run time: for the words
  of a parsed command, when \<open>TclWordKnownAtCompileTime\<close> finds a value then \<open>TclSubstTokens\<close>
  on the components of the word succeeds with the same value in every interpreter, leaves its
  state alone and leaves no token.
\<close>

theorem known_word_value:
  assumes "words lo hi (Suc k) ts" "TclWordKnownAtCompileTime s ts = Some v"
  shows "TclSubstTokens I ev s (take (numComponents (hd ts)) (tl ts)) w = (OK, v, w, 0)"
proof -
  obtain t u us' where "ts = t # u # us'"
    using assms(1) by (cases ts; cases "tl ts") (auto simp: word_ok_def)
  then obtain us where ts: "ts = t # us" "us = u # us'" by blast
  have "known_pieces s (take (numComponents t) us) = Some v"
    using assms ts by (auto simp: TclWordKnownAtCompileTime_def word_ok_def Let_def split: if_splits)
  note subst = known_pieces_subst [OF this, of I ev None w]
  moreover have "numComponents t \<noteq> 0" using assms(1) ts(1) by (auto simp: word_ok_def)
  ultimately show ?thesis using ts by (auto simp: TclSubstTokens_def final_result_def add_piece_def)
qed

theorem known_word_value_witness:
  "let s = ''a'' @ [CHR 0x5C] @ ''tb'';
       ts = [token TCL_TOKEN_WORD 0 4 3, token TCL_TOKEN_TEXT 0 1 0, token TCL_TOKEN_BS 1 2 0, token TCL_TOKEN_TEXT 3 1 0]
   in \<forall>(I :: nat interp) ev w. TclSubstTokens I ev s (tl ts) w = (OK, ''a'' @ [CHR 0x09] @ ''b'', w, 0)"
proof -
  let ?s = "''a'' @ [CHR 0x5C] @ ''tb''"
  let ?ts = "[token TCL_TOKEN_WORD 0 4 3, token TCL_TOKEN_TEXT 0 1 0, token TCL_TOKEN_BS 1 2 0, token TCL_TOKEN_TEXT 3 1 0]"
  have w: "words 0 4 (Suc 0) ?ts" by (simp add: word_ok_def toks_def tok_in_def token_def)
  have k: "TclWordKnownAtCompileTime ?s ?ts = Some (''a'' @ [CHR 0x09] @ ''b'')" by code_simp
  have "TclSubstTokens I ev ?s (tl ?ts) w = (OK, ''a'' @ [CHR 0x09] @ ''b'', w, 0)" for I :: "nat interp" and ev w
    using known_word_value [OF w k, of I ev w] by (simp add: token_def)
  then show ?thesis by simp
qed

end
