(* ===== verification/ListObj.thy ===== *)
theory ListObj
  imports ListFmt
begin

text \<open>
  The string side of list objects (\<open>tclListObj.c\<close>): \<open>SetListFromAny\<close> parses the string of an
  object into elements and \<open>UpdateStringOfList\<close> formats the elements of a list.  Unlike
  \<open>Tcl_SplitList\<close> and \<open>Tcl_Merge\<close> they work on counted strings, which may contain NUL bytes.
\<close>

section \<open>From a string\<close>

text \<open>The most elements of a list, with pointers of eight bytes.\<close>

definition LIST_MAX :: int where "LIST_MAX = 536870909"

text \<open>
  The loop of \<open>SetListFromAny\<close>: \<open>lst\<close> is the text from \<open>nextElem\<close> on, \<open>len\<close> the bytes before
  \<open>limit\<close>, and \<open>elems\<close> the elements stored.
\<close>

function SetListFromAny_loop :: "string \<Rightarrow> nat \<Rightarrow> string list \<Rightarrow> tcl_error + string list" where
  "SetListFromAny_loop lst len elems =
     (if len > 0 then
        (case TclFindElement lst len of
           Inl e \<Rightarrow> Inl e
         | Inr (element, next, elSize, lit) \<Rightarrow>
             (if element = len then Inr elems
              else SetListFromAny_loop (drop next lst) (len - next)
                     (elems @ [if lit then take elSize (drop element lst)
                               else TclCopyAndCollapse elSize (drop element lst)])))
      else Inr elems)"
  by pat_completeness auto
termination
  by (relation "measure (\<lambda>(lst, len, elems). len)") (auto dest: TclFindElement_pos)

declare SetListFromAny_loop.simps [simp del]

text \<open>The elements, and the number of elements that the list was allocated for.\<close>

definition SetListFromAny :: "string \<Rightarrow> tcl_error + (string list \<times> int)" where
  "SetListFromAny s =
     (let (n, limit) = TclMaxListLength s (Some (length s));
          estCount = n + (if n = 0 then 1 else 0)
      in if estCount > LIST_MAX then
           Inl (''max length of a Tcl list (536870909 elements) exceeded'', [''TCL'', ''MEMORY''])
         else case SetListFromAny_loop s limit [] of
                Inl e \<Rightarrow> Inl e
              | Inr elems \<Rightarrow> Inr (elems, estCount))"

section \<open>To a string\<close>

text \<open>
  The two passes of \<open>UpdateStringOfList\<close>.  The result is the bytes written to the block, each
  element followed by a space, and the length stored in the object; \<open>None\<close> is the panic.
  The string of the object is the first \<open>length\<close> bytes of the block.
\<close>

fun UpdateString_scan :: "nat \<Rightarrow> string list \<Rightarrow> int \<Rightarrow> (int list \<times> int) option" where
  "UpdateString_scan i [] bytesNeeded = Some ([], bytesNeeded)"
| "UpdateString_scan i (elem # elems) bytesNeeded =
     (case TclScanElement elem (Some (length elem)) (if i \<noteq> 0 then TCL_DONT_QUOTE_HASH else 0) of
        None \<Rightarrow> None
      | Some (flag, n) \<Rightarrow>
          (let bytesNeeded = int32 (bytesNeeded + n) in
           if bytesNeeded < 0 then None
           else map_option (\<lambda>(flags, b). (flag # flags, b)) (UpdateString_scan (i + 1) elems bytesNeeded)))"

fun UpdateString_convert :: "nat \<Rightarrow> string list \<Rightarrow> int list \<Rightarrow> string" where
  "UpdateString_convert i (elem # elems) (flag # flags) =
     TclConvertElement elem (Some (length elem)) (flag OR (if i \<noteq> 0 then TCL_DONT_QUOTE_HASH else 0)) @ '' ''
       @ UpdateString_convert (i + 1) elems flags"
| "UpdateString_convert i _ _ = []"

definition UpdateStringOfList :: "string list \<Rightarrow> (string \<times> int) option" where
  "UpdateStringOfList elems =
     (if elems = [] then Some ([], 0)
      else case UpdateString_scan 0 elems 0 of
        None \<Rightarrow> None
      | Some (flags, bytesNeeded) \<Rightarrow>
          (if bytesNeeded > INT_MAX - int (length elems) + 1 then None
           else Some (UpdateString_convert 0 elems flags, bytesNeeded + int (length elems) - 1)))"


section \<open>Counted elements as a list format\<close>

definition obj_flag :: "string \<Rightarrow> int \<Rightarrow> int" where
  "obj_flag src flags =
     (if src = [] then CONVERT_BRACE
      else let (v, k) = ScanElement_loop src (Some (length src)) (scan_start src) 0
           in fst (ScanElement_finish src flags v k))"

lemma fits_Some [simp]: "fits s (Some (length s))"
  by (simp add: fits_def)

lemma TclScanElement_obj_flag:
  "TclScanElement src (Some (length src)) flags = Some (f, n) \<Longrightarrow> f = obj_flag src flags"
  by (auto simp: TclScanElement_def obj_flag_def split_beta split: if_splits)

lemma obj_flag_mode: "src \<noteq> [] \<Longrightarrow> mode_ok src (obj_flag src flags)"
proof -
  assume ne: "src \<noteq> []"
  obtain v k where v: "ScanElement_loop src (Some (length src)) (scan_start src) 0 = (v, k)" by force
  from ScanElement_loop_post [OF fits_Some v] have "scan_post src (scan_start src) v" by blast
  then show ?thesis using ScanElement_finish_mode [of src v flags k] v ne
    by (cases "ScanElement_finish src flags v k") (simp add: obj_flag_def)
qed

definition obj_format :: "nat \<Rightarrow> string \<Rightarrow> string" where
  "obj_format i e = TclConvertElement e (Some (length e)) (obj_flag e (hash_flag i) OR hash_flag i)"

lemma obj_format_text: "element_text (obj_format i e) e"
proof (cases "e = []")
  case True
  then show ?thesis using TclConvertElement_Nil [of "Some 0"]
    by (simp add: obj_format_def element_text_def fits_def)
next
  case False
  from convert_element_text [OF fits_Some this obj_flag_mode [OF this] hash_flag_caller]
  show ?thesis by (simp add: obj_format_def)
qed

interpretation objs: element_format obj_format list_read "\<lambda>e. True"
proof
  fix e rest :: string and i
  assume "ends_word rest"
  from FindElement_text [OF obj_format_text this]
  obtain p nxt sz lit where "FindElement (obj_format i e @ rest) (length (obj_format i e @ rest)) ''list'' ''LIST'' = Inr (p, nxt, sz, lit)"
    and "element_value (obj_format i e @ rest) p sz lit = e"
    and "drop nxt (obj_format i e @ rest) = dropWhile TclIsSpaceProc rest" and "p < length (obj_format i e @ rest)"
    by metis
  then show "list_read (obj_format i e @ rest) = Some (e, dropWhile TclIsSpaceProc rest)"
    by (simp add: list_read_def TclFindElement_def)
next
  fix e :: string and i
  from element_text_first [OF obj_format_text]
  show "obj_format i e \<noteq> [] \<and> \<not> TclIsSpaceProc (chr_at (obj_format i e) 0)" .
qed

lemma SetListFromAny_loop_joined:
  "SetListFromAny_loop (objs.joined i es) (length (objs.joined i es)) acc = Inr (acc @ es)"
proof (induction es arbitrary: i acc)
  case Nil
  then show ?case by (simp add: SetListFromAny_loop.simps [of _ 0])
next
  case (Cons e es)
  let ?s = "objs.joined i (e # es)"
  have "list_read ?s = Some (e, objs.joined (i + 1) es)" by (rule objs.read_joined) simp_all
  then obtain p nxt sz lit where f: "TclFindElement ?s (length ?s) = Inr (p, nxt, sz, lit)" "p < length ?s"
    "element_value ?s p sz lit = e" "drop nxt ?s = objs.joined (i + 1) es"
    by (auto simp: list_read_def split: sum.splits if_splits)
  have "length ?s - nxt = length (objs.joined (i + 1) es)" using f(4) by (metis length_drop)
  then have "SetListFromAny_loop ?s (length ?s) acc
      = SetListFromAny_loop (objs.joined (i + 1) es) (length (objs.joined (i + 1) es)) (acc @ [e])"
    using f by (subst SetListFromAny_loop.simps) (auto simp: element_value_def)
  then show ?case using Cons.IH by simp
qed

lemma TclMaxListLength_counted: "TclMaxListLength s (Some (length s)) = (int (runs True s), length s)"
  by (rule TclMaxListLength_runs) simp

text \<open>Every element stored uses up a word of the text, so there is room for it.\<close>

lemma SetListFromAny_loop_room:
  "SetListFromAny_loop lst (length lst) elems = Inr elems' \<Longrightarrow> length elems' \<le> length elems + runs True lst"
proof (induction "length lst" arbitrary: lst elems rule: less_induct)
  case less
  show ?case
  proof (cases "lst = []")
    case True
    then show ?thesis using less.prems by (simp add: SetListFromAny_loop.simps [of _ 0])
  next
    case ne: False
    then obtain e nxt sz lit where f: "TclFindElement lst (length lst) = Inr (e, nxt, sz, lit)"
      using less.prems by (subst (asm) SetListFromAny_loop.simps) (auto split: sum.splits)
    note b = FindElement_bounds [OF f [unfolded TclFindElement_def]]
    have pos: "0 < nxt" using TclFindElement_pos [OF f] ne by simp
    show ?thesis
    proof (cases "e = length lst")
      case True
      then show ?thesis using less.prems f ne by (subst (asm) SetListFromAny_loop.simps) simp
    next
      case False
      have "SetListFromAny_loop (drop nxt lst) (length (drop nxt lst)) (elems @ [element_value lst e sz lit]) = Inr elems'"
        using less.prems f ne False by (subst (asm) SetListFromAny_loop.simps) (simp add: element_value_def)
      from less.hyps [OF _ this] pos ne b(4) [OF False] show ?thesis by simp
    qed
  qed
qed

section \<open>The length of the string\<close>

lemma UpdateString_convert_joined:
  assumes "elems \<noteq> []" and "UpdateString_scan i elems b = Some (flags, n)"
  shows "UpdateString_convert i elems flags = objs.joined i elems @ '' ''"
  using assms
proof (induction elems arbitrary: i b flags n)
  case (Cons e es)
  from Cons.prems(2) obtain f k fs where f: "TclScanElement e (Some (length e)) (hash_flag i) = Some (f, k)"
    and flags: "flags = f # fs" and rest: "UpdateString_scan (i + 1) es (int32 (b + k)) = Some (fs, n)"
    by (auto simp: hash_flag_def Let_def split: option.splits if_splits)
  have e: "TclConvertElement e (Some (length e)) (f OR hash_flag i) = obj_format i e"
    using TclScanElement_obj_flag [OF f] by (simp add: obj_format_def)
  show ?case
  proof (cases es)
    case Nil
    with flags e show ?thesis by (simp add: hash_flag_def)
  next
    case (Cons d ds)
    have "UpdateString_convert (i + 1) es fs = objs.joined (i + 1) es @ '' ''"
      using Cons.IH [OF _ rest] Cons by simp
    with flags e Cons show ?thesis by (simp add: hash_flag_def)
  qed
qed simp


lemma hash_flag_facts:
  "hash_flag i AND CONVERT_ANY = 0" "hash_flag i AND TCL_DONT_USE_BRACES = 0" "i \<noteq> 0 \<Longrightarrow> \<not> hash_room src (hash_flag i)"
  by (auto simp: hash_flag_def hash_room_def flag_defs)

lemma finish_exact:
  assumes ne: "src \<noteq> []" and post: "scan_post src (scan_start src) v"
    and fin: "ScanElement_finish src (hash_flag i) v (length src) = (f, m)" and nohash: "\<not> hash_room src (hash_flag i)"
  shows "int (length (TclConvertElement src (Some (length src)) (f OR hash_flag i))) = m"
proof -
  have mode: "mode_ok src f" by (rule ScanElement_finish_mode [OF post fin])
  have e: "extra v = int (escapes src)" "\<not> preferBrace v \<Longrightarrow> braceCount v = int (brace_chars src)"
    using post by (auto simp: scan_post_def scan_start_def Let_def)
  have distinct: "CONVERT_ESCAPE \<noteq> CONVERT_MASK" "CONVERT_ESCAPE \<noteq> CONVERT_BRACE" "CONVERT_ESCAPE \<noteq> CONVERT_NONE"
    "CONVERT_MASK \<noteq> CONVERT_BRACE" "CONVERT_MASK \<noteq> CONVERT_NONE" "CONVERT_BRACE \<noteq> CONVERT_NONE"
    by (simp_all add: flag_defs)
  show ?thesis
    using fin e nohash brace_chars_le [of src]
    unfolding length_convert [OF fits_Some ne mode hash_flag_caller] ScanElement_finish_def Let_def
    by (auto simp: hash_flag_facts distinct distinct [symmetric] split: if_splits)
qed

lemma scan_exact:
  assumes "TclScanElement src (Some (length src)) (hash_flag i) = Some (f, n)" "int (length src) \<le> INT_MAX"
    and "i \<noteq> 0 \<or> chr_at src 0 \<noteq> CHR ''#''"
  shows "int (length (obj_format i src)) = n"
proof (cases "src = []")
  case True
  then show ?thesis using assms(1) TclConvertElement_Nil [of "Some 0"]
    by (simp add: obj_format_def TclScanElement_def fits_def)
next
  case False
  from TclScanElement_text [OF fits_Some False assms(1)] obtain v m where post: "scan_post src (scan_start src) v"
    and fin: "ScanElement_finish src (hash_flag i) v (length src) = (f, m)" and n: "n = int32 m" "0 \<le> int32 m" by metis
  have "\<not> hash_room src (hash_flag i)" using assms(3) hash_flag_facts(3) by (auto simp: hash_room_def)
  note exact = finish_exact [OF False post fin this]
  have "m \<le> int (length src) + max 3 (int (length src))"
    by (rule ScanElement_finish_size(2) [OF fits_Some False post fin hash_flag_caller disjI1 [OF refl]])
  then have "int32 m = m" using exact n(2) assms(2) by (intro int32_le) (auto simp: INT_MAX_def)
  then show ?thesis using exact n TclScanElement_obj_flag [OF assms(1)] by (simp add: obj_format_def)
qed

lemma UpdateString_scan_Cons:
  "UpdateString_scan i (e # es) b =
     (case TclScanElement e (Some (length e)) (hash_flag i) of
        None \<Rightarrow> None
      | Some (flag, n) \<Rightarrow>
          (if int32 (b + n) < 0 then None
           else map_option (\<lambda>(flags, b). (flag # flags, b)) (UpdateString_scan (i + 1) es (int32 (b + n)))))"
  by (simp only: UpdateString_scan.simps hash_flag_def Let_def)

lemma TclScanElement_range: "TclScanElement src len flags = Some (f, n) \<Longrightarrow> 0 \<le> n \<and> n \<le> INT_MAX"
proof -
  have "int32 x \<le> INT_MAX" for x
  proof -
    have "(x + 2147483648) mod 4294967296 < (4294967296 :: int)" by (rule pos_mod_bound) simp
    then show ?thesis by (simp add: int32_def INT_MAX_def)
  qed
  then show "TclScanElement src len flags = Some (f, n) \<Longrightarrow> 0 \<le> n \<and> n \<le> INT_MAX"
    by (auto simp: TclScanElement_def INT_MAX_def split_beta Let_def split: if_splits)
qed

lemma UpdateString_scan_exact:
  assumes "UpdateString_scan i es b = Some (flags, n)" "0 \<le> b" "b \<le> INT_MAX" "\<forall>e\<in>set es. int (length e) \<le> INT_MAX"
    and "i \<noteq> 0 \<or> es = [] \<or> chr_at (hd es) 0 \<noteq> CHR ''#''"
  shows "b + int (length (UpdateString_convert i es flags)) = n + int (length es)"
  using assms
proof (induction es arbitrary: i b flags n)
  case (Cons e es)
  from Cons.prems(1) obtain f k fs where f: "TclScanElement e (Some (length e)) (hash_flag i) = Some (f, k)"
    and flags: "flags = f # fs" and rest: "UpdateString_scan (i + 1) es (int32 (b + k)) = Some (fs, n)"
    and nn: "0 \<le> int32 (b + k)"
    by (auto simp: UpdateString_scan_Cons simp del: UpdateString_scan.simps split: option.splits if_splits)
  have k: "int (length (obj_format i e)) = k" using Cons.prems(4,5) by (intro scan_exact [OF f]) auto
  have "0 \<le> k" "k \<le> INT_MAX" using TclScanElement_range [OF f] by auto
  then have w: "int32 (b + k) = b + k" using nn Cons.prems(2,3) by (intro int32_le) (simp_all add: INT_MAX_def)
  moreover have "b + k \<le> INT_MAX" using w nn Cons.prems(3) \<open>k \<le> INT_MAX\<close> int32_overflow [of "b + k"]
    by (cases "b + k \<le> INT_MAX") (simp_all add: INT_MAX_def)
  ultimately have "b + k + int (length (UpdateString_convert (i + 1) es fs)) = n + int (length es)"
    using Cons.IH [OF rest] Cons.prems nn by simp
  moreover have "TclConvertElement e (Some (length e)) (f OR hash_flag i) = obj_format i e"
    using TclScanElement_obj_flag [OF f] by (simp add: obj_format_def)
  ultimately show ?case using flags k by (simp add: hash_flag_def)
qed simp


lemma UpdateStringOfList_joined:
  assumes "UpdateStringOfList es = Some (w, len)" "\<forall>e\<in>set es. int (length e) \<le> INT_MAX"
    and "es = [] \<or> chr_at (hd es) 0 \<noteq> CHR ''#''"
  shows "nat len = length (objs.joined 0 es)" "w = objs.joined 0 es @ (if es = [] then [] else '' '')" "0 \<le> len"
proof -
  have "nat len = length (objs.joined 0 es) \<and> w = objs.joined 0 es @ (if es = [] then [] else '' '') \<and> 0 \<le> len"
  proof (cases "es = []")
    case True
    then show ?thesis using assms(1) by (simp add: UpdateStringOfList_def)
  next
    case False
    obtain flags b where sc: "UpdateString_scan 0 es 0 = Some (flags, b)" "w = UpdateString_convert 0 es flags"
      "len = b + int (length es) - 1"
      using assms(1) False by (auto simp: UpdateStringOfList_def split: option.splits if_splits)
    have j: "w = objs.joined 0 es @ '' ''" using UpdateString_convert_joined [OF False sc(1)] sc(2) by simp
    have "int (length w) = b + int (length es)"
      using UpdateString_scan_exact [OF sc(1)] assms(2,3) sc(2) by (simp add: INT_MAX_def)
    then show ?thesis using sc(3) j False by simp
  qed
  then show "nat len = length (objs.joined 0 es)" "w = objs.joined 0 es @ (if es = [] then [] else '' '')" "0 \<le> len"
    by blast+
qed

lemma SetListFromAny_joined:
  assumes "int (length (objs.joined i es)) \<le> LIST_MAX"
  shows "\<exists>slots. SetListFromAny (objs.joined i es) = Inr (es, slots) \<and> int (length es) \<le> slots"
proof -
  let ?s = "objs.joined i es"
  have loop: "SetListFromAny_loop ?s (length ?s) [] = Inr es" using SetListFromAny_loop_joined [of i es "[]"] by simp
  have "runs sp t \<le> length t" for sp t by (induction sp t rule: runs.induct) auto
  from this [of True ?s] have "int (runs True ?s) \<le> LIST_MAX" using assms by linarith
  moreover have "length es \<le> runs True ?s" using SetListFromAny_loop_room [OF loop] by simp
  ultimately show ?thesis using loop
    by (simp add: SetListFromAny_def TclMaxListLength_counted LIST_MAX_def)
qed

lemma brackets_scan:
  "ScanElement_loop (replicate n (CHR '']'')) (Some n) v k =
     (if n = 0 then v else v\<lparr>forbidNone := True, extra := extra v + int n, preferEscape := True\<rparr>, k + n)"
proof (induction n arbitrary: v k)
  case 0
  then show ?case using ScanElement_loop_Nil [of "Some 0" v k] by (simp add: fits_def)
next
  case (Suc n)
  have "fits (CHR '']'' # replicate n (CHR '']'')) (Some (Suc n))" by (simp add: fits_def)
  from ScanElement_loop_Cons [OF this, of v k] Suc.IH show ?case
    by (auto simp: ScanElement_step_char dec_len_def)
qed

lemma hash_brackets_scan:
  assumes "0 < n" "n \<le> 1000000000"
  shows "TclScanElement (CHR ''#'' # replicate n (CHR '']'')) (Some (Suc n)) 0 = Some (CONVERT_MASK, 2 * int n + 2)"
proof -
  let ?s = "CHR ''#'' # replicate n (CHR '']'')"
  have "fits ?s (Some (Suc n))" by (simp add: fits_def)
  from ScanElement_loop_Cons [OF this, of "scan_start ?s" 0] brackets_scan [of n "scan_start ?s" 1] assms(1)
  have loop: "ScanElement_loop ?s (Some (Suc n)) (scan_start ?s) 0
      = ((scan_start ?s)\<lparr>forbidNone := True, extra := int n, preferEscape := True\<rparr>, Suc n)"
    by (simp add: ScanElement_step_char special_def TclIsSpaceProc_iff dec_len_def scan_start_def)
  have fin: "ScanElement_finish ?s 0 ((scan_start ?s)\<lparr>forbidNone := True, extra := int n, preferEscape := True\<rparr>) (Suc n)
      = (CONVERT_MASK, 2 * int n + 2)"
    by (simp add: ScanElement_finish_def scan_start_def hash_room_def flag_defs)
  show ?thesis
    unfolding TclScanElement_def loop Let_def prod.case fin using assms(2) by simp
qed

section \<open>The properties\<close>

text \<open>
  C7. The string of a list is read back as the list: if the first element does not start with
  a hash, \<open>UpdateStringOfList\<close> stores the exact length of the text, and \<open>SetListFromAny\<close> turns
  that text into the same elements, whatever bytes they hold, within the array it allocated.
\<close>

theorem list_string_roundtrip:
  assumes "UpdateStringOfList es = Some (written, len)" "len \<le> LIST_MAX"
    and "\<forall>e\<in>set es. int (length e) \<le> INT_MAX" "es = [] \<or> chr_at (hd es) 0 \<noteq> CHR ''#''"
  shows "\<exists>slots. SetListFromAny (take (nat len) written) = Inr (es, slots) \<and> int (length es) \<le> slots
    \<and> 0 \<le> len \<and> nat len + (if es = [] then 0 else 1) = length written"
proof -
  note u = UpdateStringOfList_joined [OF assms(1,3,4)]
  have "take (nat len) written = objs.joined 0 es" using u(1,2) by simp
  moreover have "int (length (objs.joined 0 es)) \<le> LIST_MAX" using u(1,3) assms(2) by linarith
  ultimately show ?thesis using SetListFromAny_joined [of 0 es] u by auto
qed

theorem list_string_roundtrip_witness:
  "\<exists>w. UpdateStringOfList [''a b'', [], [CHR 0x5C], [CHR 0x00]] = Some (w, 13)
     \<and> (\<exists>slots. SetListFromAny (take 13 w) = Inr ([''a b'', [], [CHR 0x5C], [CHR 0x00]], slots))"
proof -
  let ?es = "[''a b'', [], [CHR 0x5C], [CHR 0x00]]"
  have "UpdateStringOfList ?es = Some (''{a b} {} '' @ [CHR 0x5C, CHR 0x5C, CHR '' '', CHR 0x00, CHR '' ''], 13)"
    by code_simp
  from this list_string_roundtrip [OF this] show ?thesis by (auto simp: LIST_MAX_def INT_MAX_def)
qed

text \<open>
  C9. The length that \<open>UpdateStringOfList\<close> stores is the estimate of the first pass, and for a first
  element with a leading hash and several brackets it is too large: for \<open>#\<close> and \<open>n\<close> close brackets
  it writes \<open>n + 4\<close> bytes with the final space but stores the length \<open>2 * n + 2\<close>, so that for \<open>n\<close>
  above 2 the string of the object ends in bytes of the block that were never written.
\<close>

theorem list_string_overestimate:
  assumes "0 < n" "n \<le> 1000000000"
  shows "UpdateStringOfList [CHR ''#'' # replicate n (CHR '']'')]
     = Some (''{#'' @ replicate n (CHR '']'') @ ''} '', 2 * int n + 2)
    \<and> length (''{#'' @ replicate n (CHR '']'') @ ''} '') = n + 4"
proof -
  let ?s = "CHR ''#'' # replicate n (CHR '']'')"
  have sc: "UpdateString_scan 0 [?s] 0 = Some ([CONVERT_MASK], 2 * int n + 2)"
    using hash_brackets_scan [OF assms] assms by simp
  have "TclConvertElement ?s (Some (length ?s)) CONVERT_MASK = ''{'' @ ?s @ ''}''"
    using TclConvertElement_text [OF fits_Some, of ?s CONVERT_MASK]
    by (simp add: conversion_of_def hash_room_def flag_defs)
  then have "UpdateString_convert 0 [?s] [CONVERT_MASK] = ''{#'' @ replicate n (CHR '']'') @ ''} ''" by simp
  then show ?thesis using sc assms by (simp add: UpdateStringOfList_def INT_MAX_def del: UpdateString_scan.simps UpdateString_convert.simps)
qed

theorem list_string_overestimate_witness:
  "UpdateStringOfList [''#]]]]''] = Some (''{#]]]]} '', 10) \<and> length ''{#]]]]} '' = 8"
proof -
  have "replicate 4 (CHR '']'') = '']]]]''" by (simp add: eval_nat_numeral)
  from list_string_overestimate [of 4, unfolded this] show ?thesis by simp
qed

text \<open>
  \<open>SetListFromAny\<close> never stores more elements than the list was allocated for, on any text, and
  fails only with the errors of the list format or because the list would be too long.
\<close>

theorem list_parse_room:
  "case SetListFromAny s of
     Inl e \<Rightarrow> format_error ''LIST'' e \<or> snd e = [''TCL'', ''MEMORY'']
   | Inr (elems, slots) \<Rightarrow> 0 < slots \<and> int (length elems) \<le> slots \<and> slots \<le> LIST_MAX"
proof -
  have err: "format_error ''LIST'' e" if "SetListFromAny_loop lst len elems = Inl e" for lst len elems e
    using that
  proof (induction lst len elems rule: SetListFromAny_loop.induct)
    case (1 lst len elems)
    then show ?case
      by (subst (asm) (2) SetListFromAny_loop.simps)
        (auto simp: TclFindElement_def split: sum.splits if_splits dest: FindElement_error)
  qed
  have def: "SetListFromAny s =
     (let estCount = int (runs True s) + (if runs True s = 0 then 1 else 0)
      in if estCount > LIST_MAX then
           Inl (''max length of a Tcl list (536870909 elements) exceeded'', [''TCL'', ''MEMORY''])
         else case SetListFromAny_loop s (length s) [] of Inl e \<Rightarrow> Inl e | Inr elems \<Rightarrow> Inr (elems, estCount))"
    by (simp add: SetListFromAny_def TclMaxListLength_counted)
  show ?thesis
  proof (cases "SetListFromAny_loop s (length s) []")
    case (Inl e)
    then show ?thesis using err [OF Inl] by (simp add: def Let_def)
  next
    case (Inr elems)
    then show ?thesis using SetListFromAny_loop_room [OF Inr] by (auto simp: def Let_def)
  qed
qed

end
