(* ===== verification/Eval.thy ===== *)
theory Eval
  imports Subst ListObj
begin

text \<open>
  Evaluation of a script, \<open>TclEvalEx\<close> of \<open>tclBasic.c\<close>: the commands are parsed one after the
  other, the words of each are substituted from left to right, words with the prefix \<open>{*}\<close> are
  split into the elements of a list, and the command is run.

  A nested command is evaluated by the same routine on the text between the brackets; that
  recursion takes fuel, and the length of the script is enough of it.

  \<open>allowExceptions\<close> reads the flag of that name from the state of the interpreter, at the start of
  every evaluation as the code does.  That \<open>TclEvalEx\<close> itself clears the flags (\<open>evalFlags = 0\<close>, before
  the first command and behind each word) is not modelled; it matters only to the flag that a nested
  evaluation or a later one finds.
\<close>

section \<open>The words of a command\<close>

text \<open>
  The loop that substitutes the words: the values so far, each with its \<open>expand\<close> flag and the
  number of objects it needs.
\<close>

fun subst_words ::
  "'w interp \<Rightarrow> 'w evaluator \<Rightarrow> string \<Rightarrow> nat \<Rightarrow> Tcl_Token list \<Rightarrow> (string \<times> bool) list \<Rightarrow> nat \<Rightarrow> string \<Rightarrow> 'w
     \<Rightarrow> completion \<times> string \<times> 'w \<times> (string \<times> bool) list \<times> nat" where
  "subst_words I ev s 0 ts objv needed r w = (OK, r, w, objv, needed)"
| "subst_words I ev s (Suc k) ts objv needed r w =
     (let t = hd ts; n = numComponents t in
      case TclSubstTokens I ev s (take n (tl ts)) w of
        (code, r, w, left) \<Rightarrow>
          if code \<noteq> OK then (code, r, w, objv, needed)
          else if token_type t = TCL_TOKEN_EXPAND_WORD then
            (case SetListFromAny r of
               Inl (msg, ec) \<Rightarrow> (ERROR, msg, w, objv, needed)
             | Inr (elems, est) \<Rightarrow>
                 subst_words I ev s k (drop n (tl ts)) (objv @ [(r, True)])
                   (needed + (if elems = [] then 1 else length elems)) r w)
          else subst_words I ev s k (drop n (tl ts)) (objv @ [(r, False)]) (needed + 1) r w)"

text \<open>
  The expansion: an array of \<open>objectsNeeded\<close> entries is filled from its end, the words taken from
  the last to the first.  \<open>objIdx\<close> is the next free entry and \<open>used\<close> is \<open>objectsUsed\<close>.  Up to
  \<open>minObjs\<close> entries the array on the stack, which holds the words, is filled in place; otherwise
  the words are in the array \<open>copy\<close>.
\<close>

definition minObjs :: nat where "minObjs = 20"

fun fill_elements :: "string list \<Rightarrow> string option list \<times> int \<Rightarrow> string option list \<times> int" where
  "fill_elements [] (objv, objIdx) = (objv, objIdx)"
| "fill_elements (e # es) (objv, objIdx) = fill_elements es (objv[nat objIdx := Some e], objIdx - 1)"

definition list_elements :: "string \<Rightarrow> string list" where
  "list_elements s = (case SetListFromAny s of Inl e \<Rightarrow> [] | Inr (elems, est) \<Rightarrow> elems)"

primrec expand_words ::
  "string option list option \<Rightarrow> bool list \<Rightarrow> nat \<Rightarrow> string option list \<Rightarrow> int \<Rightarrow> nat \<Rightarrow> string option list \<times> int \<times> nat" where
  "expand_words copy expand 0 objv objIdx used = (objv, objIdx, used)"
| "expand_words copy expand (Suc wordIdx) objv objIdx used =
     (let v = the ((case copy of None \<Rightarrow> objv | Some c \<Rightarrow> c) ! wordIdx) in
      if expand ! wordIdx then
        (let elems = list_elements v;
             (objv, objIdx) = fill_elements (rev elems) (objv, objIdx)
         in expand_words copy expand wordIdx objv objIdx (used + length elems))
      else expand_words copy expand wordIdx (objv[nat objIdx := Some v]) (objIdx - 1) (used + 1))"

definition expanded_words :: "(string \<times> bool) list \<Rightarrow> nat \<Rightarrow> string option list" where
  "expanded_words ws objectsNeeded =
     (let numWords = length ws; space = map (\<lambda>(v, expand). Some v) ws in
      if list_ex snd ws then
        (let (copy, objv) =
               (if numWords > minObjs \<or> objectsNeeded > minObjs then (Some space, replicate objectsNeeded None)
                else (None, space @ replicate (minObjs - numWords) None))
         in case expand_words copy (map snd ws) numWords objv (int objectsNeeded - 1) 0 of
              (objv, objIdx, used) \<Rightarrow> take used (drop (nat (objIdx + 1)) objv))
      else space)"

section \<open>The loop over the commands\<close>

text \<open>The treatment of a code that is not \<open>TCL_OK\<close> at the outermost level.\<close>

definition eval_error :: "'w interp \<Rightarrow> bool \<Rightarrow> completion \<Rightarrow> string \<Rightarrow> 'w \<Rightarrow> completion \<times> string \<times> 'w" where
  "eval_error I allow code r w =
     (if topLevel I w \<and> code \<noteq> PANIC \<and> code \<noteq> NOFUEL then
        (let (code, w) = (if code = RETURN then updateReturnInfo I w else (code, w))
         in if code \<noteq> OK \<and> code \<noteq> ERROR \<and> \<not> allow
            then (case processUnexpectedResult I w code of (msg, w) \<Rightarrow> (ERROR, msg, w))
            else (code, r, w))
      else (code, r, w))"

text \<open>One command: its words and its evaluation.\<close>

definition eval_command ::
  "'w interp \<Rightarrow> 'w evaluator \<Rightarrow> string \<Rightarrow> Tcl_Parse \<Rightarrow> string \<Rightarrow> 'w \<Rightarrow> completion \<times> string \<times> 'w" where
  "eval_command I ev s P r w =
     (case subst_words I ev s (numWords P) (tokens P) [] 0 r w of
        (code, r, w, copy, needed) \<Rightarrow>
          if code \<noteq> OK then (code, r, w)
          else evalObjv I w r (map the (expanded_words copy needed)))"

fun EvalEx_loop ::
  "nat \<Rightarrow> 'w interp \<Rightarrow> 'w evaluator \<Rightarrow> bool \<Rightarrow> string \<Rightarrow> nat \<Rightarrow> string \<Rightarrow> 'w \<Rightarrow> completion \<times> string \<times> 'w" where
  "EvalEx_loop 0 I ev allow s p r w = (NOFUEL, r, w)"
| "EvalEx_loop (Suc k) I ev allow s p r w =
     (case Tcl_ParseCommand True s p (length s - p) False of
        (TCL_OK, P) \<Rightarrow>
          (let (code, r, w) = (if numWords P > 0 then eval_command I ev s P r w else (OK, r, w));
               next = commandStart P + commandSize P
           in if code \<noteq> OK then eval_error I allow code r w
              else if next < length s then EvalEx_loop k I ev allow s next r w
              else (OK, r, w))
      | (TCL_ERROR, P) \<Rightarrow> (ERROR, (case message P of None \<Rightarrow> [] | Some msg \<Rightarrow> msg), w)
      | (st, P) \<Rightarrow> (if st = NoFuel then NOFUEL else PANIC, r, w))"

primrec EvalEx :: "nat \<Rightarrow> 'w interp \<Rightarrow> 'w evaluator" where
  "EvalEx 0 I = (\<lambda>w script. (NOFUEL, [], w))"
| "EvalEx (Suc n) I =
     (\<lambda>w script. EvalEx_loop (length script + 1) I (EvalEx n I) (allowExceptions I w) script 0 [] w)"

definition TclEvalEx :: "'w interp \<Rightarrow> 'w evaluator" where
  "TclEvalEx I w script = EvalEx (length script + 1) I w script"


section \<open>Evaluation always ends with a code\<close>

lemma words_Cons: "words lo hi (Suc k) ts \<Longrightarrow>
    components (take (numComponents (hd ts)) (tl ts)) \<and> words lo hi k (drop (numComponents (hd ts)) (tl ts))
    \<and> (\<forall>t \<in> set (take (numComponents (hd ts)) (tl ts)). token_size t \<le> hi)"
  by (cases ts) (fastforce simp: word_ok_def toks_def tok_in_def)+

lemma subst_words_real:
  assumes "sane I" "sane_below n ev" "0 < n"
  shows "words lo hi k ts \<Longrightarrow> hi \<le> n \<Longrightarrow> real_code (fst (subst_words I ev s k ts objv needed r w))"
proof (induction k arbitrary: ts objv needed r w)
  case (Suc k)
  let ?cs = "take (numComponents (hd ts)) (tl ts)"
  note ok = words_Cons [OF Suc.prems(1)]
  obtain c r' w' left where r: "TclSubstTokens I ev s ?cs w = (c, r', w', left)" by (metis prod_cases4)
  have "real_code (fst (TclSubstTokens I ev s ?cs w))"
    unfolding TclSubstTokens_def using ok Suc.prems(2) by (intro SubstTokens_loop_real [OF assms]) auto
  then have "real_code c" using r by simp
  then show ?case using Suc.IH ok Suc.prems(2) r by (auto simp: Let_def split: sum.splits)
qed simp

lemma eval_command_real:
  assumes "sane I" "sane_below n ev" "0 < n" "words lo hi (numWords P) (tokens P)" "hi \<le> n"
  shows "real_code (fst (eval_command I ev s P r w))"
proof -
  obtain c r' w' copy needed where r: "subst_words I ev s (numWords P) (tokens P) [] 0 r w = (c, r', w', copy, needed)"
    by (metis prod_cases5)
  have "real_code c" using subst_words_real [OF assms(1-5), of s "[]" 0 r w] r by simp
  moreover have "real_code (fst (evalObjv I w' r' objv))" for objv using assms(1) by (simp add: sane_def)
  ultimately show ?thesis using r by (simp add: eval_command_def)
qed

lemma eval_error_real: "sane I \<Longrightarrow> real_code c \<Longrightarrow> real_code (fst (eval_error I allow c r w))"
proof -
  assume "sane I" "real_code c"
  moreover obtain c' w' where "updateReturnInfo I w = (c', w')" by force
  moreover have "real_code c'" using calculation by (metis sane_def fst_conv)
  ultimately show ?thesis by (auto simp: eval_error_def Let_def split: prod.splits)
qed

lemma no_words_empty: "numWords (snd (Tcl_ParseCommand True [] 0 0 False)) = 0"
  by code_simp

lemma EvalEx_loop_real:
  assumes "sane I" "sane_below (length s) ev"
  shows "p \<le> length s \<Longrightarrow> length s - p < k \<Longrightarrow> real_code (fst (EvalEx_loop k I ev allow s p r w))"
proof (induction k arbitrary: p r w)
  case (Suc k)
  let ?n = "length s - p"
  obtain st P where c: "Tcl_ParseCommand True s p ?n False = (st, P)" by force
  have b: "p + ?n \<le> length s" "chr_at s (p + ?n) \<noteq> CHR 0x22" using Suc.prems(1) by (simp_all add: chr_at_def)
  have post: "command_post (p + ?n) p (init_command s (p + ?n) p False True) (st, P)"
    using Tcl_ParseCommand_post(1) [OF b, of False True] c by simp
  then have st: "st = TCL_OK \<or> st = TCL_ERROR"
    and q: "st = TCL_OK \<Longrightarrow> p \<le> commandStart P + commandSize P"
      "st = TCL_OK \<Longrightarrow> p < length s \<Longrightarrow> p < commandStart P + commandSize P"
      "st = TCL_OK \<Longrightarrow> command_words (length s) P"
    using Suc.prems(1) by (auto simp: command_post_def intro: command_words_mono)
  show ?case
  proof (cases "st = TCL_OK")
    case False
    then show ?thesis using st c by simp
  next
    case True
    define next' where "next' = commandStart P + commandSize P"
    obtain c1 r1 w1 where e: "(if numWords P > 0 then eval_command I ev s P r w else (OK, r, w)) = (c1, r1, w1)"
      by (metis prod_cases3)
    have len: "end_of P = length s" using Tcl_ParseCommand_post(2) [OF b c] Suc.prems(1) by simp
    have "real_code c1"
    proof (cases "numWords P > 0")
      case True
      then have "0 < length s" using c no_words_empty Suc.prems(1) by auto
      then have "real_code (fst (eval_command I ev s P r w))"
        using q(3) [OF \<open>st = TCL_OK\<close>] len by (intro eval_command_real [OF assms]) (auto simp: ParserSafe.command_words_def)
      then show ?thesis using e True by simp
    qed (use e in simp)
    moreover have "EvalEx_loop (Suc k) I ev allow s p r w =
        (if c1 \<noteq> OK then eval_error I allow c1 r1 w1
         else if next' < length s then EvalEx_loop k I ev allow s next' r1 w1 else (OK, r1, w1))"
      using c True e by (simp add: next'_def)
    moreover have "real_code (fst (EvalEx_loop k I ev allow s next' r1 w1))" if "next' < length s"
      using Suc.IH [of next' r1 w1] that q True Suc.prems by (cases "p < length s") (auto simp: next'_def)
    ultimately show ?thesis using eval_error_real [OF assms(1)] by simp
  qed
qed simp

lemma EvalEx_real: "sane I \<Longrightarrow> sane_below n (EvalEx n I)"
proof (induction n)
  case (Suc n)
  then have IH: "sane_below n (EvalEx n I)" by simp
  show ?case unfolding sane_below_def
  proof (intro allI impI)
    fix w and script :: string
    assume "length script < Suc n"
    then have "sane_below (length script) (EvalEx n I)" using IH by (simp add: sane_below_def)
    then show "real_code (fst (EvalEx (Suc n) I w script))"
      using EvalEx_loop_real [OF Suc.prems, of script "EvalEx n I" 0] by (simp del: EvalEx_loop.simps)
  qed
qed (simp add: sane_below_def)

section \<open>The expansion of words\<close>

text \<open>The words that a substituted word stands for.\<close>

definition word_list :: "string \<times> bool \<Rightarrow> string list" where
  "word_list c = (if snd c then list_elements (fst c) else [fst c])"

lemma word_list_simps [simp]: "word_list (v, True) = list_elements v" "word_list (v, False) = [v]"
  by (simp_all add: word_list_def)

lemma write_entry:
  "0 \<le> i \<Longrightarrow> nat i < length objv \<Longrightarrow>
     drop (nat i) (objv[nat i := Some v]) = Some v # drop (nat (i + 1)) objv"
  by (simp add: drop_update_swap Cons_nth_drop_Suc [symmetric] nat_add_distrib)

lemma fill_elements_drop:
  assumes "fill_elements es (objv, i) = (objv', i')" "int (length es) \<le> i + 1" "i < int (length objv)"
  shows "i' = i - int (length es) \<and> length objv' = length objv
    \<and> drop (nat (i' + 1)) objv' = map Some (rev es) @ drop (nat (i + 1)) objv
    \<and> take (nat (i' + 1)) objv' = take (nat (i' + 1)) objv"
  using assms
proof (induction es arbitrary: objv i)
  case (Cons e es)
  let ?o = "objv[nat i := Some e]"
  have i: "0 \<le> i" "nat i < length objv" using Cons.prems(2,3) by auto
  have IH: "i' = i - 1 - int (length es) \<and> length objv' = length ?o
      \<and> drop (nat (i' + 1)) objv' = map Some (rev es) @ drop (nat (i - 1 + 1)) ?o
      \<and> take (nat (i' + 1)) objv' = take (nat (i' + 1)) ?o"
    using Cons.prems by (intro Cons.IH) auto
  show ?case
  proof (intro conjI)
    show "drop (nat (i' + 1)) objv' = map Some (rev (e # es)) @ drop (nat (i + 1)) objv"
      using conjunct1 [OF conjunct2 [OF conjunct2 [OF IH]]] write_entry [OF i, of e] by simp
    have "nat (i' + 1) \<le> nat i" using IH by simp
    then show "take (nat (i' + 1)) objv' = take (nat (i' + 1)) objv"
      using conjunct2 [OF conjunct2 [OF conjunct2 [OF IH]]] by (simp add: take_update_cancel)
  qed (use IH in simp_all)
qed simp

text \<open>How many entries a word needs.\<close>

definition entries :: "string \<times> bool \<Rightarrow> nat" where
  "entries c = (if snd c \<and> list_elements (fst c) = [] then 1 else length (word_list c))"

lemma entries_pos: "0 < entries c" "length (word_list c) \<le> entries c"
  by (simp_all add: entries_def word_list_def)

lemma entries_ge: "length ws \<le> sum_list (map entries ws)"
proof (induction ws)
  case (Cons c ws)
  then show ?case using entries_pos(1) [of c] by simp
qed simp

text \<open>The words that are still to be moved can be read from the array itself.\<close>

lemma entry_kept:
  "take n objv' = take n objv \<Longrightarrow> j < n \<Longrightarrow> n \<le> length objv \<Longrightarrow> objv' ! j = objv ! j"
  by (metis nth_take)

definition words_at :: "string option list option \<Rightarrow> (string \<times> bool) list \<Rightarrow> nat \<Rightarrow> string option list \<Rightarrow> bool" where
  "words_at copy ws k objv \<longleftrightarrow>
     (\<forall>j<k. (case copy of None \<Rightarrow> objv | Some c \<Rightarrow> c) ! j = Some (fst (ws ! j)))"

lemma words_at_kept:
  "words_at copy ws (Suc k) objv \<Longrightarrow> take n objv' = take n objv \<Longrightarrow> k \<le> n \<Longrightarrow> n \<le> length objv \<Longrightarrow>
     words_at copy ws k objv'"
proof (cases copy)
  case None
  assume a: "words_at copy ws (Suc k) objv" "take n objv' = take n objv" "k \<le> n" "n \<le> length objv"
  then have "objv' ! j = objv ! j" if "j < k" for j using entry_kept [OF a(2) _ a(4), of j] that by simp
  then show ?thesis using a(1) None by (simp add: words_at_def)
qed (simp add: words_at_def)

text \<open>Moving the word at index \<open>k\<close> leaves room for the words before it.\<close>

lemma expand_words_Suc:
  assumes "words_at copy ws (Suc k) objv" "k < length ws"
    and "int (sum_list (map entries (take (Suc k) ws))) \<le> i + 1" "i < int (length objv)"
  shows "\<exists>objv' i'. expand_words copy (map snd ws) (Suc k) objv i used
        = expand_words copy (map snd ws) k objv' i' (used + length (word_list (ws ! k)))
      \<and> i' = i - int (length (word_list (ws ! k))) \<and> length objv' = length objv
      \<and> drop (nat (i' + 1)) objv' = map Some (word_list (ws ! k)) @ drop (nat (i + 1)) objv
      \<and> words_at copy ws k objv' \<and> int (sum_list (map entries (take k ws))) \<le> i' + 1"
proof -
  obtain v x where c: "ws ! k = (v, x)" by force
  have v: "the ((case copy of None \<Rightarrow> objv | Some c \<Rightarrow> c) ! k) = v"
    using assms(1) c by (auto simp: words_at_def)
  have x: "map snd ws ! k = x" using assms(2) c by simp
  have sum: "sum_list (map entries (take (Suc k) ws)) = sum_list (map entries (take k ws)) + entries (v, x)"
    using assms(2) c by (simp add: take_Suc_conv_app_nth)
  have k: "k \<le> sum_list (map entries (take k ws))" using entries_ge [of "take k ws"] assms(2) by simp
  have len: "length (word_list (v, x)) \<le> entries (v, x)" "0 < entries (v, x)" using entries_pos by auto
  have step: "\<exists>objv' i'. fill_elements (rev (word_list (v, x))) (objv, i) = (objv', i')" by (cases "fill_elements (rev (word_list (v, x))) (objv, i)") simp
  then obtain o1 i1 where f: "fill_elements (rev (word_list (v, x))) (objv, i) = (o1, i1)" by blast
  have d: "i1 = i - int (length (word_list (v, x)))" "length o1 = length objv"
      "drop (nat (i1 + 1)) o1 = map Some (word_list (v, x)) @ drop (nat (i + 1)) objv"
      "take (nat (i1 + 1)) o1 = take (nat (i1 + 1)) objv"
    using fill_elements_drop [OF f] assms(3,4) len sum by auto
  have "expand_words copy (map snd ws) (Suc k) objv i used
      = expand_words copy (map snd ws) k o1 i1 (used + length (word_list (v, x)))"
    using f v x by (cases x) (auto simp: Let_def)
  moreover have "int (sum_list (map entries (take k ws))) \<le> i1 + 1" using d(1) assms(3) sum len by linarith
  moreover from this have "words_at copy ws k o1"
    using k d(1) assms(4) by (intro words_at_kept [OF assms(1) d(4)]) auto
  ultimately show ?thesis using c d by auto
qed

lemma expand_words_drop:
  assumes "expand_words copy (map snd ws) k objv i used = (objv', i', used')" "words_at copy ws k objv" "k \<le> length ws"
    "int (sum_list (map entries (take k ws))) \<le> i + 1" "i < int (length objv)"
  shows "used' = used + length (concat (map word_list (take k ws)))
    \<and> drop (nat (i' + 1)) objv' = map Some (concat (map word_list (take k ws))) @ drop (nat (i + 1)) objv"
  using assms
proof (induction k arbitrary: objv i used)
  case (Suc k)
  have k: "k < length ws" using Suc.prems(3) by simp
  from expand_words_Suc [OF Suc.prems(2) k Suc.prems(4,5), of used] obtain o1 i1 where
    e: "expand_words copy (map snd ws) k o1 i1 (used + length (word_list (ws ! k))) = (objv', i', used')"
    and i1: "i1 = i - int (length (word_list (ws ! k)))" "length o1 = length objv"
    and d: "drop (nat (i1 + 1)) o1 = map Some (word_list (ws ! k)) @ drop (nat (i + 1)) objv"
    and rest: "words_at copy ws k o1" "int (sum_list (map entries (take k ws))) \<le> i1 + 1"
    using Suc.prems(1) by auto
  have "i1 < int (length o1)" using i1 Suc.prems(5) by simp
  from Suc.IH [OF e rest(1) _ rest(2) this] d k show ?case by (simp add: take_Suc_conv_app_nth)
qed simp

lemma expanded_words_flat:
  assumes "needed = sum_list (map entries ws)"
  shows "expanded_words ws needed = map Some (concat (map word_list ws))"
proof (cases "list_ex snd ws")
  case False
  then have "\<forall>c \<in> set ws. word_list c = [fst c]" by (auto simp: list_ex_iff word_list_def)
  then have "concat (map word_list ws) = map fst ws" by (induction ws) auto
  then show ?thesis using False by (simp add: expanded_words_def case_prod_beta Let_def)
next
  case True
  let ?space = "map (\<lambda>(v, expand). Some v) ws"
  obtain copy objv where a: "(if length ws > minObjs \<or> needed > minObjs then (Some ?space, replicate needed None)
      else (None, ?space @ replicate (minObjs - length ws) None)) = (copy, objv)" by (metis surj_pair)
  then have at: "words_at copy ws (length ws) objv"
    by (auto simp: words_at_def nth_append case_prod_beta split: if_splits)
  have room: "int needed - 1 < int (length objv)" using a by (auto split: if_splits)
  obtain o1 i1 used where e: "expand_words copy (map snd ws) (length ws) objv (int needed - 1) 0 = (o1, i1, used)"
    by (metis prod_cases3)
  from expand_words_drop [OF e at order.refl _ room] assms
  have "used = length (concat (map word_list ws))"
    "drop (nat (i1 + 1)) o1 = map Some (concat (map word_list ws)) @ drop needed objv" by auto
  then show ?thesis using True a e by (simp add: expanded_words_def)
qed

lemma subst_words_entries:
  "subst_words I ev s k ts objv needed r w = (OK, r', w', copy, needed') \<Longrightarrow>
     \<exists>new. copy = objv @ new \<and> length new = k \<and> needed' = needed + sum_list (map entries new)"
proof (induction k arbitrary: ts objv needed r w)
  case (Suc k)
  let ?t = "hd ts"
  obtain c r1 w1 left where r: "TclSubstTokens I ev s (take (numComponents ?t) (tl ts)) w = (c, r1, w1, left)"
    by (metis prod_cases4)
  have c: "c = OK" using Suc.prems r by (auto simp: Let_def split: if_splits)
  show ?case
  proof (cases "token_type ?t = TCL_TOKEN_EXPAND_WORD")
    case False
    then have "subst_words I ev s k (drop (numComponents ?t) (tl ts)) (objv @ [(r1, False)]) (needed + 1) r1 w1
        = (OK, r', w', copy, needed')"
      using Suc.prems r c by (simp add: Let_def)
    from Suc.IH [OF this] show ?thesis by (force simp: entries_def word_list_def)
  next
    case True
    then obtain elems est where el: "SetListFromAny r1 = Inr (elems, est)"
      using Suc.prems r c by (auto simp: Let_def split: sum.splits)
    then have "subst_words I ev s k (drop (numComponents ?t) (tl ts)) (objv @ [(r1, True)])
        (needed + (if elems = [] then 1 else length elems)) r1 w1 = (OK, r', w', copy, needed')"
      using Suc.prems r c True by (simp add: Let_def)
    from Suc.IH [OF this] el show ?thesis by (force simp: entries_def word_list_def list_elements_def)
  qed
qed simp

section \<open>The properties\<close>

text \<open>
  C5. Evaluation of a script ends with a completion code: on every text, if the operations of the
  interpreter that it calls return codes, \<open>TclEvalEx\<close> does not panic in the parser or in
  \<open>TclSubstTokens\<close>, and the nesting of commands is within the fuel, which is the length of the
  script.
\<close>

theorem eval_ends:
  assumes "sane I"
  shows "fst (TclEvalEx I w script) \<noteq> PANIC \<and> fst (TclEvalEx I w script) \<noteq> NOFUEL"
  using EvalEx_real [OF assms, of "length script + 1"] by (simp add: TclEvalEx_def sane_below_def real_code_def)

text \<open>
  An interpreter that records the commands: each returns its words one after the other, and the
  value of a variable is its name behind the letters \<open>b\<close> and space.
\<close>

definition recorder :: "string list list interp" where
  "recorder =
     \<lparr>interpReady = (\<lambda>w. (OK, [], w)), leaveLevel = (\<lambda>w. w), getVar2 = (\<lambda>w name index. (Inr (''b '' @ name), w)),
      evalObjv = (\<lambda>w r objv. (OK, concat objv, w @ [objv])), topLevel = (\<lambda>w. True), allowExceptions = (\<lambda>w. False),
      updateReturnInfo = (\<lambda>w. (OK, w)), processUnexpectedResult = (\<lambda>w c. ([], w))\<rparr>"

theorem eval_ends_witness: "fst (TclEvalEx recorder [] ''set {a b} [c $d]'') \<notin> {PANIC, NOFUEL}"
proof -
  have "sane recorder" by (simp add: sane_def recorder_def)
  from eval_ends [OF this] show ?thesis by simp
qed

text \<open>
  C4. Expansion with \<open>{*}\<close>: if the words of a command are substituted without error, the command
  is run with exactly one argument for each ordinary word and the elements of the list for each
  word to expand, in their order.  In particular the array that is allocated from the count
  \<open>objectsNeeded\<close> and filled from its end holds them all, with no entry unset.
\<close>

theorem expanded_command:
  assumes "subst_words I ev s (numWords P) (tokens P) [] 0 r w = (OK, r', w', copy, needed)"
  shows "eval_command I ev s P r w = evalObjv I w' r' (concat (map word_list copy))
    \<and> expanded_words copy needed = map Some (concat (map word_list copy)) \<and> length copy = numWords P"
proof -
  from subst_words_entries [OF assms] have c: "length copy = numWords P" "needed = sum_list (map entries copy)" by auto
  show ?thesis using expanded_words_flat [OF c(2)] c(1) assms by (simp add: eval_command_def)
qed

theorem expanded_command_witness:
  "eval_command recorder (TclEvalEx recorder) ''a {*}$l''
     ((TclParseInit True 8)\<lparr>numWords := 2,
        tokens := [token TCL_TOKEN_SIMPLE_WORD 0 1 1, token TCL_TOKEN_TEXT 0 1 0,
                   token TCL_TOKEN_EXPAND_WORD 2 5 2, token TCL_TOKEN_VARIABLE 5 2 1, token TCL_TOKEN_TEXT 6 1 0]\<rparr>) [] []
     = (OK, ''abl'', [[''a'', ''b'', ''l'']])"
proof -
  let ?P = "(TclParseInit True 8)\<lparr>numWords := 2,
        tokens := [token TCL_TOKEN_SIMPLE_WORD 0 1 1, token TCL_TOKEN_TEXT 0 1 0,
                   token TCL_TOKEN_EXPAND_WORD 2 5 2, token TCL_TOKEN_VARIABLE 5 2 1, token TCL_TOKEN_TEXT 6 1 0]\<rparr>"
  have "subst_words recorder (TclEvalEx recorder) ''a {*}$l'' (numWords ?P) (tokens ?P) [] 0 [] []
      = (OK, ''b l'', [], [(''a'', False), (''b l'', True)], 3)"
    by code_simp
  from expanded_command [OF this] have "eval_command recorder (TclEvalEx recorder) ''a {*}$l'' ?P [] []
      = evalObjv recorder [] ''b l'' (concat (map word_list [(''a'', False), (''b l'', True)]))" by blast
  also have "concat (map word_list [(''a'', False), (''b l'', True)]) = [''a'', ''b'', ''l'']" by code_simp
  finally show ?thesis by (simp add: recorder_def)
qed

end
