(* ===== verification/ScriptList.thy ===== *)
theory ScriptList
  imports Eval
begin

text \<open>
  Lists as scripts: the text that \<open>Tcl_Merge\<close> (\<open>tclUtil.c\<close>) writes for a list of strings is read
  by the command parser (\<open>tclParse.c\<close>) as one command whose words are these strings, and
  evaluating it (\<open>tclBasic.c\<close>) runs that command without any substitution.
\<close>

section \<open>The two forms of a word\<close>

text \<open>
  A bare word of a command is more restricted than a bare element of a list: characters with a
  meaning for the parser stand behind a backslash.
\<close>

fun unquote :: "string \<Rightarrow> string option" where
  "unquote [] = Some []"
| "unquote (c # s) =
     (if c = CHR 0x5C then
        (case s of [] \<Rightarrow> None
         | d # s' \<Rightarrow> (case unescape d of None \<Rightarrow> None | Some u \<Rightarrow> map_option ((#) u) (unquote s')))
      else if special c \<or> c = CHR 0x00 then None
      else map_option ((#) c) (unquote s))"

definition word_text :: "string \<Rightarrow> string \<Rightarrow> bool" where
  "word_text t src \<longleftrightarrow>
     t = ''{'' @ src @ ''}'' \<and> braces src 0 = Some 0
     \<or> t \<noteq> [] \<and> chr_at t 0 \<noteq> CHR ''{'' \<and> chr_at t 0 \<noteq> CHR 0x22 \<and> unquote t = Some src"

lemma unquote_escape_char: "CHR 0x00 \<noteq> c \<Longrightarrow> unquote (escape_char conv c @ s) = map_option ((#) c) (unquote s)"
proof -
  assume nul: "CHR 0x00 \<noteq> c"
  consider "c \<in> set ''][$; '' \<or> c = CHR 0x5C \<or> c = CHR 0x22" | "c = CHR ''{''" | "c = CHR ''}''" | "c = CHR 0x0C" | "c = CHR 0x0A"
    | "c = CHR 0x0D" | "c = CHR 0x09" | "c = CHR 0x0B"
    | "c \<notin> set ''][$; {}'' \<and> c \<noteq> CHR 0x5C \<and> c \<noteq> CHR 0x22 \<and> \<not> TclIsSpaceProc c"
    by (simp add: TclIsSpaceProc_iff) blast
  then show ?thesis
    by cases (use nul in \<open>auto simp: escape_char_def unescape_def TclIsSpaceProc_iff special_def\<close>)
qed

lemma unquote_escaped: "CHR 0x00 \<notin> set s \<Longrightarrow> unquote (escaped conv s) = Some s"
  by (induction s) (simp_all add: unquote_escape_char)

lemma unquote_plain: "\<forall>c\<in>set s. \<not> special c \<Longrightarrow> CHR 0x00 \<notin> set s \<Longrightarrow> unquote s = Some s"
  by (induction s) auto

lemma escaped_no_hash: "s \<noteq> [] \<Longrightarrow> chr_at s 0 \<noteq> CHR ''#'' \<Longrightarrow> chr_at (escaped conv s) 0 \<noteq> CHR ''#''"
  by (cases s) (auto simp: escape_char_def)

lemma convert_word_text:
  assumes nul: "CHR 0x00 \<notin> set src" and "src \<noteq> []" and "mode_ok src f" and "cf \<in> caller_flags"
  shows "word_text (TclConvertElement src None (f OR cf)) src
    \<and> (hash_room src (f OR cf) \<or> chr_at src 0 \<noteq> CHR ''#'' \<longrightarrow> chr_at (TclConvertElement src None (f OR cf)) 0 \<noteq> CHR ''#'')"
proof -
  have fits: "fits src None" using nul by (simp add: fits_def)
  have esc: "word_text (escaped conv src) src" if "conv = CONVERT_ESCAPE \<or> chr_at src 0 \<noteq> CHR ''{''" for conv
    using escaped_start [OF assms(2) that] unquote_escaped [OF nul] by (simp add: word_text_def)
  have hash: "word_text ([CHR 0x5C, CHR ''#''] @ escaped conv (tl src)) src" if h: "hash_room src (f OR cf)" for conv
  proof -
    obtain t where "src = CHR ''#'' # t" using assms(2) h by (cases src) (auto simp: hash_room_def)
    then show ?thesis using unquote_escaped [of t] nul by (simp add: word_text_def unescape_def)
  qed
  have none: "word_text src src" if "f = CONVERT_NONE"
    using that assms(2,3) unquote_plain nul by (auto simp: mode_ok_def word_text_def flag_defs)
  have brace: "word_text (''{'' @ src @ ''}'') src" if "f \<noteq> CONVERT_ESCAPE"
    using that assms(3) by (simp add: mode_ok_def word_text_def)
  have conv: "conversion_of (f OR cf) = CONVERT_ESCAPE
      \<or> f \<noteq> CONVERT_ESCAPE \<and> conversion_of (f OR cf) = f"
    using conversion_of_or [OF assms(4)] assms(3) by (auto simp: mode_ok_def flag_defs)
  have "word_text (TclConvertElement src None (f OR cf)) src"
    unfolding TclConvertElement_text [OF fits assms(2)] Let_def
    using conv esc hash none brace assms(3) by (auto simp: mode_ok_def flag_defs)
  moreover have "chr_at (TclConvertElement src None (f OR cf)) 0 \<noteq> CHR ''#''"
    if "hash_room src (f OR cf) \<or> chr_at src 0 \<noteq> CHR ''#''"
    unfolding TclConvertElement_text [OF fits assms(2)] Let_def
    using that escaped_no_hash [OF assms(2)] by (auto simp: hash_room_def)
  ultimately show ?thesis by blast
qed

lemma merge_format_word:
  assumes "CHR 0x00 \<notin> set e"
  shows "word_text (merge_format i e) e \<and> (i = 0 \<longrightarrow> chr_at (merge_format i e) 0 \<noteq> CHR ''#'')"
proof (cases "e = []")
  case True
  have "fits [] None" by (simp add: fits_def)
  from TclConvertElement_Nil [OF this] True show ?thesis
    by (simp add: merge_format_def word_text_def)
next
  case False
  note mode = scan_flag_mode [OF assms False, of "hash_flag i"]
  have "hash_room e (scan_flag e (hash_flag i) OR hash_flag i) \<or> chr_at e 0 \<noteq> CHR ''#''" if "i = 0"
    using mode that by (auto simp: hash_room_def hash_flag_def mode_ok_def flag_defs)
  with convert_word_text [OF assms False mode hash_flag_caller] show ?thesis by (auto simp: merge_format_def)
qed

section \<open>Parsing a bare word\<close>

abbreviation word_stop :: int where
  "word_stop \<equiv> TYPE_SPACE OR TYPE_COMMAND_END"

definition in_word :: "char \<Rightarrow> bool" where
  "in_word c \<longleftrightarrow> \<not> special c \<and> c \<noteq> CHR 0x00"

lemma in_word_type: "in_word c \<Longrightarrow> CHAR_TYPE c AND (word_stop OR TYPE_SUBS) = 0"
  by (auto simp: in_word_def special_def TclIsSpaceProc_iff CHAR_TYPE_def TYPE_defs)

lemma in_word_parts: "in_word c \<Longrightarrow> CHAR_TYPE c AND word_stop = 0 \<and> CHAR_TYPE c AND TYPE_SUBS = 0"
  by (auto simp: in_word_def special_def TclIsSpaceProc_iff CHAR_TYPE_def TYPE_defs)

lemma backslash_type: "CHAR_TYPE (CHR 0x5C) AND word_stop = 0" "CHAR_TYPE (CHR 0x5C) AND TYPE_SUBS \<noteq> 0"
  "CHAR_TYPE (CHR 0x5C) AND (word_stop OR TYPE_SUBS) \<noteq> 0"
  by (simp_all add: CHAR_TYPE_def TYPE_defs)

lemma blank_type: "CHAR_TYPE (CHR '' '') AND word_stop \<noteq> 0" "CHAR_TYPE (CHR '' '') AND (word_stop OR TYPE_SUBS) \<noteq> 0"
  by (simp_all add: CHAR_TYPE_def TYPE_defs)

lemma scan_text_run:
  "drop p s = c # run @ rest \<Longrightarrow> \<forall>d\<in>set run. in_word d \<Longrightarrow>
     rest = [] \<or> CHAR_TYPE (hd rest) AND (word_stop OR TYPE_SUBS) \<noteq> 0 \<Longrightarrow>
     scan_text s (length s) word_stop p = p + 1 + length run"
proof (induction run arbitrary: p c)
  case Nil
  note d = drop_Cons_at [OF Nil.prems(1)]
  show ?case
  proof (cases rest)
    case Nil
    then have "length s \<le> p + 1" using d by simp
    then show ?thesis using d by (subst scan_text.simps) auto
  next
    case (Cons r rs)
    then have "p + 1 < length s" "chr_at s (p + 1) = r" using d drop_Cons_at [of "p + 1" s r rs] by auto
    then show ?thesis using Nil.prems(3) Cons by (subst scan_text.simps) simp
  qed
next
  case (Cons d run)
  have d: "drop (p + 1) s = d # run @ rest" using drop_Cons_at [OF Cons.prems(1)] by simp
  then have "p + 1 < length s" "chr_at s (p + 1) = d" using drop_Cons_at by blast+
  then have "scan_text s (length s) word_stop p = scan_text s (length s) word_stop (p + 1)"
    using Cons.prems(2) in_word_type [of d] by (subst scan_text.simps) auto
  then show ?case using Cons.IH [OF d] Cons.prems(2,3) by simp
qed

lemma drop_parts: "drop p s = t @ rest \<Longrightarrow> drop (p + length t) s = rest"
  by (metis add.commute append_eq_conv_conj drop_drop)

text \<open>The run of characters at the start of a bare word.\<close>

lemma unquote_run:
  assumes "unquote t = Some src"
  obtains run t' src' where "t = run @ t'" "src = run @ src'" "unquote t' = Some src'" "\<forall>c\<in>set run. in_word c"
    "t' = [] \<or> hd t' = CHR 0x5C"
  using assms
proof (induction t arbitrary: src thesis)
  case Nil
  show ?case by (rule Nil(1) [of "[]" "[]" "[]"]) (use Nil(2) in auto)
next
  case (Cons c t)
  show ?case
  proof (cases "c = CHR 0x5C")
    case True
    show ?thesis by (rule Cons.prems(1) [of "[]" "c # t" src]) (use True Cons.prems(2) in auto)
  next
    case False
    then obtain u where u: "unquote t = Some u" "src = c # u" "in_word c"
      using Cons.prems(2) by (auto simp: in_word_def split: if_splits)
    show ?thesis
    proof (rule Cons.IH [OF _ u(1)])
      fix run t' src'
      assume a: "t = run @ t'" "u = run @ src'" "unquote t' = Some src'" "\<forall>c\<in>set run. in_word c"
        "t' = [] \<or> hd t' = CHR 0x5C"
      show thesis by (rule Cons.prems(1) [of "c # run" t' src']) (use a u in auto)
    qed
  qed
qed

lemma subst_all: "TCL_SUBST_ALL AND TCL_SUBST_BACKSLASHES \<noteq> 0"
  by (simp add: SUBST_defs)

lemma ParseTokens_bare:
  assumes "unquote t = Some src" "drop p s = t @ rest" "p \<le> length s" "rest = [] \<or> hd rest = CHR '' ''"
    and "length t < n" "orig \<le> length (tokens P)" "t \<noteq> [] \<or> orig < length (tokens P)"
  shows "\<exists>ts. ParseTokens_loop n s (length s) word_stop TCL_SUBST_ALL orig p P
      = (TCL_OK, P\<lparr>tokens := tokens P @ ts, term_at := p + length t\<rparr>)
    \<and> known_pieces s ts = Some src \<and> (t \<noteq> [] \<longrightarrow> ts \<noteq> [])"
  using assms
proof (induction "length t" arbitrary: t src p n P rule: less_induct)
  case less
  obtain k where n: "n = Suc k" using less.prems(5) by (cases n) auto
  let ?loop = "ParseTokens_loop k s (length s) word_stop TCL_SUBST_ALL orig"
  show ?case
  proof (cases "t = []")
    case True
    have "length s \<le> p \<or> CHAR_TYPE (chr_at s p) AND word_stop \<noteq> 0"
      using less.prems(2-4) True drop_Cons_at [of p s "hd rest" "tl rest"] blank_type by (cases rest) auto
    then show ?thesis using less.prems(1,7) True n
      by (auto simp: ParseTokens_step_def Let_def end_tokens_def intro!: exI [of _ "[]"])
  next
    case False
    obtain run t' src' where t: "t = run @ t'" "src = run @ src'" "unquote t' = Some src'" "\<forall>c\<in>set run. in_word c"
      "t' = [] \<or> hd t' = CHR 0x5C" using unquote_run [OF less.prems(1)] by blast
    show ?thesis
    proof (cases run)
      case (Cons c r)
      let ?q = "p + length run" and ?T = "token TCL_TOKEN_TEXT p (length run) 0"
      have d: "drop p s = c # r @ t' @ rest" using less.prems(2) t(1) Cons by simp
      note at = drop_Cons_at [OF d]
      have "t' @ rest = [] \<or> CHAR_TYPE (hd (t' @ rest)) AND (word_stop OR TYPE_SUBS) \<noteq> 0"
        using t(5) less.prems(4) backslash_type blank_type by (cases t'; cases rest) auto
      then have q: "scan_text s (length s) word_stop p = ?q" using scan_text_run [OF d] t(4) Cons by auto
      have c: "CHAR_TYPE c AND word_stop = 0" "CHAR_TYPE c AND TYPE_SUBS = 0" using t(4) Cons in_word_parts by auto
      have step: "ParseTokens_loop n s (length s) word_stop TCL_SUBST_ALL orig p P = ?loop ?q (add_token ?T P)"
        using at c q n by (simp add: ParseTokens_step_def Let_def)
      have rest': "drop ?q s = t' @ rest" using less.prems(2) t(1) by (intro drop_parts) simp
      have ql: "?q \<le> length s" using arg_cong [OF less.prems(2), of length] t(1) less.prems(3) by simp
      then have "\<exists>ts. ?loop ?q (add_token ?T P)
          = (TCL_OK, (add_token ?T P)\<lparr>tokens := tokens (add_token ?T P) @ ts, term_at := ?q + length t'\<rparr>)
        \<and> known_pieces s ts = Some src' \<and> (t' \<noteq> [] \<longrightarrow> ts \<noteq> [])"
        using less.prems(4-6) t(1,3) Cons n rest' by (intro less.hyps) (auto simp: add_token_def)
      then obtain ts where ts: "?loop ?q (add_token ?T P)
          = (TCL_OK, (add_token ?T P)\<lparr>tokens := tokens (add_token ?T P) @ ts, term_at := ?q + length t'\<rparr>)"
        "known_pieces s ts = Some src'" by blast
      have "token_text s ?T = run" using less.prems(2) t(1) by (simp add: token_text_def token_def)
      then have "known_pieces s (?T # ts) = Some src" using ts(2) t(2) by (simp add: token_def)
      moreover have "ParseTokens_loop n s (length s) word_stop TCL_SUBST_ALL orig p P
          = (TCL_OK, P\<lparr>tokens := tokens P @ ?T # ts, term_at := p + length t\<rparr>)"
        using step ts(1) t(1) by (simp add: add_token_def)
      ultimately show ?thesis by blast
    next
      case Nil
      then obtain d u where u: "t = CHR 0x5C # d # u" using False t(1,3,5) by (cases t'; cases "tl t'") auto
      then obtain v src'' where v: "unescape d = Some v" "unquote u = Some src''" "src = v # src''"
        using less.prems(1) by (auto split: option.splits)
      let ?T = "token TCL_TOKEN_BS p 2 0"
      have d: "drop p s = CHR 0x5C # d # u @ rest" using less.prems(2) u by simp
      note at = drop_Cons_at [OF d]
      have d1: "drop (p + 1) s = d # u @ rest" using at by simp
      note at1 = drop_Cons_at [OF d1]
      have two: "2 \<le> length s - p" using conjunct1 [OF at1] by linarith
      have b: "TclParseBackslash (drop p s) (length s - p) = ([v], 2)" "TclParseBackslash (drop p s) 2 = ([v], 2)"
        unfolding d using two by (intro TclParseBackslash_unescape [OF v(1)]; simp)+
      have nl: "d \<noteq> CHR 0x0A" using v(1) by (auto simp: unescape_def)
      have step: "ParseTokens_loop n s (length s) word_stop TCL_SUBST_ALL orig p P = ?loop (p + 2) (add_token ?T P)"
        using at at1 b nl n backslash_type subst_all by (simp add: ParseTokens_step_def Let_def)
      have "drop (p + 2) s = u @ rest" using at1 by simp
      then have "\<exists>ts. ?loop (p + 2) (add_token ?T P)
          = (TCL_OK, (add_token ?T P)\<lparr>tokens := tokens (add_token ?T P) @ ts, term_at := p + 2 + length u\<rparr>)
        \<and> known_pieces s ts = Some src'' \<and> (u \<noteq> [] \<longrightarrow> ts \<noteq> [])"
        using less.prems(4-6) u v n at1 by (intro less.hyps) (auto simp: add_token_def)
      then obtain ts where ts: "?loop (p + 2) (add_token ?T P)
          = (TCL_OK, (add_token ?T P)\<lparr>tokens := tokens (add_token ?T P) @ ts, term_at := p + 2 + length u\<rparr>)"
        "known_pieces s ts = Some src''" by blast
      have "known_pieces s (?T # ts) = Some src" using ts(2) v(3) b(2) by (simp add: token_def)
      moreover have "ParseTokens_loop n s (length s) word_stop TCL_SUBST_ALL orig p P
          = (TCL_OK, P\<lparr>tokens := tokens P @ ?T # ts, term_at := p + length t\<rparr>)"
        using step ts(1) u by (simp add: add_token_def)
      ultimately show ?thesis by blast
    qed
  qed
qed


section \<open>Parsing a word in braces\<close>

lemma brace_skip_stop:
  "q + 1 < e \<Longrightarrow> CHAR_TYPE (chr_at s (q + 1)) \<noteq> TYPE_NORMAL \<Longrightarrow> brace_skip s e q = q + 1"
  by (subst brace_skip.simps) simp

lemma braces_skip_one:
  assumes "q + 1 < e" "CHAR_TYPE (chr_at s (q + 1)) = TYPE_NORMAL"
  shows "ParseBraces_loop s e start si q level ts P = ParseBraces_loop s e start si (q + 1) level ts P"
proof -
  have "brace_skip s e q = brace_skip s e (q + 1)" using assms by (subst brace_skip.simps) simp
  moreover have "(e \<le> q) = False" "(e \<le> q + 1) = False" using assms(1) by auto
  ultimately show ?thesis unfolding ParseBraces_loop.simps [of s e start si q] ParseBraces_loop.simps [of s e start si "q + 1"]
    by (simp only: if_False)
qed

text \<open>The loop one character at a time.\<close>

lemma braces_other:
  assumes "q + 1 < e" "\<not> brace_or_backslash (chr_at s (q + 1))"
  shows "ParseBraces_loop s e start si q level ts P = ParseBraces_loop s e start si (q + 1) level ts P"
proof (cases "CHAR_TYPE (chr_at s (q + 1)) = TYPE_NORMAL")
  case True
  then show ?thesis using braces_skip_one assms(1) by blast
next
  case False
  from brace_skip_stop [OF assms(1) False] show ?thesis
    using assms by (subst ParseBraces_loop.simps) (simp add: brace_or_backslash_def)
qed

lemma brace_types: "CHAR_TYPE (CHR ''{'') \<noteq> TYPE_NORMAL" "CHAR_TYPE (CHR ''}'') \<noteq> TYPE_NORMAL" "CHAR_TYPE (CHR 0x5C) \<noteq> TYPE_NORMAL"
  by (simp_all add: CHAR_TYPE_def TYPE_defs)

lemma braces_open:
  assumes "q + 1 < e" "chr_at s (q + 1) = CHR ''{''"
  shows "ParseBraces_loop s e start si q level ts P = ParseBraces_loop s e start si (q + 1) (level + 1) ts P"
  using brace_skip_stop [OF assms(1), of s] assms brace_types by (subst ParseBraces_loop.simps) simp

lemma braces_close:
  assumes "q + 1 < e" "chr_at s (q + 1) = CHR ''}''"
  shows "ParseBraces_loop s e start si q level ts P =
     (if level = 1 then
        (TCL_OK, q + 2,
         if q + 1 \<noteq> ts \<or> length (tokens P) = si then add_token (token TCL_TOKEN_TEXT ts (q + 1 - ts) 0) P else P)
      else ParseBraces_loop s e start si (q + 1) (level - 1) ts P)"
  using brace_skip_stop [OF assms(1), of s] assms brace_types by (subst ParseBraces_loop.simps) simp

lemma braces_backslash:
  assumes "q + 1 < e" "chr_at s (q + 1) = CHR 0x5C" "chr_at s (q + 2) \<noteq> CHR 0x0A"
  shows "ParseBraces_loop s e start si q level ts P =
     ParseBraces_loop s e start si (q + snd (TclParseBackslash (drop (q + 1) s) (e - (q + 1)))) level ts P"
  using brace_skip_stop [OF assms(1), of s] assms brace_types by (subst ParseBraces_loop.simps) (simp add: Let_def)

lemma ParseBraces_loop_text:
  assumes "braces u n = Some 0" "drop (q + 1) s = u @ CHR ''}'' # rest" "length (tokens P) = si"
  shows "ParseBraces_loop s (length s) start si q (n + 1) ts P
    = (TCL_OK, q + length u + 2, add_token (token TCL_TOKEN_TEXT ts (q + 1 + length u - ts) 0) P)"
  using assms
proof (induction "length u" arbitrary: u n q rule: less_induct)
  case less
  show ?case
  proof (cases u)
    case Nil
    then have "q + 1 < length s" "chr_at s (q + 1) = CHR ''}''" "n = 0"
      using less.prems drop_Cons_at [of "q + 1" s] by auto
    then show ?thesis using braces_close less.prems(3) Nil by simp
  next
    case (Cons c t)
    have d: "drop (q + 1) s = c # t @ CHR ''}'' # rest" using less.prems(2) Cons by simp
    note at = drop_Cons_at [OF d]
    have d2: "drop (q + 1 + 1) s = t @ CHR ''}'' # rest" using at by simp
    consider "c = CHR ''{''" | "c = CHR ''}''" | "c = CHR 0x5C" | "\<not> brace_or_backslash c"
      by (auto simp: brace_or_backslash_def)
    then show ?thesis
    proof cases
      case 1
      then have "ParseBraces_loop s (length s) start si (q + 1) (n + 1 + 1) ts P
          = (TCL_OK, q + 1 + length t + 2, add_token (token TCL_TOKEN_TEXT ts (q + 1 + 1 + length t - ts) 0) P)"
        using less.prems(1,3) Cons d2 by (intro less.hyps) auto
      then show ?thesis using braces_open [of q "length s" s] at 1 Cons by simp
    next
      case 2
      then obtain m where n: "n = Suc m" "braces t m = Some 0" using less.prems(1) Cons by (cases n) auto
      have "ParseBraces_loop s (length s) start si (q + 1) (m + 1) ts P
          = (TCL_OK, q + 1 + length t + 2, add_token (token TCL_TOKEN_TEXT ts (q + 1 + 1 + length t - ts) 0) P)"
        using n(2) less.prems(3) Cons d2 by (intro less.hyps) auto
      then show ?thesis using braces_close [of q "length s" s] at 2 Cons n(1) by simp
    next
      case 4
      then have "ParseBraces_loop s (length s) start si (q + 1) (n + 1) ts P
          = (TCL_OK, q + 1 + length t + 2, add_token (token TCL_TOKEN_TEXT ts (q + 1 + 1 + length t - ts) 0) P)"
        using less.prems(1,3) Cons d2 by (intro less.hyps) (auto simp: brace_or_backslash_def)
      then show ?thesis using braces_other [of q "length s" s] at 4 Cons by simp
    next
      case 3
      define k where "k = snd (TclParseBackslash (CHR 0x5C # t @ CHR ''}'' # rest) (length (CHR 0x5C # t @ CHR ''}'' # rest)))"
      have b: "braces (CHR 0x5C # t) n = Some 0" using less.prems(1) Cons 3 by simp
      note k = backslash_in_braces [OF b k_def]
      have "length s - (q + 1) = length (CHR 0x5C # t @ CHR ''}'' # rest)" using arg_cong [OF d, of length] 3 by simp
      then have kk: "snd (TclParseBackslash (drop (q + 1) s) (length s - (q + 1))) = k" using d 3 by (simp add: k_def)
      obtain a t' where t: "t = a # t'" "a \<noteq> CHR 0x0A" using b by (cases t) (auto split: if_splits)
      have "drop (q + 2) s = a # t' @ CHR ''}'' # rest" using d2 t by simp
      then have nl: "chr_at s (q + 2) \<noteq> CHR 0x0A" using drop_Cons_at [of "q + 2" s a] t(2) by simp
      obtain j where j: "k = Suc j" using k(1) by (cases k) auto
      have "drop (q + k + 1) s = drop k (drop (q + 1) s)" by (simp add: ac_simps)
      also have "\<dots> = drop (k - 1) t @ CHR ''}'' # rest" using d j k(2) by simp
      finally have "ParseBraces_loop s (length s) start si (q + k) (n + 1) ts P
          = (TCL_OK, q + k + length (drop (k - 1) t) + 2, add_token (token TCL_TOKEN_TEXT ts (q + k + 1 + length (drop (k - 1) t) - ts) 0) P)"
        using k less.prems(3) Cons by (intro less.hyps) auto
      moreover have l: "q + k + length (drop (k - 1) t) = q + length u"
        "q + k + 1 + length (drop (k - 1) t) = q + 1 + length u" using j k(2) Cons by simp_all
      ultimately have "ParseBraces_loop s (length s) start si (q + k) (n + 1) ts P
          = (TCL_OK, q + length u + 2, add_token (token TCL_TOKEN_TEXT ts (q + 1 + length u - ts) 0) P)"
        by (simp only: l)
      moreover have "ParseBraces_loop s (length s) start si q (n + 1) ts P = ParseBraces_loop s (length s) start si (q + k) (n + 1) ts P"
        using braces_backslash [of q "length s" s] at 3 nl kk by simp
      ultimately show ?thesis by simp
    qed
  qed
qed

lemma ParseBraces_text:
  assumes "braces src 0 = Some 0" "drop p s = ''{'' @ src @ ''}'' @ rest"
  shows "ParseBraces s (length s) p P
    = (TCL_OK, p + length src + 2, add_token (token TCL_TOKEN_TEXT (p + 1) (length src) 0) P)"
proof -
  have "drop p s = CHR ''{'' # src @ CHR ''}'' # rest" using assms(2) by simp
  note at = drop_Cons_at [OF this]
  then have "drop (p + 1) s = src @ CHR ''}'' # rest" by simp
  from ParseBraces_loop_text [where P = P, OF assms(1) this refl] at show ?thesis by (simp add: ParseBraces_def)
qed


section \<open>The words of the command\<close>

text \<open>The start of a word: the parser finds no white space, no comment and no end of the command there.\<close>

definition word_start :: "string \<Rightarrow> bool" where
  "word_start u \<longleftrightarrow> u \<noteq> [] \<and> CHAR_TYPE (hd u) AND TYPE_SPACE = 0 \<and> CHAR_TYPE (hd u) AND TYPE_COMMAND_END = 0
     \<and> (hd u = CHR 0x5C \<longrightarrow> tl u \<noteq> [] \<and> chr_at u 1 \<noteq> CHR 0x0A)"

lemma word_start_blank: "\<not> word_start (CHR '' '' # u)"
  by (simp add: word_start_def CHAR_TYPE_def TYPE_defs)

lemma word_text_start: "word_text t src \<Longrightarrow> word_start (t @ rest)"
proof -
  assume a: "word_text t src"
  then obtain c r where t: "t = c # r" by (cases t) (auto simp: word_text_def)
  have "word_start (t @ rest)" if "c = CHR ''{''" using that t by (simp add: word_start_def CHAR_TYPE_def TYPE_defs)
  moreover have "word_start (t @ rest)" if u: "unquote t = Some src"
  proof (cases "c = CHR 0x5C")
    case True
    then obtain d r' where "r = d # r'" "unescape d \<noteq> None" using u t by (cases r) (auto split: option.splits)
    moreover from this have "d \<noteq> CHR 0x0A" by (auto simp: unescape_def)
    ultimately show ?thesis using t True by (simp add: word_start_def CHAR_TYPE_def TYPE_defs)
  next
    case False
    then have "in_word c" using u t by (auto simp: in_word_def split: if_splits)
    then show ?thesis using False t by (auto simp: word_start_def in_word_def special_def TclIsSpaceProc_iff CHAR_TYPE_def TYPE_defs)
  qed
  ultimately show ?thesis using a t by (auto simp: word_text_def)
qed

lemma of_char_eqs: "(of_char c :: int) = 10 \<longleftrightarrow> c = CHR 0x0A" "(of_char c :: int) = 92 \<longleftrightarrow> c = CHR 0x5C"
proof -
  have "(of_char (CHR 0x0A) :: int) = 10" "(of_char (CHR 0x5C) :: int) = 92" by simp_all
  then show "(of_char c :: int) = 10 \<longleftrightarrow> c = CHR 0x0A" "(of_char c :: int) = 92 \<longleftrightarrow> c = CHR 0x5C"
    by (metis of_char_eq_iff)+
qed

lemma ParseWhiteSpace_start:
  assumes "word_start u"
  shows "ParseWhiteSpace u (length u) = (0, CHAR_TYPE (hd u), False)"
    and "ParseWhiteSpace (CHR '' '' # u) (Suc (length u)) = (1, CHAR_TYPE (hd u), False)"
proof -
  obtain c r where u: "u = c # r" using assms by (cases u) (auto simp: word_start_def)
  have c: "CHAR_TYPE c AND TYPE_SPACE = 0" "c = CHR 0x5C \<Longrightarrow> r \<noteq> [] \<and> rd (c # r) 1 \<noteq> 10"
    using assms u by (auto simp: word_start_def neq_Nil_conv of_char_eqs)
  have sp: "skip_spaces u (length u) ty k = (u, length u, CHAR_TYPE c, k)" for ty k
    using u c(1) by simp
  have blank: "CHAR_TYPE (CHR '' '') AND TYPE_SPACE \<noteq> 0" by (simp add: CHAR_TYPE_def TYPE_defs)
  have ch: "char_of (32 :: int) = CHR '' ''" by code_simp
  have sp2: "skip_spaces (CHR '' '' # u) (Suc (length u)) ty k = (u, length u, CHAR_TYPE c, k + 1)" for ty k
    using sp [of "CHAR_TYPE (CHR '' '')" "k + 1"] blank ch by (simp add: Let_def)
  have bs: "rd (c # r) 0 = 92 \<Longrightarrow> c = CHR 0x5C"
    by (simp add: of_char_eqs)
  have stop: "rd u 0 \<noteq> 92 \<or> length u - 1 \<noteq> 0 \<and> rd u 1 \<noteq> 10"
  proof (cases "c = CHR 0x5C")
    case True
    then obtain d r' where "r = d # r'" "rd (c # r) 1 \<noteq> 10" using c(2) by (cases r) auto
    then show ?thesis using u by simp
  next
    case False
    then show ?thesis using u bs by auto
  qed
  have hd: "hd u = c" using u by simp
  show "ParseWhiteSpace u (length u) = (0, CHAR_TYPE (hd u), False)"
    unfolding ParseWhiteSpace_def ParseWhiteSpace_loop.simps [of u] sp Let_def prod.case hd
    using stop by (auto simp del: One_nat_def)
  show "ParseWhiteSpace (CHR '' '' # u) (Suc (length u)) = (1, CHAR_TYPE (hd u), False)"
    unfolding ParseWhiteSpace_def ParseWhiteSpace_loop.simps [of "CHR '' '' # u"] sp2 Let_def prod.case hd
    using stop by (auto simp del: One_nat_def)
qed

text \<open>Tokens of words without substitutions, and the values of the words.\<close>

fun word_tokens :: "string \<Rightarrow> string list \<Rightarrow> Tcl_Token list \<Rightarrow> bool" where
  "word_tokens s [] ts \<longleftrightarrow> ts = []"
| "word_tokens s (v # vs) ts \<longleftrightarrow>
     (\<exists>t cs us. ts = t # cs @ us \<and> token_type t \<noteq> TCL_TOKEN_EXPAND_WORD \<and> numComponents t = length cs \<and> cs \<noteq> []
        \<and> known_pieces s cs = Some v \<and> word_tokens s vs us)"

lemma subst_words_known:
  "word_tokens s vs ts \<Longrightarrow>
     subst_words I ev s (length vs) ts objv needed r w
       = (OK, last (r # vs), w, objv @ map (\<lambda>v. (v, False)) vs, needed + length vs)"
proof (induction vs arbitrary: ts objv needed r)
  case (Cons v vs)
  then obtain t cs us where ts: "ts = t # cs @ us" "token_type t \<noteq> TCL_TOKEN_EXPAND_WORD" "numComponents t = length cs"
    "cs \<noteq> []" "known_pieces s cs = Some v" "word_tokens s vs us" by auto
  have "TclSubstTokens I ev s cs w = (OK, v, w, 0)"
    using known_pieces_subst [OF ts(5), of I ev None w] ts(4) by (simp add: TclSubstTokens_def final_result_def add_piece_def)
  then show ?case using ts Cons.IH [OF ts(6)] by (simp add: Let_def)
qed simp

lemma eval_command_known:
  assumes "word_tokens s vs (tokens P)" "numWords P = length vs"
  shows "eval_command I ev s P r w = evalObjv I w (last (r # vs)) vs"
proof -
  have "expanded_words (map (\<lambda>v. (v, False)) vs) (length vs) = map Some vs"
    by (simp add: expanded_words_def list_ex_iff Let_def)
  then show ?thesis using subst_words_known [OF assms(1), of I ev "[]" 0 r w] assms(2)
    by (simp add: eval_command_def comp_def)
qed


section \<open>Parsing the whole command\<close>

lemma parse_word_text:
  assumes w: "word_text t src" and d: "drop p s = t @ rest" and rest: "rest = [] \<or> (\<exists>u. rest = CHR '' '' # u \<and> word_start u)"
    and p: "p \<le> length s" and n: "length t < n"
  shows "\<exists>ts P'. parse_word (all_tokens (ParseTokens_loop n) s (length s)) s (length s) TYPE_COMMAND_END p P
      = (TCL_OK, p + length t, False, P')
    \<and> tokens P' = tokens P @ ts \<and> ts \<noteq> [] \<and> known_pieces s ts = Some src
    \<and> numWords P' = numWords P \<and> commandStart P' = commandStart P"
proof -
  let ?pt = "all_tokens (ParseTokens_loop n) s (length s)"
  have ne: "t \<noteq> []" using w by (auto simp: word_text_def)
  have first: "chr_at s p = chr_at t 0" using d ne drop_Cons_at [of p s "hd t" "tl t @ rest"] by (cases t) auto
  show ?thesis
  proof (cases "t = ''{'' @ src @ ''}'' \<and> braces src 0 = Some 0")
    case True
    let ?T = "token TCL_TOKEN_TEXT (p + 1) (length src) 0"
    have d': "drop p s = ''{'' @ src @ ''}'' @ rest" using d True by simp
    have part: "parse_part ?pt s (length s) TYPE_COMMAND_END p P = (TCL_OK, p + length t, add_token ?T P)"
      using ParseBraces_text [OF _ d', of P] True first by (simp add: parse_part_def)
    have blank: "0 < fst (ParseWhiteSpace (drop (p + length t) s) (length s - (p + length t)))" if "p + length t < length s"
    proof -
      have "length s - (p + length t) = length rest" using arg_cong [OF drop_parts [OF d], of length] by simp
      then show ?thesis using rest that drop_parts [OF d] ParseWhiteSpace_start(2) by auto
    qed
    let ?Q = "add_token ?T P"
    obtain k ty i where sp: "ParseWhiteSpace (drop (p + length t) s) (length s - (p + length t)) = (k, ty, i)" by (metis prod_cases3)
    have "expand_prefix s (length s) (length (tokens P)) (p + length t) ?Q = (False, ?Q)
        \<or> expand_prefix s (length s) (length (tokens P)) (p + length t) ?Q = (False, ?Q\<lparr>incomplete := incomplete ?Q \<or> i\<rparr>)"
      using blank sp by (cases "p + length t < length s") (simp_all add: expand_prefix_def Let_def)
    then obtain Q where "expand_prefix s (length s) (length (tokens P)) (p + length t) ?Q = (False, Q)"
      "tokens Q = tokens P @ [?T]" "numWords Q = numWords P" "commandStart Q = commandStart P"
      by (auto simp: add_token_def)
    moreover have "drop (p + 1) s = src @ ''}'' @ rest" using d' drop_Cons_at [of p s "CHR ''{''"] by simp
    then have "token_text s ?T = src" by (simp add: token_text_def token_def)
    ultimately show ?thesis using part first True
      by (intro exI [of _ "[?T]"] exI [of _ Q]) (simp add: parse_word_def Let_def token_def)
  next
    case False
    then have t: "chr_at t 0 \<noteq> CHR ''{''" "chr_at t 0 \<noteq> CHR 0x22" "unquote t = Some src" using w by (auto simp: word_text_def)
    have "rest = [] \<or> hd rest = CHR '' ''" using rest by auto
    from ParseTokens_bare [OF t(3) d p this n order.refl, of P] ne obtain ts where
      ts: "ParseTokens_loop n s (length s) word_stop TCL_SUBST_ALL (length (tokens P)) p P
        = (TCL_OK, P\<lparr>tokens := tokens P @ ts, term_at := p + length t\<rparr>)" "known_pieces s ts = Some src" "ts \<noteq> []" by blast
    then show ?thesis using t first
      by (intro exI [of _ ts] exI [of _ "P\<lparr>tokens := tokens P @ ts, term_at := p + length t\<rparr>"])
        (simp add: parse_word_def parse_part_def all_tokens_def Let_def)
  qed
qed

lemma finish_word_known:
  assumes "tokens P = base @ W # ts" "ts \<noteq> []" "token_type W = TCL_TOKEN_WORD"
  shows "\<exists>W' P'. finish_word s (length base) False q P = P' \<and> tokens P' = base @ W' # ts
    \<and> token_type W' \<noteq> TCL_TOKEN_EXPAND_WORD \<and> numComponents W' = length ts
    \<and> numWords P' = numWords P \<and> commandStart P' = commandStart P"
  using assms by (auto simp: finish_word_def Let_def)


lemma word_starts: "drop p s = u \<Longrightarrow> word_start u \<Longrightarrow> p < length s \<and> length s - p = length u"
  by (auto simp: word_start_def)

lemma parse_one_word:
  assumes w: "word_text t src" and d: "drop p s = t @ rest" and rest: "rest = [] \<or> (\<exists>u. rest = CHR '' '' # u \<and> word_start u)"
    and n: "length t < m"
  shows "\<exists>W ts P'. ParseCommand_loop (Suc m) s (length s) TYPE_COMMAND_END p P
      = after_word (ParseCommand_loop m) s (length s) TYPE_COMMAND_END (p + length t) P'
    \<and> tokens P' = tokens P @ W # ts \<and> ts \<noteq> [] \<and> known_pieces s ts = Some src
    \<and> token_type W \<noteq> TCL_TOKEN_EXPAND_WORD \<and> numComponents W = length ts
    \<and> numWords P' = numWords P + 1 \<and> commandStart P' = commandStart P"
proof -
  let ?W = "token TCL_TOKEN_WORD p 0 0" and ?I = "\<lambda>P inc. P\<lparr>incomplete := inc\<rparr>"
  note start = word_text_start [OF w, of rest]
  note p = word_starts [OF d start]
  have ws: "ParseWhiteSpace (drop p s) (length s - p) = (0, CHAR_TYPE (hd (t @ rest)), False)"
    using ParseWhiteSpace_start(1) [OF start] p d by simp
  have type: "CHAR_TYPE (hd (t @ rest)) AND TYPE_COMMAND_END = 0" using start by (simp add: word_start_def)
  define Q where "Q = (add_token ?W (P\<lparr>incomplete := (incomplete P \<or> False)\<rparr>))\<lparr>numWords := numWords P + 1\<rparr>"
  have Q: "tokens Q = tokens P @ [?W]" "numWords Q = numWords P + 1" "commandStart Q = commandStart P"
    by (simp_all add: Q_def add_token_def)
  from parse_word_text [OF w d rest _ n, of Q] p Q obtain ts P1 where
    P1: "parse_word (all_tokens (ParseTokens_loop m) s (length s)) s (length s) TYPE_COMMAND_END p Q = (TCL_OK, p + length t, False, P1)"
    "tokens P1 = tokens P @ ?W # ts" "ts \<noteq> []" "known_pieces s ts = Some src"
    "numWords P1 = numWords P + 1" "commandStart P1 = commandStart P" by auto
  have W: "token_type ?W = TCL_TOKEN_WORD" by (simp add: token_def)
  from finish_word_known [OF P1(2,3) W, of s "p + length t"] obtain W' P2 where
    P2: "finish_word s (length (tokens P)) False (p + length t) P1 = P2" "tokens P2 = tokens P @ W' # ts"
      "token_type W' \<noteq> TCL_TOKEN_EXPAND_WORD" "numComponents W' = length ts"
      "numWords P2 = numWords P + 1" "commandStart P2 = commandStart P" using P1(5,6) by auto
  have "ParseCommand_loop (Suc m) s (length s) TYPE_COMMAND_END p P
      = after_word (ParseCommand_loop m) s (length s) TYPE_COMMAND_END (p + length t) P2"
    using p ws type P1(1) P2(1) by (simp add: ParseCommand_step_def Q_def Let_def)
  then show ?thesis using P1 P2 by blast
qed

lemma after_word_end:
  "after_word pc s (length s) ends (length s) P = command_ok (length s) (P\<lparr>incomplete := (incomplete P \<or> False), term_at := length s\<rparr>)"
proof -
  have "ParseWhiteSpace [] 0 = (0, TYPE_NORMAL, False)"
    unfolding ParseWhiteSpace_def by (subst ParseWhiteSpace_loop.simps) simp
  then show ?thesis by (simp add: after_word_def)
qed

lemma after_word_more:
  assumes "drop q s = CHR '' '' # u" "word_start u"
  shows "after_word pc s (length s) ends q P = pc s (length s) ends (q + 1) (P\<lparr>incomplete := (incomplete P \<or> False)\<rparr>)"
proof -
  have "length s - q = Suc (length u)" using arg_cong [OF assms(1), of length] by simp
  then show ?thesis using ParseWhiteSpace_start(2) [OF assms(2)] assms(1) by (simp add: after_word_def)
qed

lemma joined_Cons: "merged.joined i (e # es) = merge_format i e @ (if es = [] then [] else CHR '' '' # merged.joined (i + 1) es)"
  by (cases es) auto

lemma joined_start: "es \<noteq> [] \<Longrightarrow> \<forall>e\<in>set es. CHR 0x00 \<notin> set e \<Longrightarrow> word_start (merged.joined i es)"
proof (cases es)
  case (Cons d ds)
  assume "\<forall>e\<in>set es. CHR 0x00 \<notin> set e"
  then have "word_text (merge_format i d) d" using merge_format_word Cons by simp
  from word_text_start [OF this] show ?thesis unfolding Cons joined_Cons .
qed simp

lemma ParseCommand_loop_joined:
  assumes "\<forall>e\<in>set es. CHR 0x00 \<notin> set e" "es \<noteq> []" "drop p s = merged.joined i es" "length s - p + 2 \<le> n"
  shows "\<exists>ts P'. ParseCommand_loop n s (length s) TYPE_COMMAND_END p P = (TCL_OK, P')
    \<and> tokens P' = tokens P @ ts \<and> word_tokens s es ts \<and> numWords P' = numWords P + length es
    \<and> commandStart P' = commandStart P \<and> commandSize P' = length s - commandStart P"
  using assms
proof (induction es arbitrary: p i n P)
  case (Cons e es)
  let ?rest = "if es = [] then [] else CHR '' '' # merged.joined (i + 1) es"
  let ?q = "p + length (merge_format i e)"
  obtain m where n: "n = Suc m" using Cons.prems(4) by (cases n) auto
  have w: "word_text (merge_format i e) e" using Cons.prems(1) merge_format_word by simp
  have d: "drop p s = merge_format i e @ ?rest" using Cons.prems(3) by (simp only: joined_Cons)
  have start: "word_start (merged.joined (i + 1) es)" if "es \<noteq> []" using that joined_start Cons.prems(1) by simp
  have ne: "merge_format i e \<noteq> []" using w by (auto simp: word_text_def)
  have len: "length s - p = length (merge_format i e) + length ?rest" using arg_cong [OF d, of length] by simp
  have "length (merge_format i e) < m" using len Cons.prems(4) n by simp
  note lt = this
  have rest: "?rest = [] \<or> (\<exists>u. ?rest = CHR '' '' # u \<and> word_start u)" using start by simp
  from parse_one_word [OF w d rest lt, of P] obtain W ts P' where
    P': "ParseCommand_loop n s (length s) TYPE_COMMAND_END p P
        = after_word (ParseCommand_loop m) s (length s) TYPE_COMMAND_END ?q P'"
      "tokens P' = tokens P @ W # ts" "ts \<noteq> []" "known_pieces s ts = Some e" "token_type W \<noteq> TCL_TOKEN_EXPAND_WORD"
      "numComponents W = length ts" "numWords P' = numWords P + 1" "commandStart P' = commandStart P"
    unfolding n by blast
  have q: "drop ?q s = ?rest" by (rule drop_parts [OF d])
  show ?case
  proof (cases "es = []")
    case True
    then have "?q = length s" using q len ne by (cases "p \<le> length s") auto
    then show ?thesis using P' True by (auto simp: after_word_end command_ok_def)
  next
    case False
    let ?P = "P'\<lparr>incomplete := (incomplete P' \<or> False)\<rparr>"
    have dq: "drop ?q s = CHR '' '' # merged.joined (i + 1) es" using q False by simp
    from after_word_more [OF dq start [OF False]] P'(1)
    have step: "ParseCommand_loop n s (length s) TYPE_COMMAND_END p P
        = ParseCommand_loop m s (length s) TYPE_COMMAND_END (?q + 1) ?P" by simp
    have dr: "drop (?q + 1) s = merged.joined (i + 1) es" using dq drop_Cons_at by blast
    have fuel: "length s - (?q + 1) + 2 \<le> m" using len Cons.prems(4) n False by simp
    have nul: "\<forall>e\<in>set es. CHR 0x00 \<notin> set e" using Cons.prems(1) by simp
    from Cons.IH [OF nul False dr fuel, of ?P] obtain us P2 where
      "ParseCommand_loop m s (length s) TYPE_COMMAND_END (?q + 1) ?P = (TCL_OK, P2)"
      "tokens P2 = tokens ?P @ us" "word_tokens s es us" "numWords P2 = numWords ?P + length es"
      "commandStart P2 = commandStart ?P" "commandSize P2 = length s - commandStart ?P" by blast
    then show ?thesis using step P' by (intro exI [of _ "W # ts @ us"] exI [of _ P2]) auto
  qed
qed simp


text \<open>Nothing is skipped at the start: the first word does not begin with a hash.\<close>

lemma ParseComment_none:
  assumes "word_start s" "chr_at s 0 \<noteq> CHR ''#''"
  shows "ParseComment s (length s) 0 P = (0, P)"
proof -
  have s: "0 < length s" using assms(1) by (simp add: word_start_def)
  have "chr_at s 0 \<noteq> CHR 0x0A" using assms(1) by (cases s) (auto simp: word_start_def CHAR_TYPE_def TYPE_defs)
  then have "comment_space s (length s) 0 (incomplete P) = (0, incomplete P)"
    using s ParseWhiteSpace_start(1) [OF assms(1)] by (subst comment_space.simps) simp
  then have "ParseComment_loop s (length s) 0 P = (0, P)"
    using s assms(2) by (subst ParseComment_loop.simps) simp
  then show ?thesis by (simp add: ParseComment_def)
qed

lemma parse_merged:
  assumes "\<forall>e\<in>set argv. CHR 0x00 \<notin> set e" "argv \<noteq> []" "s = merged.joined 0 argv"
  shows "\<exists>P. Tcl_ParseCommand True s 0 (length s) False = (TCL_OK, P) \<and> word_tokens s argv (tokens P)
    \<and> numWords P = length argv \<and> commandStart P + commandSize P = length s"
proof -
  have start: "word_start s" using joined_start [OF assms(2,1)] assms(3) by simp
  have "chr_at s 0 \<noteq> CHR ''#''"
  proof -
    obtain e es where e: "argv = e # es" using assms(2) by (cases argv) auto
    then have m: "word_text (merge_format 0 e) e" "chr_at (merge_format 0 e) 0 \<noteq> CHR ''#''"
      using merge_format_word assms(1) by auto
    then obtain c t where "merge_format 0 e = c # t" by (cases "merge_format 0 e") (auto simp: word_text_def)
    then show ?thesis using m(2) e assms(3) by (simp add: joined_Cons del: merged.joined.simps)
  qed
  note pc = ParseComment_none [OF start this]
  have "0 < length s" using start by (simp add: word_start_def)
  define I where "I = init_command s (length s) 0 False True"
  have I: "tokens I = []" "numWords I = 0" "commandStart I = 0"
    using pc by (simp_all add: I_def init_command_def TclParseInit_def)
  have fuel: "length s - 0 + 2 \<le> 3 * length s + 3" by simp
  have "drop 0 s = merged.joined 0 argv" using assms(3) by simp
  from ParseCommand_loop_joined [OF assms(1,2) this fuel, of I] I show ?thesis
    by (auto simp: Tcl_ParseCommand_def parse_command_def I_def [symmetric] Let_def)
qed

section \<open>The properties\<close>

text \<open>
  C2. A list is a safe script: if \<open>Tcl_Merge\<close> returns the list of some strings without NUL bytes,
  then evaluating that list as a script runs exactly one command, whose words are these strings,
  whatever special characters they hold: no substitution, no expansion, no second command and no
  comment.  The result and the code are those of the command.
\<close>

theorem eval_merged_list:
  assumes "Tcl_Merge argv = Some (s, n)" "argv \<noteq> []" "\<forall>e\<in>set argv. CHR 0x00 \<notin> set e"
  shows "TclEvalEx I w s =
     (case evalObjv I w (last argv) argv of
        (code, r, w') \<Rightarrow> if code = OK then (OK, r, w') else eval_error I (allowExceptions I w) code r w')"
proof -
  have s: "s = merged.joined 0 argv" by (rule Tcl_Merge_joined [OF assms(3,1)])
  from parse_merged [OF assms(3,2) s] obtain P where
    P: "Tcl_ParseCommand True s 0 (length s) False = (TCL_OK, P)" "word_tokens s argv (tokens P)"
      "numWords P = length argv" "commandStart P + commandSize P = length s" by blast
  have "eval_command I ev s P [] w = evalObjv I w (last argv) argv" for ev
    using eval_command_known [OF P(2,3), of I ev "[]" w] assms(2) by simp
  then show ?thesis using P assms(2) by (auto simp: TclEvalEx_def split: prod.splits)
qed

theorem eval_merged_list_witness:
  "\<exists>s n. Tcl_Merge [''#a'', ''$x [exit]'', ''{'', ''*}; b''] = Some (s, n)
     \<and> TclEvalEx recorder [] s = (OK, ''#a$x [exit]{*}; b'', [[''#a'', ''$x [exit]'', ''{'', ''*}; b'']])"
proof -
  let ?argv = "[''#a'', ''$x [exit]'', ''{'', ''*}; b'']"
  have "Tcl_Merge ?argv \<noteq> None" by code_simp
  then obtain s n where m: "Tcl_Merge ?argv = Some (s, n)" by auto
  from eval_merged_list [OF this, of recorder "[]"] have
    "TclEvalEx recorder [] s = (OK, ''#a$x [exit]{*}; b'', [?argv])" by (simp add: recorder_def)
  then show ?thesis using m by blast
qed

end
