(* ===== verification/Glob.thy ===== *)
theory Glob
  imports Utf "HOL-Library.Sublist"
begin

text \<open>
  Matching of strings against patterns: \<open>Tcl_StringCaseMatch\<close>, \<open>TclByteArrayMatch\<close> and
  \<open>TclStringMatchObj\<close> of \<open>tclUtil.c\<close>, \<open>Tcl_UniCharCaseMatch\<close> and \<open>TclUniCharMatch\<close> of
  \<open>tclUtf.c\<close>, one for each representation of a string.

  What a pattern matches is stated first, as a relation between lists of characters.  A locale
  collects what the routines do at each kind of pattern character and proves that such a routine
  decides the relation; every routine is an instance.  The mapping to lower case is an argument.
\<close>

section \<open>What a pattern matches\<close>

text \<open>
  The characters are \<open>*\<close> (42), \<open>?\<close> (63), \<open>[\<close> (91), \<open>]\<close> (93), backslash (92) and \<open>-\<close> (45).
  A set is searched from the left; when a character or a range fits, the pattern goes on behind
  the next close bracket, or at its end if there is none.
\<close>

fun after_bracket :: "int list \<Rightarrow> int list" where
  "after_bracket [] = []"
| "after_bracket (c # p) = (if c = 93 then p else after_bracket p)"

definition between :: "int \<Rightarrow> int \<Rightarrow> int \<Rightarrow> bool" where
  "between a b ch \<longleftrightarrow> a \<le> ch \<and> ch \<le> b \<or> b \<le> ch \<and> ch \<le> a"

fun in_set :: "(int \<Rightarrow> int) \<Rightarrow> int \<Rightarrow> int list \<Rightarrow> int list option" where
  "in_set fc ch [] = None"
| "in_set fc ch [c] = (if c \<noteq> 93 \<and> fc c = ch then Some [] else None)"
| "in_set fc ch (c # d # p) =
     (if c = 93 then None
      else if d = 45 then
        (case p of [] \<Rightarrow> None
         | b # p' \<Rightarrow> if between (fc c) (fc b) ch then Some (after_bracket p') else in_set fc ch p')
      else if fc c = ch then Some (after_bracket (d # p))
      else in_set fc ch (d # p))"

inductive glob :: "(int \<Rightarrow> int) \<Rightarrow> int list \<Rightarrow> int list \<Rightarrow> bool" for fc :: "int \<Rightarrow> int" where
  finish: "glob fc [] []"
| star_none: "glob fc p s \<Longrightarrow> glob fc (42 # p) s"
| star_more: "glob fc (42 # p) s \<Longrightarrow> glob fc (42 # p) (c # s)"
| any: "glob fc p s \<Longrightarrow> glob fc (63 # p) (c # s)"
| set: "in_set fc (fc c) p = Some q \<Longrightarrow> glob fc q s \<Longrightarrow> glob fc (91 # p) (c # s)"
| escaped: "fc c = fc d \<Longrightarrow> glob fc p s \<Longrightarrow> glob fc (92 # d # p) (c # s)"
| plain: "d \<notin> {42, 63, 91, 92} \<Longrightarrow> fc c = fc d \<Longrightarrow> glob fc p s \<Longrightarrow> glob fc (d # p) (c # s)"

inductive_simps glob_Nil: "glob fc [] s"
inductive_simps glob_star: "glob fc (42 # p) s"
inductive_simps glob_any: "glob fc (63 # p) s"
inductive_simps glob_set: "glob fc (91 # p) s"
inductive_simps glob_escape: "glob fc (92 # p) s"
inductive_simps glob_Cons: "glob fc (d # p) s"

lemma glob_empty: "d \<noteq> 42 \<Longrightarrow> \<not> glob fc (d # p) []"
  by (subst glob_Cons) simp

lemma glob_star_suffix: "glob fc (42 # p) s \<longleftrightarrow> (\<exists>k\<le>length s. glob fc p (drop k s))"
proof
  assume "glob fc (42 # p) s"
  then show "\<exists>k\<le>length s. glob fc p (drop k s)"
  proof (induction s rule: list.induct)
    case Nil
    then show ?case by (subst (asm) glob_star) auto
  next
    case (Cons c s)
    from Cons.prems consider "glob fc p (c # s)" | "glob fc (42 # p) s" by (subst (asm) glob_star) auto
    then show ?case
    proof cases
      case 1
      then show ?thesis by (intro exI [of _ 0]) simp
    next
      case 2
      with Cons.IH obtain k where "k \<le> length s" "glob fc p (drop k s)" by blast
      then show ?thesis by (intro exI [of _ "Suc k"]) simp
    qed
  qed
next
  assume "\<exists>k\<le>length s. glob fc p (drop k s)"
  then obtain k where "k \<le> length s" "glob fc p (drop k s)" by blast
  then show "glob fc (42 # p) s"
  proof (induction k arbitrary: s rule: nat.induct)
    case (Suc k)
    then obtain c t where "s = c # t" by (cases s) auto
    with Suc show ?case by (auto intro: glob.star_more)
  qed (auto intro: glob.star_none)
qed

lemma glob_stars: "glob fc (42 # p) s \<longleftrightarrow> glob fc (42 # dropWhile (\<lambda>x. x = 42) p) s"
proof (induction p arbitrary: s)
  case (Cons c p)
  have "glob fc (42 # 42 # p) s \<longleftrightarrow> glob fc (42 # p) s"
  proof
    assume "glob fc (42 # 42 # p) s"
    then obtain k where k: "k \<le> length s" "glob fc (42 # p) (drop k s)" by (auto simp: glob_star_suffix [of fc "42 # p"])
    then obtain j where "j \<le> length (drop k s)" "glob fc p (drop j (drop k s))" by (auto simp: glob_star_suffix [of fc p])
    then show "glob fc (42 # p) s" using k by (auto simp: glob_star_suffix [of fc p] intro!: exI [of _ "j + k"])
  qed (rule glob.star_none)
  then show ?case using Cons by simp
qed simp

lemma glob_star_Nil: "glob fc [42] s"
  by (auto simp: glob_star_suffix glob_Nil)

lemma glob_first: "glob fc (d # p) (c # s) \<Longrightarrow> d \<noteq> 42 \<Longrightarrow> d \<in> {63, 91, 92} \<or> fc c = fc d"
  by (subst (asm) glob_Cons) auto

lemma after_bracket_le: "length (after_bracket p) \<le> length p"
  by (induction p) auto

lemma in_set_less: "in_set fc ch p = Some q \<Longrightarrow> length q < length p"
proof (induction fc ch p rule: in_set.induct)
  case (3 fc ch c d p)
  then show ?case using after_bracket_le [of "tl p"] after_bracket_le [of "d # p"]
    by (fastforce split: if_splits list.splits simp del: after_bracket.simps)
qed (auto split: if_splits)


section \<open>What the routines have in common\<close>

text \<open>
  A routine runs on a place in a pattern and a place in a string, of which \<open>pat\<close> and \<open>str\<close> give the
  characters that follow.  At a star it tries the rest of the pattern on the suffixes of the
  string, and may leave out those that cannot match because of their first character.
\<close>

locale glob_matcher =
  fixes run :: "'p \<Rightarrow> 's \<Rightarrow> bool option"
    and pat :: "'p \<Rightarrow> int list"
    and str :: "'s \<Rightarrow> int list"
    and fc :: "int \<Rightarrow> int"
    and valid :: "'p \<Rightarrow> bool"
    and proper :: "'s \<Rightarrow> bool"
  assumes at_end: "valid p \<Longrightarrow> proper s \<Longrightarrow> pat p = [] \<Longrightarrow> run p s = Some (str s = [])"
    and no_char: "valid p \<Longrightarrow> proper s \<Longrightarrow> pat p = d # r \<Longrightarrow> d \<noteq> 42 \<Longrightarrow> str s = [] \<Longrightarrow> run p s = Some False"
    and at_any: "valid p \<Longrightarrow> proper s \<Longrightarrow> pat p = 63 # r \<Longrightarrow> str s = c # t \<Longrightarrow>
      \<exists>p' s'. valid p' \<and> proper s' \<and> pat p' = r \<and> str s' = t \<and> run p s = run p' s'"
    and at_set: "valid p \<Longrightarrow> proper s \<Longrightarrow> pat p = 91 # r \<Longrightarrow> str s = c # t \<Longrightarrow>
      (case in_set fc (fc c) r of None \<Rightarrow> run p s = Some False
       | Some q \<Rightarrow> \<exists>p' s'. valid p' \<and> proper s' \<and> pat p' = q \<and> str s' = t \<and> run p s = run p' s')"
    and at_escape: "valid p \<Longrightarrow> proper s \<Longrightarrow> pat p = [92] \<Longrightarrow> str s = c # t \<Longrightarrow> run p s = Some False"
    and at_char: "valid p \<Longrightarrow> proper s \<Longrightarrow> pat p = 92 # d # r \<or> pat p = d # r \<and> d \<notin> {42, 63, 91, 92} \<Longrightarrow>
      str s = c # t \<Longrightarrow>
      (if fc c = fc d then \<exists>p' s'. valid p' \<and> proper s' \<and> pat p' = r \<and> str s' = t \<and> run p s = run p' s'
       else run p s = Some False)"
    and at_stars: "valid p \<Longrightarrow> proper s \<Longrightarrow> pat p = 42 # r \<Longrightarrow> dropWhile (\<lambda>x. x = 42) r = [] \<Longrightarrow> run p s = Some True"
    and at_star: "valid p \<Longrightarrow> proper s \<Longrightarrow> pat p = 42 # r \<Longrightarrow> dropWhile (\<lambda>x. x = 42) r = d # q \<Longrightarrow>
      \<exists>p'. valid p' \<and> pat p' = d # q \<and>
        (\<forall>g. (\<forall>s'. proper s' \<longrightarrow> run p' s' = Some (g (str s'))) \<longrightarrow>
             (\<forall>c t. g (c # t) \<longrightarrow> d \<in> {63, 91, 92} \<or> fc c = fc d) \<longrightarrow>
             run p s = Some (\<exists>k\<le>length (str s). g (drop k (str s))))"
begin

lemma run_glob: "valid p \<Longrightarrow> proper s \<Longrightarrow> run p s = Some (glob fc (pat p) (str s))"
proof (induction "length (pat p)" arbitrary: p s rule: less_induct)
  case less
  note v = less.prems
  have IH: "run p' s' = Some (glob fc (pat p') (str s'))"
    if "valid p'" "proper s'" "length (pat p') < length (pat p)" for p' s'
    using less.hyps that by blast
  consider (nil) "pat p = []" | (star) r where "pat p = 42 # r" | (none) d r where "pat p = d # r" "d \<noteq> 42" "str s = []"
    | (any) r c t where "pat p = 63 # r" "str s = c # t" | (set) r c t where "pat p = 91 # r" "str s = c # t"
    | (esc) c t where "pat p = [92]" "str s = c # t"
    | (char) d r c t where "pat p = 92 # d # r \<or> pat p = d # r \<and> d \<notin> {42, 63, 91, 92}" "str s = c # t"
  proof (cases "pat p")
    case (Cons d r)
    show ?thesis
    proof (cases "str s")
      case Nil
      then show ?thesis using Cons star none by (cases "d = 42") auto
    next
      case s: (Cons c t)
      show ?thesis
      proof (cases "d = 92")
        case True
        then show ?thesis using Cons s esc char by (cases r) auto
      next
        case False
        then show ?thesis using Cons s star any set char [of d r c t] by auto
      qed
    qed
  qed
  then show ?case
  proof cases
    case nil
    then show ?thesis using at_end [OF v] by (simp add: glob_Nil)
  next
    case star
    show ?thesis
    proof (cases "dropWhile (\<lambda>x. x = 42) r")
      case Nil
      have "glob fc (42 # r) (str s)" unfolding glob_stars [of fc r] Nil by (rule glob_star_Nil)
      then show ?thesis using at_stars [OF v star Nil] star by simp
    next
      case (Cons d q)
      from at_star [OF v star Cons] obtain p' where p': "valid p'" "pat p' = d # q"
        and tries: "\<And>g. \<lbrakk>\<forall>s'. proper s' \<longrightarrow> run p' s' = Some (g (str s'));
            \<forall>c t. g (c # t) \<longrightarrow> d \<in> {63, 91, 92} \<or> fc c = fc d\<rbrakk>
          \<Longrightarrow> run p s = Some (\<exists>k\<le>length (str s). g (drop k (str s)))" by blast
      have "length (d # q) \<le> length r" by (metis Cons length_dropWhile_le)
      then have "\<forall>s'. proper s' \<longrightarrow> run p' s' = Some (glob fc (d # q) (str s'))"
        using IH [OF p'(1)] p'(2) star by simp
      moreover have "d \<noteq> 42" using Cons by (simp add: dropWhile_eq_Cons_conv)
      then have "\<forall>c t. glob fc (d # q) (c # t) \<longrightarrow> d \<in> {63, 91, 92} \<or> fc c = fc d" using glob_first by blast
      ultimately have "run p s = Some (\<exists>k\<le>length (str s). glob fc (d # q) (drop k (str s)))" by (rule tries)
      moreover have "glob fc (pat p) (str s) \<longleftrightarrow> (\<exists>k\<le>length (str s). glob fc (d # q) (drop k (str s)))"
        unfolding star glob_stars [of fc r] Cons by (rule glob_star_suffix)
      ultimately show ?thesis by simp
    qed
  next
    case none
    then show ?thesis using no_char [OF v] by (simp add: glob_empty)
  next
    case any
    from at_any [OF v any] IH any show ?thesis by (auto simp: glob_any)
  next
    case set
    from at_set [OF v set] IH set in_set_less [of fc "fc c" r] show ?thesis
      by (fastforce simp: glob_set split: option.splits)
  next
    case esc
    then show ?thesis using at_escape [OF v] by (simp add: glob_escape)
  next
    case char
    then have "glob fc (pat p) (str s) \<longleftrightarrow> fc c = fc d \<and> glob fc r t"
      by (elim disjE conjE; simp; subst glob_Cons) auto
    with at_char [OF v char] IH char show ?thesis by (auto split: if_splits)
  qed
qed

end


section \<open>Strings of wide characters\<close>

text \<open>
  The two routines for 16-bit characters are the same but for the end of a string, which is a
  NUL in \<open>Tcl_UniCharCaseMatch\<close> and a count in \<open>TclUniCharMatch\<close>.  A pointer is the list of the
  characters from there to the end; a NUL follows the characters in both cases.
\<close>

definition at :: "int list \<Rightarrow> int" where
  "at p = (case p of [] \<Rightarrow> 0 | c # _ \<Rightarrow> c)"

definition ended :: "bool \<Rightarrow> int list \<Rightarrow> bool" where
  "ended counted p \<longleftrightarrow> (if counted then p = [] else at p = 0)"

lemma at_simps [simp]: "at [] = 0" "at (c # p) = c"
  by (simp_all add: at_def)

lemma ended_Nil [simp]: "ended counted []"
  by (simp add: ended_def)

definition fold_char :: "(int \<Rightarrow> int) \<Rightarrow> bool \<Rightarrow> int \<Rightarrow> int" where
  "fold_char lower nocase c = (if nocase then lower c else c)"

text \<open>The search in a set, up to where it succeeds, and the way to the close bracket.\<close>

function UniChar_set :: "bool \<Rightarrow> (int \<Rightarrow> int) \<Rightarrow> int \<Rightarrow> int list \<Rightarrow> int list option" where
  "UniChar_set counted fc ch1 p =
     (if at p = 93 \<or> ended counted p then None
      else let startChar = fc (at p); p = tl p in
        if at p = 45 then
          (let p = tl p in
           if ended counted p then None
           else let endChar = fc (at p); p = tl p in
             if between startChar endChar ch1 then Some p else UniChar_set counted fc ch1 p)
        else if startChar = ch1 then Some p
        else UniChar_set counted fc ch1 p)"
  by pat_completeness auto
termination
proof (relation "measure (\<lambda>(counted, fc, ch1, p). length p)", goal_cases)
  case (2 counted fc ch1 p)
  then have "p \<noteq> []" by auto
  with 2 show ?case by (cases p; cases "tl p"; cases "tl (tl p)") auto
next
  case (3 counted fc ch1 p)
  then have "p \<noteq> []" by auto
  with 3 show ?case by (cases p) auto
qed simp

declare UniChar_set.simps [simp del]

function UniChar_close :: "bool \<Rightarrow> int list \<Rightarrow> int list" where
  "UniChar_close counted p =
     (if at p = 93 then tl p else if ended counted p then p else UniChar_close counted (tl p))"
  by pat_completeness auto
termination
proof (relation "measure (\<lambda>(counted, p). length p)", goal_cases)
  case (2 counted p)
  then show ?case by (cases p) auto
qed simp

declare UniChar_close.simps [simp del]

lemma UniChar_close_le: "length (UniChar_close counted p) \<le> length p"
proof (induction p)
  case Nil
  show ?case by (subst UniChar_close.simps) simp
next
  case (Cons c p)
  then show ?case by (subst UniChar_close.simps) simp
qed

text \<open>The turns of the search.\<close>

lemma UniChar_set_end: "at p = 93 \<or> ended counted p \<Longrightarrow> UniChar_set counted fc ch1 p = None"
  by (subst UniChar_set.simps) simp

lemma UniChar_set_char:
  "c \<noteq> 93 \<Longrightarrow> \<not> ended counted (c # r) \<Longrightarrow> at r \<noteq> 45 \<Longrightarrow>
     UniChar_set counted fc ch1 (c # r) = (if fc c = ch1 then Some r else UniChar_set counted fc ch1 r)"
  by (subst UniChar_set.simps) simp

lemma UniChar_set_range:
  "c \<noteq> 93 \<Longrightarrow> \<not> ended counted (c # 45 # r) \<Longrightarrow>
     UniChar_set counted fc ch1 (c # 45 # r) =
       (if ended counted r then None
        else if between (fc c) (fc (at r)) ch1 then Some (tl r) else UniChar_set counted fc ch1 (tl r))"
  by (subst UniChar_set.simps) simp

lemma UniChar_set_less: "UniChar_set counted fc ch1 p = Some q \<Longrightarrow> length q < length p"
proof (induction "length p" arbitrary: p rule: less_induct)
  case less
  then have e: "at p \<noteq> 93" "\<not> ended counted p" using UniChar_set_end [of p] by auto
  then obtain c r where p: "p = c # r" by (cases p) auto
  show ?case
  proof (cases "at r = 45")
    case False
    then show ?thesis using UniChar_set_char [of c counted r] e p less by (fastforce split: if_splits)
  next
    case True
    then obtain r' where "r = 45 # r'" by (cases r) auto
    then show ?thesis using UniChar_set_range [of c counted r'] e p less.prems less.hyps [of "tl r'"]
      by (fastforce split: if_splits)
  qed
qed

text \<open>
  The loop after a star: the string is advanced over characters that the pattern cannot start
  with, then the rest of the pattern is tried.
\<close>

fun UniChar_star :: "bool \<Rightarrow> (int \<Rightarrow> bool) \<Rightarrow> (int list \<Rightarrow> bool) \<Rightarrow> int list \<Rightarrow> bool" where
  "UniChar_star counted skip match [] = match []"
| "UniChar_star counted skip match (c # s) =
     (if \<not> counted \<and> c = 0 then match (c # s)
      else if skip c then UniChar_star counted skip match s
      else match (c # s) \<or> UniChar_star counted skip match s)"

function UniChar_match :: "bool \<Rightarrow> (int \<Rightarrow> int) \<Rightarrow> bool \<Rightarrow> int list \<Rightarrow> int list \<Rightarrow> bool" where
  "UniChar_match counted lower nocase p s =
     (let c = at p; fc = fold_char lower nocase in
      if ended counted p then ended counted s
      else if ended counted s \<and> c \<noteq> 42 then False
      else if c = 42 then
        (let q = dropWhile (\<lambda>x. x = 42) (tl p); d = fc (at q) in
         if ended counted q then True
         else UniChar_star counted
                (\<lambda>x. d \<noteq> 91 \<and> d \<noteq> 63 \<and> d \<noteq> 92 \<and> d \<noteq> x \<and> (nocase \<longrightarrow> d \<noteq> lower x))
                (UniChar_match counted lower nocase q) s)
      else if c = 63 then UniChar_match counted lower nocase (tl p) (tl s)
      else if c = 91 then
        (case UniChar_set counted fc (fc (at s)) (tl p) of
           None \<Rightarrow> False
         | Some q \<Rightarrow> UniChar_match counted lower nocase (UniChar_close counted q) (tl s))
      else
        (let p = (if c = 92 then tl p else p) in
         if c = 92 \<and> ended counted p then False
         else if fc (at s) \<noteq> fc (at p) then False
         else UniChar_match counted lower nocase (tl p) (tl s)))"
  by pat_completeness auto
termination
proof (relation "measure (\<lambda>(counted, lower, nocase, p, s). length p)", goal_cases)
  case (2 counted lower nocase p s)
  then obtain c r where "p = c # r" by (cases p) auto
  then show ?case using 2 by (auto intro: le_imp_less_Suc length_dropWhile_le)
next
  case (3 counted lower nocase p s)
  then show ?case by (cases p) auto
next
  case (4 counted lower nocase p s c fc q)
  then obtain c r where p: "p = c # r" by (cases p) auto
  then have "length (UniChar_close counted q) < length r"
    using 4 UniChar_set_less UniChar_close_le [of counted q] by fastforce
  then show ?case using p by simp
next
  case (5 counted lower nocase p s)
  then show ?case by (cases p) auto
qed simp

declare UniChar_match.simps [simp del]

definition Tcl_UniCharCaseMatch :: "(int \<Rightarrow> int) \<Rightarrow> int list \<Rightarrow> int list \<Rightarrow> bool \<Rightarrow> bool" where
  "Tcl_UniCharCaseMatch lower uniStr uniPattern nocase = UniChar_match False lower nocase uniPattern uniStr"

definition TclUniCharMatch :: "(int \<Rightarrow> int) \<Rightarrow> int list \<Rightarrow> int list \<Rightarrow> bool \<Rightarrow> bool" where
  "TclUniCharMatch lower string pattern nocase = UniChar_match True lower nocase pattern string"


section \<open>Wide characters decide the relation\<close>

text \<open>
  Of the mapping to lower case it is used that it maps the ASCII characters as \<open>tolower\<close> does in
  the C locale; in particular the characters with a meaning in patterns are their own lower case.
\<close>

definition tolower :: "int \<Rightarrow> int" where
  "tolower c = (if 65 \<le> c \<and> c \<le> 90 then c + 32 else c)"

definition ascii_lower :: "(int \<Rightarrow> int) \<Rightarrow> bool" where
  "ascii_lower lower \<longleftrightarrow> (\<forall>c. 0 \<le> c \<and> c < 128 \<longrightarrow> lower c = tolower c)"

lemma ascii_lower_special: "ascii_lower lower \<Longrightarrow> d \<in> {63, 91, 92} \<Longrightarrow> lower d = d"
  by (auto simp: ascii_lower_def tolower_def)

text \<open>Where NUL ends the string, it does not occur in it.\<close>

definition terminated :: "bool \<Rightarrow> int list \<Rightarrow> bool" where
  "terminated counted p \<longleftrightarrow> counted \<or> 0 \<notin> set p"

lemma terminated_ended: "terminated counted p \<Longrightarrow> ended counted p \<longleftrightarrow> p = []"
  by (cases p) (auto simp: terminated_def ended_def)

lemma terminated_Cons [simp]: "terminated counted (c # p) \<longleftrightarrow> (counted \<or> c \<noteq> 0) \<and> terminated counted p"
  by (auto simp: terminated_def)

lemma terminated_suffix: "terminated counted (xs @ ys) \<Longrightarrow> terminated counted ys"
  by (auto simp: terminated_def)

lemma UniChar_close_after: "terminated counted p \<Longrightarrow> UniChar_close counted p = after_bracket p"
proof (induction p)
  case Nil
  show ?case by (subst UniChar_close.simps) simp
next
  case (Cons c p)
  then show ?case using terminated_ended [OF Cons.prems] by (subst UniChar_close.simps) simp
qed

lemma after_bracket_suffix: "\<exists>xs. p = xs @ after_bracket p"
proof (induction p)
  case (Cons c p)
  then obtain xs where "p = xs @ after_bracket p" ..
  then show ?case by (cases "c = 93") (auto intro: exI [of _ "[c]"] exI [of _ "c # xs"])
qed simp

lemma in_set_suffix: "in_set fc ch p = Some q \<Longrightarrow> \<exists>xs. p = xs @ q"
proof (induction fc ch p rule: in_set.induct)
  case (3 fc ch c d p)
  have ab: "\<exists>xs. ys @ u = xs @ after_bracket u" for ys u
    using after_bracket_suffix [of u] by (metis append_assoc)
  show ?case
  proof (cases "d = 45")
    case True
    then obtain b p' where p: "p = b # p'" using 3(3) by (cases p) (auto split: if_splits)
    show ?thesis
    proof (cases "between (fc c) (fc b) ch")
      case True
      then show ?thesis using 3(3) \<open>d = 45\<close> p ab [of "[c, d, b]" p'] by (auto split: if_splits)
    next
      case False
      then have "in_set fc ch p' = Some q" "c \<noteq> 93" using 3(3) \<open>d = 45\<close> p by (auto split: if_splits)
      then obtain xs where "p' = xs @ q" using 3(1) \<open>d = 45\<close> p False by blast
      then show ?thesis using p by (intro exI [of _ "[c, d, b] @ xs"]) simp
    qed
  next
    case False
    show ?thesis
    proof (cases "fc c = ch")
      case True
      then show ?thesis using 3(3) False ab [of "[c]" "d # p"] by (auto split: if_splits)
    next
      case ne: False
      then have "in_set fc ch (d # p) = Some q" "c \<noteq> 93" using 3(3) False by (auto split: if_splits)
      then obtain xs where "d # p = xs @ q" using 3(2) False ne by blast
      then show ?thesis by (intro exI [of _ "c # xs"]) simp
    qed
  qed
qed (auto split: if_splits)

lemma UniChar_set_in:
  "terminated counted p \<Longrightarrow> in_set fc ch p = map_option (UniChar_close counted) (UniChar_set counted fc ch p)"
proof (induction fc ch p rule: in_set.induct)
  case (1 fc ch)
  then show ?case by (simp add: UniChar_set_end)
next
  case (2 fc ch c)
  have n: "UniChar_set counted fc ch [] = None" by (simp add: UniChar_set_end)
  show ?case
  proof (cases "c = 93")
    case False
    then show ?thesis using UniChar_set_char [of c counted "[]" fc ch] 2 n terminated_ended [OF 2]
        UniChar_close_after [of counted "[]"] by (simp add: terminated_def)
  qed (simp add: UniChar_set_end)
next
  case (3 fc ch c d p)
  then have t: "terminated counted p" "terminated counted (d # p)" "\<not> ended counted (c # d # p)"
    using terminated_ended [OF "3.prems"] by auto
  show ?case
  proof (cases "c = 93")
    case False
    show ?thesis
    proof (cases "d = 45")
      case True
      then show ?thesis
        using UniChar_set_range [of c counted p fc ch] False t terminated_ended [OF t(1)] 3(1)
          UniChar_close_after [of counted "tl p"] by (cases p) (auto simp: terminated_def)
    next
      case d: False
      then have "UniChar_set counted fc ch (c # d # p) = (if fc c = ch then Some (d # p) else UniChar_set counted fc ch (d # p))"
        using UniChar_set_char [of c counted "d # p"] False t by simp
      then show ?thesis using 3(2) False d t(2) UniChar_close_after [OF t(2)] by simp
    qed
  qed (simp add: UniChar_set_end)
qed

lemma UniChar_star_suffix:
  assumes "terminated counted s" "\<forall>t. terminated counted t \<longrightarrow> match t = g t" "\<forall>c t. g (c # t) \<longrightarrow> \<not> skip c"
  shows "UniChar_star counted skip match s \<longleftrightarrow> (\<exists>k\<le>length s. g (drop k s))"
  using assms(1)
proof (induction s)
  case Nil
  then show ?case using assms(2) by simp
next
  case (Cons c s)
  have e: "(\<exists>k\<le>length (c # s). g (drop k (c # s))) \<longleftrightarrow> g (c # s) \<or> (\<exists>k\<le>length s. g (drop k s))" (is "?l = ?r")
  proof
    assume ?l
    then obtain k where "k \<le> length (c # s)" "g (drop k (c # s))" by blast
    then show ?r by (cases k) auto
  next
    assume ?r
    then show ?l by (metis Suc_le_mono drop0 drop_Suc_Cons le0 length_Cons)
  qed
  have m: "match (c # s) = g (c # s)" "(\<not> counted \<and> c = 0) = False" using assms(2) Cons.prems by auto
  have "UniChar_star counted skip match s \<longleftrightarrow> (\<exists>k\<le>length s. g (drop k s))" using Cons by simp
  moreover have "skip c \<Longrightarrow> \<not> g (c # s)" using assms(3) by blast
  ultimately show ?case unfolding e UniChar_star.simps m if_False by (cases "skip c") simp_all
qed

interpretation wide: glob_matcher "\<lambda>p s. Some (UniChar_match counted lower nocase p s)" "\<lambda>p. p" "\<lambda>s. s"
  "fold_char lower nocase" "\<lambda>p. terminated counted p \<and> (nocase \<longrightarrow> ascii_lower lower)" "terminated counted"
  for counted :: bool and lower :: "int \<Rightarrow> int" and nocase :: bool
proof (unfold_locales, goal_cases)
  case (1 p s)
  then show ?case using terminated_ended by (subst UniChar_match.simps) (simp add: Let_def)
next
  case (2 p s d r)
  then show ?case using terminated_ended by (subst UniChar_match.simps) (simp add: Let_def)
next
  case (3 p s r c t)
  then have "UniChar_match counted lower nocase p s = UniChar_match counted lower nocase r t"
    using terminated_ended by (subst UniChar_match.simps) (simp add: Let_def)
  then show ?case using 3 by (intro exI [of _ r] exI [of _ t]) auto
next
  case (4 p s r c t)
  then have tr: "terminated counted r" by auto
  have step: "UniChar_match counted lower nocase p s =
      (case UniChar_set counted (fold_char lower nocase) (fold_char lower nocase c) r of
         None \<Rightarrow> False | Some q \<Rightarrow> UniChar_match counted lower nocase (UniChar_close counted q) t)"
    using 4 terminated_ended by (subst UniChar_match.simps) (simp add: Let_def split: option.split)
  have "terminated counted q" if "in_set (fold_char lower nocase) (fold_char lower nocase c) r = Some q" for q
    using in_set_suffix [OF that] tr terminated_suffix by blast
  then show ?case using step UniChar_set_in [OF tr, of "fold_char lower nocase" "fold_char lower nocase c"] 4
    by (auto split: option.splits)
next
  case (5 p s c t)
  then show ?case using terminated_ended by (subst UniChar_match.simps) (simp add: Let_def)
next
  case (6 p s d r c t)
  then have td: "terminated counted (d # r)" "terminated counted p" by auto
  from 6(3) have "UniChar_match counted lower nocase p s =
      (if fold_char lower nocase c = fold_char lower nocase d then UniChar_match counted lower nocase r t else False)"
  proof
    assume "p = 92 # d # r"
    then show ?thesis
      using terminated_ended [OF td(1)] terminated_ended [OF td(2)] terminated_ended 6(2,4)
      by (subst UniChar_match.simps) (simp add: Let_def)
  next
    assume "p = d # r \<and> d \<notin> {42, 63, 91, 92}"
    then show ?thesis
      using terminated_ended [OF td(1)] terminated_ended 6(2,4)
      by (subst UniChar_match.simps) (simp add: Let_def)
  qed
  then show ?case using 6 td by auto
next
  case (7 p s r)
  then show ?case using terminated_ended
    by (subst UniChar_match.simps) (simp add: Let_def del: dropWhile_eq_Nil_conv)
next
  case (8 p s r d q)
  let ?fc = "fold_char lower nocase"
  have dq: "r = takeWhile (\<lambda>x. x = 42) r @ d # q" using 8(4) by (metis takeWhile_dropWhile_id)
  then have t: "terminated counted (d # q)" using 8(1,3) terminated_suffix [of counted _ "d # q"] by (metis terminated_Cons)
  define skip where "skip = (\<lambda>x. ?fc d \<noteq> 91 \<and> ?fc d \<noteq> 63 \<and> ?fc d \<noteq> 92 \<and> ?fc d \<noteq> x \<and> (nocase \<longrightarrow> ?fc d \<noteq> lower x))"
  have step: "UniChar_match counted lower nocase p s = UniChar_star counted skip (UniChar_match counted lower nocase (d # q)) s"
    using 8 t terminated_ended by (subst UniChar_match.simps) (simp add: Let_def skip_def)
  have skip: "\<not> skip c" if "d \<in> {63, 91, 92} \<or> ?fc c = ?fc d" for c
    using that 8(1) ascii_lower_special by (auto simp: skip_def fold_char_def split: if_splits)
  show ?case
  proof (intro exI [of _ "d # q"] conjI allI impI)
    fix g :: "int list \<Rightarrow> bool"
    assume g: "\<forall>s'. terminated counted s' \<longrightarrow> Some (UniChar_match counted lower nocase (d # q) s') = Some (g s')"
      "\<forall>c t. g (c # t) \<longrightarrow> d \<in> {63, 91, 92} \<or> ?fc c = ?fc d"
    have "UniChar_star counted skip (UniChar_match counted lower nocase (d # q)) s \<longleftrightarrow> (\<exists>k\<le>length s. g (drop k s))"
      by (rule UniChar_star_suffix) (use 8(2) g skip in auto)
    then show "Some (UniChar_match counted lower nocase p s) = Some (\<exists>k\<le>length s. g (drop k s))" using step by simp
  qed (use 8 t in auto)
qed



section \<open>Arrays of bytes\<close>

text \<open>
  \<open>TclByteArrayMatch\<close> is given the address of the pattern and its length, and reads the byte at an
  address before it compares the address with the end.  The model has the memory from the pattern
  on, the index of its end and the index reached; reading outside the memory is \<open>None\<close>.
\<close>

definition byte_at :: "int list \<Rightarrow> nat \<Rightarrow> int option" where
  "byte_at m i = (if i < length m then Some (m ! i) else None)"

text \<open>The search in a set: \<open>Some None\<close> where the routine returns 0.\<close>

function ByteArray_set :: "int list \<Rightarrow> nat \<Rightarrow> int \<Rightarrow> nat \<Rightarrow> nat option option" where
  "ByteArray_set m e ch1 i =
     (case byte_at m i of None \<Rightarrow> None
      | Some startChar \<Rightarrow>
        if startChar = 93 \<or> i = e then Some None
        else case byte_at m (Suc i) of None \<Rightarrow> None
        | Some c \<Rightarrow>
          if c = 45 then
            (if i + 2 = e then Some None
             else case byte_at m (i + 2) of None \<Rightarrow> None
             | Some endChar \<Rightarrow>
               if between startChar endChar ch1 then Some (Some (i + 3)) else ByteArray_set m e ch1 (i + 3))
          else if startChar = ch1 then Some (Some (Suc i))
          else ByteArray_set m e ch1 (Suc i))"
  by pat_completeness auto
termination
  by (relation "measure (\<lambda>(m, e, ch1, i). length m - i)") (auto simp: byte_at_def split: if_splits)

function ByteArray_close :: "int list \<Rightarrow> nat \<Rightarrow> nat \<Rightarrow> nat option" where
  "ByteArray_close m e i =
     (case byte_at m i of None \<Rightarrow> None
      | Some c \<Rightarrow> if c = 93 then Some (Suc i) else if i = e then Some i else ByteArray_close m e (Suc i))"
  by pat_completeness auto
termination
  by (relation "measure (\<lambda>(m, e, i). length m - i)") (auto simp: byte_at_def split: if_splits)

declare ByteArray_set.simps [simp del] ByteArray_close.simps [simp del]

lemma ByteArray_set_grows: "ByteArray_set m e ch1 i = Some (Some j) \<Longrightarrow> i < j \<and> j \<le> length m"
proof (induction m e ch1 i arbitrary: j rule: ByteArray_set.induct)
  case (1 m e ch1 i)
  note IH = 1(1,2) and eq = 1(3)
  obtain a where a: "byte_at m i = Some a" "\<not> (a = 93 \<or> i = e)"
    using eq by (subst (asm) ByteArray_set.simps) (auto split: option.splits if_splits)
  obtain c where c: "byte_at m (Suc i) = Some c"
    using eq a by (subst (asm) ByteArray_set.simps) (auto split: option.splits if_splits)
  show ?case
  proof (cases "c = 45")
    case True
    obtain b where b: "byte_at m (i + 2) = Some b" "i + 2 \<noteq> e"
      using eq a c True by (subst (asm) ByteArray_set.simps) (auto split: option.splits if_splits)
    show ?thesis
    proof (cases "between a b ch1")
      case False
      then have "ByteArray_set m e ch1 (i + 3) = Some (Some j)"
        using eq a c b True by (subst (asm) ByteArray_set.simps) simp
      then show ?thesis using IH(1) [OF a c True b(2,1) False] by simp
    next
      case btw: True
      then have "j = i + 3" using eq a c b True by (subst (asm) ByteArray_set.simps) simp
      then show ?thesis using b by (auto simp: byte_at_def split: if_splits)
    qed
  next
    case False
    show ?thesis
    proof (cases "a = ch1")
      case True
      then have "j = Suc i" using eq a c False by (subst (asm) ByteArray_set.simps) simp
      then show ?thesis using c by (auto simp: byte_at_def split: if_splits)
    next
      case ne: False
      then have "ByteArray_set m e ch1 (Suc i) = Some (Some j)"
        using eq a c False by (subst (asm) ByteArray_set.simps) simp
      then show ?thesis using IH(2) [OF a c False ne] by simp
    qed
  qed
qed

lemma ByteArray_close_grows: "ByteArray_close m e i = Some j \<Longrightarrow> i \<le> j"
proof (induction m e i rule: ByteArray_close.induct)
  case (1 m e i)
  then show ?case
    by (subst (asm) (2) ByteArray_close.simps) (fastforce split: option.splits if_splits)
qed

text \<open>The stars of the pattern, and the loop after them.\<close>

function ByteArray_stars :: "int list \<Rightarrow> nat \<Rightarrow> nat \<Rightarrow> nat option" where
  "ByteArray_stars m e i =
     (let i = Suc i in
      if i < e then (case byte_at m i of None \<Rightarrow> None | Some c \<Rightarrow> if c = 42 then ByteArray_stars m e i else Some i)
      else Some i)"
  by pat_completeness auto
termination
  by (relation "measure (\<lambda>(m, e, i). e - i)") auto

declare ByteArray_stars.simps [simp del]

lemma ByteArray_stars_grows: "ByteArray_stars m e i = Some j \<Longrightarrow> i < j"
proof (induction m e i rule: ByteArray_stars.induct)
  case (1 m e i)
  then show ?case
    by (subst (asm) (2) ByteArray_stars.simps) (fastforce simp: Let_def split: option.splits if_splits)
qed

fun ByteArray_star :: "(int \<Rightarrow> bool) \<Rightarrow> (int list \<Rightarrow> bool option) \<Rightarrow> int list \<Rightarrow> bool option" where
  "ByteArray_star skip match [] = match []"
| "ByteArray_star skip match (c # s) =
     (if skip c then ByteArray_star skip match s
      else case match (c # s) of Some False \<Rightarrow> ByteArray_star skip match s | r \<Rightarrow> r)"

function ByteArray_match :: "int list \<Rightarrow> nat \<Rightarrow> nat \<Rightarrow> int list \<Rightarrow> bool option" where
  "ByteArray_match m e i s =
     (if i = e then Some (s = [])
      else case byte_at m i of None \<Rightarrow> None
      | Some p \<Rightarrow>
        if s = [] \<and> p \<noteq> 42 then Some False
        else if p = 42 then
          (case ByteArray_stars m e i of None \<Rightarrow> None
           | Some j \<Rightarrow>
             if j = e then Some True
             else case byte_at m j of None \<Rightarrow> None
             | Some p \<Rightarrow> ByteArray_star (\<lambda>x. p \<noteq> 91 \<and> p \<noteq> 63 \<and> p \<noteq> 92 \<and> p \<noteq> x) (ByteArray_match m e j) s)
        else if p = 63 then ByteArray_match m e (Suc i) (tl s)
        else if p = 91 then
          (case ByteArray_set m e (at s) (Suc i) of None \<Rightarrow> None
           | Some None \<Rightarrow> Some False
           | Some (Some j) \<Rightarrow>
             (case ByteArray_close m e j of None \<Rightarrow> None | Some k \<Rightarrow> ByteArray_match m e k (tl s)))
        else
          (let j = (if p = 92 then Suc i else i) in
           if p = 92 \<and> j = e then Some False
           else case byte_at m j of None \<Rightarrow> None
           | Some d \<Rightarrow> if at s \<noteq> d then Some False else ByteArray_match m e (Suc j) (tl s)))"
  by pat_completeness auto
termination
proof (relation "measure (\<lambda>(m, e, i, s). length m - i)", goal_cases)
  case (2 m e i s)
  then show ?case using ByteArray_stars_grows [of m e i] by (fastforce simp: byte_at_def split: if_splits)
next
  case (3 m e i s)
  then show ?case by (auto simp: byte_at_def split: if_splits)
next
  case (4 m e i s p r j k)
  then show ?case using ByteArray_set_grows [of m e "at s" "Suc i" j] ByteArray_close_grows [of m e j k]
    by (auto simp: byte_at_def split: if_splits)
next
  case (5 m e i s)
  then show ?case by (auto simp: byte_at_def split: if_splits)
qed simp

declare ByteArray_match.simps [simp del]

text \<open>\<open>memory\<close> is the pattern and what lies behind it, \<open>ptnLen\<close> the length of the pattern.\<close>

definition TclByteArrayMatch :: "int list \<Rightarrow> int list \<Rightarrow> nat \<Rightarrow> bool option" where
  "TclByteArrayMatch string memory ptnLen = ByteArray_match memory ptnLen 0 string"



subsection \<open>They decide the relation when the byte behind the pattern is harmless\<close>

abbreviation rest :: "int list \<Rightarrow> nat \<Rightarrow> nat \<Rightarrow> int list" where
  "rest m e i \<equiv> take (e - i) (drop i m)"

definition harmless :: "int list \<Rightarrow> nat \<Rightarrow> bool" where
  "harmless m e \<longleftrightarrow> e < length m \<and> m ! e \<noteq> 45 \<and> m ! e \<noteq> 93"

lemma rest_step: "i < e \<Longrightarrow> e \<le> length m \<Longrightarrow> rest m e i = m ! i # rest m e (Suc i)"
  by (simp add: Cons_nth_drop_Suc [symmetric] Suc_diff_Suc [symmetric])

lemma rest_Nil: "i \<le> e \<Longrightarrow> e \<le> length m \<Longrightarrow> rest m e i = [] \<longleftrightarrow> i = e"
  by auto

lemma rest_Cons: "i \<le> e \<Longrightarrow> e \<le> length m \<Longrightarrow> rest m e i = c # r \<Longrightarrow> i < e \<and> m ! i = c \<and> rest m e (Suc i) = r"
  using rest_step [of i e m] by (cases "i < e") auto

lemma ByteArray_close_after:
  "i \<le> e \<Longrightarrow> harmless m e \<Longrightarrow> \<exists>j\<le>e. ByteArray_close m e i = Some j \<and> rest m e j = after_bracket (rest m e i)"
proof (induction "e - i" arbitrary: i)
  case 0
  then show ?case by (subst ByteArray_close.simps) (auto simp: byte_at_def harmless_def)
next
  case (Suc n)
  then have i: "i < e" "e \<le> length m" "i < length m" by (auto simp: harmless_def)
  show ?case
  proof (cases "m ! i = 93")
    case True
    then show ?thesis using i rest_step [OF i(1,2)]
      by (subst ByteArray_close.simps) (auto simp: byte_at_def)
  next
    case False
    have "n = e - Suc i" "Suc i \<le> e" using Suc(2) i by auto
    from Suc(1) [OF this \<open>harmless m e\<close>] show ?thesis
      using False i rest_step [OF i(1,2)] by (subst ByteArray_close.simps) (auto simp: byte_at_def)
  qed
qed

lemma ByteArray_set_in:
  "i \<le> e \<Longrightarrow> harmless m e \<Longrightarrow>
     (case ByteArray_set m e ch i of None \<Rightarrow> False
      | Some None \<Rightarrow> in_set (\<lambda>c. c) ch (rest m e i) = None
      | Some (Some j) \<Rightarrow> j \<le> e \<and> in_set (\<lambda>c. c) ch (rest m e i) = Some (after_bracket (rest m e j)))"
proof (induction m e ch i rule: ByteArray_set.induct)
  case (1 m e ch i)
  note IH = 1(1,2) and h = 1(3,4)
  have e: "e \<le> length m" "e < length m" "m ! e \<noteq> 45" "m ! e \<noteq> 93" using h by (auto simp: harmless_def)
  show ?case
  proof (cases "i = e")
    case True
    then show ?thesis using e by (subst ByteArray_set.simps) (simp add: byte_at_def)
  next
    case ie: False
    then have i: "i < e" "Suc i < length m" using h e by auto
    have a: "byte_at m i = Some (m ! i)" and c: "byte_at m (Suc i) = Some (m ! Suc i)" using i by (auto simp: byte_at_def)
    have r: "rest m e i = m ! i # rest m e (Suc i)" using rest_step [OF i(1) e(1)] .
    show ?thesis
    proof (cases "m ! i = 93")
      case True
      then show ?thesis using a r by (subst ByteArray_set.simps) (cases "rest m e (Suc i)"; simp)
    next
      case ne: False
      then have nd: "\<not> (m ! i = 93 \<or> i = e)" using ie by simp
      show ?thesis
      proof (cases "m ! Suc i = 45")
        case True
        then have "Suc i \<noteq> e" using e by auto
        then have i2: "Suc i < e" using i by simp
        then have r2: "rest m e (Suc i) = 45 # rest m e (i + 2)" using rest_step [of "Suc i" e m] e True by simp
        show ?thesis
        proof (cases "i + 2 = e")
          case at_e: True
          then show ?thesis using a c ne ie True r r2 by (subst ByteArray_set.simps) simp
        next
          case False
          then have i3: "i + 2 < e" using i2 by simp
          then have b: "byte_at m (i + 2) = Some (m ! (i + 2))" using e by (simp add: byte_at_def)
          have r3: "rest m e (i + 2) = m ! (i + 2) # rest m e (i + 3)" using rest_step [OF i3 e(1)] by (simp add: eval_nat_numeral)
          show ?thesis
          proof (cases "between (m ! i) (m ! (i + 2)) ch")
            case btw: True
            then show ?thesis using a b c ne ie False True i3 r3 by (subst ByteArray_set.simps) (simp add: r r2)
          next
            case nb: False
            have "i + 3 \<le> e" using i3 by simp
            note IH = IH(1) [OF a nd c True False b nb this h(2)]
            have "in_set (\<lambda>c. c) ch (rest m e i) = in_set (\<lambda>c. c) ch (rest m e (i + 3))"
              using ne nb r3 by (simp add: r r2)
            moreover have "ByteArray_set m e ch i = ByteArray_set m e ch (i + 3)"
              using a b c ne ie False True nb by (subst ByteArray_set.simps) simp
            ultimately show ?thesis using IH by (simp only:)
          qed
        qed
      next
        case nr: False
        have le: "Suc i \<le> e" using i by simp
        have no_range: "in_set (\<lambda>c. c) ch (rest m e i)
            = (if m ! i = ch then Some (after_bracket (rest m e (Suc i))) else in_set (\<lambda>c. c) ch (rest m e (Suc i)))"
          using r ne nr rest_Cons [OF le e(1)] by (cases "rest m e (Suc i)") auto
        show ?thesis
        proof (cases "m ! i = ch")
          case True
          then show ?thesis using a c ne ie nr no_range le by (subst ByteArray_set.simps) simp
        next
          case False
          have "ByteArray_set m e ch i = ByteArray_set m e ch (Suc i)"
            using a c ne ie nr False by (subst ByteArray_set.simps) simp
          moreover have "in_set (\<lambda>c. c) ch (rest m e i) = in_set (\<lambda>c. c) ch (rest m e (Suc i))"
            using no_range False by simp
          ultimately show ?thesis using IH(2) [OF a nd c nr False le h(2)] by (simp only:)
        qed
      qed
    qed
  qed
qed


text \<open>The loop after a star tries the pattern on every suffix, as the loop for wide characters does.\<close>

lemma ByteArray_star_wide:
  "\<forall>t. match t = Some (g t) \<Longrightarrow> ByteArray_star skip match s = Some (UniChar_star True skip g s)"
  by (induction s) (auto split: option.split bool.split)

lemma ByteArray_stars_dropWhile:
  "i < e \<Longrightarrow> e \<le> length m \<Longrightarrow>
     \<exists>j\<le>e. ByteArray_stars m e i = Some j \<and> rest m e j = dropWhile (\<lambda>x. x = 42) (rest m e (Suc i))"
proof (induction m e i rule: ByteArray_stars.induct)
  case (1 m e i)
  show ?case
  proof (cases "Suc i < e")
    case False
    then show ?thesis using 1 by (subst ByteArray_stars.simps) auto
  next
    case True
    then have b: "byte_at m (Suc i) = Some (m ! Suc i)" using 1 by (simp add: byte_at_def)
    show ?thesis
    proof (cases "m ! Suc i = 42")
      case st: True
      from 1(1) [OF refl True b st True 1(3)] show ?thesis
        using True b st rest_step [OF True 1(3)] by (subst ByteArray_stars.simps) (simp add: Let_def)
    next
      case False
      then show ?thesis using True b rest_step [OF True 1(3)]
        by (subst ByteArray_stars.simps) (simp add: Let_def)
    qed
  qed
qed

interpretation bytes: glob_matcher "ByteArray_match m e" "rest m e" "\<lambda>s. s"
  "\<lambda>c. c" "\<lambda>i. i \<le> e \<and> harmless m e" "\<lambda>s. True" for m :: "int list" and e :: nat
proof (unfold_locales, goal_cases)
  case (1 i s)
  then show ?case using rest_Nil [of i e m] by (subst ByteArray_match.simps) (simp add: harmless_def)
next
  case (2 i s d r)
  then have "i < e \<and> m ! i = d \<and> rest m e (Suc i) = r" by (intro rest_Cons) (auto simp: harmless_def)
  then show ?case using 2 by (subst ByteArray_match.simps) (simp add: harmless_def byte_at_def)
next
  case (3 i s r c t)
  then have i: "i < e \<and> m ! i = 63 \<and> rest m e (Suc i) = r" by (intro rest_Cons) (auto simp: harmless_def)
  then have "ByteArray_match m e i s = ByteArray_match m e (Suc i) t"
    using 3 by (subst ByteArray_match.simps) (simp add: harmless_def byte_at_def)
  then show ?case using 3 i by (intro exI [of _ "Suc i"] exI [of _ t]) auto
next
  case (4 i s r c t)
  then have i: "i < e \<and> m ! i = 91 \<and> rest m e (Suc i) = r" by (intro rest_Cons) (auto simp: harmless_def)
  then have le: "Suc i \<le> e" by simp
  have h: "harmless m e" using 4 by simp
  have step: "ByteArray_match m e i s =
      (case ByteArray_set m e c (Suc i) of None \<Rightarrow> None | Some None \<Rightarrow> Some False
       | Some (Some j) \<Rightarrow> (case ByteArray_close m e j of None \<Rightarrow> None | Some k \<Rightarrow> ByteArray_match m e k t))"
    using 4 i by (subst ByteArray_match.simps) (simp add: harmless_def byte_at_def cong: option.case_cong)
  show ?case
  proof (cases "ByteArray_set m e c (Suc i)")
    case None
    then show ?thesis using ByteArray_set_in [OF le h, of c] by simp
  next
    case (Some r')
    show ?thesis
    proof (cases r')
      case None
      then show ?thesis using ByteArray_set_in [OF le h, of c] Some i step by simp
    next
      case s: (Some j)
      then have j: "j \<le> e" "in_set (\<lambda>c. c) c r = Some (after_bracket (rest m e j))"
        using ByteArray_set_in [OF le h, of c] Some i by auto
      from ByteArray_close_after [OF j(1) h] obtain k where
        "k \<le> e" "ByteArray_close m e j = Some k" "rest m e k = after_bracket (rest m e j)" by blast
      then show ?thesis using j step Some s h by auto
    qed
  qed
next
  case (5 i s c t)
  then have "i < e \<and> m ! i = 92 \<and> rest m e (Suc i) = []" by (intro rest_Cons) (auto simp: harmless_def)
  moreover from this have "Suc i = e" using 5 by (auto simp: harmless_def)
  ultimately show ?case using 5
    by (subst ByteArray_match.simps) (simp add: harmless_def byte_at_def)
next
  case (6 i s d r c t)
  from 6(3) show ?case
  proof
    assume p: "rest m e i = 92 # d # r"
    then have i: "i < e \<and> m ! i = 92 \<and> rest m e (Suc i) = d # r" using 6 by (intro rest_Cons) (auto simp: harmless_def)
    then have "Suc i < e \<and> m ! Suc i = d \<and> rest m e (Suc (Suc i)) = r" using 6 by (intro rest_Cons) (auto simp: harmless_def)
    moreover from this have "ByteArray_match m e i s = (if c \<noteq> d then Some False else ByteArray_match m e (Suc (Suc i)) t)"
      using 6 i by (subst ByteArray_match.simps) (simp add: harmless_def byte_at_def)
    ultimately show ?thesis using 6 by (auto intro!: exI [of _ "Suc (Suc i)"])
  next
    assume p: "rest m e i = d # r \<and> d \<notin> {42, 63, 91, 92}"
    then have i: "i < e \<and> m ! i = d \<and> rest m e (Suc i) = r" using 6 by (intro rest_Cons) (auto simp: harmless_def)
    moreover from this have "ByteArray_match m e i s = (if c \<noteq> d then Some False else ByteArray_match m e (Suc i) t)"
      using 6 p by (subst ByteArray_match.simps) (simp add: harmless_def byte_at_def)
    ultimately show ?thesis using 6 by (auto intro!: exI [of _ "Suc i"])
  qed
next
  case (7 i s r)
  then have i: "i < e \<and> m ! i = 42 \<and> rest m e (Suc i) = r" by (intro rest_Cons) (auto simp: harmless_def)
  then obtain j where "j \<le> e" "ByteArray_stars m e i = Some j" "rest m e j = []"
    using ByteArray_stars_dropWhile [of i e m] 7 by (auto simp: harmless_def)
  then show ?case using i 7 rest_Nil [of j e m]
    by (subst ByteArray_match.simps) (simp add: harmless_def byte_at_def)
next
  case (8 i s r d q)
  then have i: "i < e \<and> m ! i = 42 \<and> rest m e (Suc i) = r" by (intro rest_Cons) (auto simp: harmless_def)
  then obtain j where j: "j \<le> e" "ByteArray_stars m e i = Some j" "rest m e j = d # q"
    using ByteArray_stars_dropWhile [of i e m] 8 by (auto simp: harmless_def)
  then have d: "j < e \<and> m ! j = d \<and> rest m e (Suc j) = q" using 8 by (intro rest_Cons) (auto simp: harmless_def)
  define skip where "skip = (\<lambda>x. d \<noteq> 91 \<and> d \<noteq> 63 \<and> d \<noteq> 92 \<and> d \<noteq> x)"
  have step: "ByteArray_match m e i s = ByteArray_star skip (ByteArray_match m e j) s"
    using 8 i j d by (subst ByteArray_match.simps) (simp add: harmless_def byte_at_def skip_def)
  show ?case
  proof (intro exI [of _ j] conjI allI impI)
    fix g :: "int list \<Rightarrow> bool"
    assume g: "\<forall>s'. True \<longrightarrow> ByteArray_match m e j s' = Some (g s')"
      "\<forall>c t. g (c # t) \<longrightarrow> d \<in> {63, 91, 92} \<or> c = d"
    have "UniChar_star True skip g s \<longleftrightarrow> (\<exists>k\<le>length s. g (drop k s))"
      by (rule UniChar_star_suffix) (use g skip_def in \<open>auto simp: terminated_def\<close>)
    then show "ByteArray_match m e i s = Some (\<exists>k\<le>length s. g (drop k s))"
      using step ByteArray_star_wide [of "ByteArray_match m e j" g skip s] g by simp
  qed (use 8 j in auto)
qed



section \<open>Strings in UTF-8\<close>

text \<open>
  \<open>Tcl_StringCaseMatch\<close> has the pattern from \<open>pstart\<close> on and the index reached in it: at the end of
  a set without a close bracket it goes back with \<open>Tcl_UtfPrev\<close>, then forward by one byte.  The
  characters it compares are read one way in sets and behind stars, and with the macro elsewhere.
\<close>

definition StringCase_char :: "(int \<Rightarrow> int) \<Rightarrow> bool \<Rightarrow> string \<Rightarrow> int \<times> nat" where
  "StringCase_char lower nocase s =
     (if rd s 0 < 0x80 then (if nocase then tolower (rd s 0) else rd s 0, 1)
      else (case Tcl_UtfToUniChar s of (ch, n) \<Rightarrow> (if nocase then lower ch else ch, n)))"

lemma StringCase_char_pos: "0 < snd (StringCase_char lower nocase s)"
  using Tcl_UtfToUniChar_pos [of s] by (cases "Tcl_UtfToUniChar s") (simp add: StringCase_char_def)

function StringCase_set :: "(int \<Rightarrow> int) \<Rightarrow> bool \<Rightarrow> int \<Rightarrow> string \<Rightarrow> nat \<Rightarrow> nat option" where
  "StringCase_set lower nocase ch1 pattern i =
     (if rd pattern i = 93 \<or> rd pattern i = 0 then None
      else case StringCase_char lower nocase (drop i pattern) of (startChar, n) \<Rightarrow>
        let i = i + n in
        if rd pattern i = 45 then
          (let i = Suc i in
           if rd pattern i = 0 then None
           else case StringCase_char lower nocase (drop i pattern) of (endChar, n) \<Rightarrow>
             let i = i + n in
             if between startChar endChar ch1 then Some i else StringCase_set lower nocase ch1 pattern i)
        else if startChar = ch1 then Some i
        else StringCase_set lower nocase ch1 pattern i)"
  by pat_completeness auto
termination
proof (relation "measure (\<lambda>(lower, nocase, ch1, pattern, i). length pattern - i)", goal_cases)
  case 2
  then show ?case using rd_length_nonzero by fastforce
next
  case (3 lower nocase ch1 pattern i)
  then show ?case using rd_length_nonzero [of pattern i] StringCase_char_pos [of lower nocase "drop i pattern"]
    by (cases "StringCase_char lower nocase (drop i pattern)") simp
qed simp

function StringCase_close :: "string \<Rightarrow> nat \<Rightarrow> nat" where
  "StringCase_close pattern i =
     (if rd pattern i = 93 then Suc i
      else if rd pattern i = 0 then Suc (nat (Tcl_UtfPrev pattern (int i) 0))
      else StringCase_close pattern (Suc i))"
  by pat_completeness auto
termination
  by (relation "measure (\<lambda>(pattern, i). length pattern - i)") (auto dest: rd_length_nonzero)

function StringCase_star :: "bool \<Rightarrow> (int \<Rightarrow> bool) \<Rightarrow> (string \<Rightarrow> bool) \<Rightarrow> string \<Rightarrow> bool" where
  "StringCase_star sc skip match s =
     (if rd s 0 = 0 then match s
      else case TclUtfToUniChar sc s of (ch1, n) \<Rightarrow>
        if skip ch1 then StringCase_star sc skip match (drop n s)
        else match s \<or> StringCase_star sc skip match (drop n s))"
  by pat_completeness auto
termination
proof (relation "measure (\<lambda>(sc, skip, match, s). length s)", goal_cases)
  case (2 sc skip match s)
  then show ?case using rd_length_nonzero [of s 0] TclUtfToUniChar_pair_pos by fastforce
next
  case (3 sc skip match s)
  then show ?case using rd_length_nonzero [of s 0] TclUtfToUniChar_pair_pos by fastforce
qed simp

declare StringCase_set.simps [simp del] StringCase_close.simps [simp del] StringCase_star.simps [simp del]

text \<open>The pattern is left behind the open bracket, whatever bytes there are.\<close>

lemma StringCase_set_grows: "StringCase_set lower nocase ch1 pattern i = Some j \<Longrightarrow> i < j"
proof (induction lower nocase ch1 pattern i rule: StringCase_set.induct)
  case (1 lower nocase ch1 pattern i)
  note IH = 1(1,2) and eq = 1(3)
  obtain c n where c: "StringCase_char lower nocase (drop i pattern) = (c, n)" by (cases "StringCase_char lower nocase (drop i pattern)")
  obtain d k where d: "StringCase_char lower nocase (drop (Suc (i + n)) pattern) = (d, k)"
    by (cases "StringCase_char lower nocase (drop (Suc (i + n)) pattern)")
  have pos: "0 < n" using StringCase_char_pos [of lower nocase "drop i pattern"] c by simp
  have nz: "\<not> (rd pattern i = 93 \<or> rd pattern i = 0)" using eq by (subst (asm) StringCase_set.simps) (auto split: if_splits)
  show ?case
  proof (cases "rd pattern (i + n) = 45")
    case True
    then have nz': "rd pattern (Suc (i + n)) \<noteq> 0" using eq c nz by (subst (asm) StringCase_set.simps) (auto split: if_splits)
    show ?thesis
    proof (cases "between c d ch1")
      case btw: True
      then show ?thesis using eq c d nz nz' True by (subst (asm) StringCase_set.simps) simp
    next
      case False
      then have "StringCase_set lower nocase ch1 pattern (Suc (i + n) + k) = Some j"
        using eq c d nz nz' True by (subst (asm) StringCase_set.simps) simp
      then show ?thesis using IH(1) [OF nz c [symmetric] refl True refl nz' d [symmetric] refl False] by simp
    qed
  next
    case False
    show ?thesis
    proof (cases "c = ch1")
      case True
      then show ?thesis using eq c nz False pos by (subst (asm) StringCase_set.simps) simp
    next
      case ne: False
      then have "StringCase_set lower nocase ch1 pattern (i + n) = Some j"
        using eq c nz False by (subst (asm) StringCase_set.simps) simp
      then show ?thesis using IH(2) [OF nz c [symmetric] refl False ne] by simp
    qed
  qed
qed

lemma UtfPrev_loop_behind:
  "0 \<le> a \<Longrightarrow> rd s (nat a) < 0x80 \<Longrightarrow> a \<le> look \<Longrightarrow> a < src \<Longrightarrow> a < UtfPrev_loop s 0 src look n"
proof (induction n arbitrary: look)
  case (Suc n)
  show ?case
  proof (cases "look = a")
    case False
    then have "a < look" "a \<le> look - 1" using Suc.prems by auto
    then show ?thesis using Suc by (simp add: Let_def)
  qed (use Suc.prems in \<open>simp add: Let_def\<close>)
qed simp

lemma UtfPrev_behind: "rd s a < 0x80 \<Longrightarrow> Suc a < i \<Longrightarrow> a < nat (Tcl_UtfPrev s (int i) 0)"
  using UtfPrev_loop_behind [of "int a" s "int i - 1" "int i - 1" 3] by (simp add: Tcl_UtfPrev_def)

lemma StringCase_close_behind:
  "rd pattern a < 0x80 \<Longrightarrow> Suc a < i \<Longrightarrow> a < StringCase_close pattern i"
proof (induction pattern i rule: StringCase_close.induct)
  case (1 pattern i)
  then show ?case using UtfPrev_behind [of pattern a i]
    by (subst StringCase_close.simps) simp
qed

function StringCase_match :: "bool \<Rightarrow> (int \<Rightarrow> int) \<Rightarrow> bool \<Rightarrow> string \<Rightarrow> nat \<Rightarrow> string \<Rightarrow> bool" where
  "StringCase_match sc lower nocase pattern i str =
     (let p = rd pattern i in
      if p = 0 then rd str 0 = 0
      else if rd str 0 = 0 \<and> p \<noteq> 42 then False
      else if p = 42 then
        (let rest = dropWhile (\<lambda>c. c = CHR ''*'') (drop (Suc i) pattern); p = rd rest 0 in
         if p = 0 then True
         else let ch2 = fst (StringCase_char lower nocase rest) in
           StringCase_star sc
             (\<lambda>ch1. p \<noteq> 91 \<and> p \<noteq> 63 \<and> p \<noteq> 92 \<and> \<not> (ch2 = ch1 \<or> nocase \<and> ch2 = lower ch1))
             (StringCase_match sc lower nocase rest 0) str)
      else if p = 63 then
        StringCase_match sc lower nocase pattern (Suc i) (drop (snd (TclUtfToUniChar sc str)) str)
      else if p = 91 then
        (case StringCase_char lower nocase str of (ch1, n) \<Rightarrow>
           case StringCase_set lower nocase ch1 pattern (Suc i) of
             None \<Rightarrow> False
           | Some j \<Rightarrow> StringCase_match sc lower nocase pattern (StringCase_close pattern j) (drop n str))
      else
        (let i = (if p = 92 then Suc i else i) in
         if p = 92 \<and> rd pattern i = 0 then False
         else case TclUtfToUniChar sc str of (ch1, n) \<Rightarrow>
           case TclUtfToUniChar sc (drop i pattern) of (ch2, k) \<Rightarrow>
             if (if nocase then lower ch1 \<noteq> lower ch2 else ch1 \<noteq> ch2) then False
             else StringCase_match sc lower nocase pattern (i + k) (drop n str)))"
  by pat_completeness auto
termination
proof (relation "measure (\<lambda>(sc, lower, nocase, pattern, i, str). length pattern - i)", goal_cases)
  case (2 sc lower nocase pattern i)
  then have "i < length pattern" using rd_length_nonzero [of pattern i] by simp
  then show ?case using 2 length_dropWhile_le [of "\<lambda>c. c = CHR ''*''" "drop (Suc i) pattern"] by simp
next
  case (3 sc lower nocase pattern i)
  then show ?case using rd_length_nonzero [of pattern i] by simp
next
  case (4 sc lower nocase pattern i str p ch1 n j)
  then have "i < StringCase_close pattern j" "i < length pattern"
    using rd_length_nonzero [of pattern i] StringCase_set_grows [of lower nocase ch1 pattern "Suc i" j]
      StringCase_close_behind [of pattern i j] by auto
  then show ?case by simp
next
  case (5 sc lower nocase pattern i str p j ch1 n ch2 k)
  then have "i < length pattern" "i \<le> j" "0 < k"
    using rd_length_nonzero [of pattern i] TclUtfToUniChar_pair_pos [of ch2 k sc "drop j pattern"] by auto
  then show ?case by simp
qed simp

declare StringCase_match.simps [simp del]

definition Tcl_StringCaseMatch :: "bool \<Rightarrow> (int \<Rightarrow> int) \<Rightarrow> string \<Rightarrow> string \<Rightarrow> bool \<Rightarrow> bool" where
  "Tcl_StringCaseMatch sc lower str pattern nocase = StringCase_match sc lower nocase pattern 0 str"



subsection \<open>They decide the relation on encoded characters\<close>

lemma rd_utf_zero: "uchars p \<Longrightarrow> rd (utf_string p) 0 = 0 \<longleftrightarrow> p = []"
  by (cases p) (auto simp: rd_UniCharToUtf_lead(2))

lemma rd_utf_ascii: "uchars p \<Longrightarrow> 0 < k \<Longrightarrow> k < 128 \<Longrightarrow> rd (utf_string p) 0 = k \<longleftrightarrow> at p = k"
proof (cases p)
  case (Cons c r)
  assume a: "uchars p" "0 < k" "k < 128"
  then have "0 \<le> c div 64" "0 \<le> c div 4096" using Cons by (auto simp: pos_imp_zdiv_nonneg_iff)
  then show ?thesis using a Cons by (auto simp: rd_UniCharToUtf)
qed auto

lemma StringCase_char_utf:
  assumes "uchar c" "nocase \<longrightarrow> ascii_lower lower"
  shows "StringCase_char lower nocase (utf_string (c # r)) = (fold_char lower nocase c, length (Tcl_UniCharToUtf c))"
proof (cases "0 < c \<and> c < 128")
  case True
  then have "Tcl_UniCharToUtf c = [char_of c]" by (simp add: Tcl_UniCharToUtf_arith)
  then show ?thesis using True assms by (auto simp: StringCase_char_def fold_char_def ascii_lower_def)
next
  case False
  then have "\<not> rd (utf_string (c # r)) 0 < 128"
    using assms(1) rd_UniCharToUtf_lead [OF assms(1)] by (auto simp: rd_UniCharToUtf pos_imp_zdiv_nonneg_iff)
  then show ?thesis using assms(1) by (simp add: StringCase_char_def fold_char_def utf.dec_enc)
qed

lemma dropWhile_utf: "uchars p \<Longrightarrow> dropWhile (\<lambda>c. c = CHR ''*'') (utf_string p) = utf_string (dropWhile (\<lambda>x. x = 42) p)"
proof (induction p)
  case (Cons c p)
  have star: "Tcl_UniCharToUtf 42 = ''*''" by code_simp
  show ?case
  proof (cases "c = 42")
    case True
    then show ?thesis using Cons star by simp
  next
    case False
    obtain b bs where b: "utf_string (c # p) = b # bs" by (cases "utf_string (c # p)") auto
    have "rd (utf_string (c # p)) 0 \<noteq> 42" using rd_utf_ascii [of "c # p" 42] Cons.prems False by simp
    then have "b \<noteq> CHR ''*''" unfolding b by auto
    then show ?thesis using False b by simp
  qed
qed simp

text \<open>The index of a suffix \<open>r\<close> of the characters \<open>p\<close> in the text of \<open>p\<close>.\<close>

definition pos :: "int list \<Rightarrow> int list \<Rightarrow> nat" where
  "pos p r = length (utf_string p) - length (utf_string r)"

lemma pos_append: "pos (q @ r) r = length (utf_string q)"
  by (simp add: pos_def)

lemma pos_self [simp]: "pos p p = 0"
  by (simp add: pos_def)

lemma drop_pos: "suffix r p \<Longrightarrow> drop (pos p r) (utf_string p) = utf_string r"
  by (auto simp: suffix_def pos_append)

lemma rd_pos: "suffix r p \<Longrightarrow> rd (utf_string p) (pos p r) = rd (utf_string r) 0"
  using drop_pos [of r p] rd_drop [of "pos p r" "utf_string p" 0] by simp

lemma pos_step: "suffix (c # r) p \<Longrightarrow> pos p (c # r) + length (Tcl_UniCharToUtf c) = pos p r"
  by (auto simp: suffix_def pos_def)

lemma pos_step_ascii: "suffix (c # r) p \<Longrightarrow> 0 < c \<Longrightarrow> c < 128 \<Longrightarrow> Suc (pos p (c # r)) = pos p r"
  using pos_step [of c r p] by (simp add: Tcl_UniCharToUtf_arith)

lemma suffix_uchars: "suffix r p \<Longrightarrow> uchars p \<Longrightarrow> uchars r"
  by (auto simp: suffix_def)

lemma rd_pos_zero: "uchars p \<Longrightarrow> suffix r p \<Longrightarrow> rd (utf_string p) (pos p r) = 0 \<longleftrightarrow> r = []"
  using rd_pos [of r p] rd_utf_zero [of r] suffix_uchars by metis

lemma rd_pos_ascii:
  "uchars p \<Longrightarrow> suffix r p \<Longrightarrow> 0 < k \<Longrightarrow> k < 128 \<Longrightarrow> rd (utf_string p) (pos p r) = k \<longleftrightarrow> at r = k"
  using rd_pos [of r p] rd_utf_ascii [of r k] suffix_uchars by metis

lemma StringCase_set_utf:
  assumes "uchars p" "nocase \<longrightarrow> ascii_lower lower" "suffix r p"
  shows "StringCase_set lower nocase ch (utf_string p) (pos p r) =
    map_option (pos p) (UniChar_set True (fold_char lower nocase) ch r)"
  using assms(3)
proof (induction "length r" arbitrary: r rule: less_induct)
  case less
  note sfx = less.prems
  then have u: "uchars r" using suffix_uchars assms(1) by blast
  show ?case
  proof (cases "at r = 93 \<or> r = []")
    case True
    then show ?thesis using UniChar_set_end [of r True] rd_utf_ascii [OF u, of 93] rd_utf_zero [OF u] rd_pos [OF sfx]
      by (subst StringCase_set.simps) (auto simp: ended_def)
  next
    case False
    then obtain c r' where r: "r = c # r'" by (cases r) auto
    then have s1: "suffix r' p" and u1: "uchar c" "uchars r'" using sfx suffix_ConsD u by auto
    have nz: "\<not> (rd (utf_string p) (pos p r) = 93 \<or> rd (utf_string p) (pos p r) = 0)"
      using False rd_utf_ascii [OF u, of 93] rd_utf_zero [OF u] rd_pos [OF sfx] by simp
    have c: "StringCase_char lower nocase (drop (pos p r) (utf_string p)) = (fold_char lower nocase c, length (Tcl_UniCharToUtf c))"
      using StringCase_char_utf [of c nocase lower r'] u1 assms r drop_pos [OF sfx] by simp
    have p1: "pos p r + length (Tcl_UniCharToUtf c) = pos p r'" using pos_step sfx r by simp
    show ?thesis
    proof (cases "at r' = 45")
      case d: False
      then have "rd (utf_string p) (pos p r') \<noteq> 45" using rd_utf_ascii [OF u1(2), of 45] rd_pos [OF s1] by simp
      moreover have "UniChar_set True (fold_char lower nocase) ch r =
          (if fold_char lower nocase c = ch then Some r' else UniChar_set True (fold_char lower nocase) ch r')"
        unfolding r by (rule UniChar_set_char) (use False r d in \<open>auto simp: ended_def\<close>)
      moreover have "StringCase_set lower nocase ch (utf_string p) (pos p r') =
          map_option (pos p) (UniChar_set True (fold_char lower nocase) ch r')" using less.hyps s1 r by simp
      ultimately show ?thesis using nz c p1 by (subst StringCase_set.simps) (simp add: Let_def)
    next
      case True
      then obtain r2 where r2: "r' = 45 # r2" by (cases r') auto
      then have s2: "suffix r2 p" and u2: "uchars r2" using s1 suffix_ConsD u1 by auto
      have d: "rd (utf_string p) (pos p r') = 45" using True rd_utf_ascii [OF u1(2), of 45] rd_pos [OF s1] by simp
      have p2: "Suc (pos p r') = pos p r2" using pos_step_ascii s1 r2 by simp
      have range: "UniChar_set True (fold_char lower nocase) ch r =
          (if r2 = [] then None
           else if between (fold_char lower nocase c) (fold_char lower nocase (at r2)) ch then Some (tl r2)
           else UniChar_set True (fold_char lower nocase) ch (tl r2))"
        unfolding r r2 by (subst UniChar_set_range) (use False r in \<open>auto simp: ended_def\<close>)
      show ?thesis
      proof (cases r2)
        case Nil
        then have "rd (utf_string p) (pos p r2) = 0" using rd_pos [OF s2] by simp
        then show ?thesis using range Nil nz c p1 d p2 by (subst StringCase_set.simps) (simp add: Let_def)
      next
        case (Cons e r3)
        then have s3: "suffix r3 p" and ue: "uchar e" using s2 suffix_ConsD u2 by auto
        have e: "StringCase_char lower nocase (drop (pos p r2) (utf_string p)) = (fold_char lower nocase e, length (Tcl_UniCharToUtf e))"
          using StringCase_char_utf [of e nocase lower r3] ue assms Cons drop_pos [OF s2] by simp
        have p3: "pos p r2 + length (Tcl_UniCharToUtf e) = pos p r3" using pos_step s2 Cons by simp
        have "rd (utf_string p) (pos p r2) \<noteq> 0" using rd_pos [OF s2] rd_utf_zero [OF u2] Cons by simp
        moreover have "StringCase_set lower nocase ch (utf_string p) (pos p r3) =
            map_option (pos p) (UniChar_set True (fold_char lower nocase) ch r3)" using less.hyps s3 r r2 Cons by simp
        ultimately show ?thesis using range Cons nz c p1 d p2 e p3 by (subst StringCase_set.simps) (simp add: Let_def)
      qed
    qed
  qed
qed


text \<open>The way to the close bracket passes over the bytes of the characters.\<close>

lemma StringCase_close_skip:
  "\<forall>j<k. rd pattern (i + j) \<noteq> 93 \<and> rd pattern (i + j) \<noteq> 0 \<Longrightarrow>
     StringCase_close pattern i = StringCase_close pattern (i + k)"
proof (induction k arbitrary: i)
  case (Suc k)
  have "StringCase_close pattern i = StringCase_close pattern (Suc i)"
    using Suc.prems [rule_format, of 0] by (subst StringCase_close.simps) simp
  also have "\<dots> = StringCase_close pattern (Suc i + k)"
    using Suc.prems by (intro Suc.IH) (metis Suc_less_eq add_Suc_right add_Suc)
  finally show ?case by simp
qed simp

lemma no_bracket_UniCharToUtf:
  assumes "uchar c" "c \<noteq> 93"
  shows "CHR '']'' \<notin> set (Tcl_UniCharToUtf c)"
proof -
  have o: "of_char CHR '']'' = (93 :: int)" by simp
  have 1: "CHR '']'' \<noteq> char_of (0x80 + x mod 64)" for x :: int
  proof
    assume "CHR '']'' = char_of (0x80 + x mod 64)"
    then have "(93 :: int) = of_char (char_of (0x80 + x mod 64) :: char)" by (metis o)
    then show False by (simp add: trail_mod(1))
  qed
  have 2: "CHR '']'' \<noteq> char_of q" if "0 \<le> q" "q < 256" "q \<noteq> 93" for q :: int
  proof
    assume "CHR '']'' = char_of q"
    then have "(93 :: int) = of_char (char_of q :: char)" by (metis o)
    then show False using that by simp
  qed
  from assms(1) show ?thesis by (cases rule: enc_cases) (simp_all add: 1 2 assms(2))
qed

lemma StringCase_close_utf:
  assumes "uchars p" "p \<noteq> []" "0 < last p" "last p < 128" "suffix r p"
  shows "StringCase_close (utf_string p) (pos p r) = pos p (UniChar_close True r)"
  using assms(5)
proof (induction r)
  case Nil
  from assms(2) have p: "p = butlast p @ [last p]" by simp
  have b: "Tcl_UniCharToUtf (last p) = [char_of (last p)]" using assms(3,4) by (simp add: Tcl_UniCharToUtf_arith)
  have l: "length (utf_string p) = Suc (length (utf_string (butlast p)))" by (subst p) (simp add: b)
  have "Tcl_UtfPrev (utf_string (butlast p) @ Tcl_UniCharToUtf (last p) @ []) 
      (int (length (utf_string (butlast p)) + length (Tcl_UniCharToUtf (last p)))) 0 = int (length (utf_string (butlast p)))"
    by (rule UtfPrev_encoded) (use assms(3,4) in auto)
  then have "Tcl_UtfPrev (utf_string p) (int (length (utf_string p))) 0 = int (length (utf_string (butlast p)))"
    unfolding l by (subst p) (simp add: b)
  moreover have "pos p [] = length (utf_string p)" "rd (utf_string p) (length (utf_string p)) = 0"
    by (simp_all add: pos_def rd_def)
  ultimately show ?case using l by (subst StringCase_close.simps, subst UniChar_close.simps) simp
next
  case (Cons c r)
  then have s: "suffix r p" and u: "uchar c" "uchars (c # r)" using suffix_ConsD suffix_uchars [OF Cons.prems assms(1)] by auto
  show ?case
  proof (cases "c = 93")
    case True
    then have "rd (utf_string p) (pos p (c # r)) = 93" using rd_pos [OF Cons.prems] rd_utf_ascii [OF u(2), of 93] by simp
    then show ?thesis using pos_step_ascii [OF Cons.prems] True
      by (subst StringCase_close.simps, subst UniChar_close.simps) simp
  next
    case False
    have "rd (utf_string p) (pos p (c # r) + j) \<noteq> 93 \<and> rd (utf_string p) (pos p (c # r) + j) \<noteq> 0"
      if "j < length (Tcl_UniCharToUtf c)" for j
    proof -
      have "rd (utf_string p) (pos p (c # r) + j) = rd (drop (pos p (c # r)) (utf_string p)) j" by (simp add: rd_drop)
      also have "\<dots> = of_char (Tcl_UniCharToUtf c ! j)" using that drop_pos [OF Cons.prems] by (simp add: rd_def nth_append)
      finally have e: "rd (utf_string p) (pos p (c # r) + j) = of_char (Tcl_UniCharToUtf c ! j)" .
      have m: "Tcl_UniCharToUtf c ! j \<in> set (Tcl_UniCharToUtf c)" using that by simp
      have "of_char (Tcl_UniCharToUtf c ! j) \<noteq> (93 :: int)"
      proof
        assume "of_char (Tcl_UniCharToUtf c ! j) = (93 :: int)"
        then have "of_char (Tcl_UniCharToUtf c ! j) = (of_char CHR '']'' :: int)" by simp
        then have "Tcl_UniCharToUtf c ! j = CHR '']''" by (simp only: of_char_eq_iff)
        then show False using m no_bracket_UniCharToUtf [OF u(1) False] by simp
      qed
      moreover have "of_char (Tcl_UniCharToUtf c ! j) \<noteq> (0 :: int)"
        using m no_NUL_UniCharToUtf [OF u(1)] by auto
      ultimately show ?thesis using e by simp
    qed
    then have "StringCase_close (utf_string p) (pos p (c # r)) = StringCase_close (utf_string p) (pos p r)"
      using StringCase_close_skip [of "length (Tcl_UniCharToUtf c)" "utf_string p" "pos p (c # r)"] pos_step [OF Cons.prems] by simp
    then show ?thesis using Cons.IH [OF s] False by (subst UniChar_close.simps) (simp add: ended_def)
  qed
qed

lemma StringCase_star_wide:
  "uchars s \<Longrightarrow> \<forall>t. uchars t \<longrightarrow> match (utf_string t) = g t \<Longrightarrow>
     StringCase_star sc skip match (utf_string s) = UniChar_star True skip g s"
proof (induction s)
  case Nil
  then have "match (utf_string []) = g []" by (metis empty_iff empty_set)
  then show ?case by (subst StringCase_star.simps) simp
next
  case (Cons c s)
  then have "rd (utf_string (c # s)) 0 \<noteq> 0" using rd_utf_zero [of "c # s"] by simp
  moreover have "TclUtfToUniChar sc (utf_string (c # s)) = (c, length (Tcl_UniCharToUtf c))"
    using Cons.prems by (simp add: utfm.dec_enc)
  moreover have "match (utf_string (c # s)) = g (c # s)" using Cons.prems by blast
  ultimately show ?case using Cons by (subst StringCase_star.simps) simp
qed


lemma UniChar_set_suffix: "UniChar_set True fc ch p = Some q \<Longrightarrow> suffix q p"
proof (induction "length p" arbitrary: p rule: less_induct)
  case less
  then have e: "at p \<noteq> 93" "\<not> ended True p" using UniChar_set_end [of p] by auto
  then obtain c r where p: "p = c # r" by (cases p) auto
  show ?case
  proof (cases "at r = 45")
    case False
    then have "r = q \<or> UniChar_set True fc ch r = Some q"
      using UniChar_set_char [of c True r fc ch] e p less.prems by (simp split: if_splits)
    then show ?thesis using less.hyps [of r] p by (auto intro: suffix_ConsI)
  next
    case True
    then obtain r' where r: "r = 45 # r'" by (cases r) auto
    then have "tl r' = q \<or> UniChar_set True fc ch (tl r') = Some q"
      using UniChar_set_range [of c True r' fc ch] e p less.prems by (simp split: if_splits)
    moreover have "suffix (tl r') p" using p r by (auto intro: suffix_ConsI suffix_tl)
    moreover have "length (tl r') < length p" using p r by simp
    ultimately show ?thesis using less.hyps suffix_order.trans by blast
  qed
qed

definition utf8_place :: "(int \<Rightarrow> int) \<Rightarrow> bool \<Rightarrow> int list \<times> int list \<Rightarrow> bool" where
  "utf8_place lower nocase = (\<lambda>(p, r).
     uchars p \<and> suffix r p \<and> (p = [] \<or> 0 < last p \<and> last p < 128) \<and> (nocase \<longrightarrow> ascii_lower lower))"

definition utf8_run :: "bool \<Rightarrow> (int \<Rightarrow> int) \<Rightarrow> bool \<Rightarrow> int list \<times> int list \<Rightarrow> int list \<Rightarrow> bool option" where
  "utf8_run sc lower nocase = (\<lambda>(p, r) s. Some (StringCase_match sc lower nocase (utf_string p) (pos p r) (utf_string s)))"

text \<open>One turn of the routine at each kind of character.\<close>

lemma utf8_plain:
  assumes "uchars p" "suffix (d # r) p" "uchars (c # t)"
    and "i = pos p (d # r)" "i' = i \<or> rd (utf_string p) i' = 92 \<and> i = Suc i'"
    and "d \<notin> {42, 63, 91, 92} \<or> rd (utf_string p) i' = 92 \<and> i = Suc i'"
  shows "StringCase_match sc lower nocase (utf_string p) i' (utf_string (c # t)) =
    (fold_char lower nocase c = fold_char lower nocase d \<and>
     StringCase_match sc lower nocase (utf_string p) (pos p r) (utf_string t))"
proof -
  have ud: "uchars (d # r)" using suffix_uchars [OF assms(2,1)] .
  have nz: "rd (utf_string (c # t)) 0 \<noteq> 0" using rd_utf_zero [OF assms(3)] by simp
  have here: "rd (utf_string p) i = k \<longleftrightarrow> d = k" if "0 < k" "k < 128" for k
    using rd_pos_ascii [OF assms(1,2) that] assms(4) by simp
  have here0: "rd (utf_string p) i \<noteq> 0" using rd_pos_zero [OF assms(1,2)] assms(4) by simp
  have dec: "TclUtfToUniChar sc (drop i (utf_string p)) = (d, length (Tcl_UniCharToUtf d))"
    using drop_pos [OF assms(2)] assms(4) ud by (simp add: utfm.dec_enc)
  have decs: "TclUtfToUniChar sc (utf_string (c # t)) = (c, length (Tcl_UniCharToUtf c))"
    using assms(3) by (simp add: utfm.dec_enc)
  have p: "i + length (Tcl_UniCharToUtf d) = pos p r" using pos_step [OF assms(2)] assms(4) by simp
  from assms(5) show ?thesis
  proof
    assume "i' = i"
    moreover from this assms(6) have "d \<notin> {42, 63, 91, 92}" by auto
    ultimately show ?thesis
      using nz here0 here [of 42] here [of 63] here [of 91] here [of 92] dec decs p
      by (subst StringCase_match.simps) (simp add: Let_def fold_char_def)
  next
    assume "rd (utf_string p) i' = 92 \<and> i = Suc i'"
    then show ?thesis using nz here0 dec decs p
      by (subst StringCase_match.simps) (simp add: Let_def fold_char_def)
  qed
qed

lemma utf8_set:
  assumes "uchars p" "nocase \<longrightarrow> ascii_lower lower" "0 < last p" "last p < 128" "suffix (91 # r) p" "uchars (c # t)"
  shows "StringCase_match sc lower nocase (utf_string p) (pos p (91 # r)) (utf_string (c # t)) =
    (case in_set (fold_char lower nocase) (fold_char lower nocase c) r of None \<Rightarrow> False
     | Some q \<Rightarrow> StringCase_match sc lower nocase (utf_string p) (pos p q) (utf_string t))"
proof -
  have s: "suffix r p" "p \<noteq> []" using assms(5) suffix_ConsD by auto
  have h: "rd (utf_string p) (pos p (91 # r)) = 91" using rd_pos_ascii [OF assms(1,5), of 91] by simp
  have nz: "rd (utf_string (c # t)) 0 \<noteq> 0" using rd_utf_zero [OF assms(6)] by simp
  have ch: "StringCase_char lower nocase (utf_string (c # t)) = (fold_char lower nocase c, length (Tcl_UniCharToUtf c))"
    by (rule StringCase_char_utf) (use assms in auto)
  have step: "StringCase_match sc lower nocase (utf_string p) (pos p (91 # r)) (utf_string (c # t)) =
      (case UniChar_set True (fold_char lower nocase) (fold_char lower nocase c) r of None \<Rightarrow> False
       | Some q \<Rightarrow> StringCase_match sc lower nocase (utf_string p) (StringCase_close (utf_string p) (pos p q)) (utf_string t))"
    using h nz ch StringCase_set_utf [OF assms(1,2) s(1)] pos_step_ascii [OF assms(5)]
    by (subst StringCase_match.simps) (simp add: Let_def split: option.split)
  have i: "in_set (fold_char lower nocase) (fold_char lower nocase c) r =
      map_option (UniChar_close True) (UniChar_set True (fold_char lower nocase) (fold_char lower nocase c) r)"
    by (rule UniChar_set_in) (simp add: terminated_def)
  show ?thesis
  proof (cases "UniChar_set True (fold_char lower nocase) (fold_char lower nocase c) r")
    case (Some q)
    then have "suffix q p" using UniChar_set_suffix s(1) suffix_order.trans by blast
    then show ?thesis unfolding step i using Some StringCase_close_utf [OF assms(1) s(2) assms(3,4)] by simp
  next
    case None
    then show ?thesis unfolding step i by simp
  qed
qed

lemma utf8_any:
  assumes "uchars p" "suffix (63 # r) p" "uchars (c # t)"
  shows "StringCase_match sc lower nocase (utf_string p) (pos p (63 # r)) (utf_string (c # t)) =
    StringCase_match sc lower nocase (utf_string p) (pos p r) (utf_string t)"
proof -
  have "rd (utf_string p) (pos p (63 # r)) = 63" using rd_pos_ascii [OF assms(1,2), of 63] by simp
  moreover have "rd (utf_string (c # t)) 0 \<noteq> 0" using rd_utf_zero [OF assms(3)] by simp
  moreover have "TclUtfToUniChar sc (utf_string (c # t)) = (c, length (Tcl_UniCharToUtf c))"
    using assms(3) by (simp add: utfm.dec_enc)
  ultimately show ?thesis using pos_step_ascii [OF assms(2)]
    by (subst StringCase_match.simps) (simp add: Let_def)
qed

lemma utf8_stars:
  assumes "uchars p" "suffix (42 # r) p" "nocase \<longrightarrow> ascii_lower lower" "dropWhile (\<lambda>x. x = 42) r = q"
  shows "StringCase_match sc lower nocase (utf_string p) (pos p (42 # r)) s =
    (q = [] \<or> StringCase_star sc
       (\<lambda>x. hd q \<notin> {91, 63, 92} \<and> \<not> (fold_char lower nocase (hd q) = x \<or> nocase \<and> fold_char lower nocase (hd q) = lower x))
       (StringCase_match sc lower nocase (utf_string q) 0) s)"
proof -
  have s: "suffix r p" using assms(2) by (rule suffix_ConsD)
  have "suffix q r" unfolding assms(4) [symmetric] by (rule suffix_dropWhile)
  then have u: "uchars q" using suffix_uchars suffix_uchars [OF s assms(1)] by blast
  have h: "rd (utf_string p) (pos p (42 # r)) = 42" using rd_pos_ascii [OF assms(1,2), of 42] by simp
  have d: "dropWhile (\<lambda>c. c = CHR ''*'') (drop (Suc (pos p (42 # r))) (utf_string p)) = utf_string q"
    using drop_pos [OF s] pos_step_ascii [OF assms(2)] dropWhile_utf [of r] suffix_uchars [OF s assms(1)] assms(4) by simp
  show ?thesis
  proof (cases q)
    case Nil
    then show ?thesis using h d by (subst StringCase_match.simps) (simp add: Let_def del: dropWhile_eq_Nil_conv)
  next
    case (Cons x q')
    have "fst (StringCase_char lower nocase (utf_string q)) = fold_char lower nocase x"
      using StringCase_char_utf [of x nocase lower q'] u assms(3) Cons by simp
    moreover have "rd (utf_string q) 0 \<noteq> 0" using rd_utf_zero [OF u] Cons by simp
    moreover have "rd (utf_string q) 0 = k \<longleftrightarrow> x = k" if "0 < k" "k < 128" for k
      using rd_utf_ascii [OF u that] Cons by simp
    ultimately have "StringCase_match sc lower nocase (utf_string p) (pos p (42 # r)) s = StringCase_star sc
       (\<lambda>y. x \<noteq> 91 \<and> x \<noteq> 63 \<and> x \<noteq> 92 \<and> \<not> (fold_char lower nocase x = y \<or> nocase \<and> fold_char lower nocase x = lower y))
       (StringCase_match sc lower nocase (utf_string q) 0) s"
      using h d by (subst StringCase_match.simps) (simp add: Let_def)
    then show ?thesis using Cons by (simp add: conj_assoc)
  qed
qed

interpretation utf8: glob_matcher "utf8_run sc lower nocase" snd "\<lambda>s. s" "fold_char lower nocase"
  "utf8_place lower nocase" uchars for sc :: bool and lower :: "int \<Rightarrow> int" and nocase :: bool
proof (unfold_locales, goal_cases)
  case (1 pr s)
  obtain p where pr: "pr = (p, [])" using 1 by (cases pr) auto
  with 1 have "rd (utf_string p) (pos p []) = 0" using rd_pos [of "[]" p] by simp
  then have "StringCase_match sc lower nocase (utf_string p) (pos p []) (utf_string s) = (s = [])"
    using rd_utf_zero [OF 1(2)] by (subst StringCase_match.simps) (simp add: Let_def)
  then show ?case using pr by (simp add: utf8_run_def)
next
  case (2 pr s d r)
  obtain p where pr: "pr = (p, d # r)" using 2 by (cases pr) auto
  with 2 have s: "uchars p" "suffix (d # r) p" by (auto simp: utf8_place_def)
  have "rd (utf_string p) (pos p (d # r)) \<noteq> 0" "rd (utf_string p) (pos p (d # r)) \<noteq> 42"
    using rd_pos_zero [OF s] rd_pos_ascii [OF s, of 42] 2 by simp_all
  then have "\<not> StringCase_match sc lower nocase (utf_string p) (pos p (d # r)) (utf_string s)"
    using 2(5) by (subst StringCase_match.simps) (simp add: Let_def)
  then show ?case using pr by (simp add: utf8_run_def)
next
  case (3 pr s r c t)
  obtain p where pr: "pr = (p, 63 # r)" using 3 by (cases pr) auto
  with 3 have s: "uchars p" "suffix (63 # r) p" "suffix r p" using suffix_ConsD by (auto simp: utf8_place_def)
  have "uchars (c # t)" using 3 by simp
  from utf8_any [OF s(1,2) this] show ?case using 3 pr s
    by (intro exI [of _ "(p, r)"] exI [of _ t]) (simp add: utf8_place_def utf8_run_def)
next
  case (4 pr s r c t)
  obtain p where pr: "pr = (p, 91 # r)" using 4 by (cases pr) auto
  with 4 have s: "uchars p" "nocase \<longrightarrow> ascii_lower lower" "0 < last p" "last p < 128" "suffix (91 # r) p" "suffix r p"
    using suffix_ConsD by (auto simp: utf8_place_def)
  have u: "uchars (c # t)" using 4 by simp
  note step = utf8_set [OF s(1-5) u]
  show ?case
  proof (cases "in_set (fold_char lower nocase) (fold_char lower nocase c) r")
    case None
    then show ?thesis using step [of sc] 4 pr by (simp add: utf8_run_def)
  next
    case (Some q)
    then have "suffix q p" using in_set_suffix s(6) suffix_order.trans unfolding suffix_def by (metis append_assoc)
    then show ?thesis using step [of sc] 4 pr Some
      by (simp add: utf8_run_def utf8_place_def) (intro exI [of _ p] exI [of _ q] exI [of _ t]; simp)
  qed
next
  case (5 pr s c t)
  obtain p where pr: "pr = (p, [92])" using 5 by (cases pr) auto
  with 5 have s: "uchars p" "suffix [92] p" "suffix [] p" by (auto simp: utf8_place_def)
  have "rd (utf_string p) (pos p [92]) = 92" "rd (utf_string p) (pos p []) = 0"
    using rd_pos_ascii [OF s(1,2), of 92] rd_pos [OF s(3)] by simp_all
  moreover have "rd (utf_string s) 0 \<noteq> 0" using rd_utf_zero [of s] 5 by simp
  ultimately have "\<not> StringCase_match sc lower nocase (utf_string p) (pos p [92]) (utf_string s)"
    using pos_step_ascii [OF s(2)] by (subst StringCase_match.simps) (simp add: Let_def)
  then show ?case using pr by (simp add: utf8_run_def)
next
  case (6 pr s d r c t)
  obtain p r0 where pr: "pr = (p, r0)" by (cases pr)
  have u: "uchars (c # t)" using 6 by simp
  have p: "uchars p" "suffix r0 p" using 6(1) pr by (auto simp: utf8_place_def)
  have d: "suffix (d # r) p" using 6(3) p(2) pr suffix_ConsD by auto
  have step: "StringCase_match sc lower nocase (utf_string p) (pos p r0) (utf_string (c # t)) =
    (fold_char lower nocase c = fold_char lower nocase d \<and>
     StringCase_match sc lower nocase (utf_string p) (pos p r) (utf_string t))"
  proof (cases "r0 = 92 # d # r")
    case True
    show ?thesis
    proof (rule utf8_plain [OF p(1) d u refl])
      have "rd (utf_string p) (pos p r0) = 92" using rd_pos_ascii [OF p, of 92] True by simp
      moreover have "pos p (d # r) = Suc (pos p r0)" using pos_step_ascii [of 92 "d # r" p] p(2) True by simp
      ultimately show "pos p r0 = pos p (d # r) \<or> rd (utf_string p) (pos p r0) = 92 \<and> pos p (d # r) = Suc (pos p r0)"
        and "d \<notin> {42, 63, 91, 92} \<or> rd (utf_string p) (pos p r0) = 92 \<and> pos p (d # r) = Suc (pos p r0)" by simp_all
    qed
  next
    case False
    then have "r0 = d # r" "d \<notin> {42, 63, 91, 92}" using 6(3) pr by auto
    then show ?thesis using utf8_plain [OF p(1) d u refl, of "pos p r0"] by simp
  qed
  have "suffix r p" using d by (rule suffix_ConsD)
  then have "utf8_place lower nocase (p, r)" using 6(1) pr by (simp add: utf8_place_def)
  moreover have "utf8_run sc lower nocase pr s =
      (if fold_char lower nocase c = fold_char lower nocase d then utf8_run sc lower nocase (p, r) t else Some False)"
    using step 6(4) pr by (simp add: utf8_run_def)
  moreover have "uchars t" using u by simp
  ultimately show ?case by (simp only: split: if_split) (intro impI conjI exI [of _ "(p, r)"] exI [of _ t]; simp)
next
  case (7 pr s r)
  obtain p where pr: "pr = (p, 42 # r)" using 7 by (cases pr) auto
  with 7 have s: "uchars p" "suffix (42 # r) p" "nocase \<longrightarrow> ascii_lower lower" by (auto simp: utf8_place_def)
  from utf8_stars [OF s 7(4)] show ?case using pr by (simp add: utf8_run_def)
next
  case (8 pr s r d q)
  obtain p where pr: "pr = (p, 42 # r)" using 8 by (cases pr) auto
  with 8 have s: "uchars p" "suffix (42 # r) p" "nocase \<longrightarrow> ascii_lower lower" by (auto simp: utf8_place_def)
  have "suffix (d # q) r" using suffix_dropWhile [of "\<lambda>x. x = 42" r] 8(4) by simp
  then have dp: "suffix (d # q) p" using suffix_ConsD [OF s(2)] by (rule suffix_order.trans)
  define skip where "skip = (\<lambda>x. d \<notin> {91, 63, 92} \<and> \<not> (fold_char lower nocase d = x \<or> nocase \<and> fold_char lower nocase d = lower x))"
  have step: "StringCase_match sc lower nocase (utf_string p) (pos p (42 # r)) (utf_string s) =
      StringCase_star sc skip (StringCase_match sc lower nocase (utf_string (d # q)) 0) (utf_string s)"
    using utf8_stars [OF s 8(4)] by (simp add: skip_def)
  obtain pre where pre: "p = pre @ d # q" using dp by (auto simp: suffix_def)
  have "utf8_place lower nocase (pre @ d # q, 42 # r)" using 8(1) pr pre by simp
  then have place: "utf8_place lower nocase (d # q, d # q)" by (simp add: utf8_place_def)
  show ?case
  proof (intro exI [of _ "(d # q, d # q)"] conjI allI impI place)
    fix g :: "int list \<Rightarrow> bool"
    assume g: "\<forall>s'. uchars s' \<longrightarrow> utf8_run sc lower nocase (d # q, d # q) s' = Some (g s')"
      "\<forall>c t. g (c # t) \<longrightarrow> d \<in> {63, 91, 92} \<or> fold_char lower nocase c = fold_char lower nocase d"
    have "StringCase_star sc skip (StringCase_match sc lower nocase (utf_string (d # q)) 0) (utf_string s)
        = UniChar_star True skip g s"
      by (rule StringCase_star_wide) (use g(1) 8(2) in \<open>auto simp: utf8_run_def\<close>)
    also have "\<dots> \<longleftrightarrow> (\<exists>k\<le>length s. g (drop k s))"
      by (rule UniChar_star_suffix) (use g(2) in \<open>auto simp: terminated_def skip_def fold_char_def\<close>)
    finally show "utf8_run sc lower nocase pr s = Some (\<exists>k\<le>length s. g (drop k s))"
      using step pr by (simp add: utf8_run_def)
  qed simp
qed



section \<open>One routine for every representation\<close>

text \<open>
  \<open>TclStringMatchObj\<close> picks the routine by the type of the string: strings and values without a
  type are matched as wide characters, arrays of bytes as bytes unless case is ignored, and all
  others as UTF-8.  A value is its type and its characters; \<open>Tcl_GetUnicodeFromObj\<close> gives the
  characters, \<open>TclGetString\<close> their UTF-8 text, and \<open>Tcl_GetByteArrayFromObj\<close> the low eight bits of
  each, in a buffer whose further contents are the argument \<open>behind\<close>.
\<close>

datatype obj_type = tclStringType | no_type | pure_byte_array | other_type

record string_obj =
  objTypePtr :: obj_type
  chars :: "int list"

definition TclStringMatchObj ::
  "bool \<Rightarrow> (int \<Rightarrow> int) \<Rightarrow> int list \<Rightarrow> string_obj \<Rightarrow> string_obj \<Rightarrow> bool \<Rightarrow> bool option" where
  "TclStringMatchObj sc lower behind strObj ptnObj nocase =
     (if objTypePtr strObj = tclStringType \<or> objTypePtr strObj = no_type then
        Some (TclUniCharMatch lower (chars strObj) (chars ptnObj) nocase)
      else if objTypePtr strObj = pure_byte_array \<and> \<not> nocase then
        TclByteArrayMatch (map (\<lambda>c. c mod 256) (chars strObj))
          (map (\<lambda>c. c mod 256) (chars ptnObj) @ behind) (length (chars ptnObj))
      else Some (Tcl_StringCaseMatch sc lower (utf_of (chars strObj)) (utf_of (chars ptnObj)) nocase))"


section \<open>What the routines promise\<close>

lemma wide_glob:
  "terminated counted p \<Longrightarrow> terminated counted s \<Longrightarrow> nocase \<longrightarrow> ascii_lower lower \<Longrightarrow>
     UniChar_match counted lower nocase p s \<longleftrightarrow> glob (fold_char lower nocase) p s"
  using wide.run_glob [where counted = counted and nocase = nocase and lower = lower and p = p and s = s] by simp

lemma bytes_glob:
  "harmless (p @ behind) (length p) \<Longrightarrow> TclByteArrayMatch s (p @ behind) (length p) = Some (glob (\<lambda>c. c) p s)"
  using bytes.run_glob [where p = 0 and e = "length p" and m = "p @ behind" and s = s] by (simp add: TclByteArrayMatch_def)

lemma utf8_glob:
  "uchars p \<Longrightarrow> uchars s \<Longrightarrow> p = [] \<or> 0 < last p \<and> last p < 128 \<Longrightarrow> nocase \<longrightarrow> ascii_lower lower \<Longrightarrow>
     Tcl_StringCaseMatch sc lower (utf_of s) (utf_of p) nocase \<longleftrightarrow> glob (fold_char lower nocase) p s"
  using utf8.run_glob [where lower = lower and nocase = nocase and p = "(p, p)" and s = s and sc = sc]
  by (simp add: utf8_place_def utf8_run_def Tcl_StringCaseMatch_def)

text \<open>
  C17. Under the conditions of its representation each of the four routines returns and decides the
  matching relation: for counted wide characters always, for wide characters that end with a NUL
  if there is no NUL among them, for bytes if the byte behind the pattern exists and is neither a
  close bracket nor a dash, and for UTF-8 if the text encodes 16-bit characters and the last
  character of the pattern is in ASCII.  When case is ignored, the mapping to lower case must keep
  the special characters.
\<close>

theorem matching_routines:
  fixes p s b :: "int list"
  assumes "nocase \<longrightarrow> ascii_lower lower"
  shows "(TclUniCharMatch lower s p nocase \<longleftrightarrow> glob (fold_char lower nocase) p s)
    \<and> (0 \<notin> set p \<union> set s \<longrightarrow> (Tcl_UniCharCaseMatch lower s p nocase \<longleftrightarrow> glob (fold_char lower nocase) p s))
    \<and> (b \<noteq> [] \<and> hd b \<notin> {45, 93} \<longrightarrow> TclByteArrayMatch s (p @ b) (length p) = Some (glob (\<lambda>c. c) p s))
    \<and> (uchars p \<and> uchars s \<and> (p = [] \<or> 0 < last p \<and> last p < 128) \<longrightarrow>
        (Tcl_StringCaseMatch sc lower (utf_of s) (utf_of p) nocase \<longleftrightarrow> glob (fold_char lower nocase) p s))"
proof -
  have "TclUniCharMatch lower s p nocase \<longleftrightarrow> glob (fold_char lower nocase) p s"
    using wide_glob [of True p s nocase lower] assms by (simp add: TclUniCharMatch_def terminated_def)
  moreover have "Tcl_UniCharCaseMatch lower s p nocase \<longleftrightarrow> glob (fold_char lower nocase) p s" if "0 \<notin> set p \<union> set s"
    using wide_glob [of False p s nocase lower] assms that by (simp add: Tcl_UniCharCaseMatch_def terminated_def)
  moreover have "TclByteArrayMatch s (p @ b) (length p) = Some (glob (\<lambda>c. c) p s)" if "b \<noteq> [] \<and> hd b \<notin> {45, 93}"
    using that by (intro bytes_glob) (cases b; simp add: harmless_def)
  ultimately show ?thesis using utf8_glob [of p s nocase lower sc] assms by blast
qed

theorem matching_routines_witness:
  "(TclUniCharMatch tolower [65, 66] [97, 42] True \<longleftrightarrow> glob (fold_char tolower True) [97, 42] [65, 66])
    \<and> TclByteArrayMatch [65, 66] ([97, 42] @ [0]) (length [97, 42 :: int]) = Some (glob (\<lambda>c. c) [97, 42] [65, 66])
    \<and> (Tcl_StringCaseMatch True tolower (utf_of [65, 66]) (utf_of [97, 42]) True
        \<longleftrightarrow> glob (fold_char tolower True) [97, 42] [65, 66])"
proof -
  have "True \<longrightarrow> ascii_lower tolower" by (simp add: ascii_lower_def)
  from matching_routines [OF this, of "[65, 66]" "[97, 42]" "[0]" True] show ?thesis by simp
qed

text \<open>
  C18. Within the conditions of the routine that it picks, the result of \<open>TclStringMatchObj\<close> does not
  depend on how the string is represented: it decides the matching relation on the characters.
  Values without a type and strings need no condition.  An array of bytes needs characters below 256
  and a byte behind the pattern that is neither a close bracket nor a dash; a value of another type,
  or an array of bytes when case is ignored, needs 16-bit characters and a pattern that ends in ASCII.
\<close>

theorem string_match_representation:
  assumes "nocase \<longrightarrow> ascii_lower lower"
    and "objTypePtr strObj = pure_byte_array \<Longrightarrow> \<not> nocase \<Longrightarrow>
      (\<forall>c\<in>set (chars strObj) \<union> set (chars ptnObj). 0 \<le> c \<and> c < 256) \<and> behind \<noteq> [] \<and> hd behind \<notin> {45, 93}"
    and "objTypePtr strObj = other_type \<or> objTypePtr strObj = pure_byte_array \<and> nocase \<Longrightarrow>
      (\<forall>c\<in>set (chars strObj) \<union> set (chars ptnObj). 0 \<le> c \<and> c < 65536)
      \<and> (chars ptnObj = [] \<or> 0 < last (chars ptnObj) \<and> last (chars ptnObj) < 128)"
  shows "TclStringMatchObj sc lower behind strObj ptnObj nocase =
    Some (glob (fold_char lower nocase) (chars ptnObj) (chars strObj))"
proof -
  let ?p = "chars ptnObj" and ?s = "chars strObj"
  have f: "fold_char lower False = (\<lambda>c. c)" by (simp add: fold_char_def fun_eq_iff)
  consider (wide) "objTypePtr strObj = tclStringType \<or> objTypePtr strObj = no_type"
    | (bytes) "objTypePtr strObj = pure_byte_array" "\<not> nocase"
    | (utf8) "objTypePtr strObj = other_type \<or> objTypePtr strObj = pure_byte_array \<and> nocase"
    by (cases "objTypePtr strObj") auto
  then show ?thesis
  proof cases
    case wide
    then show ?thesis using wide_glob [of True ?p ?s nocase lower] assms(1)
      by (auto simp: TclStringMatchObj_def TclUniCharMatch_def terminated_def)
  next
    case bytes
    have "harmless (?p @ behind) (length ?p)"
      using assms(2) [OF bytes] by (cases behind) (simp_all add: harmless_def)
    moreover have "map (\<lambda>c. c mod 256) ?s = ?s" "map (\<lambda>c. c mod 256) ?p = ?p"
      using assms(2) [OF bytes] by (auto intro!: map_idI)
    ultimately show ?thesis using bytes bytes_glob [of ?p behind ?s] f by (simp add: TclStringMatchObj_def)
  next
    case utf8
    note a = assms(3) [OF utf8]
    have "uchar c" if "c \<in> set ?s \<union> set ?p" for c using bspec [OF conjunct1 [OF a] that] by simp
    then have "uchars ?p" "uchars ?s" "?p = [] \<or> 0 < last ?p \<and> last ?p < 128" using conjunct2 [OF a] by auto
    then show ?thesis using utf8 utf8_glob [of ?p ?s nocase lower sc] assms(1) by (auto simp: TclStringMatchObj_def)
  qed
qed

theorem string_match_representation_witness:
  "TclStringMatchObj True tolower [0] \<lparr>objTypePtr = pure_byte_array, chars = [200, 65]\<rparr>
     \<lparr>objTypePtr = no_type, chars = [63, 65]\<rparr> False = Some (glob (fold_char tolower False) [63, 65] [200, 65])"
  using string_match_representation [where strObj = "\<lparr>objTypePtr = pure_byte_array, chars = [200, 65]\<rparr>"
      and ptnObj = "\<lparr>objTypePtr = no_type, chars = [63, 65]\<rparr>" and nocase = False and lower = tolower and behind = "[0]" and sc = True]
  by simp

section \<open>Where the routines disagree\<close>









end
