(* ===== verification/Spec2Isabelle.thy ===== *)
theory Spec2Isabelle
  imports HashTbl AfterCommand ScriptList Glob
begin

text \<open>
  A verification library for the C program of AMESTER, the tool that records sensor readings of
  OpenPOWER servers.

  \<^bold>\<open>The program.\<close>  AMESTER itself is written in Tcl and Itcl (\<open>src/*.tcl\<close>).  The C program that is
  built from this repository is the interpreter that runs these scripts: a single-file executable
  with Tcl 8.6.5, Tk and extension packages, whose sources are under \<open>src/package/kbs/sources\<close>.
  The library models the core of the Tcl runtime, the directory \<open>tcl8.6/generic\<close> there, from the
  bytes of a string up to the evaluation of a script and the event loop that drives the program:

    \<^item> text is stored in UTF-8 (\<open>tclUtf.c\<close>); the routines of the list format (\<open>tclUtil.c\<close>) and of the
      parser (\<open>tclParse.c\<close>) work on its bytes and share the character classes, white space and
      backslash sequences of the parser;
    \<^item> list objects (\<open>tclListObj.c\<close>) use the list format to convert between strings and elements;
    \<^item> the parser turns a script into tokens, from which the evaluator (\<open>TclSubstTokens\<close> of
      \<open>tclParse.c\<close> and \<open>TclEvalEx\<close> of \<open>tclBasic.c\<close>) computes words and runs commands; words with the
      prefix \<open>{*}\<close> are expanded with the list routines;
    \<^item> names of commands, variables and channels are kept in hash tables (\<open>tclHash.c\<close>);
    \<^item> the agents of AMESTER are served by the event loop (\<open>tclNotify.c\<close>): event sources queue events
      and \<open>Tcl_DoOneEvent\<close> runs their handlers, among them timers and idle handlers
      (\<open>tclTimer.c\<close>), which the \<open>after\<close> command uses to run the scripts that poll the servers.

  \<^bold>\<open>Conventions.\<close>  A string is the list of its bytes; reading at or past its end gives NUL
  (\<open>chr_at\<close>, \<open>rd\<close> of \<open>Prelude\<close>), which is the terminator of a C string.  A pointer into a text is
  an offset or the rest of the list, and a counted buffer is a list with a number of bytes.
  Sizes that the code keeps in an \<open>int\<close> and checks for overflow are integers passed through
  \<open>int32\<close>, the hash values are 32-bit words, and differences of times in milliseconds pass through
  \<open>int64\<close>.  The room that the conversions of \<open>Utf\<close> reserve is computed with the overflow of the code,
  and the block of \<open>Tcl_SplitList\<close> with the truncation of its size to 32 bits; counts of words and
  elements are natural numbers, which is exact for text of at most \<open>INT_MAX\<close> bytes, the most that a
  Tcl string can have.  A panic is \<open>None\<close> or a status of its own, an error
  is the left side of a sum with its message and error code.  Text that C code allocates and fills
  is returned; where the size of the block matters it is returned with the text.

  \<^bold>\<open>The theories.\<close>

    \<^item> \<open>Prelude\<close>: bytes, 32-bit integers, the result type, lemmas on lists and words.
    \<^item> \<open>Utf\<close> (\<open>tclUtf.c\<close>, the macro of \<open>tclInt.h\<close>): conversion between UTF-8 and 16-bit characters,
      counting, searching, indexing, stepping, comparison.  Shown: round trips, agreement of all
      position functions with the list of characters, bounds on arbitrary bytes, and where the
      macro differs from the function.
    \<^item> \<open>Backslash\<close> (\<open>tclParse.c\<close>): character classes, \<open>ParseWhiteSpace\<close>, \<open>TclParseHex\<close>,
      \<open>TclParseBackslash\<close>.  Shown: bounds, independence of the bytes behind the limit, values.
    \<^item> \<open>ListFmt\<close> (\<open>tclUtil.c\<close>): \<open>TclFindElement\<close>, \<open>TclCopyAndCollapse\<close>, \<open>Tcl_SplitList\<close>,
      \<open>TclScanElement\<close>, \<open>TclConvertElement\<close>, \<open>Tcl_Merge\<close>, \<open>TclMaxListLength\<close>.  The locale
      \<open>element_format\<close> states what a formatter and a reader of elements promise and proves that
      joined lists are read back; it is interpreted on \<open>Tcl_Merge\<close> here and on list objects in
      \<open>ListObj\<close>.  Shown: round trips, sizes of all buffers, safety on malformed text, and from which
      size on the block of \<open>Tcl_SplitList\<close> is too small.
    \<^item> \<open>ListObj\<close> (\<open>tclListObj.c\<close>): \<open>SetListFromAny\<close> and \<open>UpdateStringOfList\<close>.
    \<^item> \<open>Parser\<close> and \<open>ParserSafe\<close> (\<open>tclParse.c\<close>): comments, variable names, braces, quotes, words and
      commands with their tokens, \<open>Tcl_CommandComplete\<close>; the second theory proves the bounds of
      every routine, that parsing ends without panic, and the shape of the tokens, for text whose
      count does not end in front of a quote, and what happens there.
    \<^item> \<open>Subst\<close> and \<open>Eval\<close> (\<open>tclParse.c\<close>, \<open>tclCompile.c\<close>, \<open>tclBasic.c\<close>): \<open>TclSubstTokens\<close>,
      \<open>Tcl_ParseVar\<close>, \<open>TclWordKnownAtCompileTime\<close> and \<open>TclEvalEx\<close> over a record of operations of the
      interpreter.  Shown: evaluation ends with a code, expansion of words, agreement of compile
      time and run time values.
    \<^item> \<open>ScriptList\<close>: lists as scripts, \<open>Tcl_Merge\<close> followed by \<open>TclEvalEx\<close>.  Shown: the list of
      some strings is one command with these words.
    \<^item> \<open>Glob\<close> (\<open>tclUtil.c\<close>, \<open>tclUtf.c\<close>): the string matching routines for the representations of a
      string.  The locale \<open>glob_matcher\<close> states what a routine does at each kind of pattern
      character and proves that it decides the matching relation \<open>glob\<close>; it is interpreted on the
      wide character, byte and UTF-8 routines.  Shown: they decide the relation, the result of
      \<open>TclStringMatchObj\<close> is independent of the representation, and where it is not.
    \<^item> \<open>HashTbl\<close> (\<open>tclHash.c\<close>): tables with their buckets as explicit lists, for the four kinds of
      keys.  The locale of maps is interpreted on them.  Shown: refinement of a map over creation and
      growth, the invariant of every reachable table, complete searches, bucket indices.  Following
      the next entry of a search when it has been deleted is \<open>None\<close>.
    \<^item> \<open>Notify\<close> (\<open>tclNotify.c\<close>): the queues as linked cells in a store, event sources, notifiers of
      all threads, \<open>Tcl_DoOneEvent\<close>.  Shown: the shape of the queues in all interleavings of the
      operations on them, the finalising of notifiers without marker events included; the order of
      events; what is unlinked and freed after a handler, whatever it did to the queue; that each
      pending event is given to its procedure; and the marker that finalising leaves behind.
    \<^item> \<open>Timer\<close> (\<open>tclTimer.c\<close>): timers, their event source and idle handlers, in the state of
      \<open>Notify\<close>.  The locale \<open>generation_loop\<close> has the argument why a pass over handlers that create
      handlers ends; it is interpreted on the loops over timers and idle handlers.  Shown: the order
      of the timers, which timers a pass calls, that passes end, the time the notifier may wait,
      and that \<open>Tcl_DoOneEvent\<close> calls each timer that is due, in order.  Passes end as long as the
      identifiers of timers do not wrap, which is stated as a budget for each call.
    \<^item> \<open>Index\<close> (\<open>tclIndexObj.c\<close>): the lookup of option and subcommand names in a table, with the index
      that an object keeps.  Shown: which entry a name selects, and what the kept index changes.
    \<^item> \<open>After\<close>, \<open>AfterSafe\<close> and \<open>AfterCommand\<close> (\<open>tclTimer.c\<close>): the \<open>after\<close> command.  Its events are
      cells of a store, linked into the chain of their interpreter, whose addresses are the data
      of timers and idle handlers of \<open>Timer\<close>.  The second theory proves that chains and handlers
      agree after each operation, the third interprets \<open>generation_loop\<close> again, on the loops with
      \<open>AfterProc\<close> installed.  Shown: no freed cell is used by the command (the blocking form
      aside), by passes that run scripts and by the deletion of an interpreter, while \<open>afterId\<close> and
      \<open>lastTimerId\<close> do not wrap; identifiers; the blocking delay, and where its times overflow.

  \<^bold>\<open>Bounds and fuel.\<close>  Loops over text recurse on the bytes left, with a termination proof.  Fuel
  is used where the recursion is mutual or goes through a parameter: the loops of the parser have
  three units for each byte and three more, and \<open>parse_command_safe\<close> proves that this is enough;
  \<open>Tcl_CommandComplete\<close> has one for each byte and one more (\<open>command_complete_ends\<close>); the nesting
  of commands in \<open>TclEvalEx\<close> is bounded by the length of the script and each level has a turn for
  each byte (\<open>eval_ends\<close>); the event loop takes its number of rounds as an argument, and the
  theorems on it say how many are enough.

  \<^bold>\<open>Not modelled.\<close>  Sharing and reference counts of objects, line numbers (TIP 280), error
  traces and the clearing of \<open>evalFlags\<close> in the evaluator; the bytecode compiler and engine, variables, namespaces and the
  commands; dictionaries; channels and the platform layer, which are system calls; the generated
  Unicode tables, which are a parameter of the comparison and matching routines; the vendored libraries (zlib,
  OpenSSL, SQLite, libtommath), Tk and the extension packages.  Also
  not modelled: the operations of list objects on shared values, dynamic strings.
\<close>

end
